(* ===== verification/Gateway_Prelude.thy ===== *)
theory Gateway_Prelude
  imports Main "HOL-Library.AList" "HOL-Library.Sublist"
begin

text \<open>
  Shared vocabulary of the development: instants and durations of Go's package time, the
  functions of package strings that the components call, and maps with a range order.

  \<^item> An instant is the number of nanoseconds since 1970-01-01 UTC, an unbounded
    \<open>int\<close>. Go's zero Time is the first instant of year 1. A duration is an
    \<open>int\<close>; Sub saturates at the ends of the 64 bit range, as in Go.
  \<^item> A Go string is a sequence of bytes, here a \<open>string\<close>.
  \<^item> A Go map is an association list with distinct keys. The order of the list stands
    for the order in which a range statement visits the map, which Go leaves open; theorems
    that hold for every list hold for every visiting order. The length of the list is the
    number of entries.
\<close>

named_theorems wf_intros \<open>preservation lemmas of well-formedness invariants\<close>
named_theorems amap_simps \<open>lookup, keys and size of updated maps\<close>

section \<open>Time\<close>

type_synonym instant = int
type_synonym duration = int

definition second :: duration where "second = 1000000000"
definition millisecond :: duration where "millisecond = 1000000"
definition minute :: duration where "minute = 60 * second"
definition hour :: duration where "hour = 60 * minute"

lemmas duration_units = second_def millisecond_def minute_def hour_def

definition max_int64 :: int where "max_int64 = 9223372036854775807"
definition min_int64 :: int where "min_int64 = - 9223372036854775808"

definition zero_time :: instant where
  "zero_time = - 62135596800 * 1000000000"

text \<open>The two's complement value of an int64 product or sum that may overflow.\<close>

definition wrap64 :: "int \<Rightarrow> int" where
  "wrap64 x = (x + 9223372036854775808) mod 18446744073709551616 - 9223372036854775808"

lemma wrap64_id: "min_int64 \<le> x \<Longrightarrow> x \<le> max_int64 \<Longrightarrow> wrap64 x = x"
  by (simp add: wrap64_def min_int64_def max_int64_def)

text \<open>The difference of two instants, saturated to the range of time.Duration.\<close>

definition time_sub :: "instant \<Rightarrow> instant \<Rightarrow> duration" where
  "time_sub t u = max min_int64 (min max_int64 (t - u))"

lemma time_sub_less: "min_int64 < d \<Longrightarrow> d \<le> max_int64 \<Longrightarrow> time_sub t u < d \<longleftrightarrow> t - u < d"
  by (auto simp: time_sub_def min_int64_def max_int64_def)

lemma less_time_sub: "min_int64 \<le> d \<Longrightarrow> d < max_int64 \<Longrightarrow> d < time_sub t u \<longleftrightarrow> d < t - u"
  by (auto simp: time_sub_def min_int64_def max_int64_def)

lemma time_sub_nonneg: "0 \<le> time_sub t u \<longleftrightarrow> u \<le> t"
  by (auto simp: time_sub_def min_int64_def max_int64_def)

lemma time_sub_pos: "0 < time_sub t u \<longleftrightarrow> u < t"
  by (auto simp: time_sub_def min_int64_def max_int64_def)

lemma time_sub_le: "u \<le> t \<Longrightarrow> time_sub t u \<le> t - u"
  by (auto simp: time_sub_def min_int64_def max_int64_def)

lemma time_sub_exact:
  "min_int64 \<le> t - u \<Longrightarrow> t - u \<le> max_int64 \<Longrightarrow> time_sub t u = t - u"
  by (simp add: time_sub_def)

section \<open>Strings\<close>

text \<open>
  The UTF-8 encodings of the white space runes of package unicode, which TrimSpace
  removes at both ends.
\<close>

definition byte :: "nat \<Rightarrow> char" where "byte n = char_of n"

definition go_spaces :: "string list" where
  "go_spaces =
     map (map byte)
      ([[9], [10], [11], [12], [13], [32], [194, 133], [194, 160], [225, 154, 128]]
       @ map (\<lambda>n. [226, 128, n]) [128, 129, 130, 131, 132, 133, 134, 135, 136, 137, 138]
       @ [[226, 128, 168], [226, 128, 169], [226, 128, 175], [226, 129, 159], [227, 128, 128]])"

lemma find_strip_shorter:
  assumes "find (\<lambda>p. p \<noteq> [] \<and> take (length p) s = p) ps = Some p"
  shows "length (drop (length p) s) < length s"
proof -
  from assms have "p \<noteq> []" and "take (length p) s = p"
    by (auto simp: find_Some_iff)
  then have "s \<noteq> []" by auto
  with \<open>p \<noteq> []\<close> show ?thesis by simp
qed

function strip_front :: "string list \<Rightarrow> string \<Rightarrow> string" where
  "strip_front ps s =
     (case find (\<lambda>p. p \<noteq> [] \<and> take (length p) s = p) ps of
        None \<Rightarrow> s
      | Some p \<Rightarrow> strip_front ps (drop (length p) s))"
  by pat_completeness auto

termination
  by (relation "measure (\<lambda>(ps, s). length s)") (auto dest: find_strip_shorter)

declare strip_front.simps [simp del]

definition trim_space :: "string \<Rightarrow> string" where
  "trim_space s =
     rev (strip_front (map rev go_spaces) (rev (strip_front go_spaces s)))"

lemma strip_front_suffix: "suffix (strip_front ps s) s"
proof (induction ps s rule: strip_front.induct)
  case (1 ps s)
  show ?case
  proof (cases "find (\<lambda>p. p \<noteq> [] \<and> take (length p) s = p) ps")
    case None
    then show ?thesis by (simp add: strip_front.simps [of ps s])
  next
    case (Some p)
    with 1 [of p] have "suffix (strip_front ps (drop (length p) s)) (drop (length p) s)"
      by simp
    then have "suffix (strip_front ps (drop (length p) s)) s"
      by (meson suffix_drop suffix_order.trans)
    with Some show ?thesis by (simp add: strip_front.simps [of ps s])
  qed
qed

lemma strip_front_idem: "strip_front ps (strip_front ps s) = strip_front ps s"
proof (induction ps s rule: strip_front.induct)
  case (1 ps s)
  show ?case
  proof (cases "find (\<lambda>p. p \<noteq> [] \<and> take (length p) s = p) ps")
    case None
    then have "strip_front ps s = s" by (simp add: strip_front.simps [of ps s])
    then show ?thesis by simp
  next
    case (Some p)
    with 1 [of p] show ?thesis by (simp add: strip_front.simps [of ps s])
  qed
qed

lemma strip_front_Nil [simp]: "strip_front ps [] = []"
  using strip_front_suffix [of ps "[]"] by simp

lemma trim_space_Nil [simp]: "trim_space [] = []"
  by (simp add: trim_space_def)

lemma length_trim_space: "length (trim_space s) \<le> length s"
proof -
  have "length (trim_space s) \<le> length (strip_front go_spaces s)"
    using suffix_length_le [OF strip_front_suffix]
    unfolding trim_space_def by (metis length_rev)
  also have "\<dots> \<le> length s" by (rule suffix_length_le [OF strip_front_suffix])
  finally show ?thesis .
qed

text \<open>
  ToLower, for comparison with ASCII text: ASCII capitals, and the two other runes whose
  lower case is an ASCII letter (the Kelvin sign and the capital I with a dot above). Every
  other rune keeps its bytes; its lower case is not ASCII either, so no comparison with an
  ASCII literal, prefix or separator can tell the difference.
\<close>

definition lower_byte :: "char \<Rightarrow> char" where
  "lower_byte c = (if 65 \<le> (of_char c :: nat) \<and> (of_char c :: nat) \<le> 90
                   then byte (of_char c + 32) else c)"

fun to_lower :: "string \<Rightarrow> string" where
  "to_lower [] = []"
| "to_lower (c # s) =
     (if c = byte 226 \<and> take 2 s = [byte 132, byte 170] then CHR ''k'' # to_lower (drop 2 s)
      else if c = byte 196 \<and> take 1 s = [byte 176] then CHR ''i'' # to_lower (drop 1 s)
      else lower_byte c # to_lower s)"

definition has_prefix :: "string \<Rightarrow> string \<Rightarrow> bool" where
  "has_prefix s p \<longleftrightarrow> take (length p) s = p"

definition trim_prefix :: "string \<Rightarrow> string \<Rightarrow> string" where
  "trim_prefix s p = (if has_prefix s p then drop (length p) s else s)"

lemma has_prefix_iff: "has_prefix s p \<longleftrightarrow> prefix p s"
  unfolding has_prefix_def by (metis prefix_def append_eq_conv_conj take_is_prefix)

lemma strip_front_stop: "find (\<lambda>p. p \<noteq> [] \<and> take (length p) (strip_front ps s) = p) ps = None"
proof (induction ps s rule: strip_front.induct)
  case (1 ps s)
  show ?case
  proof (cases "find (\<lambda>p. p \<noteq> [] \<and> take (length p) s = p) ps")
    case None
    then show ?thesis by (simp add: strip_front.simps [of ps s])
  next
    case (Some p)
    with 1 [of p] show ?thesis by (simp add: strip_front.simps [of ps s])
  qed
qed

text \<open>A prefix of a string that has nothing to strip has nothing to strip.\<close>

lemma strip_front_prefix:
  assumes "prefix t (strip_front ps s)"
  shows "strip_front ps t = t"
proof -
  have "\<not> (p \<noteq> [] \<and> take (length p) t = p)" if "p \<in> set ps" for p
  proof
    assume p: "p \<noteq> [] \<and> take (length p) t = p"
    then have "prefix p t" by (metis take_is_prefix)
    then have "prefix p (strip_front ps s)" using assms by (rule prefix_order.trans)
    then have "take (length p) (strip_front ps s) = p" by (auto simp: prefix_def)
    with p that strip_front_stop [of ps s] show False by (auto simp: find_None_iff)
  qed
  then have "find (\<lambda>p. p \<noteq> [] \<and> take (length p) t = p) ps = None" by (auto simp: find_None_iff)
  then show ?thesis by (simp add: strip_front.simps [of ps t])
qed

lemma trim_space_idem: "trim_space (trim_space s) = trim_space s"
proof -
  let ?a = "strip_front go_spaces s"
  let ?b = "strip_front (map rev go_spaces) (rev ?a)"
  have "suffix ?b (rev ?a)" by (rule strip_front_suffix)
  then have "prefix (rev ?b) ?a" by (simp add: suffix_to_prefix)
  then have "strip_front go_spaces (rev ?b) = rev ?b" by (rule strip_front_prefix)
  then show ?thesis by (simp add: trim_space_def strip_front_idem)
qed

text \<open>Plain text, of visible ASCII characters, has nothing to trim.\<close>

definition plain_char :: "char \<Rightarrow> bool" where
  "plain_char c \<longleftrightarrow> 33 \<le> (of_char c :: nat) \<and> (of_char c :: nat) \<le> 126"

lemma go_spaces_not_plain: "p \<in> set go_spaces \<Longrightarrow> c \<in> set p \<Longrightarrow> \<not> plain_char c"
  by (auto simp: go_spaces_def byte_def plain_char_def)

lemma strip_front_plain:
  assumes "\<forall>p \<in> set ps. \<forall>c \<in> set p. \<not> plain_char c" and "list_all plain_char s"
  shows "strip_front ps s = s"
proof -
  have "\<not> (p \<noteq> [] \<and> take (length p) s = p)" if "p \<in> set ps" for p
  proof
    assume p: "p \<noteq> [] \<and> take (length p) s = p"
    then have "set p \<subseteq> set s" by (metis set_take_subset)
    with p assms that show False by (cases p) (auto simp: list_all_iff)
  qed
  then have "find (\<lambda>p. p \<noteq> [] \<and> take (length p) s = p) ps = None" by (auto simp: find_None_iff)
  then show ?thesis by (simp add: strip_front.simps [of ps s])
qed

lemma trim_space_plain: "list_all plain_char s \<Longrightarrow> trim_space s = s"
  using go_spaces_not_plain
  by (auto simp: trim_space_def strip_front_plain list_all_iff)

lemma strip_front_keeps_plain:
  assumes "\<forall>p \<in> set ps. \<forall>c \<in> set p. \<not> plain_char c" "c \<in> set s" "plain_char c"
  shows "c \<in> set (strip_front ps s)"
  using assms
proof (induction ps s rule: strip_front.induct)
  case (1 ps s)
  show ?case
  proof (cases "find (\<lambda>p. p \<noteq> [] \<and> take (length p) s = p) ps")
    case None
    then show ?thesis using 1 by (simp add: strip_front.simps[of ps s])
  next
    case (Some p)
    then have p: "p \<in> set ps" "take (length p) s = p" by (auto simp: find_Some_iff)
    then have "c \<notin> set (take (length p) s)" using 1(2,4) by auto
    then have "c \<in> set (drop (length p) s)"
      using 1(3) by (metis Un_iff append_take_drop_id set_append)
    from 1(1)[OF Some 1(2) this 1(4)] Some show ?thesis by (simp add: strip_front.simps[of ps s])
  qed
qed

lemma trim_space_not_Nil: "c \<in> set s \<Longrightarrow> plain_char c \<Longrightarrow> trim_space s \<noteq> []"
  using strip_front_keeps_plain[of "map rev go_spaces" c "rev (strip_front go_spaces s)"]
    strip_front_keeps_plain[of go_spaces c s] go_spaces_not_plain
  by (fastforce simp: trim_space_def)

definition lower_char :: "char \<Rightarrow> bool" where
  "lower_char c \<longleftrightarrow> (of_char c :: nat) < 128 \<and> \<not> (65 \<le> (of_char c :: nat) \<and> (of_char c :: nat) \<le> 90)"

lemma to_lower_plain: "list_all lower_char s \<Longrightarrow> to_lower s = s"
  by (induction s rule: to_lower.induct) (auto simp: lower_char_def lower_byte_def byte_def)

lemmas plain_text = trim_space_plain to_lower_plain plain_char_def lower_char_def

text \<open>The decimal text of an integer, as strconv and fmt print it.\<close>

fun decimal_nat :: "nat \<Rightarrow> string" where
  "decimal_nat n = (if n < 10 then [byte (48 + n)] else decimal_nat (n div 10) @ [byte (48 + n mod 10)])"

declare decimal_nat.simps [simp del]

definition decimal :: "int \<Rightarrow> string" where
  "decimal n = (if n < 0 then CHR ''-'' # decimal_nat (nat (- n)) else decimal_nat (nat n))"

text \<open>
  ToUpper, for comparison with ASCII text: ASCII small letters, and the two other runes
  whose upper case is an ASCII letter (the dotless i and the long s).
\<close>

definition upper_byte :: "char \<Rightarrow> char" where
  "upper_byte c = (if 97 \<le> (of_char c :: nat) \<and> (of_char c :: nat) \<le> 122
                   then byte (of_char c - 32) else c)"

fun to_upper :: "string \<Rightarrow> string" where
  "to_upper [] = []"
| "to_upper (c # s) =
     (if c = byte 196 \<and> take 1 s = [byte 177] then CHR ''I'' # to_upper (drop 1 s)
      else if c = byte 197 \<and> take 1 s = [byte 191] then CHR ''S'' # to_upper (drop 1 s)
      else upper_byte c # to_upper s)"

text \<open>Contains and TrimSuffix.\<close>

fun str_contains :: "string \<Rightarrow> string \<Rightarrow> bool" where
  "str_contains [] sub = (sub = [])"
| "str_contains (c # s) sub = (has_prefix (c # s) sub \<or> str_contains s sub)"

definition trim_suffix :: "string \<Rightarrow> string \<Rightarrow> string" where
  "trim_suffix s p = (if length p \<le> length s \<and> drop (length s - length p) s = p
                      then take (length s - length p) s else s)"

text \<open>ParseInt in base 10 for 64 bits: a sign, then digits only, in the range.\<close>

definition digit_value :: "char \<Rightarrow> int option" where
  "digit_value c = (if 48 \<le> (of_char c :: nat) \<and> (of_char c :: nat) \<le> 57
                    then Some (int (of_char c) - 48) else None)"

fun digits_value :: "int \<Rightarrow> string \<Rightarrow> int option" where
  "digits_value acc [] = Some acc"
| "digits_value acc (c # s) =
     (case digit_value c of None \<Rightarrow> None | Some d \<Rightarrow> digits_value (acc * 10 + d) s)"

definition parse_int64 :: "string \<Rightarrow> int option" where
  "parse_int64 s =
     (let neg = (take 1 s = ''-''); ds = (if take 1 s = ''-'' \<or> take 1 s = ''+'' then drop 1 s else s)
      in if ds = [] then None
         else case digits_value 0 ds of None \<Rightarrow> None
           | Some n \<Rightarrow> (let v = (if neg then - n else n)
                        in if min_int64 \<le> v \<and> v \<le> max_int64 then Some v else None))"

text \<open>ValidString of package unicode/utf8: whether a string is a sequence of encoded runes.\<close>

definition byte_in :: "nat \<Rightarrow> nat \<Rightarrow> char \<Rightarrow> bool" where
  "byte_in lo hi c \<longleftrightarrow> lo \<le> (of_char c :: nat) \<and> (of_char c :: nat) \<le> hi"

definition continuation :: "char \<Rightarrow> bool" where "continuation = byte_in 128 191"

fun valid_utf8 :: "string \<Rightarrow> bool" where
  "valid_utf8 [] = True"
| "valid_utf8 (a # s) =
     (if byte_in 0 127 a then valid_utf8 s
      else case s of
        [] \<Rightarrow> False
      | b # s2 \<Rightarrow>
          if byte_in 194 223 a then continuation b \<and> valid_utf8 s2
          else (case s2 of
            [] \<Rightarrow> False
          | c # s3 \<Rightarrow>
              if byte_in 224 239 a
              then byte_in (if of_char a = (224::nat) then 160 else 128)
                     (if of_char a = (237::nat) then 159 else 191) b \<and> continuation c \<and> valid_utf8 s3
              else (case s3 of
                [] \<Rightarrow> False
              | d # s4 \<Rightarrow>
                  byte_in 240 244 a \<and>
                  byte_in (if of_char a = (240::nat) then 144 else 128)
                    (if of_char a = (244::nat) then 143 else 191) b \<and>
                  continuation c \<and> continuation d \<and> valid_utf8 s4)))"

lemma digits_value_append:
  "digits_value acc (s @ [c]) =
     (case digits_value acc s of None \<Rightarrow> None
      | Some v \<Rightarrow> (case digit_value c of None \<Rightarrow> None | Some d \<Rightarrow> Some (v * 10 + d)))"
  by (induction s arbitrary: acc) (auto split: option.splits)

lemma digit_value_byte: "n < 10 \<Longrightarrow> digit_value (byte (48 + n)) = Some (int n)"
  by (simp add: digit_value_def byte_def)

lemma decimal_nat_value: "digits_value 0 (decimal_nat n) = Some (int n)"
proof (induction n rule: decimal_nat.induct)
  case (1 n)
  show ?case
  proof (cases "n < 10")
    case True
    then show ?thesis by (simp add: decimal_nat.simps [of n] digit_value_byte)
  next
    case False
    with 1 show ?thesis
      by (simp add: decimal_nat.simps [of n] digits_value_append digit_value_byte)
        (metis of_nat_add of_nat_mult of_nat_numeral div_mult_mod_eq)
  qed
qed

lemma decimal_nat_digits: "list_all (\<lambda>c. byte_in 48 57 c) (decimal_nat n) \<and> decimal_nat n \<noteq> []"
proof (induction n rule: decimal_nat.induct)
  case (1 n)
  then show ?case
    by (cases "n < 10") (auto simp: decimal_nat.simps [of n] byte_in_def byte_def)
qed

text \<open>The printed text of an integer of 64 bits parses to it.\<close>

lemma parse_decimal:
  assumes "0 \<le> n" and "n \<le> max_int64"
  shows "parse_int64 (decimal n) = Some n"
proof -
  let ?s = "decimal_nat (nat n)"
  have digits: "list_all (\<lambda>c. byte_in 48 57 c) ?s" "?s \<noteq> []"
    using decimal_nat_digits by auto
  then have "take 1 ?s \<noteq> ''-''" "take 1 ?s \<noteq> ''+''"
    by (cases ?s; auto simp: byte_in_def)+
  with assms digits show ?thesis
    by (simp add: parse_int64_def decimal_def decimal_nat_value min_int64_def)
qed

lemma decimal_plain: "0 \<le> n \<Longrightarrow> list_all plain_char (decimal n)"
  using decimal_nat_digits [of "nat n"]
  by (auto simp: decimal_def list_all_iff plain_char_def byte_in_def)

section \<open>Lists\<close>

lemma sum_lengths_update:
  "i < length xss \<Longrightarrow> (\<Sum>xs\<leftarrow>xss[i := ys]. int (length xs)) =
     (\<Sum>xs\<leftarrow>xss. int (length xs)) - int (length (xss ! i)) + int (length ys)"
  by (induction xss arbitrary: i) (auto split: nat.splits)

section \<open>Maps with a range order\<close>

type_synonym ('k, 'v) amap = "('k \<times> 'v) list"

abbreviation aget :: "('k, 'v) amap \<Rightarrow> 'k \<Rightarrow> 'v option" where "aget \<equiv> map_of"
abbreviation aput :: "'k \<Rightarrow> 'v \<Rightarrow> ('k, 'v) amap \<Rightarrow> ('k, 'v) amap" where "aput \<equiv> AList.update"
abbreviation adel :: "'k \<Rightarrow> ('k, 'v) amap \<Rightarrow> ('k, 'v) amap" where "adel \<equiv> AList.delete"
abbreviation akeys :: "('k, 'v) amap \<Rightarrow> 'k set" where "akeys m \<equiv> fst ` set m"
abbreviation adistinct :: "('k, 'v) amap \<Rightarrow> bool" where "adistinct m \<equiv> distinct (map fst m)"

lemma aget_aput [amap_simps]: "aget (aput k v m) k' = (if k' = k then Some v else aget m k')"
  by (simp add: update_conv')

lemma aget_adel [amap_simps]: "aget (adel k m) k' = (if k' = k then None else aget m k')"
  by (simp add: delete_conv')

lemma akeys_aput [amap_simps]: "akeys (aput k v m) = insert k (akeys m)"
  by (induction m) auto

lemma akeys_adel [amap_simps]: "akeys (adel k m) = akeys m - {k}"
  by (induction m) auto

lemma adistinct_aput [wf_intros]: "adistinct m \<Longrightarrow> adistinct (aput k v m)"
  by (rule distinct_update)

lemma set_aput: "p \<in> set (aput k v m) \<Longrightarrow> p = (k, v) \<or> p \<in> set m"
  by (induction m) (auto split: if_splits)

lemma card_dom_aget: "adistinct m \<Longrightarrow> card (dom (aget m)) = length m"
  using distinct_card[of "map fst m"] by (simp add: dom_map_of_conv_image_fst)

lemma adistinct_adel [wf_intros]: "adistinct m \<Longrightarrow> adistinct (adel k m)"
  by (rule distinct_delete)

lemma adistinct_filter [wf_intros]: "adistinct m \<Longrightarrow> adistinct (filter P m)"
  by (rule distinct_map_filter)

lemma aget_Some_akeys: "aget m k = Some v \<Longrightarrow> k \<in> akeys m"
  by (metis map_of_eq_None_iff option.distinct(1))

lemma aget_None_iff: "aget m k = None \<longleftrightarrow> k \<notin> akeys m"
  by (simp add: map_of_eq_None_iff)

lemma length_aput_old: "k \<in> akeys m \<Longrightarrow> length (aput k v m) = length m"
  by (induction m) auto

lemma length_aput_new: "k \<notin> akeys m \<Longrightarrow> length (aput k v m) = Suc (length m)"
  by (induction m) auto

lemma length_aput_le: "length (aput k v m) \<le> Suc (length m)"
  by (cases "k \<in> akeys m") (simp_all add: length_aput_old length_aput_new)

lemma length_adel_le: "length (adel k m) \<le> length m"
  by (rule length_delete_le)

lemma length_adel_old: "adistinct m \<Longrightarrow> k \<in> akeys m \<Longrightarrow> length (adel k m) = length m - 1"
proof (induction m)
  case (Cons p m)
  then have tail: "fst p \<notin> akeys m" by simp
  show ?case
  proof (cases "fst p = k")
    case True
    with tail have "adel k m = m" by (simp add: delete_idem)
    with True show ?thesis by simp
  next
    case False
    with Cons.prems have mem: "k \<in> akeys m" by auto
    with Cons have "length (adel k m) = length m - 1" by simp
    moreover from mem have "m \<noteq> []" by auto
    ultimately show ?thesis using False by simp
  qed
qed simp

lemma aget_filter:
  "adistinct m \<Longrightarrow> aget (filter P m) k =
     (case aget m k of None \<Rightarrow> None | Some v \<Rightarrow> if P (k, v) then Some v else None)"
proof (induction m)
  case (Cons p m)
  obtain a b where p: "p = (a, b)" by (cases p)
  with Cons.prems have "aget m a = None" and "adistinct m"
    by (simp_all add: map_of_eq_None_iff)
  with Cons.IH p show ?case by (auto split: option.splits)
qed simp


section \<open>Checked runs\<close>

text \<open>Runs a partial step over a list of events: None when an event is refused.\<close>

fun checked_run :: "('e \<Rightarrow> 's \<Rightarrow> 's option) \<Rightarrow> 'e list \<Rightarrow> 's \<Rightarrow> 's option" where
  "checked_run step [] s = Some s"
| "checked_run step (e # es) s = Option.bind (step e s) (checked_run step es)"

lemma checked_run_append: "checked_run step (a @ b) s = Option.bind (checked_run step a s) (checked_run step b)"
  by (induction a arbitrary: s) (auto simp: bind_assoc split: bind_splits)

section \<open>Calls that may fail\<close>

text \<open>
  What a call does when the connection misbehaves: it succeeds, it fails before the
  statement ran, or it fails after the statement took effect.
\<close>

datatype fault = Fine | Lost | LostAfter

fun call :: "fault \<Rightarrow> ('st \<Rightarrow> 'st \<times> 'r) \<Rightarrow> 'st \<Rightarrow> 'st \<times> 'r option" where
  "call Fine f st = (fst (f st), Some (snd (f st)))"
| "call Lost f st = (st, None)"
| "call LostAfter f st = (fst (f st), None)"

lemma call_state: "fst (call ft f st) = st \<or> fst (call ft f st) = fst (f st)"
  by (cases ft) simp_all

lemma call_Some: "snd (call ft f st) = Some r \<longleftrightarrow> ft = Fine \<and> r = snd (f st)"
  by (cases ft) auto

end
