(* ===== verification/Attempt_Guard.thy ===== *)
theory Attempt_Guard
  imports Gateway_Prelude
begin

text \<open>
  The contract shared by the counters that lock a client out after repeated failures: the
  login form of the OIDC provider and the limiter for invalid API keys. A provider offers
  one operation that records a failure and one test for being locked out; \<open>streak\<close> is
  the number of failures counted in the window live at an instant, \<open>deadline\<close> the end of
  the window into which a failure at that instant falls. The lemmas say what a client sees
  of a whole burst of failures.
\<close>

locale attempt_guard =
  fixes fail :: "'s \<Rightarrow> 'k \<Rightarrow> instant \<Rightarrow> 's"
    and blocked :: "'s \<Rightarrow> 'k \<Rightarrow> instant \<Rightarrow> bool"
    and streak :: "'s \<Rightarrow> 'k \<Rightarrow> instant \<Rightarrow> int"
    and deadline :: "'s \<Rightarrow> 'k \<Rightarrow> instant \<Rightarrow> instant"
    and ok :: "'s \<Rightarrow> 'k \<Rightarrow> instant \<Rightarrow> bool"
    and threshold :: "'s \<Rightarrow> int"
    and block :: "'s \<Rightarrow> duration"
  assumes keeps_settings: "ok s k t \<Longrightarrow>
      threshold (fail s k t) = threshold s \<and> block (fail s k t) = block s"
    and counts: "ok s k t \<Longrightarrow> \<not> blocked s k t \<Longrightarrow> streak s k t + 1 < threshold s \<Longrightarrow>
      t \<le> u \<Longrightarrow> u < deadline s k t \<Longrightarrow>
      ok (fail s k t) k u \<and> \<not> blocked (fail s k t) k u \<and>
      streak (fail s k t) k u = streak s k t + 1 \<and>
      deadline (fail s k t) k u = deadline s k t"
    and trips: "ok s k t \<Longrightarrow> \<not> blocked s k t \<Longrightarrow> threshold s \<le> streak s k t + 1 \<Longrightarrow>
      t \<le> u \<Longrightarrow> u < t + block s \<Longrightarrow> blocked (fail s k t) k u"
begin

abbreviation fails :: "'s \<Rightarrow> 'k \<Rightarrow> instant list \<Rightarrow> 's" where
  "fails s k ts \<equiv> foldl (\<lambda>s t. fail s k t) s ts"

text \<open>Fewer failures than the threshold, within one window, never lock the client out.\<close>

lemma below_threshold_open:
  assumes "ok s k t" and "\<not> blocked s k t"
    and "sorted (t # ts)" and "\<forall>u \<in> set (t # ts). u < deadline s k t"
    and "streak s k t + int (length (t # ts)) < threshold s"
    and "last (t # ts) \<le> u" and "u < deadline s k t"
  shows "ok (fails s k (t # ts)) k u \<and> \<not> blocked (fails s k (t # ts)) k u \<and>
    streak (fails s k (t # ts)) k u = streak s k t + int (length (t # ts))"
  using assms
proof (induction ts arbitrary: s t)
  case Nil
  then show ?case using counts [of s k t u] by simp
next
  case (Cons t' ts)
  have step: "ok (fail s k t) k t' \<and> \<not> blocked (fail s k t) k t' \<and>
      streak (fail s k t) k t' = streak s k t + 1 \<and>
      deadline (fail s k t) k t' = deadline s k t"
    using Cons.prems by (intro counts) auto
  have "ok (fails (fail s k t) k (t' # ts)) k u \<and>
      \<not> blocked (fails (fail s k t) k (t' # ts)) k u \<and>
      streak (fails (fail s k t) k (t' # ts)) k u =
        streak (fail s k t) k t' + int (length (t' # ts))"
    using Cons.prems step keeps_settings [of s k t] by (intro Cons.IH) auto
  then show ?case using step by simp
qed

text \<open>
  As many failures as the threshold, within one window, lock the client out for the whole
  block time after the last of them.
\<close>

lemma burst_locks_out:
  assumes "ok s k t" and "\<not> blocked s k t"
    and "sorted (t # ts)" and "\<forall>u \<in> set (t # ts). u < deadline s k t"
    and "streak s k t + int (length (t # ts)) = threshold s"
    and "last (t # ts) \<le> u" and "u < last (t # ts) + block s"
  shows "blocked (fails s k (t # ts)) k u"
  using assms
proof (induction ts arbitrary: s t)
  case Nil
  then show ?case using trips [of s k t u] by simp
next
  case (Cons t' ts)
  have step: "ok (fail s k t) k t' \<and> \<not> blocked (fail s k t) k t' \<and>
      streak (fail s k t) k t' = streak s k t + 1 \<and>
      deadline (fail s k t) k t' = deadline s k t"
    using Cons.prems by (intro counts) auto
  have "blocked (fails (fail s k t) k (t' # ts)) k u"
    using Cons.prems step keeps_settings [of s k t] by (intro Cons.IH) auto
  then show ?case by simp
qed

end

end
