(* ===== verification/Oidc_Login_Guard.thy ===== *)
theory Oidc_Login_Guard
  imports Attempt_Guard
begin

text \<open>
  The login attempt guard of the OIDC provider (service/oidc_login_guard.go): failures per
  client key, counted in a window of five minutes; the fifth failure locks the key for
  fifteen minutes. The store holds at most 4096 keys and refuses new keys when it is full.
  Keys are stored by their SHA-256 digest, a parameter \<open>digest\<close> of the model. The
  mutex makes each operation atomic; the instant is an argument.
\<close>

definition oidcLoginGuardThreshold :: int where "oidcLoginGuardThreshold = 5"
definition oidcLoginGuardWindow :: duration where "oidcLoginGuardWindow = 5 * minute"
definition oidcLoginGuardBlock :: duration where "oidcLoginGuardBlock = 15 * minute"
definition oidcLoginGuardCapacity :: nat where "oidcLoginGuardCapacity = 4096"

lemmas oidc_guard_consts = oidcLoginGuardThreshold_def oidcLoginGuardWindow_def
  oidcLoginGuardBlock_def duration_units

record oidcLoginAttempt =
  ola_failures :: int
  ola_windowStart :: instant
  ola_blockedUntil :: instant

type_synonym oidcLoginAttemptGuard = "(string, oidcLoginAttempt) amap"

definition newOIDCLoginAttemptGuard :: oidcLoginAttemptGuard where
  "newOIDCLoginAttemptGuard = []"

definition oidc_guard_key :: "(string \<Rightarrow> string) \<Rightarrow> string \<Rightarrow> string" where
  "oidc_guard_key digest raw = digest (if raw = [] then ''unknown'' else raw)"

definition oidc_window_over :: "oidcLoginAttempt \<Rightarrow> instant \<Rightarrow> bool" where
  "oidc_window_over e now \<longleftrightarrow> \<not> now < ola_windowStart e + oidcLoginGuardWindow"

definition oidc_cleanupLocked :: "oidcLoginAttemptGuard \<Rightarrow> instant \<Rightarrow> oidcLoginAttemptGuard" where
  "oidc_cleanupLocked g now =
     filter (\<lambda>(key, e). \<not> (\<not> now < ola_blockedUntil e \<and>
         ola_windowStart e \<noteq> zero_time \<and> oidc_window_over e now)) g"

text \<open>A nil guard (\<open>None\<close>) answers as if the key were locked.\<close>

fun oidc_check :: "(string \<Rightarrow> string) \<Rightarrow> oidcLoginAttemptGuard option \<Rightarrow> string \<Rightarrow> instant \<Rightarrow>
    oidcLoginAttemptGuard option \<times> duration \<times> bool" where
  "oidc_check digest None raw now = (None, oidcLoginGuardBlock, True)"
| "oidc_check digest (Some g0) raw now =
     (let key = oidc_guard_key digest raw;
          g = oidc_cleanupLocked g0 now
      in case aget g key of
           Some e \<Rightarrow>
             if now < ola_blockedUntil e then (Some g, time_sub (ola_blockedUntil e) now, True)
             else (Some g, 0, False)
         | None \<Rightarrow>
             if oidcLoginGuardCapacity \<le> length g then (Some g, oidcLoginGuardBlock, True)
             else (Some g, 0, False))"

definition oidc_count_failure :: "oidcLoginAttempt \<Rightarrow> instant \<Rightarrow> oidcLoginAttempt \<times> bool" where
  "oidc_count_failure e0 now =
     (let e1 = (if ola_windowStart e0 = zero_time \<or> oidc_window_over e0 now
                then e0\<lparr>ola_windowStart := now, ola_failures := 0\<rparr> else e0);
          e2 = e1\<lparr>ola_failures := ola_failures e1 + 1\<rparr>
      in if oidcLoginGuardThreshold \<le> ola_failures e2
         then (e2\<lparr>ola_failures := 0,
                  ola_blockedUntil := now + oidcLoginGuardBlock,
                  ola_windowStart := now + oidcLoginGuardBlock\<rparr>, True)
         else (e2, False))"

fun oidc_failure :: "(string \<Rightarrow> string) \<Rightarrow> oidcLoginAttemptGuard option \<Rightarrow> string \<Rightarrow> instant \<Rightarrow>
    oidcLoginAttemptGuard option \<times> bool" where
  "oidc_failure digest None raw now = (None, True)"
| "oidc_failure digest (Some g0) raw now =
     (let key = oidc_guard_key digest raw;
          g = oidc_cleanupLocked g0 now
      in case aget g key of
           None \<Rightarrow>
             if oidcLoginGuardCapacity \<le> length g then (Some g, True)
             else (let (e, blocked) = oidc_count_failure
                         \<lparr>ola_failures = 0, ola_windowStart = now, ola_blockedUntil = zero_time\<rparr> now
                   in (Some (aput key e g), blocked))
         | Some e0 \<Rightarrow>
             if now < ola_blockedUntil e0 then (Some (aput key e0 g), True)
             else (let (e, blocked) = oidc_count_failure e0 now
                   in (Some (aput key e g), blocked)))"

fun oidc_success :: "(string \<Rightarrow> string) \<Rightarrow> oidcLoginAttemptGuard option \<Rightarrow> string \<Rightarrow> instant \<Rightarrow>
    oidcLoginAttemptGuard option" where
  "oidc_success digest None raw now = None"
| "oidc_success digest (Some g) raw now =
     (let key = oidc_guard_key digest raw
      in case aget g key of
           Some e \<Rightarrow> if \<not> now < ola_blockedUntil e then Some (adel key g) else Some g
         | None \<Rightarrow> Some g)"

section \<open>Invariant\<close>

text \<open>
  The store has distinct keys, at most the capacity of them, and no entry has reached the
  threshold (reaching it resets the count).
\<close>

definition oidc_wf :: "oidcLoginAttemptGuard \<Rightarrow> bool" where
  "oidc_wf g \<longleftrightarrow> adistinct g \<and> length g \<le> oidcLoginGuardCapacity \<and>
     (\<forall>key e. aget g key = Some e \<longrightarrow>
        0 \<le> ola_failures e \<and> ola_failures e < oidcLoginGuardThreshold)"

lemma oidc_wf_cleanup [wf_intros]: "oidc_wf g \<Longrightarrow> oidc_wf (oidc_cleanupLocked g now)"
  unfolding oidc_wf_def oidc_cleanupLocked_def
  by (auto simp: aget_filter adistinct_filter split: option.splits if_splits
      intro: le_trans [OF length_filter_le])

lemma aget_oidc_cleanup:
  "oidc_wf g \<Longrightarrow> aget (oidc_cleanupLocked g now) key =
     (case aget g key of None \<Rightarrow> None
      | Some e \<Rightarrow> if now < ola_blockedUntil e \<or> ola_windowStart e = zero_time \<or>
                      \<not> oidc_window_over e now then Some e else None)"
  by (auto simp: oidc_wf_def oidc_cleanupLocked_def aget_filter split: option.splits)

lemma oidc_count_failure_range:
  "0 \<le> ola_failures e \<Longrightarrow> ola_failures e < oidcLoginGuardThreshold \<Longrightarrow>
   0 \<le> ola_failures (fst (oidc_count_failure e now)) \<and>
   ola_failures (fst (oidc_count_failure e now)) < oidcLoginGuardThreshold"
  by (auto simp: oidc_count_failure_def Let_def oidcLoginGuardThreshold_def)

lemma oidc_wf_aput [wf_intros]:
  assumes "oidc_wf g" and "key \<in> akeys g \<or> length g < oidcLoginGuardCapacity"
    and "0 \<le> ola_failures e" and "ola_failures e < oidcLoginGuardThreshold"
  shows "oidc_wf (aput key e g)"
  using assms unfolding oidc_wf_def
  by (cases "key \<in> akeys g")
     (auto simp: amap_simps adistinct_aput length_aput_old length_aput_new split: if_splits)

lemma oidc_wf_adel [wf_intros]: "oidc_wf g \<Longrightarrow> oidc_wf (adel key g)"
  unfolding oidc_wf_def
  by (auto simp: amap_simps adistinct_adel split: if_splits intro: le_trans [OF length_adel_le])

lemma oidc_wf_failure [wf_intros]:
  assumes "oidc_wf g"
  shows "\<exists>g'. fst (oidc_failure digest (Some g) raw now) = Some g' \<and> oidc_wf g'"
proof -
  let ?g = "oidc_cleanupLocked g now" and ?key = "oidc_guard_key digest raw"
  have wf: "oidc_wf ?g" using assms by (rule oidc_wf_cleanup)
  show ?thesis
  proof (cases "aget ?g ?key")
    case None
    let ?e = "\<lparr>ola_failures = 0, ola_windowStart = now, ola_blockedUntil = zero_time\<rparr>"
    from None wf show ?thesis
      using oidc_count_failure_range [of ?e now]
      by (auto simp: Let_def oidcLoginGuardThreshold_def split: prod.splits intro!: oidc_wf_aput)
  next
    case (Some e)
    with wf have "0 \<le> ola_failures e" "ola_failures e < oidcLoginGuardThreshold"
      by (auto simp: oidc_wf_def)
    with Some wf show ?thesis
      using oidc_count_failure_range [of e now] aget_Some_akeys [OF Some]
      by (auto simp: Let_def split: prod.splits intro!: oidc_wf_aput)
  qed
qed

section \<open>The guard as a provider of the lockout contract\<close>

definition oidc_fail :: "(string \<Rightarrow> string) \<Rightarrow> oidcLoginAttemptGuard option \<Rightarrow> string \<Rightarrow> instant \<Rightarrow>
    oidcLoginAttemptGuard option" where
  "oidc_fail digest g raw t = fst (oidc_failure digest g raw t)"

definition oidc_blocked :: "(string \<Rightarrow> string) \<Rightarrow> oidcLoginAttemptGuard option \<Rightarrow> string \<Rightarrow> instant \<Rightarrow> bool" where
  "oidc_blocked digest g raw t = snd (snd (oidc_check digest g raw t))"

definition oidc_entry :: "oidcLoginAttemptGuard \<Rightarrow> string \<Rightarrow> instant \<Rightarrow> oidcLoginAttempt" where
  "oidc_entry g key t = (case aget (oidc_cleanupLocked g t) key of
     None \<Rightarrow> \<lparr>ola_failures = 0, ola_windowStart = t, ola_blockedUntil = zero_time\<rparr> | Some e \<Rightarrow> e)"

definition oidc_streak :: "(string \<Rightarrow> string) \<Rightarrow> oidcLoginAttemptGuard option \<Rightarrow> string \<Rightarrow> instant \<Rightarrow> int" where
  "oidc_streak digest g raw t =
     (let e = oidc_entry (the g) (oidc_guard_key digest raw) t
      in if ola_windowStart e = zero_time \<or> oidc_window_over e t then 0 else ola_failures e)"

definition oidc_deadline :: "(string \<Rightarrow> string) \<Rightarrow> oidcLoginAttemptGuard option \<Rightarrow> string \<Rightarrow> instant \<Rightarrow> instant" where
  "oidc_deadline digest g raw t =
     (let e = oidc_entry (the g) (oidc_guard_key digest raw) t
      in (if ola_windowStart e = zero_time \<or> oidc_window_over e t then t else ola_windowStart e)
         + oidcLoginGuardWindow)"

text \<open>
  The guard exists, is well formed, the clock is past the zero time, and the key is stored
  or there is room for it.
\<close>

definition oidc_ok :: "(string \<Rightarrow> string) \<Rightarrow> oidcLoginAttemptGuard option \<Rightarrow> string \<Rightarrow> instant \<Rightarrow> bool" where
  "oidc_ok digest g raw t \<longleftrightarrow> g \<noteq> None \<and> oidc_wf (the g) \<and> zero_time < t \<and>
     (aget (oidc_cleanupLocked (the g) t) (oidc_guard_key digest raw) \<noteq> None \<or>
      length (oidc_cleanupLocked (the g) t) < oidcLoginGuardCapacity)"

lemma oidc_fail_entry:
  assumes "oidc_ok digest (Some g) raw t" and "\<not> oidc_blocked digest (Some g) raw t"
  shows "oidc_fail digest (Some g) raw t =
    Some (aput (oidc_guard_key digest raw)
       (fst (oidc_count_failure (oidc_entry g (oidc_guard_key digest raw) t) t))
       (oidc_cleanupLocked g t))"
    and "\<not> t < ola_blockedUntil (oidc_entry g (oidc_guard_key digest raw) t)"
  using assms
  by (auto simp: oidc_ok_def oidc_blocked_def oidc_fail_def oidc_entry_def Let_def
      split: option.splits if_splits prod.splits)

lemma oidc_blocked_of_entry:
  assumes "oidc_wf g" and "aget g key = Some e" and "key = oidc_guard_key digest raw"
    and "u < ola_blockedUntil e"
  shows "oidc_blocked digest (Some g) raw u"
  using assms by (auto simp: oidc_blocked_def Let_def aget_oidc_cleanup)

text \<open>An entry whose window is live survives the sweep and decides the answer.\<close>

lemma oidc_live_entry:
  assumes wf: "oidc_wf g" and e: "aget g (oidc_guard_key digest raw) = Some e"
    and "ola_windowStart e \<noteq> zero_time" and "\<not> oidc_window_over e u"
    and "\<not> u < ola_blockedUntil e" and "zero_time < u"
  shows "oidc_ok digest (Some g) raw u \<and> \<not> oidc_blocked digest (Some g) raw u \<and>
    oidc_streak digest (Some g) raw u = ola_failures e \<and>
    oidc_deadline digest (Some g) raw u = ola_windowStart e + oidcLoginGuardWindow"
  using assms
  by (simp add: oidc_ok_def oidc_blocked_def oidc_streak_def oidc_deadline_def oidc_entry_def
      Let_def aget_oidc_cleanup)

lemma oidc_fail_wf:
  assumes "oidc_wf g" and "oidc_fail digest (Some g) raw t = Some g'"
  shows "oidc_wf g'"
  using oidc_wf_failure [OF assms(1), of digest raw t] assms(2) by (simp add: oidc_fail_def)

lemma oidc_guard_counts:
  assumes ok: "oidc_ok digest g raw t" and open_: "\<not> oidc_blocked digest g raw t"
    and few: "oidc_streak digest g raw t + 1 < oidcLoginGuardThreshold"
    and u: "t \<le> u" "u < oidc_deadline digest g raw t"
  shows "oidc_ok digest (oidc_fail digest g raw t) raw u \<and>
    \<not> oidc_blocked digest (oidc_fail digest g raw t) raw u \<and>
    oidc_streak digest (oidc_fail digest g raw t) raw u = oidc_streak digest g raw t + 1 \<and>
    oidc_deadline digest (oidc_fail digest g raw t) raw u = oidc_deadline digest g raw t"
proof -
  from ok obtain g0 where g: "g = Some g0" by (auto simp: oidc_ok_def)
  let ?key = "oidc_guard_key digest raw"
  let ?e0 = "oidc_entry g0 ?key t"
  let ?e = "fst (oidc_count_failure ?e0 t)"
  let ?g' = "aput ?key ?e (oidc_cleanupLocked g0 t)"
  note entry = oidc_fail_entry [OF ok [unfolded g] open_ [unfolded g]]
  from ok have past: "zero_time < t" and wf: "oidc_wf g0" by (auto simp: oidc_ok_def g)
  have wf': "oidc_wf ?g'" using oidc_fail_wf [OF wf entry(1)] .
  have e: "ola_windowStart ?e \<noteq> zero_time" "\<not> oidc_window_over ?e u"
    "\<not> u < ola_blockedUntil ?e"
    "ola_failures ?e = oidc_streak digest g raw t + 1"
    "ola_windowStart ?e + oidcLoginGuardWindow = oidc_deadline digest g raw t"
    using few u past entry(2)
    by (auto simp: g oidc_streak_def oidc_deadline_def oidc_count_failure_def Let_def
        oidc_window_over_def oidcLoginGuardThreshold_def split: if_splits)
  show ?thesis
    using oidc_live_entry [OF wf', of digest raw ?e u] e past u(1) entry(1)
    by (simp add: g amap_simps)
qed

lemma oidc_guard_trips:
  assumes ok: "oidc_ok digest g raw t" and open_: "\<not> oidc_blocked digest g raw t"
    and many: "oidcLoginGuardThreshold \<le> oidc_streak digest g raw t + 1"
    and u: "t \<le> u" "u < t + oidcLoginGuardBlock"
  shows "oidc_blocked digest (oidc_fail digest g raw t) raw u"
proof -
  from ok obtain g0 where g: "g = Some g0" by (auto simp: oidc_ok_def)
  let ?key = "oidc_guard_key digest raw"
  let ?e = "fst (oidc_count_failure (oidc_entry g0 ?key t) t)"
  note entry = oidc_fail_entry [OF ok [unfolded g] open_ [unfolded g]]
  from ok have wf: "oidc_wf g0" by (auto simp: oidc_ok_def g)
  have "ola_blockedUntil ?e = t + oidcLoginGuardBlock"
    using many by (auto simp: g oidc_streak_def oidc_count_failure_def Let_def
        oidcLoginGuardThreshold_def split: if_splits)
  then show ?thesis
    using oidc_blocked_of_entry [OF oidc_fail_wf [OF wf entry(1)], of ?key ?e digest raw u]
      u entry(1) by (simp add: g amap_simps)
qed

text \<open>A lock lasts for the block time and no longer: an entry whose block is over no longer locks.\<close>

lemma oidc_unblocked_of_entry:
  assumes wf: "oidc_wf g" and e: "aget g (oidc_guard_key digest raw) = Some e" and over: "\<not> u < ola_blockedUntil e"
  shows "\<not> oidc_blocked digest (Some g) raw u"
proof (cases "aget (oidc_cleanupLocked g u) (oidc_guard_key digest raw)")
  case None
  have "(oidc_guard_key digest raw, e) \<in> set g"
    using e by (rule map_of_SomeD)
  moreover have "(oidc_guard_key digest raw, e) \<notin> set (oidc_cleanupLocked g u)"
    using None by (metis aget_None_iff imageI fst_conv)
  moreover have "set (oidc_cleanupLocked g u) \<subseteq> set g" by (auto simp: oidc_cleanupLocked_def)
  ultimately have "length (oidc_cleanupLocked g u) < length g"
    unfolding oidc_cleanupLocked_def set_filter mem_Collect_eq by (metis (no_types, lifting) length_filter_less)
  then have "length (oidc_cleanupLocked g u) < oidcLoginGuardCapacity" using wf by (simp add: oidc_wf_def)
  then show ?thesis using None by (simp add: oidc_blocked_def Let_def)
next
  case (Some e')
  then have "e' = e" using e wf by (simp add: aget_oidc_cleanup split: if_splits)
  then show ?thesis using Some over by (simp add: oidc_blocked_def Let_def)
qed

lemma oidc_lock_ends:
  assumes ok: "oidc_ok digest g raw t" and open_: "\<not> oidc_blocked digest g raw t"
    and many: "oidcLoginGuardThreshold \<le> oidc_streak digest g raw t + 1"
    and u: "t + oidcLoginGuardBlock \<le> u"
  shows "\<not> oidc_blocked digest (oidc_fail digest g raw t) raw u"
proof -
  from ok obtain g0 where g: "g = Some g0" by (auto simp: oidc_ok_def)
  let ?key = "oidc_guard_key digest raw"
  let ?e = "fst (oidc_count_failure (oidc_entry g0 ?key t) t)"
  note entry = oidc_fail_entry [OF ok [unfolded g] open_ [unfolded g]]
  from ok have wf: "oidc_wf g0" by (auto simp: oidc_ok_def g)
  have "ola_blockedUntil ?e = t + oidcLoginGuardBlock"
    using many by (auto simp: g oidc_streak_def oidc_count_failure_def Let_def
        oidcLoginGuardThreshold_def split: if_splits)
  then show ?thesis
    using oidc_unblocked_of_entry [OF oidc_fail_wf [OF wf entry(1)], of digest raw ?e u]
      u entry(1) by (simp add: g amap_simps)
qed

interpretation olg: attempt_guard "oidc_fail digest" "oidc_blocked digest" "oidc_streak digest"
  "oidc_deadline digest" "oidc_ok digest" "\<lambda>_. oidcLoginGuardThreshold" "\<lambda>_. oidcLoginGuardBlock"
  for digest :: "string \<Rightarrow> string"
  by unfold_locales (use oidc_guard_counts oidc_guard_trips in blast)+

section \<open>Properties\<close>

datatype oidc_login_op =
    LoginCheck string instant
  | LoginFailure string instant
  | LoginSuccess string instant

fun oidc_login_step :: "(string \<Rightarrow> string) \<Rightarrow> oidcLoginAttemptGuard option \<Rightarrow> oidc_login_op \<Rightarrow>
    oidcLoginAttemptGuard option" where
  "oidc_login_step digest g (LoginCheck raw now) = fst (oidc_check digest g raw now)"
| "oidc_login_step digest g (LoginFailure raw now) = fst (oidc_failure digest g raw now)"
| "oidc_login_step digest g (LoginSuccess raw now) = oidc_success digest g raw now"

lemma oidc_step_wf:
  assumes "oidc_wf g"
  shows "\<exists>g'. oidc_login_step digest (Some g) p = Some g' \<and> oidc_wf g'"
proof (cases p)
  case (LoginCheck raw now)
  then show ?thesis
    using oidc_wf_cleanup [OF assms, of now] by (auto simp: Let_def split: option.splits)
next
  case (LoginFailure raw now)
  then show ?thesis using oidc_wf_failure [OF assms] by simp
next
  case (LoginSuccess raw now)
  then show ?thesis using assms by (auto simp: Let_def oidc_wf_adel split: option.splits)
qed

lemma oidc_run_wf:
  "oidc_wf g \<Longrightarrow> \<exists>g'. foldl (oidc_login_step digest) (Some g) ops = Some g' \<and> oidc_wf g'"
proof (induction ops arbitrary: g)
  case (Cons p ops)
  then show ?case using oidc_step_wf [OF Cons.prems, of digest p] by auto
qed simp

text \<open>
  Whatever sequence of checks, failures and successes runs on a new guard, it stores at
  most 4096 keys, each once, and no stored key has as many counted failures as the
  threshold.
\<close>

theorem oidc_store_bounded:
  "\<exists>g. foldl (oidc_login_step digest) (Some newOIDCLoginAttemptGuard) ops = Some g \<and>
     adistinct g \<and> length g \<le> 4096 \<and>
     (\<forall>key. pred_option (\<lambda>e. 0 \<le> ola_failures e \<and> ola_failures e < 5) (aget g key))"
proof -
  have "oidc_wf newOIDCLoginAttemptGuard"
    by (simp add: oidc_wf_def newOIDCLoginAttemptGuard_def)
  from oidc_run_wf [OF this, of digest ops] show ?thesis
    by (auto simp: oidc_wf_def oidcLoginGuardCapacity_def oidcLoginGuardThreshold_def
        pred_option_def)
qed

text \<open>
  C33: For a key that is not locked and has no failure counted so far, and failures inside one window:
  after fewer than five failures a check up to the end of the window finds the key open; after five
  failures a check finds it locked for exactly the 15 minutes of the block time after the fifth, and
  open again from then on.
\<close>

theorem oidc_fifth_failure_locks:
  assumes "oidc_ok digest g raw t" and "\<not> snd (snd (oidc_check digest g raw t))"
    and "oidc_streak digest g raw t = 0"
    and "sorted (t # ts)" and "\<forall>u \<in> set (t # ts). u < oidc_deadline digest g raw t"
    and "last (t # ts) \<le> u"
  shows "let locked = snd (snd (oidc_check digest
      (foldl (\<lambda>g t. fst (oidc_failure digest g raw t)) g (t # ts)) raw u))
    in (length (t # ts) < 5 \<and> u < oidc_deadline digest g raw t \<longrightarrow> \<not> locked) \<and>
       (length (t # ts) = 5 \<longrightarrow> locked = (u < last (t # ts) + 15 * minute))"
proof -
  let ?g = "foldl (\<lambda>g t. oidc_fail digest g raw t) g (t # ts)"
  have few: "\<not> oidc_blocked digest ?g raw u" if "length (t # ts) < 5" "u < oidc_deadline digest g raw t"
    using olg.below_threshold_open [of digest g raw t ts u] assms that
    by (simp add: oidc_blocked_def oidcLoginGuardThreshold_def)
  have five: "oidc_blocked digest ?g raw u \<longleftrightarrow> u < last (t # ts) + oidcLoginGuardBlock" if n: "length (t # ts) = 5"
  proof (cases "u < last (t # ts) + oidcLoginGuardBlock")
    case True
    then show ?thesis
      using assms n by (simp, intro olg.burst_locks_out[of digest g raw t ts, simplified]) (auto simp: oidc_blocked_def oidcLoginGuardThreshold_def)
  next
    case False
    from n obtain ts' v where ts: "ts = ts' @ [v]" by (cases ts rule: rev_cases) auto
    let ?h = "foldl (\<lambda>g t. oidc_fail digest g raw t) g (t # ts')"
    have "oidc_ok digest ?h raw v \<and> \<not> oidc_blocked digest ?h raw v \<and> oidc_streak digest ?h raw v = oidc_streak digest g raw t + int (length (t # ts'))"
      using assms n by (intro olg.below_threshold_open) (auto simp: ts sorted_append oidc_blocked_def oidcLoginGuardThreshold_def)
    then show ?thesis
      using oidc_lock_ends [of digest ?h raw v u] False assms(3) n by (simp add: ts oidcLoginGuardThreshold_def)
  qed
  show ?thesis using few five by (simp add: oidc_blocked_def oidc_fail_def Let_def oidcLoginGuardBlock_def)
qed

lemma new_guard_ok:
  "oidc_ok digest (Some newOIDCLoginAttemptGuard) raw 0 \<and>
   \<not> snd (snd (oidc_check digest (Some newOIDCLoginAttemptGuard) raw 0)) \<and>
   oidc_streak digest (Some newOIDCLoginAttemptGuard) raw 0 = 0 \<and>
   oidc_deadline digest (Some newOIDCLoginAttemptGuard) raw 0 = oidcLoginGuardWindow"
  by (simp add: oidc_ok_def newOIDCLoginAttemptGuard_def oidc_wf_def oidc_cleanupLocked_def
      oidc_streak_def oidc_deadline_def oidc_entry_def zero_time_def Let_def
      oidcLoginGuardCapacity_def oidc_window_over_def)

theorem oidc_fifth_failure_locks_witness:
  "snd (snd (oidc_check id (foldl (\<lambda>g t. fst (oidc_failure id g ''alice'' t))
     (Some newOIDCLoginAttemptGuard) [0, 1, 2, 3, 4]) ''alice'' (15 * minute))) \<and>
   \<not> snd (snd (oidc_check id (foldl (\<lambda>g t. fst (oidc_failure id g ''alice'' t))
     (Some newOIDCLoginAttemptGuard) [0, 1, 2, 3, 4]) ''alice'' (15 * minute + 4))) \<and>
   \<not> snd (snd (oidc_check id (foldl (\<lambda>g t. fst (oidc_failure id g ''alice'' t))
     (Some newOIDCLoginAttemptGuard) [0, 1, 2, 3]) ''alice'' minute))"
  using oidc_fifth_failure_locks [of id "Some newOIDCLoginAttemptGuard" "''alice''" 0 "[1, 2, 3, 4]" "15 * minute"]
    oidc_fifth_failure_locks [of id "Some newOIDCLoginAttemptGuard" "''alice''" 0 "[1, 2, 3, 4]" "15 * minute + 4"]
    oidc_fifth_failure_locks [of id "Some newOIDCLoginAttemptGuard" "''alice''" 0 "[1, 2, 3]" minute]
    new_guard_ok [of id "''alice''"]
  by (simp add: oidc_guard_consts Let_def)

text \<open>
  A successful login does not lift a lock: while a key is locked, a success recorded for
  it (for instance by a request that was already past the check) changes nothing, and the
  key stays locked.
\<close>

theorem oidc_success_keeps_lock:
  assumes "oidc_wf g" and "aget g (oidc_guard_key digest raw) = Some e"
    and "now < ola_blockedUntil e" and "u < ola_blockedUntil e"
  shows "oidc_success digest (Some g) raw now = Some g \<and>
    snd (snd (oidc_check digest (oidc_success digest (Some g) raw now) raw u))"
  using assms oidc_blocked_of_entry [OF assms(1,2) refl assms(4)]
  by (simp add: oidc_blocked_def Let_def)

theorem oidc_success_keeps_lock_witness:
  "snd (snd (oidc_check id (oidc_success id
     (Some [(''bob'', \<lparr>ola_failures = 0, ola_windowStart = minute, ola_blockedUntil = minute\<rparr>)])
     ''bob'' 7) ''bob'' 9))"
  using oidc_success_keeps_lock [of
    "[(''bob'', \<lparr>ola_failures = 0, ola_windowStart = minute, ola_blockedUntil = minute\<rparr>)]"
    id "''bob''" "\<lparr>ola_failures = 0, ola_windowStart = minute, ola_blockedUntil = minute\<rparr>" 7 9]
  by (simp add: oidc_wf_def oidc_guard_key_def oidc_guard_consts oidcLoginGuardCapacity_def)

end
