(* ===== verification/Invalid_Auth_Abuse.thy ===== *)
theory Invalid_Auth_Abuse
  imports Attempt_Guard "HOL-Library.Word"
begin

text \<open>
  The limiter for clients that present invalid API keys
  (service/invalid_auth_abuse_limiter.go): sixteen shards of counters keyed by client, one
  global overflow counter for clients that find no room, and statistics. Each operation is
  modelled as one atomic step at an instant that is an argument; in such a step the first
  compare-and-swap of the source's retry loops succeeds, so the loops are straight-line
  code here. Interleavings inside one operation are not modelled.
\<close>

unbundle bit_operations_syntax

definition invalidAuthAbuseShardCount :: nat where "invalidAuthAbuseShardCount = 16"

record invalidAuthAbuseEntry =
  iae_failures :: int
  iae_windowStart :: instant
  iae_blockedUntil :: instant

record invalidAuthOverflow =
  iao_failures :: int
  iao_windowStart :: instant
  iao_blockedUntil :: instant

type_synonym invalidAuthAbuseShard = "(string, invalidAuthAbuseEntry) amap"

record invalidAuthAbuseLimiter =
  threshold :: int
  window :: duration
  block :: duration
  capacity :: int
  shards :: "invalidAuthAbuseShard list"
  overflow :: invalidAuthOverflow
  tracked :: int
  recorded :: "64 word"
  blocked_total :: "64 word"
  rejected :: "64 word"
  expired :: "64 word"
  overflowed :: "64 word"
  globalBlocked :: "64 word"
  cleanupNext :: int
  cleanupCursor :: "32 word"

record invalidAbuseConfig =
  cfg_Enabled :: bool
  cfg_Threshold :: int
  cfg_WindowSeconds :: int
  cfg_BlockSeconds :: int
  cfg_Capacity :: int

definition newInvalidAuthAbuseLimiter :: "invalidAbuseConfig option \<Rightarrow> invalidAuthAbuseLimiter option" where
  "newInvalidAuthAbuseLimiter cfg =
     (case cfg of None \<Rightarrow> None
      | Some c \<Rightarrow>
          if \<not> cfg_Enabled c then None
          else if cfg_Threshold c \<le> 0 \<or> cfg_WindowSeconds c \<le> 0 \<or>
                  cfg_BlockSeconds c \<le> 0 \<or> cfg_Capacity c \<le> 0 then None
          else Some \<lparr>threshold = cfg_Threshold c,
                     window = wrap64 (cfg_WindowSeconds c * second),
                     block = wrap64 (cfg_BlockSeconds c * second),
                     capacity = cfg_Capacity c,
                     shards = replicate invalidAuthAbuseShardCount [],
                     overflow = \<lparr>iao_failures = 0, iao_windowStart = zero_time,
                                 iao_blockedUntil = zero_time\<rparr>,
                     tracked = 0, recorded = 0, blocked_total = 0, rejected = 0, expired = 0,
                     overflowed = 0, globalBlocked = 0, cleanupNext = 0, cleanupCursor = 0\<rparr>)"

text \<open>The FNV-1a hash of the client key selects the shard.\<close>

definition fnv_step :: "32 word \<Rightarrow> char \<Rightarrow> 32 word" where
  "fnv_step hash c = (hash XOR word_of_nat (of_char c)) * 16777619"

definition shard_index :: "string \<Rightarrow> nat" where
  "shard_index clientKey = unat (foldl fnv_step 2166136261 clientKey mod 16)"

definition entryExpired :: "invalidAuthAbuseLimiter \<Rightarrow> invalidAuthAbuseEntry \<Rightarrow> instant \<Rightarrow> bool" where
  "entryExpired l e now \<longleftrightarrow> \<not> now < iae_blockedUntil e \<and> \<not> now < iae_windowStart e \<and>
     \<not> now < iae_windowStart e + window l"

definition maybeCleanupAtCapacity :: "invalidAuthAbuseLimiter \<Rightarrow> instant \<Rightarrow> invalidAuthAbuseLimiter" where
  "maybeCleanupAtCapacity l now =
     (if tracked l < capacity l then l
      else if now < cleanupNext l then l
      else (let index = unat (cleanupCursor l mod 16);
                shard = shards l ! index;
                shard' = filter (\<lambda>(key, e). \<not> entryExpired l e now) shard;
                removed = length shard - length shard'
            in l\<lparr>cleanupNext := now + 100 * millisecond,
                 cleanupCursor := cleanupCursor l + 1,
                 shards := (shards l)[index := shard'],
                 tracked := tracked l - int removed,
                 expired := expired l + word_of_nat removed\<rparr>))"

text \<open>
  The lookup both operations begin with: the entry of the key, dropped when it has
  expired.
\<close>

definition take_entry :: "invalidAuthAbuseLimiter \<Rightarrow> string \<Rightarrow> instant \<Rightarrow>
    invalidAuthAbuseLimiter \<times> invalidAuthAbuseEntry option" where
  "take_entry l clientKey now =
     (let i = shard_index clientKey; shard = shards l ! i
      in case aget shard clientKey of
           None \<Rightarrow> (l, None)
         | Some e \<Rightarrow>
             if entryExpired l e now
             then (l\<lparr>shards := (shards l)[i := adel clientKey shard],
                     tracked := tracked l - 1, expired := expired l + 1\<rparr>, None)
             else (l, Some e))"

definition checkOverflow :: "invalidAuthAbuseLimiter \<Rightarrow> instant \<Rightarrow> duration \<times> bool" where
  "checkOverflow l now =
     (if now < iao_blockedUntil (overflow l)
      then (time_sub (iao_blockedUntil (overflow l)) now, True) else (0, False))"

definition check :: "invalidAuthAbuseLimiter \<Rightarrow> string \<Rightarrow> instant \<Rightarrow>
    invalidAuthAbuseLimiter \<times> duration \<times> bool" where
  "check l clientKey now =
     (if clientKey = [] then (l, 0, False)
      else case take_entry (maybeCleanupAtCapacity l now) clientKey now of
        (l1, Some e) \<Rightarrow>
          if now < iae_blockedUntil e
          then (l1\<lparr>rejected := rejected l1 + 1\<rparr>, time_sub (iae_blockedUntil e) now, True)
          else (l1, 0, False)
      | (l1, None) \<Rightarrow>
          if capacity l1 \<le> tracked l1
          then (case checkOverflow l1 now of (retry, isblocked) \<Rightarrow>
                  if isblocked
                  then (l1\<lparr>rejected := rejected l1 + 1, globalBlocked := globalBlocked l1 + 1\<rparr>,
                        retry, True)
                  else (l1, 0, False))
          else (l1, 0, False))"

definition recordOverflow :: "invalidAuthAbuseLimiter \<Rightarrow> instant \<Rightarrow> invalidAuthAbuseLimiter" where
  "recordOverflow l0 now =
     (let l = l0\<lparr>overflowed := overflowed l0 + 1\<rparr>; ov = overflow l
      in if now < iao_blockedUntil ov then l
         else (let ov1 = (if iao_windowStart ov = zero_time \<or>
                             \<not> now < iao_windowStart ov + window l
                          then ov\<lparr>iao_windowStart := now, iao_failures := 0\<rparr> else ov);
                   ov2 = ov1\<lparr>iao_failures := iao_failures ov1 + 1\<rparr>
               in if threshold l \<le> iao_failures ov2
                  then l\<lparr>overflow := ov2\<lparr>iao_failures := 0,
                                        iao_blockedUntil := now + block l,
                                        iao_windowStart := now + block l\<rparr>,
                         blocked_total := blocked_total l + 1\<rparr>
                  else l\<lparr>overflow := ov2\<rparr>))"

definition reserveEntry :: "invalidAuthAbuseLimiter \<Rightarrow> invalidAuthAbuseLimiter \<times> bool" where
  "reserveEntry l = (if capacity l \<le> tracked l then (l, False)
                     else (l\<lparr>tracked := tracked l + 1\<rparr>, True))"

definition put_entry :: "invalidAuthAbuseLimiter \<Rightarrow> string \<Rightarrow> invalidAuthAbuseEntry \<Rightarrow> invalidAuthAbuseLimiter" where
  "put_entry l clientKey e =
     (let i = shard_index clientKey
      in l\<lparr>shards := (shards l)[i := aput clientKey e (shards l ! i)]\<rparr>)"

text \<open>The counting part of record, on the entry of the client.\<close>

definition count_entry :: "invalidAuthAbuseLimiter \<Rightarrow> invalidAuthAbuseEntry \<Rightarrow> instant \<Rightarrow>
    invalidAuthAbuseEntry \<times> bool" where
  "count_entry l e0 now =
     (let e1 = (if now < iae_windowStart e0 \<or> \<not> now < iae_windowStart e0 + window l
                then e0\<lparr>iae_windowStart := now, iae_failures := 0\<rparr> else e0);
          e2 = e1\<lparr>iae_failures := iae_failures e1 + 1\<rparr>
      in if threshold l \<le> iae_failures e2
         then (e2\<lparr>iae_failures := 0, iae_blockedUntil := now + block l,
                  iae_windowStart := now + block l\<rparr>, True)
         else (e2, False))"

definition record_failure :: "invalidAuthAbuseLimiter \<Rightarrow> string \<Rightarrow> invalidAuthAbuseEntry \<Rightarrow> instant \<Rightarrow>
    invalidAuthAbuseLimiter" where
  "record_failure l clientKey e now =
     (if now < iae_blockedUntil e then put_entry l clientKey e
      else (case count_entry l e now of (e', tripped) \<Rightarrow>
        (put_entry l clientKey e')\<lparr>blocked_total :=
            (if tripped then blocked_total l + 1 else blocked_total l)\<rparr>))"

definition record_op :: "invalidAuthAbuseLimiter \<Rightarrow> string \<Rightarrow> instant \<Rightarrow> invalidAuthAbuseLimiter" where
  "record_op l0 clientKey now =
     (if clientKey = [] then l0
      else (let l = maybeCleanupAtCapacity (l0\<lparr>recorded := recorded l0 + 1\<rparr>) now
            in case take_entry l clientKey now of
                 (l1, Some e) \<Rightarrow> record_failure l1 clientKey e now
               | (l1, None) \<Rightarrow>
                   (case reserveEntry l1 of
                      (l2, False) \<Rightarrow> recordOverflow l2 now
                    | (l2, True) \<Rightarrow> record_failure l2 clientKey
                        \<lparr>iae_failures = 0, iae_windowStart = now,
                         iae_blockedUntil = zero_time\<rparr> now)))"

text \<open>The methods of APIKeyService; the service or its limiter may be nil.\<close>

definition CheckInvalidAuthAbuse :: "invalidAuthAbuseLimiter option \<Rightarrow> string \<Rightarrow> instant \<Rightarrow>
    invalidAuthAbuseLimiter option \<times> duration \<times> bool" where
  "CheckInvalidAuthAbuse s clientKey now =
     (case s of None \<Rightarrow> (None, 0, False)
      | Some l \<Rightarrow> (case check l clientKey now of (l', r) \<Rightarrow> (Some l', r)))"

definition RecordInvalidAuthFailure :: "invalidAuthAbuseLimiter option \<Rightarrow> string \<Rightarrow> instant \<Rightarrow>
    invalidAuthAbuseLimiter option" where
  "RecordInvalidAuthFailure s clientKey now = map_option (\<lambda>l. record_op l clientKey now) s"

record invalidAuthAbuseHealth =
  h_Enabled :: bool
  h_Tracked :: int
  h_Capacity :: int
  h_Recorded :: "64 word"
  h_Blocks :: "64 word"
  h_Rejected :: "64 word"
  h_Expired :: "64 word"
  h_Overflowed :: "64 word"
  h_GlobalBlocked :: "64 word"

definition health :: "invalidAuthAbuseLimiter \<Rightarrow> invalidAuthAbuseHealth" where
  "health l = \<lparr>h_Enabled = True, h_Tracked = tracked l, h_Capacity = capacity l,
     h_Recorded = recorded l, h_Blocks = blocked_total l, h_Rejected = rejected l,
     h_Expired = expired l, h_Overflowed = overflowed l, h_GlobalBlocked = globalBlocked l\<rparr>"

definition InvalidAuthAbuseHealth_of :: "invalidAuthAbuseLimiter option \<Rightarrow> invalidAuthAbuseHealth" where
  "InvalidAuthAbuseHealth_of s =
     (case s of None \<Rightarrow> \<lparr>h_Enabled = False, h_Tracked = 0, h_Capacity = 0, h_Recorded = 0,
        h_Blocks = 0, h_Rejected = 0, h_Expired = 0, h_Overflowed = 0, h_GlobalBlocked = 0\<rparr>
      | Some l \<Rightarrow> health l)"

section \<open>Invariant\<close>

text \<open>
  The threshold is positive; there are sixteen shards, each with distinct keys that hash to
  it; the counter of tracked clients is the number of stored entries and does not exceed
  the capacity; and no entry has reached the threshold.
\<close>

definition stored :: "invalidAuthAbuseShard list \<Rightarrow> int" where
  "stored ss = (\<Sum>s\<leftarrow>ss. int (length s))"

definition shard_ok :: "int \<Rightarrow> nat \<Rightarrow> invalidAuthAbuseShard \<Rightarrow> bool" where
  "shard_ok th i s \<longleftrightarrow> adistinct s \<and> (\<forall>key \<in> akeys s. shard_index key = i) \<and>
     (\<forall>key e. aget s key = Some e \<longrightarrow> 0 \<le> iae_failures e \<and> iae_failures e < th)"

definition limiter_wf :: "invalidAuthAbuseLimiter \<Rightarrow> bool" where
  "limiter_wf l \<longleftrightarrow> 0 < threshold l \<and>
     length (shards l) = 16 \<and> (\<forall>i < 16. shard_ok (threshold l) i (shards l ! i)) \<and>
     tracked l = stored (shards l) \<and> tracked l \<le> capacity l"

lemma shard_index_less [simp]: "shard_index key < 16"
proof -
  have "foldl fnv_step 2166136261 key mod 16 < (16 :: 32 word)"
    by (rule word_mod_less_divisor) simp
  then have "unat (foldl fnv_step 2166136261 key mod 16) < unat (16 :: 32 word)"
    by (simp only: word_less_nat_alt)
  then show ?thesis by (simp add: shard_index_def)
qed

lemma stored_update:
  "i < length ss \<Longrightarrow> stored (ss[i := s]) = stored ss - int (length (ss ! i)) + int (length s)"
  unfolding stored_def by (rule sum_lengths_update)

lemma shard_ok_filter [wf_intros]: "shard_ok th i s \<Longrightarrow> shard_ok th i (filter P s)"
  unfolding shard_ok_def
  by (auto simp: adistinct_filter aget_filter split: option.splits if_splits)

lemma shard_ok_adel [wf_intros]: "shard_ok th i s \<Longrightarrow> shard_ok th i (adel key s)"
  unfolding shard_ok_def by (auto simp: amap_simps adistinct_adel split: if_splits)

lemma shard_ok_aput [wf_intros]:
  "shard_ok th i s \<Longrightarrow> shard_index key = i \<Longrightarrow> 0 \<le> iae_failures e \<Longrightarrow> iae_failures e < th \<Longrightarrow>
   shard_ok th i (aput key e s)"
  unfolding shard_ok_def by (auto simp: amap_simps adistinct_aput split: if_splits)

lemma shards_ok_update:
  "\<forall>i < 16. shard_ok th i (ss ! i) \<Longrightarrow> length ss = 16 \<Longrightarrow> shard_ok th j s \<Longrightarrow>
   \<forall>i < 16. shard_ok th i (ss[j := s] ! i)"
  by (metis nth_list_update_eq nth_list_update_neq)

lemma cursor_less [simp]: "unat (cursor mod (16 :: 32 word)) < 16"
proof -
  have "cursor mod 16 < (16 :: 32 word)" by (rule word_mod_less_divisor) simp
  then have "unat (cursor mod 16) < unat (16 :: 32 word)" by (simp only: word_less_nat_alt)
  then show ?thesis by simp
qed

text \<open>Every step keeps the settings.\<close>

definition same_settings :: "invalidAuthAbuseLimiter \<Rightarrow> invalidAuthAbuseLimiter \<Rightarrow> bool" where
  "same_settings l l' \<longleftrightarrow> threshold l' = threshold l \<and> window l' = window l \<and>
     block l' = block l \<and> capacity l' = capacity l"

lemma maybeCleanup_wf [wf_intros]:
  assumes "limiter_wf l"
  shows "limiter_wf (maybeCleanupAtCapacity l now)"
proof -
  let ?i = "unat (cleanupCursor l mod 16)"
  let ?s = "shards l ! ?i"
  let ?s' = "filter (\<lambda>(key, e). \<not> entryExpired l e now) ?s"
  have "shard_ok (threshold l) ?i ?s'"
    using assms by (auto simp: limiter_wf_def intro: shard_ok_filter)
  then have "\<forall>i < 16. shard_ok (threshold l) i ((shards l)[?i := ?s'] ! i)"
    using assms by (intro shards_ok_update) (auto simp: limiter_wf_def)
  moreover have "stored ((shards l)[?i := ?s']) = stored (shards l) - int (length ?s) + int (length ?s')"
    using assms by (intro stored_update) (simp add: limiter_wf_def)
  moreover have "int (length ?s - length ?s') = int (length ?s) - int (length ?s')"
    by (simp add: of_nat_diff)
  ultimately show ?thesis
    using assms by (auto simp: maybeCleanupAtCapacity_def limiter_wf_def Let_def)
qed

lemma maybeCleanup_settings: "same_settings l (maybeCleanupAtCapacity l now)"
  by (simp add: same_settings_def maybeCleanupAtCapacity_def Let_def)

lemma take_entry_wf:
  assumes "limiter_wf l" and "take_entry l key now = (l', eo)"
  shows "limiter_wf l' \<and> same_settings l l' \<and> aget (shards l' ! shard_index key) key = eo \<and>
    (\<forall>e. eo = Some e \<longrightarrow> \<not> entryExpired l' e now \<and> 0 \<le> iae_failures e \<and>
       iae_failures e < threshold l')"
proof (cases "aget (shards l ! shard_index key) key")
  case None
  with assms show ?thesis by (auto simp: take_entry_def Let_def same_settings_def)
next
  case (Some e)
  let ?i = "shard_index key"
  let ?s = "shards l ! ?i"
  have ok: "shard_ok (threshold l) ?i ?s" and len: "length (shards l) = 16"
    using assms(1) by (auto simp: limiter_wf_def)
  have "\<forall>i < 16. shard_ok (threshold l) i ((shards l)[?i := adel key ?s] ! i)"
    using assms(1) ok by (intro shards_ok_update shard_ok_adel) (auto simp: limiter_wf_def)
  moreover obtain n where "length ?s = Suc n" using Some by (cases ?s) auto
  then have "stored ((shards l)[?i := adel key ?s]) = stored (shards l) - 1"
    using ok len Some length_adel_old [of ?s key] aget_Some_akeys [OF Some]
    by (simp add: stored_update shard_ok_def)
  ultimately have wf: "limiter_wf (l\<lparr>shards := (shards l)[?i := adel key ?s],
      tracked := tracked l - 1, expired := expired l + 1\<rparr>)"
    using assms(1) by (simp add: limiter_wf_def)
  have look: "aget ((shards l)[?i := adel key ?s] ! ?i) key = None"
    using len by (simp add: amap_simps)
  have range: "0 \<le> iae_failures e" "iae_failures e < threshold l"
    using ok Some by (auto simp: shard_ok_def)
  show ?thesis
  proof (cases "entryExpired l e now")
    case True
    with assms(2) Some have "l' = l\<lparr>shards := (shards l)[?i := adel key ?s],
        tracked := tracked l - 1, expired := expired l + 1\<rparr>" and "eo = None"
      by (simp_all add: take_entry_def Let_def)
    then show ?thesis using wf look by (simp add: same_settings_def)
  next
    case False
    with assms(2) Some have "l' = l" and "eo = Some e"
      by (simp_all add: take_entry_def Let_def)
    then show ?thesis using assms(1) Some False range by (simp add: same_settings_def)
  qed
qed

lemma put_entry_wf [wf_intros]:
  assumes "limiter_wf (l\<lparr>tracked := stored (shards l)\<rparr>)" and "0 \<le> iae_failures e"
    and "iae_failures e < threshold l"
    and "tracked l = stored (shards l) +
      (if key \<in> akeys (shards l ! shard_index key) then 0 else 1)"
    and "tracked l \<le> capacity l"
  shows "limiter_wf (put_entry l key e)"
proof -
  let ?i = "shard_index key"
  let ?s = "shards l ! ?i"
  have ok: "shard_ok (threshold l) ?i ?s" and len: "length (shards l) = 16"
    using assms(1) by (auto simp: limiter_wf_def)
  have "\<forall>i < 16. shard_ok (threshold l) i ((shards l)[?i := aput key e ?s] ! i)"
    using assms ok by (intro shards_ok_update shard_ok_aput) (auto simp: limiter_wf_def)
  moreover have "stored ((shards l)[?i := aput key e ?s]) = tracked l"
    using len assms(4)
    by (cases "key \<in> akeys ?s") (simp_all add: stored_update length_aput_old length_aput_new)
  ultimately show ?thesis
    using assms by (simp add: put_entry_def Let_def limiter_wf_def)
qed

lemma count_entry_range:
  "0 < threshold l \<Longrightarrow> 0 \<le> iae_failures e \<Longrightarrow> iae_failures e < threshold l \<Longrightarrow>
   count_entry l e now = (e', b) \<Longrightarrow> 0 \<le> iae_failures e' \<and> iae_failures e' < threshold l"
  by (auto simp: count_entry_def Let_def split: if_splits)

lemma put_entry_total [simp]:
  "limiter_wf (l\<lparr>blocked_total := n\<rparr>) = limiter_wf l"
  "limiter_wf (l\<lparr>recorded := n\<rparr>) = limiter_wf l"
  "limiter_wf (l\<lparr>rejected := n\<rparr>) = limiter_wf l"
  "limiter_wf (l\<lparr>globalBlocked := n\<rparr>) = limiter_wf l"
  "limiter_wf (l\<lparr>overflow := ov\<rparr>) = limiter_wf l"
  "limiter_wf (l\<lparr>overflowed := n\<rparr>) = limiter_wf l"
  by (simp_all add: limiter_wf_def)

lemma record_failure_wf [wf_intros]:
  assumes "limiter_wf (l\<lparr>tracked := stored (shards l)\<rparr>)" and "0 \<le> iae_failures e"
    and "iae_failures e < threshold l"
    and "tracked l = stored (shards l) +
      (if key \<in> akeys (shards l ! shard_index key) then 0 else 1)"
    and "tracked l \<le> capacity l"
  shows "limiter_wf (record_failure l key e now)"
proof -
  obtain e' b where count: "count_entry l e now = (e', b)" by (cases "count_entry l e now")
  have "0 < threshold l" using assms(1) by (simp add: limiter_wf_def)
  then have "0 \<le> iae_failures e'" "iae_failures e' < threshold l"
    using count_entry_range [OF _ assms(2,3) count] by auto
  then show ?thesis
    using put_entry_wf [OF assms] put_entry_wf [OF assms(1) _ _ assms(4,5)] count
    by (simp add: record_failure_def)
qed

lemma record_wf [wf_intros]:
  assumes "limiter_wf l"
  shows "limiter_wf (record_op l key now)"
proof (cases "key = []")
  case True
  with assms show ?thesis by (simp add: record_op_def)
next
  case False
  let ?l = "maybeCleanupAtCapacity (l\<lparr>recorded := recorded l + 1\<rparr>) now"
  have wf: "limiter_wf ?l" using assms by (simp add: maybeCleanup_wf)
  obtain l1 eo where take: "take_entry ?l key now = (l1, eo)" by (cases "take_entry ?l key now")
  have wf1: "limiter_wf l1" and look: "aget (shards l1 ! shard_index key) key = eo"
    and range: "\<forall>e. eo = Some e \<longrightarrow> 0 \<le> iae_failures e \<and> iae_failures e < threshold l1"
    using take_entry_wf [OF wf take] by auto
  have exact: "l1\<lparr>tracked := stored (shards l1)\<rparr> = l1"
    using wf1 by (simp add: limiter_wf_def)
  show ?thesis
  proof (cases eo)
    case (Some e)
    then have "limiter_wf (record_failure l1 key e now)"
      using wf1 range exact aget_Some_akeys [of "shards l1 ! shard_index key" key e] look
      by (intro record_failure_wf) (auto simp: limiter_wf_def)
    with Some take False show ?thesis by (simp add: record_op_def Let_def)
  next
    case None
    then have fresh: "key \<notin> akeys (shards l1 ! shard_index key)"
      using look by (simp add: aget_None_iff)
    show ?thesis
    proof (cases "capacity l1 \<le> tracked l1")
      case True
      then show ?thesis using None take False wf1
        by (simp add: record_op_def Let_def reserveEntry_def recordOverflow_def)
    next
      case room: False
      let ?l2 = "l1\<lparr>tracked := tracked l1 + 1\<rparr>"
      have "limiter_wf (record_failure ?l2 key
          \<lparr>iae_failures = 0, iae_windowStart = now, iae_blockedUntil = zero_time\<rparr> now)"
        using wf1 exact fresh room by (intro record_failure_wf) (auto simp: limiter_wf_def)
      then show ?thesis using None take False room
        by (simp add: record_op_def Let_def reserveEntry_def)
    qed
  qed
qed

lemma check_wf [wf_intros]:
  assumes "limiter_wf l"
  shows "limiter_wf (fst (check l key now))"
proof -
  obtain l1 eo where take: "take_entry (maybeCleanupAtCapacity l now) key now = (l1, eo)"
    by (cases "take_entry (maybeCleanupAtCapacity l now) key now")
  have "limiter_wf l1"
    using take_entry_wf [OF maybeCleanup_wf [OF assms] take] by simp
  with assms take show ?thesis
    by (auto simp: check_def split: option.splits prod.splits)
qed

section \<open>The limiter as a provider of the lockout contract\<close>

abbreviation prep :: "invalidAuthAbuseLimiter \<Rightarrow> string \<Rightarrow> instant \<Rightarrow>
    invalidAuthAbuseLimiter \<times> invalidAuthAbuseEntry option" where
  "prep l key t \<equiv> take_entry (maybeCleanupAtCapacity l t) key t"

definition abuse_blocked :: "invalidAuthAbuseLimiter \<Rightarrow> string \<Rightarrow> instant \<Rightarrow> bool" where
  "abuse_blocked l key t = snd (snd (check l key t))"

definition abuse_entry :: "invalidAuthAbuseLimiter \<Rightarrow> string \<Rightarrow> instant \<Rightarrow> invalidAuthAbuseEntry" where
  "abuse_entry l key t = (case snd (prep l key t) of
     None \<Rightarrow> \<lparr>iae_failures = 0, iae_windowStart = t, iae_blockedUntil = zero_time\<rparr> | Some e \<Rightarrow> e)"

definition in_window :: "invalidAuthAbuseLimiter \<Rightarrow> invalidAuthAbuseEntry \<Rightarrow> instant \<Rightarrow> bool" where
  "in_window l e t \<longleftrightarrow> iae_windowStart e \<le> t \<and> t < iae_windowStart e + window l"

definition abuse_streak :: "invalidAuthAbuseLimiter \<Rightarrow> string \<Rightarrow> instant \<Rightarrow> int" where
  "abuse_streak l key t =
     (let e = abuse_entry l key t in if in_window l e t then iae_failures e else 0)"

definition abuse_deadline :: "invalidAuthAbuseLimiter \<Rightarrow> string \<Rightarrow> instant \<Rightarrow> instant" where
  "abuse_deadline l key t =
     (let e = abuse_entry l key t in (if in_window l e t then iae_windowStart e else t) + window l)"

text \<open>
  A well-formed limiter, a named client, a clock past the zero time, and the client is
  stored or there is room for it.
\<close>

definition abuse_ok :: "invalidAuthAbuseLimiter \<Rightarrow> string \<Rightarrow> instant \<Rightarrow> bool" where
  "abuse_ok l key t \<longleftrightarrow> limiter_wf l \<and> key \<noteq> [] \<and> zero_time \<le> t \<and>
     (snd (prep l key t) \<noteq> None \<or> tracked (fst (prep l key t)) < capacity l)"

lemma maybeCleanup_recorded:
  "maybeCleanupAtCapacity (l\<lparr>recorded := n\<rparr>) t = (maybeCleanupAtCapacity l t)\<lparr>recorded := n\<rparr>"
  by (simp add: maybeCleanupAtCapacity_def Let_def entryExpired_def)

lemma take_entry_recorded:
  "take_entry (l\<lparr>recorded := n\<rparr>) key t =
     (case take_entry l key t of (l', eo) \<Rightarrow> (l'\<lparr>recorded := n\<rparr>, eo))"
  by (auto simp: take_entry_def Let_def entryExpired_def split: option.splits)

lemma aget_put_entry:
  "limiter_wf l' \<Longrightarrow> length (shards l) = 16 \<Longrightarrow> l' = put_entry l key e \<Longrightarrow>
   aget (shards l' ! shard_index key) key = Some e"
  by (simp add: put_entry_def Let_def amap_simps)

lemma aget_record_failure:
  assumes "length (shards l) = 16" and "\<not> now < iae_blockedUntil e"
  shows "aget (shards (record_failure l key e now) ! shard_index key) key =
      Some (fst (count_entry l e now))"
    and "same_settings l (record_failure l key e now)"
  using assms
  by (simp_all add: record_failure_def put_entry_def Let_def amap_simps same_settings_def
      split: prod.splits)

lemma same_settings_trans: "same_settings a b \<Longrightarrow> same_settings b c \<Longrightarrow> same_settings a c"
  by (simp add: same_settings_def)

lemma count_entry_settings: "same_settings l l' \<Longrightarrow> count_entry l' e t = count_entry l e t"
  by (simp add: count_entry_def same_settings_def Let_def)

lemma abuse_open_entry:
  assumes "abuse_ok l key t" and "\<not> abuse_blocked l key t"
  shows "\<not> t < iae_blockedUntil (abuse_entry l key t)"
  using assms
  by (auto simp: abuse_ok_def abuse_blocked_def abuse_entry_def check_def
      split: option.splits prod.splits if_splits)

lemma abuse_fail_entry:
  assumes ok: "abuse_ok l key t" and open_: "\<not> abuse_blocked l key t"
  shows "aget (shards (record_op l key t) ! shard_index key) key =
      Some (fst (count_entry l (abuse_entry l key t) t))"
    and "same_settings l (record_op l key t)"
proof -
  obtain l1 eo where prep: "prep l key t = (l1, eo)" by (cases "prep l key t")
  have wf: "limiter_wf (maybeCleanupAtCapacity l t)" and key: "key \<noteq> []"
    using ok by (auto simp: abuse_ok_def maybeCleanup_wf)
  have l1: "limiter_wf l1" "same_settings l l1" "length (shards l1) = 16"
    using take_entry_wf [OF wf prep] maybeCleanup_settings [of l t]
    by (auto simp: same_settings_def limiter_wf_def)
  let ?n = "recorded l + 1"
  let ?e = "abuse_entry l key t"
  have not: "\<not> t < iae_blockedUntil ?e" by (rule abuse_open_entry [OF ok open_])
  define l2 where "l2 = l1\<lparr>recorded := ?n, tracked := tracked l1 + (if eo = None then 1 else 0)\<rparr>"
  have op: "record_op l key t = record_failure l2 key ?e t"
    using key prep ok l1(2)
    by (cases eo)
       (auto simp: record_op_def Let_def maybeCleanup_recorded take_entry_recorded
         reserveEntry_def abuse_entry_def abuse_ok_def same_settings_def l2_def)
  have l2: "length (shards l2) = 16" "same_settings l l2"
    using l1 by (auto simp: l2_def same_settings_def)
  note after = aget_record_failure [OF l2(1) not]
  show "aget (shards (record_op l key t) ! shard_index key) key = Some (fst (count_entry l ?e t))"
    using after(1) by (simp only: op count_entry_settings [OF l2(2)])
  show "same_settings l (record_op l key t)"
    using same_settings_trans [OF l2(2) after(2)] by (simp only: op)
qed

text \<open>An entry that has not expired survives the sweep and is the one both operations see.\<close>

lemma prep_live:
  assumes wf: "limiter_wf l" and e: "aget (shards l ! shard_index key) key = Some e"
    and live: "\<not> entryExpired l e u"
  shows "snd (prep l key u) = Some e"
proof -
  let ?l = "maybeCleanupAtCapacity l u"
  have dist: "adistinct (shards l ! shard_index key)" and len: "length (shards l) = 16"
    using wf by (auto simp: limiter_wf_def shard_ok_def)
  have same: "entryExpired ?l e u = entryExpired l e u"
    using maybeCleanup_settings [of l u] by (simp add: entryExpired_def same_settings_def)
  have "aget (shards ?l ! shard_index key) key = Some e"
    using e live dist len
    by (cases "unat (cleanupCursor l mod 16) = shard_index key")
       (auto simp: maybeCleanupAtCapacity_def Let_def aget_filter)
  with same live show ?thesis by (simp add: take_entry_def Let_def)
qed

lemma abuse_blocked_of_entry:
  assumes "limiter_wf l" and "key \<noteq> []" and "aget (shards l ! shard_index key) key = Some e"
    and "u < iae_blockedUntil e"
  shows "abuse_blocked l key u"
proof -
  have "\<not> entryExpired l e u" using assms(4) by (simp add: entryExpired_def)
  from prep_live [OF assms(1,3) this] obtain l1 where "prep l key u = (l1, Some e)"
    by (cases "prep l key u") auto
  with assms show ?thesis by (simp add: abuse_blocked_def check_def)
qed

lemma abuse_live_entry:
  assumes wf: "limiter_wf l" and key: "key \<noteq> []"
    and e: "aget (shards l ! shard_index key) key = Some e"
    and win: "in_window l e u" and not: "\<not> u < iae_blockedUntil e" and "zero_time \<le> u"
  shows "abuse_ok l key u \<and> \<not> abuse_blocked l key u \<and>
    abuse_streak l key u = iae_failures e \<and>
    abuse_deadline l key u = iae_windowStart e + window l"
proof -
  have "\<not> entryExpired l e u" using win by (simp add: entryExpired_def in_window_def)
  from prep_live [OF wf e this] obtain l1 where "prep l key u = (l1, Some e)"
    by (cases "prep l key u") auto
  with assms show ?thesis
    by (simp add: abuse_ok_def abuse_blocked_def abuse_streak_def abuse_deadline_def
        abuse_entry_def check_def)
qed

lemma abuse_counts:
  assumes ok: "abuse_ok l key t" and open_: "\<not> abuse_blocked l key t"
    and few: "abuse_streak l key t + 1 < threshold l"
    and u: "t \<le> u" "u < abuse_deadline l key t"
  shows "abuse_ok (record_op l key t) key u \<and> \<not> abuse_blocked (record_op l key t) key u \<and>
    abuse_streak (record_op l key t) key u = abuse_streak l key t + 1 \<and>
    abuse_deadline (record_op l key t) key u = abuse_deadline l key t"
proof -
  let ?e0 = "abuse_entry l key t"
  let ?e = "fst (count_entry l ?e0 t)"
  note entry = abuse_fail_entry [OF ok open_]
  have e: "in_window l ?e u" "\<not> u < iae_blockedUntil ?e"
    "iae_failures ?e = abuse_streak l key t + 1"
    "iae_windowStart ?e + window l = abuse_deadline l key t"
    using few u abuse_open_entry [OF ok open_]
    by (auto simp: abuse_streak_def abuse_deadline_def count_entry_def Let_def in_window_def
        split: if_splits)
  have "limiter_wf (record_op l key t)" "key \<noteq> []" "zero_time \<le> u"
    using ok u(1) by (auto simp: abuse_ok_def record_wf)
  moreover have "window (record_op l key t) = window l"
    using entry(2) by (simp add: same_settings_def)
  ultimately show ?thesis
    using abuse_live_entry [OF _ _ entry(1), of u] e by (simp add: in_window_def)
qed

lemma abuse_trips:
  assumes ok: "abuse_ok l key t" and open_: "\<not> abuse_blocked l key t"
    and many: "threshold l \<le> abuse_streak l key t + 1"
    and u: "t \<le> u" "u < t + block l"
  shows "abuse_blocked (record_op l key t) key u"
proof -
  note entry = abuse_fail_entry [OF ok open_]
  have "limiter_wf (record_op l key t)" "key \<noteq> []"
    using ok by (auto simp: abuse_ok_def record_wf)
  moreover have "iae_blockedUntil (fst (count_entry l (abuse_entry l key t) t)) = t + block l"
    using many by (auto simp: abuse_streak_def count_entry_def Let_def in_window_def
        split: if_splits)
  ultimately show ?thesis
    using abuse_blocked_of_entry [OF _ _ entry(1)] u by simp
qed

lemma record_failure_settings: "same_settings l (record_failure l key e now)"
  by (simp add: record_failure_def put_entry_def Let_def same_settings_def split: prod.split)

lemma recordOverflow_settings: "same_settings l (recordOverflow l now)"
  by (simp add: recordOverflow_def Let_def same_settings_def)

lemma take_entry_settings: "same_settings l (fst (take_entry l key now))"
  by (simp add: take_entry_def Let_def same_settings_def split: option.split)

lemma record_settings: "same_settings l (record_op l key now)"
proof (cases "key = []")
  case True
  then show ?thesis by (simp add: record_op_def same_settings_def)
next
  case False
  obtain l1 eo where take: "prep (l\<lparr>recorded := recorded l + 1\<rparr>) key now = (l1, eo)"
    by (cases "prep (l\<lparr>recorded := recorded l + 1\<rparr>) key now")
  have l1: "same_settings l l1"
    using take_entry_settings [of "maybeCleanupAtCapacity (l\<lparr>recorded := recorded l + 1\<rparr>) now" key now]
      maybeCleanup_settings [of "l\<lparr>recorded := recorded l + 1\<rparr>" now] take
    by (simp add: same_settings_def)
  then have l2: "same_settings l (l1\<lparr>tracked := tracked l1 + 1\<rparr>)"
    by (simp add: same_settings_def)
  show ?thesis
    using take False same_settings_trans [OF l1 record_failure_settings]
      same_settings_trans [OF l2 record_failure_settings]
      same_settings_trans [OF l1 recordOverflow_settings]
    by (cases eo) (simp_all add: record_op_def Let_def reserveEntry_def)
qed

lemma abuse_keeps_settings:
  "threshold (record_op l key t) = threshold l \<and> block (record_op l key t) = block l"
  using record_settings [of l key t] by (simp add: same_settings_def)

interpretation iaa: attempt_guard record_op abuse_blocked abuse_streak abuse_deadline abuse_ok
  threshold block
  by unfold_locales (use abuse_counts abuse_trips abuse_keeps_settings in blast)+

section \<open>Properties\<close>

datatype abuse_op = CheckClient string instant | RecordFailure string instant

fun abuse_step :: "invalidAuthAbuseLimiter \<Rightarrow> abuse_op \<Rightarrow> invalidAuthAbuseLimiter" where
  "abuse_step l (CheckClient key now) = fst (check l key now)"
| "abuse_step l (RecordFailure key now) = record_op l key now"

lemma abuse_run_wf: "limiter_wf l \<Longrightarrow> limiter_wf (foldl abuse_step l ops)"
proof (induction ops arbitrary: l)
  case (Cons p ops)
  then have "limiter_wf (abuse_step l p)" by (cases p) (simp_all add: check_wf record_wf)
  with Cons.IH show ?case by simp
qed simp

lemma check_settings: "same_settings l (fst (check l key now))"
proof -
  obtain l1 eo where take: "prep l key now = (l1, eo)" by (cases "prep l key now")
  have "same_settings l l1"
    using same_settings_trans [OF maybeCleanup_settings take_entry_settings] take
    by (metis fst_conv)
  with take show ?thesis
    by (auto simp: check_def same_settings_def split: option.splits prod.splits)
qed

lemma abuse_run_settings: "same_settings l (foldl abuse_step l ops)"
proof (induction ops arbitrary: l)
  case (Cons p ops)
  have "same_settings l (abuse_step l p)"
    by (cases p) (simp_all add: check_settings record_settings)
  with Cons.IH [of "abuse_step l p"] show ?case by (simp add: same_settings_def)
qed (simp add: same_settings_def)

lemma new_limiter_wf: "newInvalidAuthAbuseLimiter cfg = Some l \<Longrightarrow> limiter_wf l"
  by (auto simp: newInvalidAuthAbuseLimiter_def limiter_wf_def shard_ok_def stored_def
      invalidAuthAbuseShardCount_def sum_list_replicate split: option.splits if_splits)

text \<open>
  C32: From a limiter built from a configuration, after any sequence of checks and recorded
  failures at any instants, the counter of tracked clients equals the number of stored
  entries and never exceeds the configured capacity.
\<close>

theorem abuse_tracked_exact:
  assumes "newInvalidAuthAbuseLimiter (Some c) = Some l"
  shows "tracked (foldl abuse_step l ops) = stored (shards (foldl abuse_step l ops)) \<and>
    tracked (foldl abuse_step l ops) \<le> cfg_Capacity c"
proof -
  have "capacity l = cfg_Capacity c"
    using assms by (auto simp: newInvalidAuthAbuseLimiter_def split: if_splits)
  then have "capacity (foldl abuse_step l ops) = cfg_Capacity c"
    using abuse_run_settings [of l ops] by (simp add: same_settings_def)
  then show ?thesis
    using abuse_run_wf [OF new_limiter_wf [OF assms], of ops] by (simp add: limiter_wf_def)
qed

definition sample_abuse_config :: invalidAbuseConfig where
  "sample_abuse_config = \<lparr>cfg_Enabled = True, cfg_Threshold = 2, cfg_WindowSeconds = 60,
     cfg_BlockSeconds = 300, cfg_Capacity = 1\<rparr>"

definition sample_limiter :: invalidAuthAbuseLimiter where
  "sample_limiter = the (newInvalidAuthAbuseLimiter (Some sample_abuse_config))"

lemma sample_limiter_new:
  "newInvalidAuthAbuseLimiter (Some sample_abuse_config) = Some sample_limiter"
  by (simp add: sample_limiter_def sample_abuse_config_def newInvalidAuthAbuseLimiter_def)

lemma sample_limiter_fields:
  "threshold sample_limiter = 2" "window sample_limiter = 60 * second"
  "block sample_limiter = 300 * second" "capacity sample_limiter = 1"
  "shards sample_limiter = replicate 16 []" "tracked sample_limiter = 0"
  by (simp_all add: sample_limiter_def sample_abuse_config_def newInvalidAuthAbuseLimiter_def
      invalidAuthAbuseShardCount_def second_def wrap64_def)

theorem abuse_tracked_exact_witness:
  "tracked (foldl abuse_step sample_limiter
     [RecordFailure ''10.0.0.1'' 0, RecordFailure ''10.0.0.2'' 1, CheckClient ''10.0.0.1'' 2]) \<le> 1"
  using abuse_tracked_exact [OF sample_limiter_new, of "[RecordFailure ''10.0.0.1'' 0,
      RecordFailure ''10.0.0.2'' 1, CheckClient ''10.0.0.1'' 2]"]
  by (simp add: sample_abuse_config_def)

text \<open>
  Threshold failures of a client inside one window lock it out: every check from the
  last of them until the block time has passed answers blocked.
\<close>

theorem abuse_burst_locks_out:
  assumes "abuse_ok l key t" and "\<not> snd (snd (check l key t))"
    and "sorted (t # ts)" and "\<forall>u \<in> set (t # ts). u < abuse_deadline l key t"
    and "abuse_streak l key t + int (length (t # ts)) = threshold l"
    and "last (t # ts) \<le> u" and "u < last (t # ts) + block l"
  shows "snd (snd (check (foldl (\<lambda>l t. record_op l key t) l (t # ts)) key u))"
  using iaa.burst_locks_out [of l key t ts u] assms by (simp add: abuse_blocked_def)

lemma sample_limiter_ok:
  "key \<noteq> [] \<Longrightarrow> abuse_ok sample_limiter key 0 \<and> \<not> abuse_blocked sample_limiter key 0 \<and>
   abuse_streak sample_limiter key 0 = 0 \<and> abuse_deadline sample_limiter key 0 = 60 * second"
  using new_limiter_wf [OF sample_limiter_new]
  by (simp add: abuse_ok_def abuse_blocked_def abuse_streak_def abuse_deadline_def abuse_entry_def
      check_def take_entry_def maybeCleanupAtCapacity_def sample_limiter_fields Let_def
      in_window_def zero_time_def)

theorem abuse_burst_locks_out_witness:
  "snd (snd (check (foldl (\<lambda>l t. record_op l ''10.0.0.1'' t) sample_limiter [0, 5 * second])
     ''10.0.0.1'' (60 * second)))"
  using abuse_burst_locks_out [of sample_limiter "''10.0.0.1''" 0 "[5 * second]" "60 * second"]
    sample_limiter_ok [of "''10.0.0.1''"]
  by (simp add: sample_limiter_fields abuse_blocked_def second_def)

text \<open>
  The global overflow lock never rejects a client that the limiter tracks: a client
  with a live entry that is not locked itself passes the check, whatever the overflow
  counter and the load.
\<close>

theorem overflow_spares_tracked:
  assumes "limiter_wf l" and "aget (shards l ! shard_index key) key = Some e"
    and "\<not> entryExpired l e now" and "\<not> now < iae_blockedUntil e"
  shows "snd (check l key now) = (0, False)"
proof -
  obtain l1 where "prep l key now = (l1, Some e)"
    using prep_live [OF assms(1,2,3)] by (cases "prep l key now") auto
  with assms(4) show ?thesis by (simp add: check_def)
qed

definition sample_overflow_limiter :: invalidAuthAbuseLimiter where
  "sample_overflow_limiter = sample_limiter
     \<lparr>shards := (replicate 16 [])[shard_index ''a'' :=
        [(''a'', \<lparr>iae_failures = 1, iae_windowStart = 0, iae_blockedUntil = zero_time\<rparr>)]],
      tracked := 1,
      overflow := \<lparr>iao_failures = 0, iao_windowStart = 300 * second,
                   iao_blockedUntil = 300 * second\<rparr>\<rparr>"

lemma sample_overflow_wf: "limiter_wf sample_overflow_limiter"
proof -
  have "\<forall>i < 16. shard_ok 2 i ((replicate 16 [])[shard_index ''a'' :=
      [(''a'', \<lparr>iae_failures = 1, iae_windowStart = 0, iae_blockedUntil = zero_time\<rparr>)]] ! i)"
    by (rule shards_ok_update) (auto simp: shard_ok_def)
  moreover have "stored ((replicate 16 [])[shard_index ''a'' :=
      [(''a'', \<lparr>iae_failures = 1, iae_windowStart = 0, iae_blockedUntil = zero_time\<rparr>)]]) = 1"
    by (subst stored_update) (simp_all add: stored_def sum_list_replicate)
  ultimately show ?thesis
    by (simp add: limiter_wf_def sample_overflow_limiter_def sample_limiter_fields)
qed

theorem overflow_spares_tracked_witness:
  "snd (check sample_overflow_limiter ''a'' 1) = (0, False) \<and>
   snd (checkOverflow sample_overflow_limiter 1)"
proof
  show "snd (check sample_overflow_limiter ''a'' 1) = (0, False)"
    by (rule overflow_spares_tracked [OF sample_overflow_wf,
          of _ "\<lparr>iae_failures = 1, iae_windowStart = 0, iae_blockedUntil = zero_time\<rparr>"])
       (simp_all add: sample_overflow_limiter_def entryExpired_def sample_limiter_fields
         second_def zero_time_def)
  show "snd (checkOverflow sample_overflow_limiter 1)"
    by (simp add: checkOverflow_def sample_overflow_limiter_def second_def)
qed

end
