(* ===== verification/Proxy_Stream_Circuit.thy ===== *)
theory Proxy_Stream_Circuit
  imports Gateway_Prelude
begin

text \<open>
  The circuit that quarantines a proxy whose upstream streams break
  (service/openai_proxy_stream_circuit.go). Failures are counted per proxy in a window;
  failures close together count as one; reaching the threshold blocks the proxy for a fixed
  time. The store of entries is bounded. The mutex makes each method atomic, so a method is
  a function from the state and the instant to the new state and the result; a nil circuit
  is \<open>None\<close> in the callers at the end. The list order of the entries stands for the
  order of the range loops.
\<close>

definition defaultOpenAIProxyStreamFailureThreshold :: int where
  "defaultOpenAIProxyStreamFailureThreshold = 2"
definition defaultOpenAIProxyStreamFailureWindow :: duration where
  "defaultOpenAIProxyStreamFailureWindow = minute"
definition defaultOpenAIProxyStreamQuarantineTTL :: duration where
  "defaultOpenAIProxyStreamQuarantineTTL = 10 * minute"
definition defaultOpenAIProxyStreamCircuitMaxEntries :: int where
  "defaultOpenAIProxyStreamCircuitMaxEntries = 4096"
definition defaultOpenAIProxyStreamFailureCollapse :: duration where
  "defaultOpenAIProxyStreamFailureCollapse = 3 * second"
definition openAIProxyStreamFailOpenLogInterval :: duration where
  "openAIProxyStreamFailOpenLogInterval = 5 * second"

lemmas psc_defaults = defaultOpenAIProxyStreamFailureThreshold_def
  defaultOpenAIProxyStreamFailureWindow_def defaultOpenAIProxyStreamQuarantineTTL_def
  defaultOpenAIProxyStreamCircuitMaxEntries_def defaultOpenAIProxyStreamFailureCollapse_def
  duration_units

record openAIProxyStreamCircuitSettings =
  disabled :: bool
  failureThreshold :: int
  failureWindow :: duration
  quarantineTTL :: duration
  collapseInterval :: duration
  maxEntries :: int

record openAIProxyStreamCircuitEntry =
  failureCount :: int
  windowStart :: instant
  lastFailureAt :: instant
  blockedUntil :: instant
  lastTouched :: instant

record openAIProxyStreamCircuit =
  settings :: openAIProxyStreamCircuitSettings
  entries :: "(int, openAIProxyStreamCircuitEntry) amap"

text \<open>The part of the gateway configuration that the settings come from.\<close>

record proxyStreamCircuitConfig =
  cfg_Disabled :: bool
  cfg_FailureThreshold :: int
  cfg_WindowSeconds :: int
  cfg_TTLSeconds :: int

definition resolveOpenAIProxyStreamCircuitSettings ::
    "proxyStreamCircuitConfig option \<Rightarrow> openAIProxyStreamCircuitSettings" where
  "resolveOpenAIProxyStreamCircuitSettings cfg_opt =
     (let st = \<lparr>disabled = False,
                failureThreshold = defaultOpenAIProxyStreamFailureThreshold,
                failureWindow = defaultOpenAIProxyStreamFailureWindow,
                quarantineTTL = defaultOpenAIProxyStreamQuarantineTTL,
                collapseInterval = defaultOpenAIProxyStreamFailureCollapse,
                maxEntries = defaultOpenAIProxyStreamCircuitMaxEntries\<rparr>
      in case cfg_opt of None \<Rightarrow> st
         | Some cfg \<Rightarrow> st\<lparr>
             disabled := cfg_Disabled cfg,
             failureThreshold := (if cfg_FailureThreshold cfg > 0 then cfg_FailureThreshold cfg
                                  else failureThreshold st),
             failureWindow := (if cfg_WindowSeconds cfg > 0
                               then wrap64 (cfg_WindowSeconds cfg * second) else failureWindow st),
             quarantineTTL := (if cfg_TTLSeconds cfg > 0
                               then wrap64 (cfg_TTLSeconds cfg * second) else quarantineTTL st)\<rparr>)"

definition newOpenAIProxyStreamCircuit ::
    "openAIProxyStreamCircuitSettings \<Rightarrow> openAIProxyStreamCircuit" where
  "newOpenAIProxyStreamCircuit st =
     \<lparr>settings = st\<lparr>
        failureThreshold := (if failureThreshold st \<le> 0
          then defaultOpenAIProxyStreamFailureThreshold else failureThreshold st),
        failureWindow := (if failureWindow st \<le> 0
          then defaultOpenAIProxyStreamFailureWindow else failureWindow st),
        quarantineTTL := (if quarantineTTL st \<le> 0
          then defaultOpenAIProxyStreamQuarantineTTL else quarantineTTL st),
        maxEntries := (if maxEntries st \<le> 0
          then defaultOpenAIProxyStreamCircuitMaxEntries else maxEntries st),
        collapseInterval := (if collapseInterval st < 0 then 0 else collapseInterval st)\<rparr>,
      entries = []\<rparr>"

text \<open>The condition under which the first range loop drops an entry.\<close>

definition expired_entry ::
    "openAIProxyStreamCircuitSettings \<Rightarrow> instant \<Rightarrow> openAIProxyStreamCircuitEntry \<Rightarrow> bool" where
  "expired_entry st now entry =
     (let staleObservation = blockedUntil entry = zero_time \<and>
           failureWindow st < time_sub now (lastTouched entry);
         expiredQuarantine = blockedUntil entry \<noteq> zero_time \<and> \<not> now < blockedUntil entry
      in staleObservation \<or> expiredQuarantine)"

text \<open>The visit of the second range loop: the entry touched longest ago.\<close>

definition visit_oldest :: "int \<times> instant \<Rightarrow> int \<times> openAIProxyStreamCircuitEntry \<Rightarrow> int \<times> instant" where
  "visit_oldest = (\<lambda>(oldestProxyID, oldest) (proxyID, entry).
      if oldestProxyID = 0 \<or> lastTouched entry < oldest
      then (proxyID, lastTouched entry) else (oldestProxyID, oldest))"

definition oldest_entry :: "(int, openAIProxyStreamCircuitEntry) amap \<Rightarrow> int \<times> instant" where
  "oldest_entry es = foldl visit_oldest (0, zero_time) es"

definition ensureCapacityLocked :: "openAIProxyStreamCircuit \<Rightarrow> instant \<Rightarrow> openAIProxyStreamCircuit" where
  "ensureCapacityLocked c now =
     (if int (length (entries c)) < maxEntries (settings c) then c
      else (let kept = filter (\<lambda>(proxyID, entry). \<not> expired_entry (settings c) now entry) (entries c)
            in if int (length kept) < maxEntries (settings c) then c\<lparr>entries := kept\<rparr>
               else (let oldestProxyID = fst (oldest_entry kept)
                     in if 0 < oldestProxyID then c\<lparr>entries := adel oldestProxyID kept\<rparr>
                        else c\<lparr>entries := kept\<rparr>)))"

definition zero_entry :: openAIProxyStreamCircuitEntry where
  "zero_entry = \<lparr>failureCount = 0, windowStart = zero_time, lastFailureAt = zero_time,
     blockedUntil = zero_time, lastTouched = zero_time\<rparr>"

text \<open>The step of recordFailure after the guards, on the entry of the proxy.\<close>

definition count_failure :: "openAIProxyStreamCircuitSettings \<Rightarrow> openAIProxyStreamCircuitEntry \<Rightarrow>
    instant \<Rightarrow> openAIProxyStreamCircuitEntry \<times> bool \<times> instant" where
  "count_failure st e0 now =
     (let e1 = (if windowStart e0 = zero_time \<or> now < windowStart e0 \<or>
                   failureWindow st < time_sub now (windowStart e0)
                then e0\<lparr>failureCount := 0, windowStart := now, blockedUntil := zero_time\<rparr> else e0)
      in if 0 < collapseInterval st \<and> lastFailureAt e1 \<noteq> zero_time \<and>
            0 \<le> time_sub now (lastFailureAt e1) \<and>
            time_sub now (lastFailureAt e1) < collapseInterval st
         then (e1\<lparr>lastTouched := now\<rparr>, False, zero_time)
         else (let e2 = e1\<lparr>failureCount := failureCount e1 + 1, lastFailureAt := now,
                           lastTouched := now\<rparr>;
                   tripped = failureThreshold st \<le> failureCount e2;
                   e3 = (if tripped then e2\<lparr>blockedUntil := now + quarantineTTL st\<rparr> else e2)
               in (e3, tripped, blockedUntil e3)))"

definition recordFailure :: "openAIProxyStreamCircuit \<Rightarrow> int \<Rightarrow> instant \<Rightarrow>
    openAIProxyStreamCircuit \<times> bool \<times> instant" where
  "recordFailure c proxyID now =
     (if disabled (settings c) \<or> proxyID \<le> 0 then (c, False, zero_time)
      else case aget (entries c) proxyID of
        Some entry \<Rightarrow>
          if now < blockedUntil entry
          then (c\<lparr>entries := aput proxyID (entry\<lparr>lastTouched := now\<rparr>) (entries c)\<rparr>,
                False, blockedUntil entry)
          else (case count_failure (settings c) entry now of (e, r) \<Rightarrow>
                  (c\<lparr>entries := aput proxyID e (entries c)\<rparr>, r))
      | None \<Rightarrow>
          (case count_failure (settings c) zero_entry now of (e, r) \<Rightarrow>
             (let c1 = ensureCapacityLocked c now
              in (c1\<lparr>entries := aput proxyID e (entries c1)\<rparr>, r))))"

definition recordSuccess :: "openAIProxyStreamCircuit \<Rightarrow> int \<Rightarrow> openAIProxyStreamCircuit \<times> bool" where
  "recordSuccess c proxyID =
     (if proxyID \<le> 0 then (c, False)
      else if aget (entries c) proxyID = None then (c, False)
      else (c\<lparr>entries := adel proxyID (entries c)\<rparr>, True))"

definition isBlocked :: "openAIProxyStreamCircuit \<Rightarrow> int \<Rightarrow> instant \<Rightarrow> openAIProxyStreamCircuit \<times> bool" where
  "isBlocked c proxyID now =
     (if disabled (settings c) \<or> proxyID \<le> 0 then (c, False)
      else case aget (entries c) proxyID of
        None \<Rightarrow> (c, False)
      | Some entry \<Rightarrow>
          if blockedUntil entry = zero_time then (c, False)
          else if \<not> now < blockedUntil entry
          then (c\<lparr>entries := adel proxyID (entries c)\<rparr>, False)
          else (c, True))"

definition activeBlockCount :: "openAIProxyStreamCircuit \<Rightarrow> instant \<Rightarrow> nat" where
  "activeBlockCount c now =
     (if disabled (settings c) then 0
      else foldl (\<lambda>count (proxyID, entry).
             if blockedUntil entry \<noteq> zero_time \<and> now < blockedUntil entry
             then count + 1 else count) 0 (entries c))"

section \<open>The callers in the gateway service\<close>

text \<open>The fields of an account that the circuit reads.\<close>

record circuit_account =
  Platform :: string
  ProxyID :: "int option"

definition PlatformOpenAI :: string where "PlatformOpenAI = ''openai''"

definition openAIProxyStreamCircuitProxyID :: "circuit_account option \<Rightarrow> int option" where
  "openAIProxyStreamCircuitProxyID account =
     (case account of None \<Rightarrow> None
      | Some a \<Rightarrow>
          if Platform a \<noteq> PlatformOpenAI then None
          else (case ProxyID a of None \<Rightarrow> None
                | Some p \<Rightarrow> if p \<le> 0 then None else Some p))"

text \<open>What the wrapper distinguishes of the error that ended a stream.\<close>

datatype stream_error = NoError | ContextCanceled | ContextDeadlineExceeded | OtherStreamError

definition recordOpenAIProxyStreamDisconnect ::
    "openAIProxyStreamCircuit \<Rightarrow> circuit_account option \<Rightarrow> stream_error \<Rightarrow> instant \<Rightarrow>
     openAIProxyStreamCircuit" where
  "recordOpenAIProxyStreamDisconnect c account streamErr now =
     (case openAIProxyStreamCircuitProxyID account of
        None \<Rightarrow> c
      | Some proxyID \<Rightarrow>
          if streamErr = NoError \<or> streamErr = ContextCanceled \<or> streamErr = ContextDeadlineExceeded
          then c else fst (recordFailure c proxyID now))"

definition clearOpenAIProxyStreamDisconnect ::
    "openAIProxyStreamCircuit \<Rightarrow> circuit_account option \<Rightarrow> openAIProxyStreamCircuit" where
  "clearOpenAIProxyStreamDisconnect c account =
     (case openAIProxyStreamCircuitProxyID account of
        None \<Rightarrow> c | Some proxyID \<Rightarrow> fst (recordSuccess c proxyID))"

text \<open>The second argument is the bypass mark of the request's context.\<close>

definition isOpenAIProxyStreamQuarantined ::
    "openAIProxyStreamCircuit \<Rightarrow> bool \<Rightarrow> circuit_account option \<Rightarrow> instant \<Rightarrow>
     openAIProxyStreamCircuit \<times> bool" where
  "isOpenAIProxyStreamQuarantined c bypassed account now =
     (case openAIProxyStreamCircuitProxyID account of
        None \<Rightarrow> (c, False)
      | Some proxyID \<Rightarrow> if bypassed then (c, False) else isBlocked c proxyID now)"

section \<open>Invariant\<close>

text \<open>
  The keys are distinct and positive, and there are at most \<open>maxEntries\<close> of them.
\<close>

definition circuit_wf :: "openAIProxyStreamCircuit \<Rightarrow> bool" where
  "circuit_wf c \<longleftrightarrow> adistinct (entries c) \<and> (\<forall>proxyID \<in> akeys (entries c). 0 < proxyID) \<and>
     0 < maxEntries (settings c) \<and> int (length (entries c)) \<le> maxEntries (settings c)"

lemma new_circuit_wf: "circuit_wf (newOpenAIProxyStreamCircuit st)"
  by (simp add: circuit_wf_def newOpenAIProxyStreamCircuit_def psc_defaults)

text \<open>The visit of a non-empty map ends at one of its keys.\<close>

lemma visit_oldest_step: "fst (visit_oldest p q) = fst p \<or> fst (visit_oldest p q) = fst q"
  by (auto simp: visit_oldest_def split: prod.splits)

lemma visit_oldest_key: "fst (foldl visit_oldest p es) \<in> insert (fst p) (akeys es)"
proof (induction es arbitrary: p)
  case (Cons q es)
  have "fst (foldl visit_oldest (visit_oldest p q) es)
      \<in> insert (fst (visit_oldest p q)) (akeys es)" by (rule Cons.IH)
  with visit_oldest_step [of p q] show ?case
    by (elim disjE) auto
qed simp

lemma oldest_entry_key:
  assumes "es \<noteq> []"
  shows "fst (oldest_entry es) \<in> akeys es"
proof -
  obtain k e es' where es: "es = (k, e) # es'" using assms by (metis list.exhaust surj_pair)
  have "oldest_entry es = foldl visit_oldest (k, lastTouched e) es'"
    by (simp add: oldest_entry_def visit_oldest_def es)
  then show ?thesis using visit_oldest_key [of "(k, lastTouched e)" es'] by (simp add: es)
qed

lemma ensureCapacity_room:
  assumes "circuit_wf c"
  shows "circuit_wf (ensureCapacityLocked c now) \<and>
    int (length (entries (ensureCapacityLocked c now))) < maxEntries (settings c) \<and>
    settings (ensureCapacityLocked c now) = settings c \<and>
    akeys (entries (ensureCapacityLocked c now)) \<subseteq> akeys (entries c)"
proof (cases "int (length (entries c)) < maxEntries (settings c)")
  case True
  with assms show ?thesis by (simp add: ensureCapacityLocked_def)
next
  case full: False
  define kept where "kept =
    filter (\<lambda>(proxyID, entry). \<not> expired_entry (settings c) now entry) (entries c)"
  have dist: "adistinct kept" and sub: "akeys kept \<subseteq> akeys (entries c)"
    using assms by (auto simp: kept_def circuit_wf_def adistinct_filter)
  have pos: "\<forall>proxyID \<in> akeys kept. 0 < proxyID"
    using assms by (auto simp: kept_def circuit_wf_def)
  have "length kept \<le> length (entries c)" unfolding kept_def by (rule length_filter_le)
  with assms have len: "int (length kept) \<le> maxEntries (settings c)"
    by (simp add: circuit_wf_def)
  have result: "ensureCapacityLocked c now =
     (if int (length kept) < maxEntries (settings c) then c\<lparr>entries := kept\<rparr>
      else if 0 < fst (oldest_entry kept)
      then c\<lparr>entries := adel (fst (oldest_entry kept)) kept\<rparr> else c\<lparr>entries := kept\<rparr>)"
    using full by (simp add: ensureCapacityLocked_def kept_def Let_def)
  show ?thesis
  proof (cases "int (length kept) < maxEntries (settings c)")
    case True
    with assms dist sub pos show ?thesis unfolding result by (simp add: circuit_wf_def)
  next
    case False
    then have "kept \<noteq> []" using assms by (auto simp: circuit_wf_def)
    then have key: "fst (oldest_entry kept) \<in> akeys kept" by (rule oldest_entry_key)
    with pos have first: "0 < fst (oldest_entry kept)" by blast
    have "int (length (adel (fst (oldest_entry kept)) kept)) < maxEntries (settings c)"
      using length_adel_old [OF dist key] \<open>kept \<noteq> []\<close> len by (cases kept) simp_all
    moreover have "akeys (adel (fst (oldest_entry kept)) kept) \<subseteq> akeys kept"
      by (simp add: amap_simps)
    moreover have "circuit_wf (c\<lparr>entries := adel (fst (oldest_entry kept)) kept\<rparr>)"
      using calculation assms adistinct_adel [OF dist, of "fst (oldest_entry kept)"] pos
      by (auto simp: circuit_wf_def amap_simps)
    ultimately have "circuit_wf (c\<lparr>entries := adel (fst (oldest_entry kept)) kept\<rparr>)"
      "akeys (adel (fst (oldest_entry kept)) kept) \<subseteq> akeys (entries c)"
      "int (length (adel (fst (oldest_entry kept)) kept)) < maxEntries (settings c)"
      using sub by blast+
    with False first show ?thesis unfolding result by simp
  qed
qed

lemma recordFailure_settings [simp]: "settings (fst (recordFailure c proxyID now)) = settings c"
  by (auto simp: recordFailure_def ensureCapacityLocked_def Let_def split: option.splits prod.splits)

lemma circuit_wf_aput:
  assumes "circuit_wf c" and "0 < proxyID"
    and "proxyID \<in> akeys (entries c) \<or> int (length (entries c)) < maxEntries (settings c)"
  shows "circuit_wf (c\<lparr>entries := aput proxyID e (entries c)\<rparr>)"
proof -
  have "int (length (aput proxyID e (entries c))) \<le> maxEntries (settings c)"
    using assms by (cases "proxyID \<in> akeys (entries c)")
      (simp_all add: circuit_wf_def length_aput_old length_aput_new)
  with assms show ?thesis by (simp add: circuit_wf_def amap_simps adistinct_aput)
qed

lemma circuit_wf_adel: "circuit_wf c \<Longrightarrow> circuit_wf (c\<lparr>entries := adel proxyID (entries c)\<rparr>)"
  using length_adel_le [of proxyID "entries c"]
  by (auto simp: circuit_wf_def amap_simps adistinct_adel)

lemma recordFailure_wf [wf_intros]:
  assumes "circuit_wf c"
  shows "circuit_wf (fst (recordFailure c proxyID now))"
proof (cases "disabled (settings c) \<or> proxyID \<le> 0")
  case True
  with assms show ?thesis by (simp add: recordFailure_def)
next
  case False
  show ?thesis
  proof (cases "aget (entries c) proxyID")
    case None
    with False assms show ?thesis
      using ensureCapacity_room [OF assms, of now]
      by (auto simp: recordFailure_def Let_def split: prod.splits intro!: circuit_wf_aput)
  next
    case (Some e)
    with False assms aget_Some_akeys [OF Some] show ?thesis
      by (auto simp: recordFailure_def split: prod.splits intro!: circuit_wf_aput)
  qed
qed

lemma recordSuccess_wf [wf_intros]: "circuit_wf c \<Longrightarrow> circuit_wf (fst (recordSuccess c proxyID))"
  by (simp add: recordSuccess_def circuit_wf_adel)

lemma isBlocked_wf [wf_intros]: "circuit_wf c \<Longrightarrow> circuit_wf (fst (isBlocked c proxyID now))"
  by (auto simp: isBlocked_def circuit_wf_adel split: option.splits)

section \<open>Runs\<close>

datatype circuit_op =
    Disconnect int instant
  | Recover int
  | Query int instant

fun circuit_step :: "openAIProxyStreamCircuit \<Rightarrow> circuit_op \<Rightarrow> openAIProxyStreamCircuit" where
  "circuit_step c (Disconnect proxyID now) = fst (recordFailure c proxyID now)"
| "circuit_step c (Recover proxyID) = fst (recordSuccess c proxyID)"
| "circuit_step c (Query proxyID now) = fst (isBlocked c proxyID now)"

lemma circuit_step_wf:
  assumes "circuit_wf c"
  shows "circuit_wf (circuit_step c p) \<and> settings (circuit_step c p) = settings c"
proof (cases p)
  case (Disconnect proxyID now)
  with assms show ?thesis by (simp add: recordFailure_wf)
next
  case (Recover proxyID)
  with recordSuccess_wf [OF assms] show ?thesis by (simp add: recordSuccess_def)
next
  case (Query proxyID now)
  moreover have "settings (fst (isBlocked c proxyID now)) = settings c"
    by (simp add: isBlocked_def split: option.splits)
  ultimately show ?thesis using isBlocked_wf [OF assms] by simp
qed

lemma circuit_run_wf:
  "circuit_wf c \<Longrightarrow>
   circuit_wf (foldl circuit_step c ops) \<and> settings (foldl circuit_step c ops) = settings c"
proof (induction ops arbitrary: c)
  case (Cons p ops)
  then show ?case using circuit_step_wf [OF Cons.prems, of p] by simp
qed simp

text \<open>
  Whatever sequence of disconnects, recoveries and queries runs on a new circuit, with
  whatever settings and in whatever order of instants, it stores every proxy at most once,
  only positive ids, and never more than the configured number of entries (4096 when the
  setting is not positive); the settings do not change.
\<close>

theorem circuit_store_bounded:
  "let c = foldl circuit_step (newOpenAIProxyStreamCircuit st) ops
   in adistinct (entries c) \<and> list_all (\<lambda>(proxyID, _). 0 < proxyID) (entries c) \<and>
      int (length (entries c)) \<le> (if maxEntries st \<le> 0 then 4096 else maxEntries st) \<and>
      settings c = settings (newOpenAIProxyStreamCircuit st)"
proof -
  define c where "c = foldl circuit_step (newOpenAIProxyStreamCircuit st) ops"
  have "circuit_wf c \<and> settings c = settings (newOpenAIProxyStreamCircuit st)"
    unfolding c_def by (rule circuit_run_wf [OF new_circuit_wf])
  moreover have "maxEntries (settings (newOpenAIProxyStreamCircuit st)) =
      (if maxEntries st \<le> 0 then 4096 else maxEntries st)"
    by (simp add: newOpenAIProxyStreamCircuit_def psc_defaults)
  ultimately show ?thesis
    unfolding c_def [symmetric] Let_def list_all_iff by (auto simp: circuit_wf_def)
qed

text \<open>A stored quarantine, and the disconnects that arrive while it lasts.\<close>

definition quarantined_until :: "openAIProxyStreamCircuit \<Rightarrow> int \<Rightarrow> instant \<Rightarrow> bool" where
  "quarantined_until c proxyID until \<longleftrightarrow> \<not> disabled (settings c) \<and> 0 < proxyID \<and>
     until \<noteq> zero_time \<and> map_option blockedUntil (aget (entries c) proxyID) = Some until"

lemma quarantine_answer:
  "quarantined_until c proxyID until \<Longrightarrow> snd (isBlocked c proxyID u) \<longleftrightarrow> u < until"
  by (cases "aget (entries c) proxyID") (simp_all add: quarantined_until_def isBlocked_def)

lemma quarantine_stable:
  "quarantined_until c proxyID until \<Longrightarrow> \<forall>u \<in> set us. u < until \<Longrightarrow>
   quarantined_until (foldl (\<lambda>c u. fst (recordFailure c proxyID u)) c us) proxyID until"
proof (induction us arbitrary: c)
  case (Cons u us)
  then have "quarantined_until (fst (recordFailure c proxyID u)) proxyID until"
    by (auto simp: quarantined_until_def recordFailure_def amap_simps)
  with Cons show ?case by simp
qed simp

text \<open>A failure of a proxy that is not blocked, through its entry.\<close>

definition circuit_entry :: "openAIProxyStreamCircuit \<Rightarrow> int \<Rightarrow> openAIProxyStreamCircuitEntry" where
  "circuit_entry c proxyID = (case aget (entries c) proxyID of None \<Rightarrow> zero_entry | Some e \<Rightarrow> e)"

lemma recordFailure_entry:
  assumes "\<not> disabled (settings c)" and "0 < proxyID"
    and "\<not> now < blockedUntil (circuit_entry c proxyID)"
  shows "snd (recordFailure c proxyID now) =
      snd (count_failure (settings c) (circuit_entry c proxyID) now) \<and>
    aget (entries (fst (recordFailure c proxyID now))) proxyID =
      Some (fst (count_failure (settings c) (circuit_entry c proxyID) now))"
  using assms
  by (cases "aget (entries c) proxyID")
     (simp_all add: recordFailure_def circuit_entry_def amap_simps Let_def split: prod.split)

lemma count_failure_trip:
  "fst (snd (count_failure st e t)) \<Longrightarrow>
   snd (snd (count_failure st e t)) = t + quarantineTTL st \<and>
   blockedUntil (fst (count_failure st e t)) = t + quarantineTTL st"
  by (auto simp: count_failure_def Let_def split: if_splits)

lemma trip_unblocked:
  assumes "fst (snd (recordFailure c proxyID t))" and "zero_time < t"
  shows "\<not> disabled (settings c) \<and> 0 < proxyID \<and> \<not> t < blockedUntil (circuit_entry c proxyID)"
  using assms
  by (auto simp: recordFailure_def circuit_entry_def zero_entry_def split: if_splits option.splits)

lemma trip_quarantines:
  assumes "recordFailure c proxyID t = (c', True, until)"
    and "0 < quarantineTTL (settings c)" and "zero_time < t"
  shows "until = t + quarantineTTL (settings c) \<and> quarantined_until c' proxyID until"
proof -
  from assms have open_: "\<not> disabled (settings c)" "0 < proxyID"
      "\<not> t < blockedUntil (circuit_entry c proxyID)"
    using trip_unblocked [of c proxyID t] by simp_all
  moreover from assms(1) have "settings c' = settings c"
    using recordFailure_settings [of c proxyID t] by simp
  moreover have counted: "snd (count_failure (settings c) (circuit_entry c proxyID) t) = (True, until)"
    and stored: "aget (entries c') proxyID =
      Some (fst (count_failure (settings c) (circuit_entry c proxyID) t))"
    using recordFailure_entry [OF open_] assms(1) by simp_all
  moreover have "until = t + quarantineTTL (settings c) \<and>
      blockedUntil (fst (count_failure (settings c) (circuit_entry c proxyID) t)) = until"
    using count_failure_trip [of "settings c" "circuit_entry c proxyID" t] by (simp add: counted)
  ultimately show ?thesis using assms(2,3) by (simp add: quarantined_until_def)
qed

text \<open>
  C34: The disconnect that trips the circuit quarantines its proxy for exactly the
  quarantine time: the end reported is the instant of the trip plus that time, and whatever
  further disconnects of the proxy arrive before the end, afterwards the proxy is blocked
  at an instant if and only if it lies before that end. The disconnects do not extend it.
\<close>

theorem quarantine_lasts_ttl:
  assumes "recordFailure c proxyID t = (c', True, until)"
    and "0 < quarantineTTL (settings c)" and "zero_time < t"
    and "\<forall>u \<in> set us. u < until"
  shows "until = t + quarantineTTL (settings c) \<and>
    (snd (isBlocked (foldl (\<lambda>c u. fst (recordFailure c proxyID u)) c' us) proxyID now)
      \<longleftrightarrow> now < t + quarantineTTL (settings c))"
  using trip_quarantines [OF assms(1-3)] quarantine_answer [OF quarantine_stable] assms(4)
  by blast

definition default_circuit :: openAIProxyStreamCircuit where
  "default_circuit = newOpenAIProxyStreamCircuit (resolveOpenAIProxyStreamCircuitSettings None)"

lemmas circuit_run_simps = default_circuit_def newOpenAIProxyStreamCircuit_def
  resolveOpenAIProxyStreamCircuitSettings_def recordFailure_def count_failure_def
  ensureCapacityLocked_def zero_entry_def psc_defaults zero_time_def time_sub_def
  min_int64_def max_int64_def Let_def

lemma default_circuit_trip:
  "recordFailure (fst (recordFailure default_circuit 7 0)) 7 (5 * second) =
     (fst (recordFailure (fst (recordFailure default_circuit 7 0)) 7 (5 * second)), True,
      605 * second)"
  by (simp add: circuit_run_simps)

theorem quarantine_lasts_ttl_witness:
  "\<not> snd (isBlocked (foldl (\<lambda>c u. fst (recordFailure c 7 u))
      (fst (recordFailure (fst (recordFailure default_circuit 7 0)) 7 (5 * second)))
      [6 * second, 400 * second]) 7 (605 * second))"
  using quarantine_lasts_ttl [OF default_circuit_trip, of "[6 * second, 400 * second]" "605 * second"]
  by (simp add: second_def zero_time_def default_circuit_def newOpenAIProxyStreamCircuit_def
      resolveOpenAIProxyStreamCircuitSettings_def psc_defaults)

text \<open>The entry left by a burst: one failure counted, at its start.\<close>

definition burst_entry :: "instant \<Rightarrow> openAIProxyStreamCircuitEntry \<Rightarrow> bool" where
  "burst_entry t e \<longleftrightarrow> failureCount e = 1 \<and> windowStart e = t \<and> lastFailureAt e = t \<and>
     blockedUntil e = zero_time"

definition in_burst :: "openAIProxyStreamCircuit \<Rightarrow> int \<Rightarrow> instant \<Rightarrow> bool" where
  "in_burst c proxyID t \<longleftrightarrow> \<not> disabled (settings c) \<and> 0 < proxyID \<and> zero_time < t \<and>
     0 < collapseInterval (settings c) \<and>
     collapseInterval (settings c) \<le> failureWindow (settings c) \<and>
     failureWindow (settings c) < max_int64 \<and> pred_option (burst_entry t) (aget (entries c) proxyID) \<and>
     aget (entries c) proxyID \<noteq> None"

lemma count_first_failure:
  "1 < failureThreshold st \<Longrightarrow> burst_entry t (fst (count_failure st zero_entry t))"
  by (simp add: count_failure_def zero_entry_def burst_entry_def Let_def)

lemma count_in_burst:
  assumes "burst_entry t e" and "zero_time < t" and "t \<le> u" and "u - t < collapseInterval st"
    and "collapseInterval st \<le> failureWindow st" and "failureWindow st < max_int64"
  shows "burst_entry t (fst (count_failure st e u)) \<and> \<not> fst (snd (count_failure st e u))"
  using assms
  by (simp add: burst_entry_def count_failure_def Let_def time_sub_nonneg time_sub_less
      less_time_sub min_int64_def max_int64_def)

lemma count_after_burst:
  assumes "burst_entry t e" and "zero_time < t" and "collapseInterval st \<le> u - t"
    and "u - t \<le> failureWindow st" and "0 < collapseInterval st" and "failureWindow st < max_int64"
  shows "fst (snd (count_failure st e u)) \<longleftrightarrow> failureThreshold st \<le> 2"
  using assms
  by (simp add: burst_entry_def count_failure_def Let_def time_sub_nonneg time_sub_less
      less_time_sub min_int64_def max_int64_def)

lemma in_burst_entry:
  assumes "in_burst c proxyID t" and "t \<le> u"
  shows "burst_entry t (circuit_entry c proxyID) \<and> \<not> u < blockedUntil (circuit_entry c proxyID)"
  using assms by (cases "aget (entries c) proxyID")
    (simp_all add: in_burst_def circuit_entry_def burst_entry_def)

lemma burst_stays:
  assumes "in_burst c proxyID t" and "t \<le> u" and "u - t < collapseInterval (settings c)"
  shows "in_burst (fst (recordFailure c proxyID u)) proxyID t \<and>
    \<not> fst (snd (recordFailure c proxyID u))"
  using assms in_burst_entry [OF assms(1,2)] recordFailure_entry [of c proxyID u]
    count_in_burst [of t "circuit_entry c proxyID" u "settings c"]
  by (simp add: in_burst_def)

lemma burst_run:
  assumes "in_burst c proxyID t"
    and "\<forall>u \<in> set us. t \<le> u \<and> u - t < collapseInterval (settings c)"
  shows "in_burst (foldl (\<lambda>c u. fst (recordFailure c proxyID u)) c us) proxyID t \<and>
    settings (foldl (\<lambda>c u. fst (recordFailure c proxyID u)) c us) = settings c"
  using assms
proof (induction us arbitrary: c)
  case (Cons u us)
  then have "in_burst (fst (recordFailure c proxyID u)) proxyID t"
    using burst_stays by simp
  with Cons show ?case by simp
qed simp

text \<open>
  A burst counts once: the disconnects of a proxy within the collapse interval after
  its first one never trip the circuit, however many they are, and the next disconnect
  later in the window is only the second failure, so that it trips the circuit exactly when
  the threshold is two.
\<close>

theorem burst_counts_once:
  assumes "aget (entries c) proxyID = None" and "\<not> disabled (settings c)" and "0 < proxyID"
    and "1 < failureThreshold (settings c)" and "0 < collapseInterval (settings c)"
    and "collapseInterval (settings c) \<le> failureWindow (settings c)"
    and "failureWindow (settings c) < max_int64" and "zero_time < t"
    and "\<forall>u \<in> set us. t \<le> u \<and> u - t < collapseInterval (settings c)"
    and "t \<le> v" and "v - t \<le> failureWindow (settings c)"
  shows "fst (snd (recordFailure
      (foldl (\<lambda>c u. fst (recordFailure c proxyID u)) c (t # us)) proxyID v))
    \<longleftrightarrow> collapseInterval (settings c) \<le> v - t \<and> failureThreshold (settings c) \<le> 2"
proof -
  let ?first = "fst (recordFailure c proxyID t)"
  let ?c = "foldl (\<lambda>c u. fst (recordFailure c proxyID u)) ?first us"
  have zero: "circuit_entry c proxyID = zero_entry" using assms(1) by (simp add: circuit_entry_def)
  then have "in_burst ?first proxyID t"
    using assms recordFailure_entry [of c proxyID t] count_first_failure
    by (simp add: in_burst_def zero_entry_def)
  from burst_run [OF this, of us] assms(9)
  have run: "in_burst ?c proxyID t" and st: "settings ?c = settings c" by simp_all
  note entry = in_burst_entry [OF run assms(10)]
  have "fst (snd (recordFailure ?c proxyID v)) \<longleftrightarrow>
      collapseInterval (settings c) \<le> v - t \<and> failureThreshold (settings c) \<le> 2"
  proof (cases "collapseInterval (settings c) \<le> v - t")
    case True
    then show ?thesis
      using recordFailure_entry [of ?c proxyID v] entry run st assms
        count_after_burst [of t "circuit_entry ?c proxyID" "settings c" v]
      by (simp add: in_burst_def)
  next
    case False
    then show ?thesis using burst_stays [OF run assms(10)] st by simp
  qed
  then show ?thesis by simp
qed

theorem burst_counts_once_witness:
  "\<not> fst (snd (recordFailure (foldl (\<lambda>c u. fst (recordFailure c 7 u)) default_circuit
      [0, second, 2 * second]) 7 (2 * second))) \<and>
   fst (snd (recordFailure (foldl (\<lambda>c u. fst (recordFailure c 7 u)) default_circuit
      [0, second, 2 * second]) 7 (3 * second)))"
  using burst_counts_once [of default_circuit 7 0 "[second, 2 * second]" "2 * second"]
    burst_counts_once [of default_circuit 7 0 "[second, 2 * second]" "3 * second"]
  by (simp add: default_circuit_def newOpenAIProxyStreamCircuit_def
      resolveOpenAIProxyStreamCircuitSettings_def psc_defaults max_int64_def zero_time_def)

end
