(* ===== verification/Failover_Loop.thy ===== *)
theory Failover_Loop
  imports Gateway_Prelude
begin

text \<open>
  The failover state of one request (handler/failover_loop.go) and the error that drives it
  (service/gateway_service.go): retries on the same account, switches to another account,
  vetoes of the group's profit gate, and the back-off after a failed selection.

  A handler method is a function from the state to the new state, the action for the
  request loop, and the effects in their order: waits and account suspensions. What the
  request context does is the argument \<open>env\<close>: whether it has ended when the method looks
  at it, and whether it ends before the timer of the one wait the method may do. The
  callers pass the context of the request, which is never nil.
\<close>

section \<open>The failover error\<close>

datatype GatewayFailureStage = StageUnset | StageInference | StageAccountAuth
datatype GatewayFailureScope = ScopeUnset | ScopeAccount | ScopeProvider | ScopeRequest
datatype NextAccountAction = NextAccountLegacyRetry | NextAccountRetry | NextAccountStop

text \<open>The fields that the modelled code reads.\<close>

record UpstreamFailoverError =
  fe_StatusCode :: int
  fe_ForceCacheBilling :: bool
  fe_RetryableOnSameAccount :: bool
  fe_RequestScopedTransient :: bool
  fe_Stage :: GatewayFailureStage
  fe_Scope :: GatewayFailureScope
  fe_NextAccountAction :: NextAccountAction

definition ShouldRetryNextAccount :: "UpstreamFailoverError option \<Rightarrow> bool" where
  "ShouldRetryNextAccount e =
     (case e of None \<Rightarrow> False | Some f \<Rightarrow> fe_NextAccountAction f \<noteq> NextAccountStop)"

definition IsCredentialFailure :: "UpstreamFailoverError option \<Rightarrow> bool" where
  "IsCredentialFailure e = (case e of None \<Rightarrow> False | Some f \<Rightarrow> fe_Stage f = StageAccountAuth)"

definition ShouldReportAccountScheduleFailure :: "UpstreamFailoverError option \<Rightarrow> bool" where
  "ShouldReportAccountScheduleFailure e =
     (case e of None \<Rightarrow> False
      | Some f \<Rightarrow> \<not> IsCredentialFailure e \<or> fe_Scope f = ScopeAccount)"

datatype suspension_reason = GoogleConfigError | EmptyResponse

datatype failover_effect =
    Waited duration
  | TempUnscheduled int suspension_reason

definition TempUnscheduleRetryableError :: "int \<Rightarrow> UpstreamFailoverError option \<Rightarrow> failover_effect list" where
  "TempUnscheduleRetryableError accountID e =
     (case e of None \<Rightarrow> []
      | Some f \<Rightarrow>
          if \<not> fe_RetryableOnSameAccount f then []
          else if fe_RequestScopedTransient f then []
          else if fe_StatusCode f = 400 then [TempUnscheduled accountID GoogleConfigError]
          else if fe_StatusCode f = 502 then [TempUnscheduled accountID EmptyResponse]
          else [])"

section \<open>The state and its methods\<close>

datatype FailoverAction = FailoverContinue | FailoverExhausted | FailoverCanceled

definition sameAccountRetryDelay :: duration where "sameAccountRetryDelay = 500 * millisecond"
definition maxRequestScopedRetryDelay :: duration where "maxRequestScopedRetryDelay = 8 * second"
definition singleAccountBackoffDelay :: duration where "singleAccountBackoffDelay = 2 * second"
definition maxProfitVetoAttempts :: int where "maxProfitVetoAttempts = 10"

lemmas failover_consts = sameAccountRetryDelay_def maxRequestScopedRetryDelay_def
  singleAccountBackoffDelay_def maxProfitVetoAttempts_def duration_units

text \<open>The doubling loop; the first argument counts the iterations left.\<close>

fun retry_delay_loop :: "nat \<Rightarrow> duration \<Rightarrow> duration" where
  "retry_delay_loop 0 delay = delay"
| "retry_delay_loop (Suc n) delay =
     (if maxRequestScopedRetryDelay div 2 \<le> delay then maxRequestScopedRetryDelay
      else retry_delay_loop n (delay * 2))"

definition sameAccountRetryDelayFor :: "UpstreamFailoverError option \<Rightarrow> int \<Rightarrow> duration" where
  "sameAccountRetryDelayFor e retryCount =
     (case e of None \<Rightarrow> sameAccountRetryDelay
      | Some f \<Rightarrow>
          if \<not> fe_RequestScopedTransient f \<or> retryCount \<le> 1 then sameAccountRetryDelay
          else retry_delay_loop (nat (retryCount - 1)) sameAccountRetryDelay)"

record FailoverState =
  SwitchCount :: int
  MaxSwitches :: int
  FailedAccountIDs :: "int set"
  SameAccountRetryCount :: "int \<rightharpoonup> int"
  LastFailoverErr :: "UpstreamFailoverError option"
  ForceCacheBilling :: bool
  hasBoundSession :: bool
  profitVetoedAccountIDs :: "int set"
  profitVetoCount :: int

definition NewFailoverState :: "int \<Rightarrow> bool \<Rightarrow> FailoverState" where
  "NewFailoverState maxSwitches bound =
     \<lparr>SwitchCount = 0, MaxSwitches = maxSwitches, FailedAccountIDs = {},
      SameAccountRetryCount = Map.empty, LastFailoverErr = None, ForceCacheBilling = False,
      hasBoundSession = bound, profitVetoedAccountIDs = {}, profitVetoCount = 0\<rparr>"

text \<open>A missing key of the Go map reads as 0.\<close>

definition retries :: "FailoverState \<Rightarrow> int \<Rightarrow> int" where
  "retries s accountID = (case SameAccountRetryCount s accountID of None \<Rightarrow> 0 | Some n \<Rightarrow> n)"

definition RecordProfitVeto :: "FailoverState \<Rightarrow> int \<Rightarrow> FailoverState \<times> FailoverAction" where
  "RecordProfitVeto s accountID =
     (let s' = s\<lparr>FailedAccountIDs := insert accountID (FailedAccountIDs s),
                 profitVetoedAccountIDs := insert accountID (profitVetoedAccountIDs s),
                 profitVetoCount := profitVetoCount s + 1\<rparr>
      in (s', if maxProfitVetoAttempts \<le> profitVetoCount s' then FailoverExhausted
              else FailoverContinue))"

definition allExclusionsAreProfitVetoed :: "FailoverState \<Rightarrow> bool" where
  "allExclusionsAreProfitVetoed s =
     (if profitVetoedAccountIDs s = {} \<or> FailedAccountIDs s = {} then False
      else \<forall>accountID \<in> FailedAccountIDs s. accountID \<in> profitVetoedAccountIDs s)"

definition needForceCacheBilling :: "bool \<Rightarrow> UpstreamFailoverError option \<Rightarrow> bool \<Rightarrow> bool" where
  "needForceCacheBilling bound e sameAccountRetry \<longleftrightarrow>
     (bound \<and> \<not> sameAccountRetry) \<or> (case e of None \<Rightarrow> False | Some f \<Rightarrow> fe_ForceCacheBilling f)"

text \<open>What the context does during one call.\<close>

record failover_env =
  ctx_ended :: bool
  ctx_ends_in_wait :: bool

definition sleepWithContext :: "failover_env \<Rightarrow> duration \<Rightarrow> bool \<times> failover_effect list" where
  "sleepWithContext env d =
     (if d \<le> 0 then (True, []) else (\<not> ctx_ends_in_wait env, [Waited d]))"

definition PlatformAntigravity :: string where "PlatformAntigravity = ''antigravity''"

text \<open>The part of HandleFailoverError that leaves the account.\<close>

definition switch_account :: "FailoverState \<Rightarrow> failover_env \<Rightarrow> int \<Rightarrow> string \<Rightarrow>
    UpstreamFailoverError \<Rightarrow> FailoverState \<times> FailoverAction \<times> failover_effect list" where
  "switch_account s env accountID platform f =
     (let banned = (if fe_RetryableOnSameAccount f
                    then TempUnscheduleRetryableError accountID (Some f) else []);
          s1 = s\<lparr>FailedAccountIDs := insert accountID (FailedAccountIDs s)\<rparr>
      in if MaxSwitches s1 \<le> SwitchCount s1 then (s1, FailoverExhausted, banned)
         else (let s2 = s1\<lparr>SwitchCount := SwitchCount s1 + 1\<rparr>
               in if platform = PlatformAntigravity
                  then (case sleepWithContext env (wrap64 ((SwitchCount s2 - 1) * second)) of
                          (slept, waits) \<Rightarrow>
                            (s2, if slept then FailoverContinue else FailoverCanceled, banned @ waits))
                  else (s2, FailoverContinue, banned)))"

text \<open>The part that tries the same account again.\<close>

definition retry_same_account :: "FailoverState \<Rightarrow> failover_env \<Rightarrow> int \<Rightarrow>
    UpstreamFailoverError \<Rightarrow> FailoverState \<times> FailoverAction \<times> failover_effect list" where
  "retry_same_account s env accountID f =
     (let s1 = s\<lparr>SameAccountRetryCount :=
                   (SameAccountRetryCount s)(accountID \<mapsto> retries s accountID + 1)\<rparr>
      in case sleepWithContext env (sameAccountRetryDelayFor (Some f) (retries s1 accountID)) of
           (slept, waits) \<Rightarrow> (s1, if slept then FailoverContinue else FailoverCanceled, waits))"

definition HandleFailoverError :: "FailoverState \<Rightarrow> failover_env \<Rightarrow> int \<Rightarrow> string \<Rightarrow> int \<Rightarrow>
    UpstreamFailoverError option \<Rightarrow> FailoverState \<times> FailoverAction \<times> failover_effect list" where
  "HandleFailoverError s0 env accountID platform retryLimit e =
     (if ctx_ended env then (s0, FailoverCanceled, [])
      else (let s = s0\<lparr>LastFailoverErr := e\<rparr>
            in case e of
                 None \<Rightarrow> (s, FailoverExhausted, [])
               | Some f \<Rightarrow>
                   if \<not> ShouldRetryNextAccount e then (s, FailoverExhausted, [])
                   else (let sameAccountRetry = fe_RetryableOnSameAccount f \<and>
                               retries s accountID < retryLimit;
                             s1 = (if needForceCacheBilling (hasBoundSession s) e sameAccountRetry
                                   then s\<lparr>ForceCacheBilling := True\<rparr> else s)
                         in if sameAccountRetry then retry_same_account s1 env accountID f
                            else switch_account s1 env accountID platform f)))"

definition HandleSelectionExhausted :: "FailoverState \<Rightarrow> failover_env \<Rightarrow>
    FailoverState \<times> FailoverAction \<times> failover_effect list" where
  "HandleSelectionExhausted s env =
     (if ctx_ended env then (s, FailoverCanceled, [])
      else if (case LastFailoverErr s of None \<Rightarrow> False | Some f \<Rightarrow> fe_StatusCode f = 503) \<and>
              SwitchCount s \<le> MaxSwitches s
      then (if allExclusionsAreProfitVetoed s then (s, FailoverExhausted, [])
            else (case sleepWithContext env singleAccountBackoffDelay of (slept, waits) \<Rightarrow>
                    if \<not> slept then (s, FailoverCanceled, waits)
                    else (s\<lparr>FailedAccountIDs := profitVetoedAccountIDs s\<rparr>, FailoverContinue, waits)))
      else (s, FailoverExhausted, []))"

definition HandlePricingUnavailable :: "FailoverState \<Rightarrow> failover_env \<Rightarrow> int \<Rightarrow>
    FailoverState \<times> FailoverAction" where
  "HandlePricingUnavailable s env accountID =
     (if ctx_ended env then (s, FailoverCanceled)
      else (let s1 = s\<lparr>FailedAccountIDs := insert accountID (FailedAccountIDs s)\<rparr>
            in if MaxSwitches s1 \<le> SwitchCount s1 then (s1, FailoverExhausted)
               else (s1\<lparr>SwitchCount := SwitchCount s1 + 1\<rparr>, FailoverContinue)))"

section \<open>Delays\<close>

lemma retry_delay_loop_closed:
  "0 < delay \<Longrightarrow> delay \<le> maxRequestScopedRetryDelay \<Longrightarrow>
   retry_delay_loop n delay = min (delay * 2 ^ n) maxRequestScopedRetryDelay"
proof (induction n arbitrary: delay)
  case (Suc n)
  show ?case
  proof (cases "maxRequestScopedRetryDelay div 2 \<le> delay")
    case True
    then have "maxRequestScopedRetryDelay \<le> delay * 2" by (simp add: failover_consts)
    also have "\<dots> \<le> delay * 2 ^ Suc n" using Suc.prems by simp
    finally show ?thesis using True by simp
  next
    case False
    with Suc.prems have "0 < delay * 2" "delay * 2 \<le> maxRequestScopedRetryDelay"
      by (simp_all add: failover_consts)
    from Suc.IH [OF this] False show ?thesis by (simp add: mult.assoc)
  qed
qed simp

text \<open>
  The wait before the n-th retry on the same account doubles from half a second and is
  capped at eight seconds for failures that are not the account's fault; for every other
  failure it is half a second. The doubling loop never overshoots the cap.
\<close>

theorem same_account_delay_closed_form:
  "sameAccountRetryDelayFor e n =
     (if n \<ge> 1 \<and> (case e of None \<Rightarrow> False | Some f \<Rightarrow> fe_RequestScopedTransient f)
      then min (500000000 * 2 ^ nat (n - 1)) 8000000000 else 500000000)"
proof (cases "n \<ge> 1 \<and> (case e of None \<Rightarrow> False | Some f \<Rightarrow> fe_RequestScopedTransient f)")
  case True
  then obtain f where f: "e = Some f" "fe_RequestScopedTransient f" by (auto split: option.splits)
  have "retry_delay_loop (nat (n - 1)) sameAccountRetryDelay =
      min (sameAccountRetryDelay * 2 ^ nat (n - 1)) maxRequestScopedRetryDelay"
    by (rule retry_delay_loop_closed) (simp_all add: failover_consts)
  with True f show ?thesis
    by (cases "n = 1") (simp_all add: sameAccountRetryDelayFor_def failover_consts)
next
  case False
  then show ?thesis by (auto simp: sameAccountRetryDelayFor_def failover_consts split: option.splits)
qed

section \<open>Suspensions\<close>

lemma suspension_of_retryable:
  "TempUnscheduled a r \<in> set (TempUnscheduleRetryableError accountID (Some f)) \<longleftrightarrow>
   a = accountID \<and> fe_RetryableOnSameAccount f \<and> \<not> fe_RequestScopedTransient f \<and>
   (fe_StatusCode f = 400 \<and> r = GoogleConfigError \<or> fe_StatusCode f = 502 \<and> r = EmptyResponse)"
  by (auto simp: TempUnscheduleRetryableError_def)

text \<open>
  A failure suspends an account exactly when the request still runs, the failure allows
  another account, is retryable on the same account but not scoped to the request, its
  status is 400 or 502, and the retries on the account are used up; and it suspends no
  account but the one that failed.
\<close>

theorem suspends_only_after_retries:
  "TempUnscheduled a r \<in> set (snd (snd (HandleFailoverError s env accountID platform retryLimit e)))
   \<longleftrightarrow> \<not> ctx_ended env \<and> a = accountID \<and> retryLimit \<le> retries s accountID \<and>
      (case e of None \<Rightarrow> False
       | Some f \<Rightarrow> fe_NextAccountAction f \<noteq> NextAccountStop \<and> fe_RetryableOnSameAccount f \<and>
           \<not> fe_RequestScopedTransient f \<and>
           (fe_StatusCode f = 400 \<and> r = GoogleConfigError \<or>
            fe_StatusCode f = 502 \<and> r = EmptyResponse))"
proof (cases e)
  case None
  then show ?thesis by (simp add: HandleFailoverError_def Let_def)
next
  case (Some f)
  have same: "retries (t\<lparr>LastFailoverErr := x\<rparr>) = retries t"
    "retries (t\<lparr>ForceCacheBilling := c\<rparr>) = retries t" for t x c
    by (simp_all add: retries_def fun_eq_iff)
  have retry: "TempUnscheduled a r \<notin> set (snd (snd (retry_same_account t env accountID f)))" for t
    by (simp add: retry_same_account_def sleepWithContext_def Let_def)
  have switch: "TempUnscheduled a r \<in> set (snd (snd (switch_account t env accountID platform f)))
      \<longleftrightarrow> TempUnscheduled a r \<in> set (TempUnscheduleRetryableError accountID (Some f))" for t
    by (auto simp: switch_account_def sleepWithContext_def Let_def suspension_of_retryable)
  show ?thesis
    by (auto simp: Some HandleFailoverError_def Let_def same retry switch suspension_of_retryable
        ShouldRetryNextAccount_def)
qed

section \<open>The request loop\<close>

text \<open>
  The rounds of the request loops in the gateway handlers (for instance Messages in
  handler/gateway_handler.go), seen from the failover state: an account is selected, which
  is not among the excluded ones, and then the profit gate vetoes it, it turns out to have
  no price, or its upstream fails; or no account can be selected, and then the loop asks the
  state only when some account is excluded. A round after which the handler continues leads
  to the next one.
\<close>

datatype loop_event =
    UpstreamFailed int string int "UpstreamFailoverError option" failover_env
  | Vetoed int
  | Unpriced int failover_env
  | SelectionFailed failover_env

fun event_possible :: "FailoverState \<Rightarrow> loop_event \<Rightarrow> bool" where
  "event_possible s (UpstreamFailed accountID _ _ _ _) = (accountID \<notin> FailedAccountIDs s)"
| "event_possible s (Vetoed accountID) = (accountID \<notin> FailedAccountIDs s)"
| "event_possible s (Unpriced accountID _) = (accountID \<notin> FailedAccountIDs s)"
| "event_possible s (SelectionFailed _) = (FailedAccountIDs s \<noteq> {})"

fun loop_step :: "FailoverState \<Rightarrow> loop_event \<Rightarrow> FailoverState \<times> FailoverAction" where
  "loop_step s (UpstreamFailed accountID platform retryLimit e env) =
     (case HandleFailoverError s env accountID platform retryLimit e of (s', a, _) \<Rightarrow> (s', a))"
| "loop_step s (Vetoed accountID) = RecordProfitVeto s accountID"
| "loop_step s (Unpriced accountID env) = HandlePricingUnavailable s env accountID"
| "loop_step s (SelectionFailed env) =
     (case HandleSelectionExhausted s env of (s', a, _) \<Rightarrow> (s', a))"

inductive loop_run :: "FailoverState \<Rightarrow> loop_event list \<Rightarrow> FailoverState \<Rightarrow> bool" where
  run_done: "loop_run s [] s"
| run_step: "event_possible s ev \<Longrightarrow> loop_step s ev = (s', FailoverContinue) \<Longrightarrow>
    loop_run s' evs s'' \<Longrightarrow> loop_run s (ev # evs) s''"

code_pred (modes: i \<Rightarrow> i \<Rightarrow> o \<Rightarrow> bool) loop_run .

inductive_cases loop_run_Nil: "loop_run s [] s'"
inductive_cases loop_run_Cons: "loop_run s (ev # evs) s''"

fun event_within :: "int set \<Rightarrow> int \<Rightarrow> loop_event \<Rightarrow> bool" where
  "event_within A L (UpstreamFailed accountID _ retryLimit _ _) = (accountID \<in> A \<and> retryLimit \<le> L)"
| "event_within A L (Vetoed accountID) = (accountID \<in> A)"
| "event_within A L (Unpriced accountID _) = (accountID \<in> A)"
| "event_within A L (SelectionFailed _) = True"

text \<open>
  What holds of the state between rounds, for accounts in \<open>A\<close> and retry limits up to
  \<open>L\<close>.
\<close>

definition failover_inv :: "int set \<Rightarrow> int \<Rightarrow> FailoverState \<Rightarrow> bool" where
  "failover_inv A L s \<longleftrightarrow> 0 \<le> SwitchCount s \<and> SwitchCount s \<le> MaxSwitches s \<and>
     profitVetoedAccountIDs s \<subseteq> FailedAccountIDs s \<and> 0 \<le> profitVetoCount s \<and>
     profitVetoCount s \<le> 9 \<and> (\<forall>a. 0 \<le> retries s a \<and> retries s a \<le> L)"

text \<open>
  A progress measure: every round raises it. Rounds that switch count twice, since each of
  them pays for one back-off.
\<close>

definition progress :: "int set \<Rightarrow> FailoverState \<Rightarrow> int" where
  "progress A s = 2 * SwitchCount s + profitVetoCount s + (\<Sum>a\<in>A. retries s a) -
     (if FailedAccountIDs s \<subseteq> profitVetoedAccountIDs s then 0 else 1)"

lemma retries_simps [simp]:
  "retries (s\<lparr>LastFailoverErr := x\<rparr>) = retries s"
  "retries (s\<lparr>ForceCacheBilling := c\<rparr>) = retries s"
  "retries (s\<lparr>FailedAccountIDs := d\<rparr>) = retries s"
  "retries (s\<lparr>SwitchCount := n\<rparr>) = retries s"
  "retries (s\<lparr>profitVetoedAccountIDs := v\<rparr>) = retries s"
  "retries (s\<lparr>profitVetoCount := n\<rparr>) = retries s"
  "retries (s\<lparr>SameAccountRetryCount := (SameAccountRetryCount s)(a \<mapsto> n)\<rparr>) = (retries s)(a := n)"
  by (auto simp: retries_def fun_eq_iff)

lemma sum_fun_upd_int:
  fixes f :: "int \<Rightarrow> int"
  shows "finite A \<Longrightarrow> a \<in> A \<Longrightarrow> (\<Sum>x\<in>A. (f(a := f a + 1)) x) = (\<Sum>x\<in>A. f x) + 1"
  by (simp add: sum.remove [of A a] sum.remove [of A a f])

text \<open>The rounds of HandleFailoverError that continue: a retry or a switch.\<close>

lemma failover_continue_cases:
  assumes "HandleFailoverError s env accountID platform retryLimit e = (s', FailoverContinue, eff)"
  obtains (retry) c where "retries s accountID < retryLimit"
      "s' = s\<lparr>LastFailoverErr := e, ForceCacheBilling := c,
        SameAccountRetryCount := (SameAccountRetryCount s)(accountID \<mapsto> retries s accountID + 1)\<rparr>"
  | (switch) c where "SwitchCount s < MaxSwitches s"
      "s' = s\<lparr>LastFailoverErr := e, ForceCacheBilling := c,
        FailedAccountIDs := insert accountID (FailedAccountIDs s),
        SwitchCount := SwitchCount s + 1\<rparr>"
proof -
  obtain f where f: "e = Some f"
    using assms by (auto simp: HandleFailoverError_def Let_def split: if_splits option.splits)
  define c where "c \<longleftrightarrow> ForceCacheBilling s \<or> needForceCacheBilling (hasBoundSession s) e
    (fe_RetryableOnSameAccount f \<and> retries s accountID < retryLimit)"
  define t where "t = s\<lparr>LastFailoverErr := e, ForceCacheBilling := c\<rparr>"
  have t: "(if needForceCacheBilling (hasBoundSession s) e
      (fe_RetryableOnSameAccount f \<and> retries s accountID < retryLimit)
     then s\<lparr>LastFailoverErr := e\<rparr>\<lparr>ForceCacheBilling := True\<rparr> else s\<lparr>LastFailoverErr := e\<rparr>) = t"
    by (simp add: t_def c_def)
  have cases: "(if fe_RetryableOnSameAccount f \<and> retries s accountID < retryLimit
     then retry_same_account t env accountID f
     else switch_account t env accountID platform f) = (s', FailoverContinue, eff)"
  proof -
    have live: "\<not> ctx_ended env" "ShouldRetryNextAccount (Some f)"
      using assms by (auto simp: f HandleFailoverError_def Let_def split: if_splits)
    have "HandleFailoverError s env accountID platform retryLimit (Some f) =
      (if fe_RetryableOnSameAccount f \<and> retries s accountID < retryLimit
       then retry_same_account t env accountID f
       else switch_account t env accountID platform f)"
      unfolding t [symmetric] f by (simp add: HandleFailoverError_def Let_def live)
    with assms f show ?thesis by simp
  qed
  show thesis
  proof (cases "fe_RetryableOnSameAccount f \<and> retries s accountID < retryLimit")
    case True
    with cases have "s' = t\<lparr>SameAccountRetryCount :=
        (SameAccountRetryCount t)(accountID \<mapsto> retries t accountID + 1)\<rparr>"
      by (auto simp: retry_same_account_def Let_def split: prod.splits)
    with True show thesis by (intro retry [of c]) (simp_all add: t_def)
  next
    case False
    with cases have "SwitchCount t < MaxSwitches t \<and>
        s' = t\<lparr>FailedAccountIDs := insert accountID (FailedAccountIDs t),
               SwitchCount := SwitchCount t + 1\<rparr>"
      by (auto simp: switch_account_def Let_def split: prod.splits if_splits)
    then show thesis by (intro switch [of c]) (simp_all add: t_def)
  qed
qed

lemma loop_step_progress:
  assumes inv: "failover_inv A L s" and fin: "finite A"
    and ev: "event_possible s ev" "event_within A L ev"
    and step: "loop_step s ev = (s', FailoverContinue)"
  shows "failover_inv A L s' \<and> MaxSwitches s' = MaxSwitches s \<and> progress A s + 1 \<le> progress A s'"
proof (cases ev)
  case (UpstreamFailed accountID platform retryLimit e env)
  then obtain eff where
    "HandleFailoverError s env accountID platform retryLimit e = (s', FailoverContinue, eff)"
    using step by (auto split: prod.splits)
  then show ?thesis
  proof (cases rule: failover_continue_cases)
    case (retry c)
    have counts: "retries s' = (retries s)(accountID := retries s accountID + 1)"
      by (simp add: retry(2) retries_def fun_eq_iff)
    have "(\<Sum>a\<in>A. retries s' a) = (\<Sum>a\<in>A. retries s a) + 1"
      unfolding counts using ev UpstreamFailed by (intro sum_fun_upd_int fin) simp
    moreover have "\<forall>a. 0 \<le> retries s' a \<and> retries s' a \<le> L"
      using inv ev UpstreamFailed retry(1) by (simp add: counts failover_inv_def)
    ultimately show ?thesis using inv by (auto simp: failover_inv_def progress_def) (auto simp: retry(2))
  next
    case (switch c)
    with inv ev UpstreamFailed show ?thesis by (auto simp: failover_inv_def progress_def)
  qed
next
  case (Vetoed accountID)
  with step inv show ?thesis
    by (auto simp: RecordProfitVeto_def Let_def failover_inv_def progress_def
        maxProfitVetoAttempts_def split: if_splits)
next
  case (Unpriced accountID env)
  with step inv show ?thesis
    by (auto simp: HandlePricingUnavailable_def Let_def failover_inv_def progress_def
        split: if_splits)
next
  case (SelectionFailed env)
  then have s': "s' = s\<lparr>FailedAccountIDs := profitVetoedAccountIDs s\<rparr>"
    and not_all: "\<not> allExclusionsAreProfitVetoed s"
    using step by (auto simp: HandleSelectionExhausted_def split: if_splits prod.splits)
  have "\<not> FailedAccountIDs s \<subseteq> profitVetoedAccountIDs s"
    using not_all ev SelectionFailed by (auto simp: allExclusionsAreProfitVetoed_def split: if_splits)
  with inv show ?thesis by (simp add: s' failover_inv_def progress_def)
qed

lemma loop_run_progress:
  "loop_run s evs s' \<Longrightarrow> failover_inv A L s \<Longrightarrow> finite A \<Longrightarrow> \<forall>ev \<in> set evs. event_within A L ev \<Longrightarrow>
   failover_inv A L s' \<and> MaxSwitches s' = MaxSwitches s \<and>
   progress A s + int (length evs) \<le> progress A s'"
proof (induction rule: loop_run.induct)
  case (run_step s ev s' evs s'')
  have "failover_inv A L s' \<and> MaxSwitches s' = MaxSwitches s \<and> progress A s + 1 \<le> progress A s'"
    using run_step by (intro loop_step_progress) auto
  with run_step show ?case by auto
qed simp

lemma progress_bound:
  assumes "failover_inv A L s" and "finite A"
  shows "progress A s \<le> 2 * MaxSwitches s + 9 + L * int (card A)"
proof -
  have "(\<Sum>a\<in>A. retries s a) \<le> (\<Sum>a\<in>A. L)"
    using assms by (intro sum_mono) (simp add: failover_inv_def)
  with assms show ?thesis by (auto simp: progress_def failover_inv_def mult.commute)
qed

lemma new_state_inv:
  "0 \<le> m \<Longrightarrow> 0 \<le> L \<Longrightarrow>
   failover_inv A L (NewFailoverState m bound) \<and> progress A (NewFailoverState m bound) = 0"
  by (simp add: failover_inv_def progress_def NewFailoverState_def retries_def)

text \<open>
  C7: The request loop ends: with at most m switches allowed, accounts from a finite set A
  and at most L retries on one account, no run of the loop goes on for more than
  2 m + 9 + L |A| rounds, whatever the upstreams, the profit gate, the prices and the
  selection do. In particular the back-off after a failed selection cannot repeat for ever.
\<close>

theorem failover_loop_bounded:
  assumes "loop_run (NewFailoverState m bound) evs s" and "0 \<le> m" and "0 \<le> L" and "finite A"
    and "\<forall>ev \<in> set evs. event_within A L ev"
  shows "int (length evs) \<le> 2 * m + 9 + L * int (card A)"
proof -
  note start = new_state_inv [OF assms(2,3), of A bound]
  then have "failover_inv A L s \<and> MaxSwitches s = m \<and> int (length evs) \<le> progress A s"
    using loop_run_progress [OF assms(1) _ assms(4,5)] by (simp add: NewFailoverState_def)
  then show ?thesis using progress_bound [of A L s] assms(4) by simp
qed

definition sample_failure :: UpstreamFailoverError where
  "sample_failure = \<lparr>fe_StatusCode = 503, fe_ForceCacheBilling = False,
     fe_RetryableOnSameAccount = True, fe_RequestScopedTransient = False,
     fe_Stage = StageUnset, fe_Scope = ScopeUnset, fe_NextAccountAction = NextAccountLegacyRetry\<rparr>"

definition calm :: failover_env where "calm = \<lparr>ctx_ended = False, ctx_ends_in_wait = False\<rparr>"

definition sample_rounds :: "loop_event list" where
  "sample_rounds = [Vetoed 7, UpstreamFailed 8 PlatformAntigravity 1 (Some sample_failure) calm,
     UpstreamFailed 8 PlatformAntigravity 1 (Some sample_failure) calm, SelectionFailed calm]"

lemmas failover_run_simps = NewFailoverState_def sample_rounds_def sample_failure_def calm_def
  RecordProfitVeto_def HandleFailoverError_def retry_same_account_def switch_account_def
  HandleSelectionExhausted_def sleepWithContext_def needForceCacheBilling_def
  ShouldRetryNextAccount_def allExclusionsAreProfitVetoed_def retries_def
  sameAccountRetryDelayFor_def wrap64_def failover_consts Let_def

lemma sample_run:
  "\<exists>s. loop_run (NewFailoverState 2 True) sample_rounds s"
  unfolding sample_rounds_def
  by (rule exI, (rule run_step, simp add: failover_run_simps, simp add: failover_run_simps)+,
      rule run_done)

theorem failover_loop_bounded_witness:
  "int (length sample_rounds) \<le> 2 * 2 + 9 + 1 * int (card {7, 8 :: int})"
proof -
  obtain s where "loop_run (NewFailoverState 2 True) sample_rounds s" using sample_run by blast
  then show ?thesis
    by (rule failover_loop_bounded) (simp_all add: sample_rounds_def)
qed

fun event_account :: "loop_event \<Rightarrow> int option" where
  "event_account (UpstreamFailed accountID _ _ _ _) = Some accountID"
| "event_account (Vetoed accountID) = Some accountID"
| "event_account (Unpriced accountID _) = Some accountID"
| "event_account (SelectionFailed _) = None"

lemma vetoed_step:
  assumes "profitVetoedAccountIDs s \<subseteq> FailedAccountIDs s"
    and "loop_step s ev = (s', FailoverContinue)"
  shows "profitVetoedAccountIDs s' \<subseteq> FailedAccountIDs s' \<and>
    profitVetoedAccountIDs s \<subseteq> profitVetoedAccountIDs s'"
proof (cases ev)
  case (UpstreamFailed accountID platform retryLimit e env)
  with assms(2) obtain eff where
    "HandleFailoverError s env accountID platform retryLimit e = (s', FailoverContinue, eff)"
    by (auto split: prod.splits)
  then show ?thesis using assms(1) by (cases rule: failover_continue_cases) auto
qed (use assms in \<open>auto simp: RecordProfitVeto_def HandlePricingUnavailable_def
       HandleSelectionExhausted_def Let_def split: if_splits prod.splits\<close>)

lemma vetoed_excluded:
  "loop_run s evs s' \<Longrightarrow> profitVetoedAccountIDs s \<subseteq> FailedAccountIDs s \<Longrightarrow>
   a \<in> profitVetoedAccountIDs s \<Longrightarrow> ev \<in> set evs \<Longrightarrow> event_account ev \<noteq> Some a"
proof (induction rule: loop_run.induct)
  case (run_step s first s' evs s'')
  have "event_account first \<noteq> Some a"
    using run_step by (cases first) auto
  with run_step vetoed_step [OF run_step.prems(1) run_step.hyps(2)] show ?case by auto
qed simp

lemma vetoed_later:
  "loop_run s (evs @ Vetoed a # later) s' \<Longrightarrow> profitVetoedAccountIDs s \<subseteq> FailedAccountIDs s \<Longrightarrow>
   ev \<in> set later \<Longrightarrow> event_account ev \<noteq> Some a"
proof (induction evs arbitrary: s)
  case Nil
  from Nil(1) obtain t where "loop_step s (Vetoed a) = (t, FailoverContinue)" "loop_run t later s'"
    by (auto elim: loop_run_Cons)
  moreover from this have "a \<in> profitVetoedAccountIDs t"
    by (auto simp: RecordProfitVeto_def Let_def)
  ultimately show ?case using vetoed_excluded vetoed_step Nil by blast
next
  case (Cons first evs)
  from Cons.prems(1) obtain t where "loop_step s first = (t, FailoverContinue)"
    "loop_run t (evs @ Vetoed a # later) s'"
    by (auto elim: loop_run_Cons)
  then show ?case using Cons vetoed_step by blast
qed

text \<open>
  An account that the profit gate has vetoed is not tried again in the same request:
  the back-off, which lifts the other exclusions, keeps the vetoed accounts excluded, so
  that in a run of the loop no later round selects an account vetoed in an earlier round.
\<close>

theorem vetoed_account_stays_out:
  assumes "loop_run (NewFailoverState m bound) (evs @ Vetoed a # later) s"
    and "ev \<in> set later"
  shows "event_account ev \<noteq> Some a"
  using vetoed_later [OF assms(1) _ assms(2)] by (simp add: NewFailoverState_def)

theorem vetoed_account_stays_out_witness:
  "event_account (UpstreamFailed 8 PlatformAntigravity 1 (Some sample_failure) calm) \<noteq> Some 7"
proof -
  obtain s where "loop_run (NewFailoverState 2 True) ([] @ Vetoed 7 #
      [UpstreamFailed 8 PlatformAntigravity 1 (Some sample_failure) calm,
       UpstreamFailed 8 PlatformAntigravity 1 (Some sample_failure) calm, SelectionFailed calm]) s"
    using sample_run by (auto simp: sample_rounds_def)
  then show ?thesis by (rule vetoed_account_stays_out) simp
qed

end
