(* ===== verification/Admin_Permissions.thy ===== *)
theory Admin_Permissions
  imports Gateway_Prelude
begin

text \<open>
  Permissions of administrators (service/admin_permissions.go and, for the request context,
  service/admin_request_authorization.go): scopes and when one contains another, the
  decision over a list of grants, the resolution of the current principal behind a request,
  and the service methods that grant and revoke permissions.

  The repository is a record of functions over an abstract state \<open>'s\<close>;
  Admin_Permission_Store provides the one of the program. The times of resolution and the
  capabilities cached in a principal decide nothing and are left out.
\<close>

section \<open>Scope values\<close>

text \<open>
  A value of a scope is one of Go's dynamic types: nil, strings, booleans, the integer
  types, the floating types with the text fmt prints for them, the three slice types that
  the code distinguishes, and any other value, with the text fmt prints for it.
\<close>

datatype scope_value =
    VNil
  | VString string
  | VBool bool
  | VInt int
  | VFloat string
  | VList "scope_value list"
  | VStrings "string list"
  | VInts "int list"
  | VOther string

type_synonym scope = "(string, scope_value) amap"

definition bracketed :: "string list \<Rightarrow> string" where
  "bracketed ws = ''['' @ concat (case ws of [] \<Rightarrow> [] | w # us \<Rightarrow> w # map ((#) CHR '' '') us) @ '']''"

text \<open>fmt.Sprint of one operand.\<close>

fun go_sprint :: "scope_value \<Rightarrow> string" where
  "go_sprint VNil = ''<nil>''"
| "go_sprint (VString s) = s"
| "go_sprint (VBool b) = (if b then ''true'' else ''false'')"
| "go_sprint (VInt n) = decimal n"
| "go_sprint (VFloat t) = t"
| "go_sprint (VList vs) = bracketed (map go_sprint vs)"
| "go_sprint (VStrings ss) = bracketed ss"
| "go_sprint (VInts ns) = bracketed (map decimal ns)"
| "go_sprint (VOther t) = t"

definition adminScopeValueContains :: "scope_value \<Rightarrow> scope_value \<Rightarrow> bool" where
  "adminScopeValueContains granted wanted =
     (if granted = VNil \<or> wanted = VNil then False
      else if granted = VString ''*'' then True
      else (case granted of
          VList items \<Rightarrow> list_ex (\<lambda>item. item = VString ''*'' \<or> go_sprint item = go_sprint wanted) items
        | VInts items \<Rightarrow> list_ex (\<lambda>item. decimal item = go_sprint wanted) items
        | _ \<Rightarrow> go_sprint granted = go_sprint wanted))"

definition adminScopeContains :: "scope \<Rightarrow> scope \<Rightarrow> bool" where
  "adminScopeContains grantScope requested =
     (if length grantScope = 0 then False
      else if length grantScope = 1 \<and> aget grantScope ''*'' = Some (VString ''*'') then True
      else if length requested = 0 then False
      else list_all (\<lambda>(key, granted). case aget requested key of
             None \<Rightarrow> False | Some wanted \<Rightarrow> adminScopeValueContains granted wanted) grantScope)"

section \<open>Errors and records\<close>

datatype admin_error =
    ErrAdminPermissionUnknown
  | ErrAdminPrincipalNotFound
  | ErrAdminPermissionDenied
  | ErrAdminPermissionSelfGrant
  | ErrAdminPermissionPrivilege
  | ErrAdminPermissionEnforceNoBind
  | ErrAdminPermissionScopeInvalid
  | ErrAdminPermissionTargetNotAdmin
  | ErrLastSuperAdmin
  | ErrAdminCannotModifySuperAdmin
  | ErrAdminCannotDeleteAdmin
  | ErrAdminCannotSelfGrant
  | ErrSuperAdminAssignmentDenied
  | ErrAdminMutationConflict
  | ErrUserNotFound
  | ErrInvitationPermissionDenied
  | InvalidGrantEffect string
  | AuditReasonRequired
  | StreamPermissionRevoked
  | InvalidChangeAction string
  | MalformedScope
  | DatabaseError string

text \<open>Serialization failures of the database become conflicts; other errors stay.\<close>

definition normalizeAdminMutationError :: "admin_error \<Rightarrow> admin_error" where
  "normalizeAdminMutationError e =
     (case e of DatabaseError sqlstate \<Rightarrow>
        if sqlstate = ''40001'' \<or> sqlstate = ''40P01'' then ErrAdminMutationConflict else e
      | _ \<Rightarrow> e)"

definition RoleAdmin :: string where "RoleAdmin = ''admin''"
definition RoleSuperAdmin :: string where "RoleSuperAdmin = ''super_admin''"
definition StatusActive :: string where "StatusActive = ''active''"
definition AdminPermissionModeDisabled :: string where "AdminPermissionModeDisabled = ''disabled''"
definition AdminPermissionModeShadow :: string where "AdminPermissionModeShadow = ''shadow''"
definition AdminPermissionModeEnforce :: string where "AdminPermissionModeEnforce = ''enforce''"
definition AdminPrincipalKindJWT :: string where "AdminPrincipalKindJWT = ''jwt''"
definition AdminPrincipalKindAPIKey :: string where "AdminPrincipalKindAPIKey = ''admin_api_key''"
definition AdminGrantAllow :: string where "AdminGrantAllow = ''allow''"
definition AdminGrantDeny :: string where "AdminGrantDeny = ''deny''"

lemmas admin_consts = RoleAdmin_def RoleSuperAdmin_def StatusActive_def
  AdminPermissionModeDisabled_def AdminPermissionModeShadow_def AdminPermissionModeEnforce_def
  AdminPrincipalKindJWT_def AdminPrincipalKindAPIKey_def AdminGrantAllow_def AdminGrantDeny_def

record AdminGrant =
  ag_Permission :: string
  ag_Effect :: string
  ag_Scope :: scope

record AdminPrincipal =
  ap_ID :: string
  ap_Kind :: string
  ap_UserID :: int
  ap_Role :: string
  ap_Version :: int
  ap_Grants :: "AdminGrant list"
  ap_Explicit :: bool
  ap_Source :: string

record AdminPrincipalRecord =
  apr_UserID :: int
  apr_Role :: string
  apr_Status :: string
  apr_Version :: int
  apr_Grants :: "AdminGrant list"

record AdminPermissionChange =
  chg_ActorUserID :: int
  chg_ActorIsSuper :: bool
  chg_TargetUserID :: int
  chg_Action :: string
  chg_Permission :: string
  chg_Effect :: string
  chg_Scope :: scope
  chg_Reason :: string

definition IsSuperAdmin :: "AdminPrincipal \<Rightarrow> bool" where
  "IsSuperAdmin p \<longleftrightarrow> ap_Role p = RoleSuperAdmin"

definition knownAdminPermissions :: "string list" where
  "knownAdminPermissions =
    [''checkin.settings.read'', ''checkin.settings.update'',
     ''accounts.catalog.read'', ''accounts.catalog.write'',
     ''accounts.credentials.read'', ''accounts.credentials.write'',
     ''affiliates.read'', ''affiliates.relationship.create'',
     ''audit.export'', ''audit.read'',
     ''oidc.provider.read'', ''oidc.clients.read'',
     ''oidc.clients.write'', ''oidc.clients.secret.rotate'',
     ''oidc.clients.disable'', ''oidc.consents.read'',
     ''oidc.consents.revoke'', ''oidc.keys.read'',
     ''oidc.keys.rotate'', ''oidc.keys.revoke'',
     ''oidc.audit.read'', ''bank.ledger.read'',
     ''bank.settings.read'', ''bank.settings.update'',
     ''channels.catalog.read'', ''channels.catalog.write'',
     ''channels.credentials.read'', ''channels.credentials.write'',
     ''groups.create'', ''groups.delete'',
     ''groups.dynamic_rates.manage'', ''groups.rates.manage'',
     ''groups.read'', ''groups.update'',
     ''invites.quota.adjust'', ''mall.fulfill'',
     ''mall.orders.read'', ''mall.products.read'',
     ''mall.products.write'', ''mall.refund'',
     ''models.pricing.read'', ''models.pricing.write'',
     ''models.catalog.read'', ''models.catalog.write'',
     ''ops.manage'', ''ops.read'',
     ''plugins.execute'', ''security.permissions.grant'',
     ''security.superadmin.assign'', ''system.settings.manage'',
     ''users.balance.adjust'', ''users.delete'',
     ''users.entitlement.manage'', ''users.read'',
     ''users.role.assign'', ''users.status'',
     ''users.update'']"

text \<open>The permissions that an init function adds (service/admin_route_contract.go).\<close>

definition contractAdminPermissions :: "string list" where
  "contractAdminPermissions =
    [''pages.read'', ''affiliates.manage'',
     ''announcements.manage'', ''announcements.read'',
     ''audit.manage'', ''compliance.manage'',
     ''compliance.read'', ''payment.credentials.read'',
     ''payment.credentials.write'', ''plugins.read'',
     ''subscriptions.manage'', ''subscriptions.read'',
     ''users.credentials.read'', ''users.credentials.write'',
     ''oidc.provider.read'', ''oidc.clients.read'',
     ''oidc.clients.write'', ''oidc.clients.secret.rotate'',
     ''oidc.clients.disable'', ''oidc.consents.read'',
     ''oidc.consents.revoke'', ''oidc.keys.read'',
     ''oidc.keys.rotate'', ''oidc.keys.revoke'',
     ''oidc.audit.read'']"

definition IsKnownAdminPermission :: "string \<Rightarrow> bool" where
  "IsKnownAdminPermission permission \<longleftrightarrow> permission \<in> set (knownAdminPermissions @ contractAdminPermissions)"

definition NormalizeAdminPermissionMode :: "string \<Rightarrow> string" where
  "NormalizeAdminPermissionMode mode =
     (if to_lower (trim_space mode) = AdminPermissionModeEnforce then AdminPermissionModeEnforce
      else if to_lower (trim_space mode) = AdminPermissionModeShadow then AdminPermissionModeDisabled
      else AdminPermissionModeDisabled)"

section \<open>Scopes of a grant\<close>

fun normalizeAdminScopeValue :: "scope_value \<Rightarrow> scope_value option" where
  "normalizeAdminScopeValue (VString s) =
     (if trim_space s \<noteq> [] then Some (VString (trim_space s)) else None)"
| "normalizeAdminScopeValue (VBool b) = Some (VBool b)"
| "normalizeAdminScopeValue (VInt n) = Some (VInt n)"
| "normalizeAdminScopeValue (VFloat t) = Some (VFloat t)"
| "normalizeAdminScopeValue (VList vs) = map_option VList (those (map normalizeAdminScopeValue vs))"
| "normalizeAdminScopeValue (VStrings ss) =
     (if list_all (\<lambda>s. trim_space s \<noteq> []) ss
      then Some (VList (map (VString \<circ> trim_space) ss)) else None)"
| "normalizeAdminScopeValue VNil = None"
| "normalizeAdminScopeValue (VInts ns) = None"
| "normalizeAdminScopeValue (VOther t) = None"

text \<open>The range loop; entries whose keys become equal overwrite each other in its order.\<close>

fun normalize_scope_loop :: "scope \<Rightarrow> scope \<Rightarrow> admin_error + scope" where
  "normalize_scope_loop out [] = Inr out"
| "normalize_scope_loop out ((rawKey, rawValue) # rest) =
     (if trim_space rawKey = [] then Inl ErrAdminPermissionScopeInvalid
      else case normalizeAdminScopeValue rawValue of
        None \<Rightarrow> Inl ErrAdminPermissionScopeInvalid
      | Some v \<Rightarrow> normalize_scope_loop (aput (trim_space rawKey) v out) rest)"

definition normalizeAdminScope :: "scope \<Rightarrow> admin_error + scope" where
  "normalizeAdminScope sc = (if length sc = 0 then Inr [] else normalize_scope_loop [] sc)"

section \<open>The decision over the grants\<close>

text \<open>
  The loop that Authorize and authorizeExplicitGrant share; \<open>applies\<close> is their test
  on the permission of a grant.
\<close>

fun grant_loop :: "(AdminGrant \<Rightarrow> bool) \<Rightarrow> scope \<Rightarrow> bool \<Rightarrow> AdminGrant list \<Rightarrow> bool" where
  "grant_loop applies sc allowed [] = allowed"
| "grant_loop applies sc allowed (g # gs) =
     (if \<not> applies g then grant_loop applies sc allowed gs
      else if ag_Effect g = AdminGrantDeny \<and> length (ag_Scope g) = 0 then False
      else if \<not> adminScopeContains (ag_Scope g) sc then grant_loop applies sc allowed gs
      else if ag_Effect g = AdminGrantDeny then False
      else if ag_Effect g = AdminGrantAllow then grant_loop applies sc True gs
      else grant_loop applies sc allowed gs)"

definition Authorize :: "AdminPrincipal option \<Rightarrow> string \<Rightarrow> scope \<Rightarrow> admin_error + bool" where
  "Authorize caller permission0 sc =
     (let permission = trim_space permission0
      in if \<not> IsKnownAdminPermission permission then Inl ErrAdminPermissionUnknown
         else case caller of
           None \<Rightarrow> Inl ErrAdminPermissionDenied
         | Some p \<Rightarrow>
             if ap_UserID p \<le> 0 then Inl ErrAdminPermissionDenied
             else if ap_Role p \<noteq> RoleAdmin \<and> ap_Role p \<noteq> RoleSuperAdmin then Inl ErrAdminPermissionDenied
             else if ap_Kind p = AdminPrincipalKindAPIKey \<and> ap_Role p \<noteq> RoleAdmin
               then Inl ErrAdminPermissionDenied
             else if IsSuperAdmin p
               then (if ap_Kind p \<noteq> AdminPrincipalKindJWT then Inl ErrAdminPermissionDenied else Inr True)
             else Inr (grant_loop
               (\<lambda>g. ag_Permission g = permission \<or> ag_Permission g = ''*'') sc False (ap_Grants p)))"

definition authorizeExplicitGrant :: "AdminPrincipal option \<Rightarrow> string \<Rightarrow> scope \<Rightarrow> admin_error + bool" where
  "authorizeExplicitGrant caller permission0 sc =
     (let permission = trim_space permission0
      in if \<not> IsKnownAdminPermission permission then Inl ErrAdminPermissionUnknown
         else case caller of
           None \<Rightarrow> Inl ErrAdminPermissionDenied
         | Some p \<Rightarrow>
             if ap_UserID p \<le> 0 \<or> (ap_Role p \<noteq> RoleAdmin \<and> ap_Role p \<noteq> RoleSuperAdmin)
               then Inl ErrAdminPermissionDenied
             else Inr (grant_loop
               (\<lambda>g. if has_prefix permission ''oidc.'' then ag_Permission g = permission
                    else ag_Permission g = permission \<or> ag_Permission g = ''*'')
               sc False (ap_Grants p)))"

section \<open>The service\<close>

text \<open>
  The methods of a service that exists and has a repository; the code that may run without a
  service says so with an option. A repository that finds nothing answers with an error, as
  the one of the program does.
\<close>

text \<open>
  What the context of a request carries: the principal, the mode of the permission service
  attached to it (if one is), the marks of an admin mutation, and the environment variable
  with the default mode.
\<close>

record request_ctx =
  ctx_principal :: "AdminPrincipal option"
  ctx_service_mode :: "string option"
  ctx_actor_mark :: "int option"
  ctx_target_snapshot :: "(string \<times> string) option"
  ctx_principal_kind :: "string option"
  ctx_env_mode :: string

record 's admin_repo =
  GetAdminPrincipal :: "'s \<Rightarrow> int \<Rightarrow> admin_error + AdminPrincipalRecord"
  ResolveAdminAPIKeyBinding :: "'s \<Rightarrow> string \<Rightarrow> admin_error + AdminPrincipalRecord"
  ApplyAdminPermissionChange :: "'s \<Rightarrow> request_ctx \<Rightarrow> AdminPermissionChange \<Rightarrow> 's \<times> (admin_error + int)"

record 's AdminPermissionService =
  svc_repo :: "'s admin_repo"
  svc_mode :: string

definition NewAdminPermissionService :: "'s admin_repo \<Rightarrow> string \<Rightarrow> 's AdminPermissionService" where
  "NewAdminPermissionService repo mode =
     \<lparr>svc_repo = repo, svc_mode = NormalizeAdminPermissionMode mode\<rparr>"

definition Mode :: "'s AdminPermissionService \<Rightarrow> string" where
  "Mode svc = NormalizeAdminPermissionMode (svc_mode svc)"

definition ResolvePrincipal :: "'s AdminPermissionService \<Rightarrow> 's \<Rightarrow> int \<Rightarrow> admin_error + AdminPrincipal" where
  "ResolvePrincipal svc st userID =
     (if userID \<le> 0 then Inl ErrAdminPrincipalNotFound
      else case GetAdminPrincipal (svc_repo svc) st userID of
        Inl err \<Rightarrow> Inl err
      | Inr rec \<Rightarrow>
          if apr_UserID rec \<le> 0 then Inl ErrAdminPrincipalNotFound
          else if apr_Status rec \<noteq> StatusActive then Inl ErrAdminPrincipalNotFound
          else if apr_Role rec \<noteq> RoleAdmin \<and> apr_Role rec \<noteq> RoleSuperAdmin
            then Inl ErrAdminPrincipalNotFound
          else Inr \<lparr>ap_ID = ''user:'' @ decimal (apr_UserID rec), ap_Kind = AdminPrincipalKindJWT,
                    ap_UserID = apr_UserID rec, ap_Role = apr_Role rec, ap_Version = apr_Version rec,
                    ap_Grants = apr_Grants rec, ap_Explicit = True,
                    ap_Source = ''users.role+admin_principal_grants''\<rparr>)"

text \<open>The loop over the scopes of a key's binding, also used by the repository.\<close>

fun filter_key_grants :: "AdminGrant list \<Rightarrow> AdminGrant list" where
  "filter_key_grants [] = []"
| "filter_key_grants (g0 # gs) =
     (let g = (if ag_Effect g0 = [] then g0\<lparr>ag_Effect := AdminGrantAllow\<rparr> else g0)
      in if ag_Permission g = ''*'' \<or> \<not> IsKnownAdminPermission (ag_Permission g) \<or>
            (ag_Effect g \<noteq> AdminGrantAllow \<and> ag_Effect g \<noteq> AdminGrantDeny)
         then filter_key_grants gs else g # filter_key_grants gs)"

definition ResolveLegacyAPIKeyPrincipal ::
    "'s AdminPermissionService \<Rightarrow> 's \<Rightarrow> string \<Rightarrow> admin_error + AdminPrincipal" where
  "ResolveLegacyAPIKeyPrincipal svc st bindingKey =
     (case ResolveAdminAPIKeyBinding (svc_repo svc) st (trim_space bindingKey) of
        Inl err \<Rightarrow> Inl err
      | Inr rec \<Rightarrow>
          if apr_UserID rec \<le> 0 then Inl ErrAdminPermissionEnforceNoBind
          else if apr_Status rec \<noteq> StatusActive then Inl ErrAdminPermissionEnforceNoBind
          else (let grants = filter_key_grants (apr_Grants rec)
                in if grants = [] then Inl ErrAdminPermissionEnforceNoBind
                   else Inr \<lparr>ap_ID = ''admin-key:'' @ bindingKey, ap_Kind = AdminPrincipalKindAPIKey,
                             ap_UserID = apr_UserID rec, ap_Role = RoleAdmin,
                             ap_Version = apr_Version rec, ap_Grants = grants, ap_Explicit = True,
                             ap_Source = ''admin_api_key_bindings''\<rparr>))"

definition resolveCurrentPrincipal ::
    "'s AdminPermissionService \<Rightarrow> 's \<Rightarrow> AdminPrincipal \<Rightarrow> admin_error + AdminPrincipal" where
  "resolveCurrentPrincipal svc st p =
     (if ap_UserID p \<le> 0 then Inl ErrAdminPermissionDenied
      else (let fresh = (if ap_Kind p = AdminPrincipalKindAPIKey
                  then ResolveLegacyAPIKeyPrincipal svc st (trim_prefix (ap_ID p) ''admin-key:'')
                  else if ap_Kind p = AdminPrincipalKindJWT then ResolvePrincipal svc st (ap_UserID p)
                  else Inl ErrAdminPermissionDenied)
            in case fresh of
                 Inl err \<Rightarrow> Inl err
               | Inr f \<Rightarrow>
                   if ap_Kind f \<noteq> ap_Kind p \<or> ap_UserID f \<noteq> ap_UserID p \<or> ap_Version f \<noteq> ap_Version p
                   then Inl ErrAdminPermissionDenied else Inr f))"

definition CheckPermission :: "'s AdminPermissionService \<Rightarrow> 's \<Rightarrow> AdminPrincipal option \<Rightarrow> string \<Rightarrow>
    scope \<Rightarrow> admin_error + bool" where
  "CheckPermission svc st caller permission sc =
     (case caller of None \<Rightarrow> Inl ErrAdminPermissionDenied
      | Some p \<Rightarrow>
          (case resolveCurrentPrincipal svc st p of
             Inl err \<Rightarrow> Inl err
           | Inr fresh \<Rightarrow> authorizeExplicitGrant (Some fresh) permission sc))"

definition AuthorizeRequest :: "'s AdminPermissionService \<Rightarrow> 's \<Rightarrow> AdminPrincipal option \<Rightarrow> string \<Rightarrow>
    scope \<Rightarrow> admin_error + bool" where
  "AuthorizeRequest svc st caller permission sc =
     (case caller of None \<Rightarrow> Inl ErrAdminPermissionDenied
      | Some p \<Rightarrow>
          (case resolveCurrentPrincipal svc st p of
             Inl err \<Rightarrow> Inl err
           | Inr fresh \<Rightarrow>
               if ap_Kind fresh = AdminPrincipalKindJWT \<and> ap_Role fresh = RoleAdmin \<and>
                  Mode svc = AdminPermissionModeDisabled
               then Inr True else Authorize (Some fresh) permission sc))"

record AdminCapabilities =
  cap_WritesEnabled :: bool
  cap_CanWrite :: bool
  cap_Mode :: string
  cap_DenyReason :: string

definition Capabilities :: "'s AdminPermissionService \<Rightarrow> 's \<Rightarrow> AdminPrincipal option \<Rightarrow> string \<Rightarrow>
    AdminCapabilities" where
  "Capabilities svc st caller permission =
     (if caller = None
      then \<lparr>cap_WritesEnabled = False, cap_CanWrite = False, cap_Mode = Mode svc,
            cap_DenyReason = ''principal_required''\<rparr>
      else (case (if has_prefix permission ''oidc.'' then CheckPermission svc st caller permission []
                  else AuthorizeRequest svc st caller permission []) of
              Inl _ \<Rightarrow> \<lparr>cap_WritesEnabled = True, cap_CanWrite = False, cap_Mode = Mode svc,
                        cap_DenyReason = ''permission_denied''\<rparr>
            | Inr allowed \<Rightarrow> \<lparr>cap_WritesEnabled = True, cap_CanWrite = allowed, cap_Mode = Mode svc,
                              cap_DenyReason = (if allowed then [] else ''permission_denied'')\<rparr>))"

definition validateTargetAdmin :: "'s AdminPermissionService \<Rightarrow> 's \<Rightarrow> AdminPrincipal \<Rightarrow> int \<Rightarrow>
    admin_error + AdminPrincipalRecord" where
  "validateTargetAdmin svc st actor targetUserID =
     (case GetAdminPrincipal (svc_repo svc) st targetUserID of
        Inl err \<Rightarrow> Inl err
      | Inr rec \<Rightarrow>
          if apr_UserID rec \<le> 0 then Inl ErrAdminPermissionTargetNotAdmin
          else if apr_Role rec \<noteq> RoleAdmin \<and> apr_Role rec \<noteq> RoleSuperAdmin
            then Inl ErrAdminPermissionTargetNotAdmin
          else if apr_Role rec = RoleSuperAdmin \<and> \<not> IsSuperAdmin actor
            then Inl ErrAdminCannotModifySuperAdmin
          else Inr rec)"

definition allowsSuperAdminOIDCSelfGrant :: "AdminPrincipal \<Rightarrow> string \<Rightarrow> bool" where
  "allowsSuperAdminOIDCSelfGrant actor permission \<longleftrightarrow>
     ap_Kind actor = AdminPrincipalKindJWT \<and> IsSuperAdmin actor \<and> has_prefix permission ''oidc.''"

text \<open>
  The last part of both mutations: the privilege test for ordinary administrators, then the
  change, with the actor and the target seen so far marked in the context.
\<close>

definition submit_change :: "'s AdminPermissionService \<Rightarrow> 's \<Rightarrow> request_ctx \<Rightarrow> AdminPrincipal \<Rightarrow>
    AdminPrincipalRecord \<Rightarrow> scope \<Rightarrow> AdminPermissionChange \<Rightarrow> 's \<times> admin_error option" where
  "submit_change svc st ctx actor target sc change =
     (case (if IsSuperAdmin actor then Inr True
            else AuthorizeRequest svc st (Some actor) (chg_Permission change) sc) of
        Inl err \<Rightarrow> (st, Some err)
      | Inr allowed \<Rightarrow>
          if \<not> allowed then (st, Some ErrAdminPermissionPrivilege)
          else (case ApplyAdminPermissionChange (svc_repo svc) st
                  (ctx\<lparr>ctx_target_snapshot := Some (apr_Role target, apr_Status target),
                       ctx_actor_mark := Some (ap_UserID actor)\<rparr>) change of
                  (st', Inl err) \<Rightarrow> (st', Some err)
                | (st', Inr version) \<Rightarrow> (st', None)))"

definition grant_permission_raw :: "'s AdminPermissionService \<Rightarrow> 's \<Rightarrow> request_ctx \<Rightarrow>
    AdminPrincipal option \<Rightarrow> int \<Rightarrow> string \<Rightarrow> string \<Rightarrow> scope \<Rightarrow> string \<Rightarrow> 's \<times> admin_error option" where
  "grant_permission_raw svc st ctx actor_opt targetUserID permission0 effect0 sc reason0 =
     (let permission = trim_space permission0;
          effect = to_lower (trim_space effect0);
          reason = trim_space reason0
      in if \<not> IsKnownAdminPermission permission then (st, Some ErrAdminPermissionUnknown)
         else if effect \<noteq> AdminGrantAllow \<and> effect \<noteq> AdminGrantDeny
           then (st, Some (InvalidGrantEffect effect))
         else case actor_opt of None \<Rightarrow> (st, Some ErrAdminPermissionDenied)
         | Some actor \<Rightarrow>
           if ap_UserID actor \<le> 0 then (st, Some ErrAdminPermissionDenied)
           else if ap_Kind actor = AdminPrincipalKindAPIKey \<and> ap_Role actor = RoleSuperAdmin
             then (st, Some ErrAdminPermissionDenied)
           else if ap_UserID actor = targetUserID \<and> \<not> allowsSuperAdminOIDCSelfGrant actor permission
             then (st, Some ErrAdminPermissionSelfGrant)
           else if reason = [] then (st, Some AuditReasonRequired)
           else (case normalizeAdminScope sc of
               Inl err \<Rightarrow> (st, Some err)
             | Inr normalizedScope \<Rightarrow>
               if effect = AdminGrantAllow \<and> length normalizedScope = 0
                 then (st, Some ErrAdminPermissionScopeInvalid)
               else (case validateTargetAdmin svc st actor targetUserID of
                   Inl err \<Rightarrow> (st, Some err)
                 | Inr target \<Rightarrow> submit_change svc st ctx actor target normalizedScope
                     \<lparr>chg_ActorUserID = ap_UserID actor, chg_ActorIsSuper = IsSuperAdmin actor,
                      chg_TargetUserID = targetUserID, chg_Action = ''grant'',
                      chg_Permission = permission, chg_Effect = effect,
                      chg_Scope = normalizedScope, chg_Reason = reason\<rparr>)))"

definition GrantPermission :: "'s AdminPermissionService \<Rightarrow> 's \<Rightarrow> request_ctx \<Rightarrow>
    AdminPrincipal option \<Rightarrow> int \<Rightarrow> string \<Rightarrow> string \<Rightarrow> scope \<Rightarrow> string \<Rightarrow> 's \<times> admin_error option" where
  "GrantPermission svc st ctx actor targetUserID permission effect sc reason =
     (case grant_permission_raw svc st ctx actor targetUserID permission effect sc reason of
        (st', err) \<Rightarrow> (st', map_option normalizeAdminMutationError err))"

definition revoke_permission_raw :: "'s AdminPermissionService \<Rightarrow> 's \<Rightarrow> request_ctx \<Rightarrow>
    AdminPrincipal option \<Rightarrow> int \<Rightarrow> string \<Rightarrow> string \<Rightarrow> 's \<times> admin_error option" where
  "revoke_permission_raw svc st ctx actor_opt targetUserID permission0 reason0 =
     (let permission = trim_space permission0;
          reason = trim_space reason0
      in if \<not> IsKnownAdminPermission permission then (st, Some ErrAdminPermissionUnknown)
         else case actor_opt of None \<Rightarrow> (st, Some ErrAdminPermissionDenied)
         | Some actor \<Rightarrow>
           if ap_UserID actor \<le> 0 then (st, Some ErrAdminPermissionDenied)
           else if ap_Kind actor = AdminPrincipalKindAPIKey \<and> ap_Role actor = RoleSuperAdmin
             then (st, Some ErrAdminPermissionDenied)
           else if ap_UserID actor = targetUserID \<and> \<not> allowsSuperAdminOIDCSelfGrant actor permission
             then (st, Some ErrAdminPermissionSelfGrant)
           else if reason = [] then (st, Some AuditReasonRequired)
           else (case validateTargetAdmin svc st actor targetUserID of
               Inl err \<Rightarrow> (st, Some err)
             | Inr target \<Rightarrow> submit_change svc st ctx actor target []
                 \<lparr>chg_ActorUserID = ap_UserID actor, chg_ActorIsSuper = IsSuperAdmin actor,
                  chg_TargetUserID = targetUserID, chg_Action = ''revoke'',
                  chg_Permission = permission, chg_Effect = [], chg_Scope = [],
                  chg_Reason = reason\<rparr>))"

definition RevokePermission :: "'s AdminPermissionService \<Rightarrow> 's \<Rightarrow> request_ctx \<Rightarrow>
    AdminPrincipal option \<Rightarrow> int \<Rightarrow> string \<Rightarrow> string \<Rightarrow> 's \<times> admin_error option" where
  "RevokePermission svc st ctx actor targetUserID permission reason =
     (case revoke_permission_raw svc st ctx actor targetUserID permission reason of
        (st', err) \<Rightarrow> (st', map_option normalizeAdminMutationError err))"

section \<open>Checks of the request context\<close>

definition AssertMutableTarget :: "'s AdminPermissionService \<Rightarrow> 's \<Rightarrow> AdminPrincipal option \<Rightarrow> int \<Rightarrow>
    admin_error option" where
  "AssertMutableTarget svc st actor_opt targetID =
     (case actor_opt of None \<Rightarrow> Some ErrAdminPermissionDenied
      | Some actor \<Rightarrow>
          if targetID \<le> 0 then Some ErrAdminPermissionDenied
          else (case GetAdminPrincipal (svc_repo svc) st targetID of
              Inl err \<Rightarrow> Some err
            | Inr target \<Rightarrow>
                if apr_Role target = RoleSuperAdmin \<and>
                   (\<not> IsSuperAdmin actor \<or> ap_Kind actor = AdminPrincipalKindAPIKey)
                then Some ErrAdminCannotModifySuperAdmin else None))"

text \<open>The service attached to the context, when there is one.\<close>

definition AuthorizeAdminRequest :: "'s AdminPermissionService option \<Rightarrow> 's \<Rightarrow> request_ctx \<Rightarrow> string \<Rightarrow>
    scope \<Rightarrow> admin_error option" where
  "AuthorizeAdminRequest svc_opt st ctx permission sc =
     (case (svc_opt, ctx_principal ctx) of
        (Some svc, Some p) \<Rightarrow>
          if AuthorizeRequest svc st (Some p) permission sc = Inr True then None
          else Some ErrAdminPermissionDenied
      | _ \<Rightarrow> Some ErrAdminPermissionDenied)"

definition RecheckAdminStream :: "'s AdminPermissionService option \<Rightarrow> 's \<Rightarrow> request_ctx \<Rightarrow>
    admin_error option" where
  "RecheckAdminStream svc_opt st ctx =
     (if svc_opt = None then None
      else if ctx_principal ctx = None then Some ErrAdminPermissionDenied
      else if AuthorizeAdminRequest svc_opt st ctx ''ops.read'' [] \<noteq> None
        then Some StreamPermissionRevoked else None)"

definition AuthorizeInvitation :: "'s AdminPermissionService \<Rightarrow> 's \<Rightarrow> request_ctx \<Rightarrow> int \<Rightarrow> string \<Rightarrow>
    admin_error option" where
  "AuthorizeInvitation svc st ctx actorID permission =
     (case ctx_principal ctx of None \<Rightarrow> Some ErrInvitationPermissionDenied
      | Some p \<Rightarrow>
          if ap_UserID p \<noteq> actorID then Some ErrInvitationPermissionDenied
          else if AuthorizeRequest svc st (Some p) permission [] = Inr True then None
          else Some ErrInvitationPermissionDenied)"

section \<open>Decisions, declaratively\<close>

definition denies :: "scope \<Rightarrow> AdminGrant \<Rightarrow> bool" where
  "denies sc g \<longleftrightarrow> ag_Effect g = AdminGrantDeny \<and>
     (ag_Scope g = [] \<or> adminScopeContains (ag_Scope g) sc)"

definition allows :: "scope \<Rightarrow> AdminGrant \<Rightarrow> bool" where
  "allows sc g \<longleftrightarrow> ag_Effect g = AdminGrantAllow \<and> adminScopeContains (ag_Scope g) sc"

lemma grant_loop_iff:
  "grant_loop applies sc allowed gs \<longleftrightarrow>
     (\<forall>g \<in> set gs. applies g \<longrightarrow> \<not> denies sc g) \<and>
     (allowed \<or> (\<exists>g \<in> set gs. applies g \<and> allows sc g))"
proof (induction gs arbitrary: allowed)
  case (Cons g gs)
  have "AdminGrantAllow \<noteq> AdminGrantDeny" by (simp add: admin_consts)
  then show ?case
    using Cons.IH by (auto simp: denies_def allows_def)
qed simp

lemma empty_scope_contains_nothing [simp]: "\<not> adminScopeContains [] sc"
  by (simp add: adminScopeContains_def)

lemma Authorize_True:
  assumes "Authorize (Some p) permission sc = Inr True" and "ap_Role p \<noteq> RoleSuperAdmin"
  obtains g where "g \<in> set (ap_Grants p)" "allows sc g"
    "ag_Permission g = trim_space permission \<or> ag_Permission g = ''*''"
  using assms by (auto simp: Authorize_def Let_def IsSuperAdmin_def grant_loop_iff split: if_splits)

lemma resolveCurrent_fresh:
  assumes "resolveCurrentPrincipal svc st p = Inr f"
  shows "ap_Kind f = ap_Kind p \<and> ap_UserID f = ap_UserID p \<and> ap_Version f = ap_Version p"
  using assms by (auto simp: resolveCurrentPrincipal_def Let_def split: if_splits sum.splits)

lemma filter_key_grants_known:
  "g \<in> set (filter_key_grants gs) \<Longrightarrow> ag_Permission g \<noteq> ''*'' \<and>
   IsKnownAdminPermission (ag_Permission g) \<and>
   (ag_Effect g = AdminGrantAllow \<or> ag_Effect g = AdminGrantDeny)"
  by (induction gs) (auto simp: Let_def split: if_splits)

text \<open>The two kinds of current principals.\<close>

lemma current_key_principal:
  assumes "resolveCurrentPrincipal svc st p = Inr f" and "ap_Kind p = AdminPrincipalKindAPIKey"
  shows "ap_Role f = RoleAdmin \<and> ap_Kind f = AdminPrincipalKindAPIKey \<and>
    (\<forall>g \<in> set (ap_Grants f). ag_Permission g \<noteq> ''*'')"
proof -
  obtain bk where "ResolveLegacyAPIKeyPrincipal svc st bk = Inr f"
    using assms by (auto simp: resolveCurrentPrincipal_def Let_def split: if_splits sum.splits)
  then show ?thesis
    using filter_key_grants_known
    by (auto simp: ResolveLegacyAPIKeyPrincipal_def Let_def split: if_splits sum.splits)
qed

lemma current_jwt_principal:
  assumes "resolveCurrentPrincipal svc st p = Inr f" and "ap_Kind p = AdminPrincipalKindJWT"
  shows "\<exists>rec. GetAdminPrincipal (svc_repo svc) st (ap_UserID p) = Inr rec \<and>
    apr_Status rec = StatusActive \<and> apr_Version rec = ap_Version p \<and> ap_Role f = apr_Role rec \<and>
    ap_Grants f = apr_Grants rec"
proof -
  have "AdminPrincipalKindJWT \<noteq> AdminPrincipalKindAPIKey" by (simp add: admin_consts)
  with assms have "ResolvePrincipal svc st (ap_UserID p) = Inr f" and "ap_Version f = ap_Version p"
    by (auto simp: resolveCurrentPrincipal_def Let_def split: if_splits sum.splits)
  then show ?thesis by (auto simp: ResolvePrincipal_def split: if_splits sum.splits)
qed

section \<open>Properties\<close>

text \<open>
  C18: For an ordinary administrator the decision does not depend on the order in which the
  grants are read: it is allowed exactly when some allowing grant of the permission or of
  the wildcard contains the requested scope and no denying one does, where a denial without
  a scope denies everything.
\<close>

theorem deny_wins:
  assumes "ap_Role p = RoleAdmin" and "0 < ap_UserID p" and "IsKnownAdminPermission permission"
    and "trim_space permission = permission"
  shows "Authorize (Some p) permission sc = Inr
    ((\<exists>g \<in> set (ap_Grants p). ag_Permission g \<in> {permission, ''*''} \<and> allows sc g) \<and>
     \<not> (\<exists>g \<in> set (ap_Grants p). ag_Permission g \<in> {permission, ''*''} \<and> denies sc g))"
proof -
  have "RoleAdmin \<noteq> RoleSuperAdmin" by (simp add: admin_consts)
  with assms show ?thesis
    by (auto simp: Authorize_def Let_def IsSuperAdmin_def grant_loop_iff)
qed

definition everywhere :: scope where "everywhere = [(''*'', VString ''*'')]"

definition sample_admin :: AdminPrincipal where
  "sample_admin = \<lparr>ap_ID = ''user:7'', ap_Kind = AdminPrincipalKindJWT, ap_UserID = 7,
     ap_Role = RoleAdmin, ap_Version = 0,
     ap_Grants = [\<lparr>ag_Permission = ''*'', ag_Effect = AdminGrantAllow, ag_Scope = everywhere\<rparr>,
                  \<lparr>ag_Permission = ''users.read'', ag_Effect = AdminGrantDeny, ag_Scope = []\<rparr>],
     ap_Explicit = True, ap_Source = []\<rparr>"

lemma sample_permissions:
  "IsKnownAdminPermission ''users.read''" "trim_space ''users.read'' = ''users.read''"
  by code_simp (simp add: plain_text)

theorem deny_wins_witness: "Authorize (Some sample_admin) ''users.read'' [] = Inr False"
proof -
  have "denies [] \<lparr>ag_Permission = ''users.read'', ag_Effect = AdminGrantDeny, ag_Scope = []\<rparr>"
    by (simp add: denies_def)
  then show ?thesis
    using deny_wins [of sample_admin "''users.read''" "[]"] sample_permissions
    by (simp add: sample_admin_def)
qed

text \<open>
  OIDC administration needs its own grant: whatever the mode and the role, a super
  administrator included, CheckPermission answers yes for an oidc permission only if the
  current principal of the caller has an allowing grant of exactly that permission whose
  scope contains the request, and no denying one.
\<close>

theorem oidc_needs_exact_grant:
  assumes "CheckPermission svc st (Some p) permission sc = Inr True"
    and "has_prefix (trim_space permission) ''oidc.''"
  shows "\<exists>f. resolveCurrentPrincipal svc st p = Inr f \<and>
    (\<exists>g \<in> set (ap_Grants f). ag_Permission g = trim_space permission \<and> allows sc g) \<and>
    \<not> (\<exists>g \<in> set (ap_Grants f). ag_Permission g = trim_space permission \<and> denies sc g)"
  using assms
  by (auto simp: CheckPermission_def authorizeExplicitGrant_def Let_def grant_loop_iff
      split: sum.splits if_splits)

text \<open>
  An administrative API key never acts with the powers of the user it is bound to: a
  request of a key is authorized only by a grant on the key's own binding that names the
  permission itself; the wildcard does not count, even when the bound user is a super
  administrator, and in the disabled mode as well.
\<close>

theorem key_needs_own_grant:
  assumes "AuthorizeRequest svc st (Some p) permission sc = Inr True"
    and "ap_Kind p = AdminPrincipalKindAPIKey"
  shows "\<exists>f. resolveCurrentPrincipal svc st p = Inr f \<and> ap_Role f = RoleAdmin \<and>
    (\<exists>g \<in> set (ap_Grants f). ag_Permission g = trim_space permission \<and> allows sc g)"
proof -
  have distinct_names: "AdminPrincipalKindAPIKey \<noteq> AdminPrincipalKindJWT" "RoleAdmin \<noteq> RoleSuperAdmin"
    by (simp_all add: admin_consts)
  obtain f where f: "resolveCurrentPrincipal svc st p = Inr f"
    using assms(1) by (auto simp: AuthorizeRequest_def split: sum.splits)
  note key = current_key_principal [OF f assms(2)]
  then have "Authorize (Some f) permission sc = Inr True"
    using assms(1) distinct_names by (auto simp: AuthorizeRequest_def f split: if_splits)
  then obtain g where "g \<in> set (ap_Grants f)" "allows sc g"
      "ag_Permission g = trim_space permission \<or> ag_Permission g = ''*''"
    using key distinct_names by (metis Authorize_True)
  with key f show ?thesis by auto
qed

text \<open>A repository with one super administrator and one key, for the examples.\<close>

definition sample_grants :: "AdminGrant list" where
  "sample_grants = [\<lparr>ag_Permission = ''*'', ag_Effect = AdminGrantAllow, ag_Scope = everywhere\<rparr>,
     \<lparr>ag_Permission = ''oidc.keys.read'', ag_Effect = AdminGrantAllow, ag_Scope = everywhere\<rparr>]"

definition sample_repo :: "unit admin_repo" where
  "sample_repo =
     \<lparr>GetAdminPrincipal = (\<lambda>_ userID. Inr \<lparr>apr_UserID = userID, apr_Role = RoleSuperAdmin,
        apr_Status = StatusActive, apr_Version = 3, apr_Grants = sample_grants\<rparr>),
      ResolveAdminAPIKeyBinding = (\<lambda>_ _. Inr \<lparr>apr_UserID = 7, apr_Role = RoleAdmin,
        apr_Status = StatusActive, apr_Version = 3, apr_Grants = sample_grants\<rparr>),
      ApplyAdminPermissionChange = (\<lambda>st _ _. (st, Inr 0))\<rparr>"

definition sample_service :: "unit AdminPermissionService" where
  "sample_service = NewAdminPermissionService sample_repo ''off''"

definition sample_caller :: "string \<Rightarrow> AdminPrincipal" where
  "sample_caller kind = \<lparr>ap_ID = ''admin-key:k'', ap_Kind = kind, ap_UserID = 7,
     ap_Role = RoleAdmin, ap_Version = 3, ap_Grants = [], ap_Explicit = True, ap_Source = []\<rparr>"

lemmas sample_service_simps = sample_service_def NewAdminPermissionService_def sample_repo_def
  sample_caller_def sample_grants_def everywhere_def admin_consts resolveCurrentPrincipal_def
  ResolvePrincipal_def ResolveLegacyAPIKeyPrincipal_def Let_def

lemma sample_oidc:
  "IsKnownAdminPermission ''oidc.keys.read''" "trim_space ''oidc.keys.read'' = ''oidc.keys.read''"
  "has_prefix ''oidc.keys.read'' ''oidc.''"
  by code_simp (simp_all add: plain_text has_prefix_def)

lemma sample_check:
  "CheckPermission sample_service () (Some (sample_caller AdminPrincipalKindJWT)) ''oidc.keys.read'' []
     = Inr True"
  by (simp add: sample_service_simps CheckPermission_def authorizeExplicitGrant_def sample_oidc
      adminScopeContains_def)

theorem oidc_needs_exact_grant_witness:
  "\<exists>f. resolveCurrentPrincipal sample_service () (sample_caller AdminPrincipalKindJWT) = Inr f \<and>
     (\<exists>g \<in> set (ap_Grants f). ag_Permission g = ''oidc.keys.read'')"
  using oidc_needs_exact_grant [OF sample_check] sample_oidc by auto

lemma sample_request:
  "AuthorizeRequest sample_service () (Some (sample_caller AdminPrincipalKindAPIKey)) ''oidc.keys.read'' []
     = Inr True"
  by (simp add: sample_service_simps AuthorizeRequest_def Authorize_def sample_oidc IsSuperAdmin_def
      adminScopeContains_def)

theorem key_needs_own_grant_witness:
  "\<exists>f. resolveCurrentPrincipal sample_service () (sample_caller AdminPrincipalKindAPIKey) = Inr f \<and>
     ap_Role f = RoleAdmin \<and> (\<exists>g \<in> set (ap_Grants f). ag_Permission g = ''oidc.keys.read'')"
  using key_needs_own_grant [OF sample_request] sample_oidc by (auto simp: sample_caller_def)

section \<open>What the service relies on\<close>

text \<open>
  The laws of the repository: a failed change leaves the state, a change touches the
  principal of its target only, it keeps every account's role and status, and a grant raises
  the permission version of its target.
\<close>

locale admin_repository =
  fixes repo :: "'s admin_repo"
  assumes failed_change: "ApplyAdminPermissionChange repo st ctx c = (st', Inl e) \<Longrightarrow> st' = st"
    and others_kept: "ApplyAdminPermissionChange repo st ctx c = (st', r) \<Longrightarrow>
      uid \<noteq> chg_TargetUserID c \<Longrightarrow> GetAdminPrincipal repo st' uid = GetAdminPrincipal repo st uid"
    and target_kept: "ApplyAdminPermissionChange repo st ctx c = (st', r) \<Longrightarrow>
      GetAdminPrincipal repo st uid = Inr rec \<Longrightarrow>
      \<exists>rec'. GetAdminPrincipal repo st' uid = Inr rec' \<and> apr_Role rec' = apr_Role rec \<and>
        apr_Status rec' = apr_Status rec \<and> apr_Version rec \<le> apr_Version rec'"
    and grant_bumps: "ApplyAdminPermissionChange repo st ctx c = (st', Inr v) \<Longrightarrow>
      chg_Action c = ''grant'' \<Longrightarrow> GetAdminPrincipal repo st (chg_TargetUserID c) = Inr rec \<Longrightarrow>
      \<exists>rec'. GetAdminPrincipal repo st' (chg_TargetUserID c) = Inr rec' \<and>
        apr_Version rec < apr_Version rec'"
begin

lemma submit_effect:
  assumes "svc_repo svc = repo" and "submit_change svc st ctx actor target sc change = (st', err)"
  shows "(\<exists>ctx' r. ApplyAdminPermissionChange repo st ctx' change = (st', r) \<and>
      err = (case r of Inl e \<Rightarrow> Some e | Inr _ \<Rightarrow> None)) \<or> st' = st \<and> err \<noteq> None"
proof -
  let ?ctx = "ctx\<lparr>ctx_target_snapshot := Some (apr_Role target, apr_Status target),
    ctx_actor_mark := Some (ap_UserID actor)\<rparr>"
  obtain s r where "ApplyAdminPermissionChange repo st ?ctx change = (s, r)" by fastforce
  with assms show ?thesis
    by (cases r) (auto simp: submit_change_def split: sum.splits if_splits prod.splits)
qed

lemma grant_effect:
  assumes "svc_repo svc = repo"
    and "GrantPermission svc st ctx actor target permission effect sc reason = (st', err)"
  shows "st' = st \<and> err \<noteq> None \<or>
    (\<exists>ctx' c r. ApplyAdminPermissionChange repo st ctx' c = (st', r) \<and> chg_TargetUserID c = target \<and>
      chg_Action c = ''grant'' \<and> (err = None \<longleftrightarrow> (\<exists>v. r = Inr v)))"
proof -
  obtain raw where raw: "grant_permission_raw svc st ctx actor target permission effect sc reason
      = (st', raw)" and err: "err = map_option normalizeAdminMutationError raw"
    using assms(2) by (auto simp: GrantPermission_def split: prod.splits)
  show ?thesis
  proof (cases "st' = st \<and> raw \<noteq> None")
    case True
    with err show ?thesis by simp
  next
    case False
    then obtain a t ns change where "submit_change svc st ctx a t ns change = (st', raw)"
        "chg_TargetUserID change = target" "chg_Action change = ''grant''"
      using raw by (auto simp: grant_permission_raw_def Let_def split: if_splits option.splits sum.splits)
    with submit_effect [OF assms(1) this(1)] False show ?thesis
      by (fastforce simp: err split: sum.splits)
  qed
qed

lemma revoke_effect:
  assumes "svc_repo svc = repo"
    and "RevokePermission svc st ctx actor target permission reason = (st', err)"
  shows "st' = st \<and> err \<noteq> None \<or>
    (\<exists>ctx' c r. ApplyAdminPermissionChange repo st ctx' c = (st', r) \<and> chg_TargetUserID c = target \<and>
      (err = None \<longleftrightarrow> (\<exists>v. r = Inr v)))"
proof -
  obtain raw where raw: "revoke_permission_raw svc st ctx actor target permission reason = (st', raw)"
      and err: "err = map_option normalizeAdminMutationError raw"
    using assms(2) by (auto simp: RevokePermission_def split: prod.splits)
  show ?thesis
  proof (cases "st' = st \<and> raw \<noteq> None")
    case True
    with err show ?thesis by simp
  next
    case False
    then obtain a t ns change where "submit_change svc st ctx a t ns change = (st', raw)"
        "chg_TargetUserID change = target"
      using raw by (auto simp: revoke_permission_raw_def Let_def split: if_splits option.splits sum.splits)
    with submit_effect [OF assms(1) this(1)] False show ?thesis
      by (fastforce simp: err split: sum.splits)
  qed
qed

lemma mutation_failed_unchanged:
  "svc_repo svc = repo \<Longrightarrow>
   GrantPermission svc st ctx actor target permission effect sc reason = (st', Some e) \<Longrightarrow> st' = st"
  "svc_repo svc = repo \<Longrightarrow>
   RevokePermission svc st ctx actor target permission reason = (st', Some e) \<Longrightarrow> st' = st"
  using grant_effect revoke_effect failed_change by (metis option.distinct(1) sum.exhaust)+

lemma resolve_of_record:
  "svc_repo svc = repo \<Longrightarrow> GetAdminPrincipal repo st' uid = GetAdminPrincipal repo st uid \<Longrightarrow>
   ResolvePrincipal svc st' uid = ResolvePrincipal svc st uid"
  by (simp add: ResolvePrincipal_def)

lemma bystander_kept:
  assumes "svc_repo svc = repo" and "ap_Kind p = AdminPrincipalKindJWT" and "ap_UserID p \<noteq> target"
    and "GrantPermission svc st ctx actor target permission effect sc reason = (st', err)"
  shows "AuthorizeRequest svc st' (Some p) q sc' = AuthorizeRequest svc st (Some p) q sc'"
proof -
  have "GetAdminPrincipal repo st' (ap_UserID p) = GetAdminPrincipal repo st (ap_UserID p)"
    using grant_effect [OF assms(1,4)] others_kept assms(3) by metis
  moreover have "AdminPrincipalKindJWT \<noteq> AdminPrincipalKindAPIKey" by (simp add: admin_consts)
  ultimately have "resolveCurrentPrincipal svc st' p = resolveCurrentPrincipal svc st p"
    using assms(1,2) resolve_of_record [of svc st' "ap_UserID p" st]
    by (cases "ResolvePrincipal svc st (ap_UserID p)")
       (simp_all add: resolveCurrentPrincipal_def Let_def)
  then show ?thesis
    by (cases "resolveCurrentPrincipal svc st p") (auto simp: AuthorizeRequest_def Authorize_def)
qed

lemma granted_target_stale:
  assumes "svc_repo svc = repo" and "ap_Kind p = AdminPrincipalKindJWT"
    and "resolveCurrentPrincipal svc st p = Inr f"
    and "GrantPermission svc st ctx actor (ap_UserID p) permission effect sc reason = (st', None)"
  shows "isl (AuthorizeRequest svc st' (Some p) q sc')"
proof -
  obtain rec where rec: "GetAdminPrincipal repo st (ap_UserID p) = Inr rec" "apr_Version rec = ap_Version p"
      "apr_Status rec = StatusActive"
    using current_jwt_principal [OF assms(3,2)] assms(1) by auto
  from grant_effect [OF assms(1,4)] obtain ctx' c v where
    c: "ApplyAdminPermissionChange repo st ctx' c = (st', Inr v)" "chg_TargetUserID c = ap_UserID p"
      "chg_Action c = ''grant''"
    by auto
  with rec obtain rec' where rec': "GetAdminPrincipal repo st' (ap_UserID p) = Inr rec'"
      "apr_Version rec < apr_Version rec'"
    using grant_bumps [OF c(1,3)] by auto
  then have kept: "apr_Role rec' = apr_Role rec" "apr_Status rec' = apr_Status rec"
    using target_kept [OF c(1) rec(1)] by auto
  have jwt: "AdminPrincipalKindJWT \<noteq> AdminPrincipalKindAPIKey" by (simp add: admin_consts)
  with assms(2,3) have "ResolvePrincipal svc st (ap_UserID p) = Inr f" and pos: "0 < ap_UserID p"
    by (auto simp: resolveCurrentPrincipal_def Let_def split: if_splits sum.splits)
  then have "apr_Role rec = RoleAdmin \<or> apr_Role rec = RoleSuperAdmin"
    using rec assms(1) by (auto simp: ResolvePrincipal_def split: if_splits)
  then have "resolveCurrentPrincipal svc st' p = Inl ErrAdminPermissionDenied \<or>
      resolveCurrentPrincipal svc st' p = Inl ErrAdminPrincipalNotFound"
    using assms(1,2) rec rec' kept jwt pos
    by (auto simp: resolveCurrentPrincipal_def ResolvePrincipal_def Let_def)
  then show ?thesis by (auto simp: AuthorizeRequest_def)
qed

end

end
