(* ===== verification/Admin_Permission_Store.thy ===== *)
theory Admin_Permission_Store
  imports Admin_Permissions "HOL-Library.List_Lexorder" "HOL-Library.Char_ord"
begin

text \<open>
  The repository of the permission service (repository/admin_permission_repo.go) and the
  authorization that every sensitive mutation repeats inside its transaction
  (repository/admin_mutation_authorization.go), over the tables they read and write.

  A transaction is atomic here, as the advisory lock and the row locks make it; one that
  fails is rolled back, so it leaves the tables. A scope is stored as JSON: the parameter
  \<open>recode\<close> is what encoding a scope and decoding it again yields, \<open>None\<close> when it
  cannot be encoded; a stored scope that cannot be decoded is \<open>None\<close> in its row.
\<close>

section \<open>Tables\<close>

record user_row =
  ur_role :: string
  ur_status :: string
  ur_deleted :: bool

record grant_row =
  gr_effect :: string
  gr_scope :: "scope option"

text \<open>The JSON forms of a key's scopes that decodeAPIKeyScopes distinguishes.\<close>

datatype key_scopes =
    NoScopes
  | PermissionNames "string list"
  | GrantObjects "AdminGrant list"
  | UndecodableScopes

record binding_row =
  br_principal :: int
  br_scopes :: key_scopes
  br_enabled :: bool

record audit_row =
  au_actor :: int
  au_target :: int
  au_action :: string
  au_permission :: string

record admin_store =
  users :: "(int, user_row) amap"
  versions :: "(int, int) amap"
  grants :: "(int \<times> string, grant_row) amap"
  bindings :: "(string, binding_row) amap"
  audit :: "audit_row list"

definition live_user :: "admin_store \<Rightarrow> int \<Rightarrow> user_row option" where
  "live_user st userID =
     (case aget (users st) userID of None \<Rightarrow> None
      | Some u \<Rightarrow> if ur_deleted u then None else Some u)"

definition version_of :: "admin_store \<Rightarrow> int \<Rightarrow> int" where
  "version_of st userID = (case aget (versions st) userID of None \<Rightarrow> 0 | Some v \<Rightarrow> v)"

text \<open>ORDER BY effect DESC, permission ASC.\<close>

definition ordered_grants :: "admin_store \<Rightarrow> int \<Rightarrow> (string \<times> grant_row) list" where
  "ordered_grants st userID =
     rev (sort_key (\<lambda>(p, r). gr_effect r) (rev (sort_key fst
       (map (\<lambda>((u, p), r). (p, r)) (filter (\<lambda>((u, p), r). u = userID) (grants st))))))"

definition decodePermissionScope :: "scope option \<Rightarrow> scope" where
  "decodePermissionScope raw = (case raw of None \<Rightarrow> [] | Some sc \<Rightarrow> sc)"

definition decodeAPIKeyScopes :: "key_scopes \<Rightarrow> admin_error + AdminGrant list" where
  "decodeAPIKeyScopes raw =
     (case raw of NoScopes \<Rightarrow> Inr []
      | PermissionNames ps \<Rightarrow> Inr (map (\<lambda>p. \<lparr>ag_Permission = p, ag_Effect = AdminGrantAllow,
                                          ag_Scope = [(''*'', VString ''*'')]\<rparr>) ps)
      | GrantObjects gs \<Rightarrow> Inr gs
      | UndecodableScopes \<Rightarrow> Inl MalformedScope)"

section \<open>Queries\<close>

definition get_admin_principal :: "admin_store \<Rightarrow> int \<Rightarrow> admin_error + AdminPrincipalRecord" where
  "get_admin_principal st userID =
     (case live_user st userID of None \<Rightarrow> Inl ErrAdminPrincipalNotFound
      | Some u \<Rightarrow> Inr \<lparr>apr_UserID = userID, apr_Role = ur_role u, apr_Status = ur_status u,
           apr_Version = version_of st userID,
           apr_Grants = map (\<lambda>(p, r). \<lparr>ag_Permission = p, ag_Effect = gr_effect r,
             ag_Scope = decodePermissionScope (gr_scope r)\<rparr>) (ordered_grants st userID)\<rparr>)"

definition resolve_admin_api_key_binding :: "admin_store \<Rightarrow> string \<Rightarrow> admin_error + AdminPrincipalRecord" where
  "resolve_admin_api_key_binding st bindingKey =
     (case aget (bindings st) bindingKey of None \<Rightarrow> Inl ErrAdminPermissionEnforceNoBind
      | Some b \<Rightarrow>
          if \<not> br_enabled b then Inl ErrAdminPermissionEnforceNoBind
          else (case live_user st (br_principal b) of None \<Rightarrow> Inl ErrAdminPermissionEnforceNoBind
            | Some u \<Rightarrow>
                (case decodeAPIKeyScopes (br_scopes b) of Inl err \<Rightarrow> Inl err
                 | Inr gs \<Rightarrow> Inr \<lparr>apr_UserID = br_principal b, apr_Role = RoleAdmin,
                     apr_Status = ur_status u, apr_Version = version_of st (br_principal b),
                     apr_Grants = gs\<rparr>)))"

section \<open>Authorization inside the transaction\<close>

record AdminMutationAuthorizationOptions =
  opt_TargetUserID :: int
  opt_TargetMustBeAdmin :: bool
  opt_TargetNotFound :: "admin_error option"
  opt_ExpectedTargetRole :: string
  opt_ExpectedTargetStatus :: string
  opt_Permissions :: "(string \<times> scope) list"
  opt_Privilege :: "(string \<times> scope) option"
  opt_RequireHumanSuperAdmin :: bool
  opt_RequireHumanSuperAdminForAdmin :: bool
  opt_DisallowSelfTarget :: bool
  opt_AllowHumanSuperAdminSelfTarget :: bool

definition no_options :: AdminMutationAuthorizationOptions where
  "no_options = \<lparr>opt_TargetUserID = 0, opt_TargetMustBeAdmin = False, opt_TargetNotFound = None,
     opt_ExpectedTargetRole = [], opt_ExpectedTargetStatus = [], opt_Permissions = [],
     opt_Privilege = None, opt_RequireHumanSuperAdmin = False,
     opt_RequireHumanSuperAdminForAdmin = False, opt_DisallowSelfTarget = False,
     opt_AllowHumanSuperAdminSelfTarget = False\<rparr>"

record AdminMutationAuthorization =
  auth_ActorUserID :: int
  auth_ActorKind :: string
  auth_ActorRole :: string
  auth_ActorStatus :: string
  auth_ActorVersion :: int
  auth_TargetUserID :: int
  auth_TargetRole :: string
  auth_TargetStatus :: string
  auth_TargetVersion :: int
  auth_TargetExists :: bool

definition userMutationScope :: "int \<Rightarrow> scope" where
  "userMutationScope userID =
     [(''id'', VInt userID), (''user_id'', VInt userID), (''users_ids'', VInt userID)]"

definition legacy_key_principal :: "int \<Rightarrow> int \<Rightarrow> AdminPrincipal" where
  "legacy_key_principal userID version =
     \<lparr>ap_ID = ''admin-key:legacy'', ap_Kind = AdminPrincipalKindAPIKey, ap_UserID = userID,
      ap_Role = RoleAdmin, ap_Version = version, ap_Grants = [], ap_Explicit = False,
      ap_Source = ''legacy_admin_api_key''\<rparr>"

text \<open>A grant whose scope cannot be decoded fails the whole reading.\<close>

definition readAdminMutationGrants :: "admin_store \<Rightarrow> int \<Rightarrow> admin_error + AdminGrant list" where
  "readAdminMutationGrants st userID =
     (if list_ex (\<lambda>(p, r). gr_scope r = None) (ordered_grants st userID) then Inl MalformedScope
      else Inr (map (\<lambda>(p, r). \<lparr>ag_Permission = p, ag_Effect = gr_effect r,
             ag_Scope = the (gr_scope r)\<rparr>) (ordered_grants st userID)))"

definition fresh_key_principal :: "admin_store \<Rightarrow> AdminPrincipal \<Rightarrow> int \<Rightarrow> admin_error + AdminPrincipal" where
  "fresh_key_principal st p actorUserID =
     (if ap_Role p \<noteq> RoleAdmin then Inl ErrAdminPermissionDenied
      else (let bindingKey = trim_space (trim_prefix (ap_ID p) ''admin-key:'')
            in if bindingKey = [] then Inl ErrAdminPermissionDenied
               else case aget (bindings st) bindingKey of None \<Rightarrow> Inl ErrAdminPermissionDenied
               | Some b \<Rightarrow>
                   if \<not> br_enabled b \<or> br_principal b \<noteq> actorUserID then Inl ErrAdminPermissionDenied
                   else (case decodeAPIKeyScopes (br_scopes b) of Inl err \<Rightarrow> Inl err
                     | Inr gs \<Rightarrow> Inr \<lparr>ap_ID = ''admin-key:'' @ bindingKey,
                         ap_Kind = AdminPrincipalKindAPIKey, ap_UserID = actorUserID,
                         ap_Role = RoleAdmin, ap_Version = version_of st actorUserID,
                         ap_Grants = filter_key_grants gs, ap_Explicit = True,
                         ap_Source = ''admin_api_key_bindings''\<rparr>)))"

definition freshAdminMutationPrincipal :: "admin_store \<Rightarrow> AdminPrincipal option \<Rightarrow> string \<Rightarrow> int \<Rightarrow>
    user_row \<Rightarrow> string \<Rightarrow> admin_error + AdminPrincipal option" where
  "freshAdminMutationPrincipal st caller principalKind actorUserID actor mode =
     (case caller of
        None \<Rightarrow>
          if mode = AdminPermissionModeEnforce then Inl ErrAdminPermissionDenied
          else if ur_role actor \<noteq> RoleAdmin \<and> ur_role actor \<noteq> RoleSuperAdmin
            then Inl ErrAdminPermissionDenied
          else if principalKind = AdminPrincipalKindAPIKey
            then Inr (Some (legacy_key_principal actorUserID (version_of st actorUserID)))
          else Inr None
      | Some p \<Rightarrow>
          if ap_UserID p \<noteq> actorUserID then Inl ErrAdminPermissionDenied
          else if \<not> ap_Explicit p
          then (if ur_role actor = RoleSuperAdmin \<or> mode = AdminPermissionModeEnforce
                  then Inl ErrAdminPermissionDenied
                else if principalKind = AdminPrincipalKindAPIKey \<or> ap_Kind p = AdminPrincipalKindAPIKey
                  then Inr (Some (legacy_key_principal actorUserID (version_of st actorUserID)))
                else if ur_role actor \<noteq> RoleAdmin \<and> ur_role actor \<noteq> RoleSuperAdmin
                  then Inl ErrAdminPermissionDenied
                else Inr None)
          else if ap_Kind p = AdminPrincipalKindJWT
          then (if ur_role actor \<noteq> RoleAdmin \<and> ur_role actor \<noteq> RoleSuperAdmin
                  then Inl ErrAdminPermissionDenied
                else case readAdminMutationGrants st actorUserID of Inl err \<Rightarrow> Inl err
                | Inr gs \<Rightarrow> Inr (Some \<lparr>ap_ID = ap_ID p, ap_Kind = AdminPrincipalKindJWT,
                    ap_UserID = actorUserID, ap_Role = ur_role actor,
                    ap_Version = version_of st actorUserID, ap_Grants = gs, ap_Explicit = True,
                    ap_Source = ap_Source p\<rparr>))
          else if ap_Kind p = AdminPrincipalKindAPIKey
          then map_sum (\<lambda>e. e) Some (fresh_key_principal st p actorUserID)
          else Inl ErrAdminPermissionDenied)"

definition effective_mode :: "request_ctx \<Rightarrow> string" where
  "effective_mode ctx = (case ctx_service_mode ctx of
     Some m \<Rightarrow> NormalizeAdminPermissionMode m | None \<Rightarrow> NormalizeAdminPermissionMode (ctx_env_mode ctx))"

text \<open>The kind marked in the context; an empty mark counts as none.\<close>

definition marked_kind :: "request_ctx \<Rightarrow> string" where
  "marked_kind ctx = (case ctx_principal_kind ctx of None \<Rightarrow> [] | Some k \<Rightarrow> k)"

text \<open>
  The tests before the transaction takes its locks: \<open>Inr None\<close> lets an unmarked consumer
  mutation pass, \<open>Inr (Some id)\<close> is the acting administrator.
\<close>

definition mutation_actor :: "request_ctx \<Rightarrow> int \<Rightarrow> admin_error + int option" where
  "mutation_actor ctx actorUserID0 =
     (let kind = marked_kind ctx; hasKind = kind \<noteq> []
      in if hasKind \<and> kind \<noteq> AdminPrincipalKindJWT \<and> kind \<noteq> AdminPrincipalKindAPIKey
           then Inl ErrAdminPermissionDenied
         else if hasKind \<and> pred_option (\<lambda>p. ap_Kind p \<noteq> kind) (ctx_principal ctx) \<and>
                 ctx_principal ctx \<noteq> None
           then Inl ErrAdminPermissionDenied
         else if ctx_principal ctx = None \<and> ctx_actor_mark ctx = None then Inr None
         else (let actorUserID =
                 (if actorUserID0 \<le> 0
                  then (case ctx_actor_mark ctx of
                      Some a \<Rightarrow> if 0 < a then a
                                else (case ctx_principal ctx of Some p \<Rightarrow> ap_UserID p | None \<Rightarrow> actorUserID0)
                    | None \<Rightarrow> (case ctx_principal ctx of Some p \<Rightarrow> ap_UserID p | None \<Rightarrow> actorUserID0))
                  else actorUserID0)
               in if (case ctx_principal ctx of None \<Rightarrow> False
                      | Some p \<Rightarrow> ap_UserID p \<le> 0 \<or> (0 < actorUserID \<and> ap_UserID p \<noteq> actorUserID))
                    then Inl ErrAdminPermissionDenied
                  else if effective_mode ctx = AdminPermissionModeEnforce \<and> ctx_principal ctx = None
                    then Inl ErrAdminPermissionDenied
                  else if actorUserID \<le> 0 then Inl ErrAdminPermissionDenied
                  else Inr (Some actorUserID)))"

text \<open>The loop over the required permissions.\<close>

fun required_denial :: "AdminPrincipal \<Rightarrow> (string \<times> scope) list \<Rightarrow> admin_error option" where
  "required_denial p [] = None"
| "required_denial p ((permission, sc) # rest) =
     (case Authorize (Some p) permission sc of
        Inl err \<Rightarrow> Some err
      | Inr allowed \<Rightarrow> if \<not> allowed then Some ErrAdminPermissionDenied else required_denial p rest)"

definition human_super :: "AdminPrincipal \<Rightarrow> bool" where
  "human_super p \<longleftrightarrow> ap_Kind p = AdminPrincipalKindJWT \<and> ap_Role p = RoleSuperAdmin"

text \<open>The permission tests on the principal read in the transaction.\<close>

definition permission_denial :: "string \<Rightarrow> AdminPrincipal \<Rightarrow> AdminMutationAuthorizationOptions \<Rightarrow>
    admin_error option" where
  "permission_denial mode fresh opts =
     (if mode = AdminPermissionModeEnforce \<or> ap_Kind fresh = AdminPrincipalKindAPIKey
      then (case required_denial fresh (opt_Permissions opts) of
          Some err \<Rightarrow> Some err
        | None \<Rightarrow>
            (case opt_Privilege opts of None \<Rightarrow> None
             | Some (permission, sc) \<Rightarrow>
                 if human_super fresh then None
                 else (case Authorize (Some fresh) permission sc of
                     Inl err \<Rightarrow> Some err
                   | Inr allowed \<Rightarrow> if \<not> allowed then Some ErrAdminPermissionPrivilege else None)))
      else None)"

text \<open>The tests on the target row, with the snapshot of the preflight merged in.\<close>

definition target_denial :: "admin_store \<Rightarrow> int \<Rightarrow> AdminPrincipal \<Rightarrow> AdminMutationAuthorizationOptions \<Rightarrow>
    string \<Rightarrow> string \<Rightarrow> admin_error + user_row" where
  "target_denial st actorUserID fresh opts expectedRole expectedStatus =
     (case live_user st (opt_TargetUserID opts) of
        None \<Rightarrow>
          if expectedRole \<noteq> [] \<or> expectedStatus \<noteq> [] then Inl ErrAdminMutationConflict
          else (case opt_TargetNotFound opts of Some err \<Rightarrow> Inl err | None \<Rightarrow> Inl ErrAdminPrincipalNotFound)
      | Some target \<Rightarrow>
          if (expectedRole \<noteq> [] \<and> ur_role target \<noteq> expectedRole) \<or>
             (expectedStatus \<noteq> [] \<and> ur_status target \<noteq> expectedStatus)
            then Inl ErrAdminMutationConflict
          else if opt_DisallowSelfTarget opts \<and> opt_TargetUserID opts = actorUserID \<and>
                  \<not> (opt_AllowHumanSuperAdminSelfTarget opts \<and> human_super fresh)
            then Inl ErrAdminPermissionSelfGrant
          else if opt_TargetMustBeAdmin opts \<and> ur_role target \<noteq> RoleAdmin \<and>
                  ur_role target \<noteq> RoleSuperAdmin
            then Inl ErrAdminPermissionTargetNotAdmin
          else if ur_role target = RoleSuperAdmin \<and> \<not> human_super fresh
            then Inl ErrAdminCannotModifySuperAdmin
          else if opt_RequireHumanSuperAdminForAdmin opts \<and> ur_role target = RoleAdmin \<and>
                  \<not> human_super fresh
            then Inl ErrAdminCannotDeleteAdmin
          else Inr target)"

definition expected_target :: "request_ctx \<Rightarrow> AdminMutationAuthorizationOptions \<Rightarrow> string \<times> string" where
  "expected_target ctx opts =
     (case ctx_target_snapshot ctx of
        None \<Rightarrow> (opt_ExpectedTargetRole opts, opt_ExpectedTargetStatus opts)
      | Some (role, status) \<Rightarrow>
          (if opt_ExpectedTargetRole opts = [] then role else opt_ExpectedTargetRole opts,
           if opt_ExpectedTargetStatus opts = [] then status else opt_ExpectedTargetStatus opts))"

text \<open>The preflight principal must agree with the rows that are now locked.\<close>

definition preflight_stale :: "admin_store \<Rightarrow> request_ctx \<Rightarrow> int \<Rightarrow> user_row \<Rightarrow> bool" where
  "preflight_stale st ctx actorUserID actor =
     (case ctx_principal ctx of None \<Rightarrow> False
      | Some p \<Rightarrow> ap_Explicit p \<and> (ap_Version p \<noteq> version_of st actorUserID \<or>
          (ap_Kind p = AdminPrincipalKindJWT \<and> ap_Role p \<noteq> ur_role actor)))"

definition authorize_locked :: "admin_store \<Rightarrow> request_ctx \<Rightarrow> int \<Rightarrow> user_row \<Rightarrow> AdminPrincipal \<Rightarrow>
    AdminMutationAuthorizationOptions \<Rightarrow> admin_error + AdminMutationAuthorization" where
  "authorize_locked st ctx actorUserID actor fresh opts =
     (if opt_RequireHumanSuperAdmin opts \<and> \<not> human_super fresh then Inl ErrSuperAdminAssignmentDenied
      else case permission_denial (effective_mode ctx) fresh opts of
        Some err \<Rightarrow> Inl err
      | None \<Rightarrow>
          if preflight_stale st ctx actorUserID actor then Inl ErrAdminMutationConflict
          else (let authorized = \<lparr>auth_ActorUserID = actorUserID, auth_ActorKind = ap_Kind fresh,
                      auth_ActorRole = ap_Role fresh, auth_ActorStatus = ur_status actor,
                      auth_ActorVersion = version_of st actorUserID,
                      auth_TargetUserID = opt_TargetUserID opts, auth_TargetRole = [],
                      auth_TargetStatus = [], auth_TargetVersion = 0, auth_TargetExists = False\<rparr>
                in if opt_TargetUserID opts \<le> 0 then Inr authorized
                   else case (case expected_target ctx opts of (role, status) \<Rightarrow>
                       target_denial st actorUserID fresh opts role status) of
                     Inl err \<Rightarrow> Inl err
                   | Inr target \<Rightarrow> Inr (authorized\<lparr>auth_TargetExists := True,
                       auth_TargetRole := ur_role target, auth_TargetStatus := ur_status target,
                       auth_TargetVersion := version_of st (opt_TargetUserID opts)\<rparr>)))"

definition AuthorizeAdminMutationTx :: "admin_store \<Rightarrow> request_ctx \<Rightarrow> int \<Rightarrow>
    AdminMutationAuthorizationOptions \<Rightarrow> admin_error + AdminMutationAuthorization option" where
  "AuthorizeAdminMutationTx st ctx actorUserID0 opts =
     (case mutation_actor ctx actorUserID0 of
        Inl err \<Rightarrow> Inl err
      | Inr None \<Rightarrow> Inr None
      | Inr (Some actorUserID) \<Rightarrow>
          (case live_user st actorUserID of
             None \<Rightarrow> Inl ErrAdminPermissionDenied
           | Some actor \<Rightarrow>
               if ur_status actor \<noteq> StatusActive \<or>
                  (ur_role actor \<noteq> RoleAdmin \<and> ur_role actor \<noteq> RoleSuperAdmin)
               then Inl ErrAdminPermissionDenied
               else (case freshAdminMutationPrincipal st (ctx_principal ctx) (marked_kind ctx)
                       actorUserID actor (effective_mode ctx) of
                   Inl err \<Rightarrow> Inl err
                 | Inr fresh_opt \<Rightarrow>
                     map_sum (\<lambda>e. e) Some (authorize_locked st ctx actorUserID actor
                       (case fresh_opt of Some f \<Rightarrow> f
                        | None \<Rightarrow> \<lparr>ap_ID = [], ap_Kind = AdminPrincipalKindJWT,
                            ap_UserID = actorUserID, ap_Role = ur_role actor,
                            ap_Version = version_of st actorUserID, ap_Grants = [],
                            ap_Explicit = False, ap_Source = []\<rparr>)
                       opts))))"

section \<open>Mutations of users\<close>

definition user_create_options :: "string \<Rightarrow> AdminMutationAuthorizationOptions" where
  "user_create_options role =
     (let opts = no_options\<lparr>opt_Permissions := [(''users.update'', [])]\<rparr>
      in if role = RoleAdmin
         then opts\<lparr>opt_Permissions := opt_Permissions opts @ [(''users.role.assign'', [])]\<rparr>
         else if role = RoleSuperAdmin
         then opts\<lparr>opt_Permissions := opt_Permissions opts @ [(''security.superadmin.assign'', [])],
                   opt_RequireHumanSuperAdmin := True\<rparr>
         else opts)"

definition user_update_options :: "int \<Rightarrow> string option \<Rightarrow> bool \<Rightarrow> bool \<Rightarrow> AdminMutationAuthorizationOptions" where
  "user_update_options targetUserID newRole setsRole setsStatus =
     (let sc = userMutationScope targetUserID;
          opts0 = no_options\<lparr>opt_TargetUserID := targetUserID,
            opt_TargetNotFound := Some ErrUserNotFound, opt_Permissions := [(''users.update'', sc)]\<rparr>;
          toSuper = (setsRole \<and> newRole = Some RoleSuperAdmin);
          opts1 = (if \<not> setsRole then opts0
                   else opts0\<lparr>opt_Permissions := opt_Permissions opts0 @
                          [(if toSuper then ''security.superadmin.assign'' else ''users.role.assign'', sc)],
                        opt_RequireHumanSuperAdmin := toSuper\<rparr>)
      in if setsStatus
         then opts1\<lparr>opt_Permissions := opt_Permissions opts1 @ [(''users.status'', sc)]\<rparr> else opts1)"

definition user_delete_options :: "int \<Rightarrow> AdminMutationAuthorizationOptions" where
  "user_delete_options targetUserID =
     no_options\<lparr>opt_TargetUserID := targetUserID, opt_TargetNotFound := Some ErrUserNotFound,
       opt_Permissions := [(''users.delete'', userMutationScope targetUserID)],
       opt_RequireHumanSuperAdminForAdmin := True\<rparr>"

definition authorizeUserUpdateMutationTx :: "admin_store \<Rightarrow> request_ctx \<Rightarrow> int \<Rightarrow> int \<Rightarrow> string option \<Rightarrow>
    bool \<Rightarrow> bool \<Rightarrow> admin_error option" where
  "authorizeUserUpdateMutationTx st ctx actorUserID targetUserID newRole setsRole setsStatus =
     (case AuthorizeAdminMutationTx st ctx actorUserID
        (user_update_options targetUserID newRole setsRole setsStatus) of
        Inl err \<Rightarrow> Some err | Inr _ \<Rightarrow> None)"

definition AuthorizeAdminEntitlementMutationTx :: "admin_store \<Rightarrow> request_ctx \<Rightarrow> int \<Rightarrow> int \<Rightarrow> string \<Rightarrow>
    string \<Rightarrow> admin_error + AdminMutationAuthorization option" where
  "AuthorizeAdminEntitlementMutationTx st ctx actorUserID targetUserID expectedRole expectedStatus =
     AuthorizeAdminMutationTx st (ctx\<lparr>ctx_actor_mark := Some actorUserID\<rparr>) actorUserID
       (no_options\<lparr>opt_TargetUserID := targetUserID, opt_TargetNotFound := Some ErrUserNotFound,
          opt_ExpectedTargetRole := expectedRole, opt_ExpectedTargetStatus := expectedStatus,
          opt_Permissions := [(''users.entitlement.manage'', userMutationScope targetUserID)]\<rparr>)"

section \<open>The change of a grant\<close>

definition bump_version :: "admin_store \<Rightarrow> int \<Rightarrow> admin_store \<times> int" where
  "bump_version st userID =
     (let v = (case aget (versions st) userID of None \<Rightarrow> 1 | Some v0 \<Rightarrow> v0 + 1)
      in (st\<lparr>versions := aput userID v (versions st)\<rparr>, v))"

definition change_options :: "AdminPermissionChange \<Rightarrow> AdminMutationAuthorizationOptions" where
  "change_options c =
     no_options\<lparr>opt_TargetUserID := chg_TargetUserID c, opt_TargetMustBeAdmin := True,
       opt_TargetNotFound := Some ErrAdminPrincipalNotFound, opt_DisallowSelfTarget := True,
       opt_AllowHumanSuperAdminSelfTarget := has_prefix (chg_Permission c) ''oidc.'',
       opt_Permissions := [(''security.permissions.grant'', userMutationScope (chg_TargetUserID c))],
       opt_Privilege := Some (chg_Permission c, if chg_Action c = ''grant'' then chg_Scope c else [])\<rparr>"

text \<open>The last part of the change: the new version and the audit row.\<close>

definition finish_change :: "admin_store \<Rightarrow> AdminPermissionChange \<Rightarrow> admin_store \<times> int" where
  "finish_change st c =
     (case bump_version st (chg_TargetUserID c) of (st1, v) \<Rightarrow>
        (st1\<lparr>audit := audit st1 @ [\<lparr>au_actor = chg_ActorUserID c, au_target = chg_TargetUserID c,
            au_action = chg_Action c, au_permission = chg_Permission c\<rparr>]\<rparr>, v))"

definition apply_change :: "(scope \<Rightarrow> scope option) \<Rightarrow> admin_store \<Rightarrow> request_ctx \<Rightarrow>
    AdminPermissionChange \<Rightarrow> admin_store \<times> (admin_error + int)" where
  "apply_change recode st ctx0 c =
     (let ctx = ctx0\<lparr>ctx_actor_mark := Some (chg_ActorUserID c)\<rparr>;
          key = (chg_TargetUserID c, chg_Permission c)
      in case AuthorizeAdminMutationTx st ctx (chg_ActorUserID c) (change_options c) of
           Inl err \<Rightarrow> (st, Inl err)
         | Inr _ \<Rightarrow>
             if chg_Action c = ''grant''
             then (case recode (chg_Scope c) of None \<Rightarrow> (st, Inl MalformedScope)
               | Some sc \<Rightarrow>
                   (case finish_change (st\<lparr>grants := aput key
                          \<lparr>gr_effect = chg_Effect c, gr_scope = Some sc\<rparr> (grants st)\<rparr>) c of
                      (st', v) \<Rightarrow> (st', Inr v)))
             else if chg_Action c = ''revoke''
             then (if aget (grants st) key = None
                   then (st, Inr (version_of st (chg_TargetUserID c)))
                   else (case finish_change (st\<lparr>grants := adel key (grants st)\<rparr>) c of
                      (st', v) \<Rightarrow> (st', Inr v)))
             else (st, Inl (InvalidChangeAction (chg_Action c))))"

definition store_repo :: "(scope \<Rightarrow> scope option) \<Rightarrow> admin_store admin_repo" where
  "store_repo recode =
     \<lparr>GetAdminPrincipal = get_admin_principal,
      ResolveAdminAPIKeyBinding = resolve_admin_api_key_binding,
      ApplyAdminPermissionChange = apply_change recode\<rparr>"

section \<open>The store as the service's repository\<close>

lemma filter_user_aput:
  "fst key \<noteq> uid \<Longrightarrow> filter (\<lambda>((u, p), r). u = uid) (aput key v m) = filter (\<lambda>((u, p), r). u = uid) m"
  by (induction m) auto

lemma filter_user_adel:
  "fst key \<noteq> uid \<Longrightarrow> filter (\<lambda>((u, p), r). u = uid) (adel key m) = filter (\<lambda>((u, p), r). u = uid) m"
  by (induction m) auto

text \<open>What a successful change may alter: the grants and the version of its target, the audit.\<close>

definition same_but_target :: "int \<Rightarrow> admin_store \<Rightarrow> admin_store \<Rightarrow> bool" where
  "same_but_target target st st' \<longleftrightarrow> users st' = users st \<and> bindings st' = bindings st \<and>
     (\<forall>uid. uid \<noteq> target \<longrightarrow> version_of st' uid = version_of st uid \<and>
        ordered_grants st' uid = ordered_grants st uid) \<and>
     version_of st target \<le> version_of st' target"

lemma finish_change_effect:
  assumes "finish_change st c = (st', v)"
  shows "users st' = users st" "bindings st' = bindings st" "grants st' = grants st"
    "version_of st' uid = (if uid = chg_TargetUserID c then version_of st uid + 1 else version_of st uid)"
  using assms
  by (auto simp: finish_change_def bump_version_def Let_def version_of_def amap_simps
      split: option.splits prod.splits)

lemma apply_change_effect:
  assumes "apply_change recode st ctx c = (st', r)"
  shows "(case r of Inl _ \<Rightarrow> st' = st
    | Inr _ \<Rightarrow> same_but_target (chg_TargetUserID c) st st' \<and>
        (chg_Action c = ''grant'' \<longrightarrow>
          version_of st' (chg_TargetUserID c) = version_of st (chg_TargetUserID c) + 1))"
proof (cases r)
  case (Inl e)
  with assms show ?thesis
    by (auto simp: apply_change_def Let_def split: sum.splits option.splits if_splits prod.splits)
next
  case (Inr v)
  let ?t = "chg_TargetUserID c"
  from assms Inr consider
    (grant) sc where "finish_change (st\<lparr>grants := aput (?t, chg_Permission c)
       \<lparr>gr_effect = chg_Effect c, gr_scope = Some sc\<rparr> (grants st)\<rparr>) c = (st', v)"
  | (same) "st' = st" "chg_Action c \<noteq> ''grant''"
  | (revoke) "finish_change (st\<lparr>grants := adel (?t, chg_Permission c) (grants st)\<rparr>) c = (st', v)"
      "chg_Action c \<noteq> ''grant''"
    by (auto simp: apply_change_def Let_def split: sum.splits option.splits if_splits prod.splits)
  then show ?thesis
  proof cases
    case (grant sc)
    from finish_change_effect [OF this] show ?thesis
      by (simp add: Inr same_but_target_def version_of_def ordered_grants_def filter_user_aput)
  next
    case same
    then show ?thesis by (simp add: Inr same_but_target_def)
  next
    case revoke
    from finish_change_effect [OF this(1)] revoke(2) show ?thesis
      by (simp add: Inr same_but_target_def version_of_def ordered_grants_def filter_user_adel)
  qed
qed

lemma get_admin_principal_same:
  assumes "same_but_target target st st'"
  shows "uid \<noteq> target \<Longrightarrow> get_admin_principal st' uid = get_admin_principal st uid"
    and "get_admin_principal st uid = Inr rec \<Longrightarrow>
      \<exists>rec'. get_admin_principal st' uid = Inr rec' \<and> apr_Role rec' = apr_Role rec \<and>
        apr_Status rec' = apr_Status rec \<and> apr_Version rec \<le> apr_Version rec'"
  using assms
  by (cases "uid = target"; auto simp: get_admin_principal_def live_user_def same_but_target_def
      split: option.splits)+

lemma version_of_record: "get_admin_principal st uid = Inr rec \<Longrightarrow> apr_Version rec = version_of st uid"
  by (auto simp: get_admin_principal_def split: option.splits)

interpretation store: admin_repository "store_repo recode" for recode :: "scope \<Rightarrow> scope option"
proof
  fix st ctx c st' and e :: admin_error and r uid rec v
  show "st' = st" if "ApplyAdminPermissionChange (store_repo recode) st ctx c = (st', Inl e)"
    using apply_change_effect [of recode st ctx c st' "Inl e"] that by (simp add: store_repo_def)
  show "GetAdminPrincipal (store_repo recode) st' uid = GetAdminPrincipal (store_repo recode) st uid"
    if "ApplyAdminPermissionChange (store_repo recode) st ctx c = (st', r)" "uid \<noteq> chg_TargetUserID c"
    using apply_change_effect [of recode st ctx c st' r] that get_admin_principal_same(1)
    by (auto simp: store_repo_def split: sum.splits)
  show "\<exists>rec'. GetAdminPrincipal (store_repo recode) st' uid = Inr rec' \<and>
      apr_Role rec' = apr_Role rec \<and> apr_Status rec' = apr_Status rec \<and>
      apr_Version rec \<le> apr_Version rec'"
    if "ApplyAdminPermissionChange (store_repo recode) st ctx c = (st', r)"
      "GetAdminPrincipal (store_repo recode) st uid = Inr rec"
    using apply_change_effect [of recode st ctx c st' r] that get_admin_principal_same(2)
    by (auto simp: store_repo_def split: sum.splits)
  show "\<exists>rec'. GetAdminPrincipal (store_repo recode) st' (chg_TargetUserID c) = Inr rec' \<and>
      apr_Version rec < apr_Version rec'"
    if change: "ApplyAdminPermissionChange (store_repo recode) st ctx c = (st', Inr v)"
      and grant: "chg_Action c = ''grant''"
      and rec: "GetAdminPrincipal (store_repo recode) st (chg_TargetUserID c) = Inr rec"
  proof -
    have "same_but_target (chg_TargetUserID c) st st'"
      "version_of st' (chg_TargetUserID c) = version_of st (chg_TargetUserID c) + 1"
      using apply_change_effect [of recode st ctx c st' "Inr v"] change grant
      by (simp_all add: store_repo_def)
    with get_admin_principal_same(2) rec obtain rec' where
      "get_admin_principal st' (chg_TargetUserID c) = Inr rec'"
      by (fastforce simp: store_repo_def)
    moreover from rec have "get_admin_principal st (chg_TargetUserID c) = Inr rec"
      by (simp add: store_repo_def)
    ultimately show ?thesis
      using version_of_record \<open>version_of st' _ = _\<close> by (fastforce simp: store_repo_def)
  qed
qed

section \<open>What an authorized mutation tells\<close>

lemma kinds_distinct [simp]:
  "AdminPrincipalKindJWT \<noteq> AdminPrincipalKindAPIKey" "AdminPrincipalKindAPIKey \<noteq> AdminPrincipalKindJWT"
  "RoleAdmin \<noteq> RoleSuperAdmin" "RoleSuperAdmin \<noteq> RoleAdmin"
  "AdminPermissionModeEnforce \<noteq> AdminPermissionModeDisabled"
  "AdminPermissionModeDisabled \<noteq> AdminPermissionModeEnforce"
  by (simp_all add: admin_consts)

definition fallback_principal :: "admin_store \<Rightarrow> int \<Rightarrow> user_row \<Rightarrow> AdminPrincipal" where
  "fallback_principal st actorUserID actor =
     \<lparr>ap_ID = [], ap_Kind = AdminPrincipalKindJWT, ap_UserID = actorUserID, ap_Role = ur_role actor,
      ap_Version = version_of st actorUserID, ap_Grants = [], ap_Explicit = False, ap_Source = []\<rparr>"

lemma authorized_mutation:
  assumes "AuthorizeAdminMutationTx st ctx actorUserID0 opts = Inr (Some auth)"
  obtains actorUserID actor fresh_opt fresh where
    "mutation_actor ctx actorUserID0 = Inr (Some actorUserID)"
    "live_user st actorUserID = Some actor" "ur_status actor = StatusActive"
    "ur_role actor = RoleAdmin \<or> ur_role actor = RoleSuperAdmin"
    "freshAdminMutationPrincipal st (ctx_principal ctx) (marked_kind ctx) actorUserID actor
       (effective_mode ctx) = Inr fresh_opt"
    "fresh = (case fresh_opt of Some f \<Rightarrow> f | None \<Rightarrow> fallback_principal st actorUserID actor)"
    "authorize_locked st ctx actorUserID actor fresh opts = Inr auth"
proof -
  obtain actorUserID where a: "mutation_actor ctx actorUserID0 = Inr (Some actorUserID)"
    using assms by (auto simp: AuthorizeAdminMutationTx_def split: sum.splits option.splits)
  obtain actor where b: "live_user st actorUserID = Some actor" "ur_status actor = StatusActive"
    "ur_role actor = RoleAdmin \<or> ur_role actor = RoleSuperAdmin"
    using assms by (auto simp: AuthorizeAdminMutationTx_def a split: option.splits if_splits)
  obtain fresh_opt where c: "freshAdminMutationPrincipal st (ctx_principal ctx) (marked_kind ctx)
      actorUserID actor (effective_mode ctx) = Inr fresh_opt"
    using assms by (auto simp: AuthorizeAdminMutationTx_def a b split: sum.splits if_splits)
  define fresh where "fresh = (case fresh_opt of Some f \<Rightarrow> f
    | None \<Rightarrow> fallback_principal st actorUserID actor)"
  have "map_sum (\<lambda>e. e) Some (authorize_locked st ctx actorUserID actor fresh opts) = Inr (Some auth)"
    using assms b(2,3) by (cases fresh_opt)
      (auto simp: AuthorizeAdminMutationTx_def a b(1) c fresh_def fallback_principal_def)
  then have "authorize_locked st ctx actorUserID actor fresh opts = Inr auth"
    by (cases "authorize_locked st ctx actorUserID actor fresh opts") simp_all
  with a b c fresh_def that show thesis by blast
qed

text \<open>Only a human whose live row says super administrator counts as one.\<close>

lemma fresh_human_super:
  assumes "freshAdminMutationPrincipal st caller kind actorUserID actor mode = Inr fresh_opt"
    and "human_super (case fresh_opt of Some f \<Rightarrow> f | None \<Rightarrow> fallback_principal st actorUserID actor)"
  shows "ur_role actor = RoleSuperAdmin \<and> kind \<noteq> AdminPrincipalKindAPIKey \<or>
    ur_role actor = RoleSuperAdmin \<and> pred_option (\<lambda>p. ap_Kind p = AdminPrincipalKindJWT) caller \<and>
      caller \<noteq> None"
  using assms
  by (auto simp: freshAdminMutationPrincipal_def human_super_def legacy_key_principal_def
      fallback_principal_def fresh_key_principal_def Let_def
      split: option.splits if_splits sum.splits)

lemma fresh_key_not_super:
  assumes "freshAdminMutationPrincipal st caller kind actorUserID actor mode = Inr fresh_opt"
    and "caller = Some p" "ap_Kind p = AdminPrincipalKindAPIKey"
  shows "\<not> human_super (case fresh_opt of Some f \<Rightarrow> f | None \<Rightarrow> fallback_principal st actorUserID actor)"
  using assms
  by (auto simp: freshAdminMutationPrincipal_def human_super_def legacy_key_principal_def
      fallback_principal_def fresh_key_principal_def Let_def
      split: option.splits if_splits sum.splits)

lemma target_denial_ok:
  assumes "target_denial st actorUserID fresh opts role status = Inr target"
  shows "live_user st (opt_TargetUserID opts) = Some target \<and>
    (role = [] \<or> ur_role target = role) \<and> (status = [] \<or> ur_status target = status) \<and>
    (opt_DisallowSelfTarget opts \<and> opt_TargetUserID opts = actorUserID \<longrightarrow>
       opt_AllowHumanSuperAdminSelfTarget opts \<and> human_super fresh) \<and>
    (ur_role target = RoleSuperAdmin \<longrightarrow> human_super fresh) \<and>
    (opt_RequireHumanSuperAdminForAdmin opts \<and> ur_role target = RoleAdmin \<longrightarrow> human_super fresh)"
  using assms unfolding target_denial_def
  by (cases "live_user st (opt_TargetUserID opts)") (auto split: if_splits option.splits)

lemma authorize_locked_ok:
  assumes "authorize_locked st ctx actorUserID actor fresh opts = Inr auth"
  shows "\<not> preflight_stale st ctx actorUserID actor"
    and "permission_denial (effective_mode ctx) fresh opts = None"
    and "opt_RequireHumanSuperAdmin opts \<longrightarrow> human_super fresh"
    and "0 < opt_TargetUserID opts \<Longrightarrow> \<exists>role status target.
      expected_target ctx opts = (role, status) \<and>
      target_denial st actorUserID fresh opts role status = Inr target"
    and "auth_ActorUserID auth = actorUserID" and "auth_ActorKind auth = ap_Kind fresh"
  using assms
  by (auto simp: authorize_locked_def Let_def split: if_splits option.splits sum.splits prod.splits)

section \<open>Properties\<close>

lemma mutation_actor_kind:
  "mutation_actor ctx a = Inr (Some b) \<Longrightarrow> ctx_principal ctx = Some p \<Longrightarrow> marked_kind ctx \<noteq> [] \<Longrightarrow> ap_Kind p = marked_kind ctx"
  by (auto simp: mutation_actor_def Let_def split: if_splits)

lemma kind_not_empty [simp]: "AdminPrincipalKindAPIKey \<noteq> []" by (simp add: admin_consts)

text \<open>
  C20: In every mode, a mutation that is authorized on a super administrator is the work of
  an active super administrator: the acting account's locked row has that role, the
  request was not made with an API key, neither by its principal nor, for a request without one, by
  the kind marked in its context, and the authorization names a human.
\<close>

theorem super_admin_protected:
  assumes "AuthorizeAdminMutationTx st ctx actorUserID opts = Inr (Some auth)"
    and "0 < opt_TargetUserID opts" and "live_user st (opt_TargetUserID opts) = Some target"
    and "ur_role target = RoleSuperAdmin"
  shows "\<exists>actor. live_user st (auth_ActorUserID auth) = Some actor \<and>
    ur_role actor = RoleSuperAdmin \<and> ur_status actor = StatusActive \<and>
    marked_kind ctx \<noteq> AdminPrincipalKindAPIKey \<and>
    (\<forall>p. ctx_principal ctx = Some p \<longrightarrow> ap_Kind p \<noteq> AdminPrincipalKindAPIKey) \<and>
    auth_ActorKind auth = AdminPrincipalKindJWT"
  using assms(1)
proof (cases rule: authorized_mutation)
  case (1 actorID actor fresh_opt fresh)
  from authorize_locked_ok(4) [OF 1(7) assms(2)] obtain role status t where
    "target_denial st actorID fresh opts role status = Inr t" by blast
  with assms(3,4) have human: "human_super fresh" using target_denial_ok by fastforce
  have "auth_ActorKind auth = AdminPrincipalKindJWT"
    using human authorize_locked_ok(6) [OF 1(7)] by (simp add: human_super_def)
  moreover have "marked_kind ctx \<noteq> AdminPrincipalKindAPIKey"
  proof
    assume "marked_kind ctx = AdminPrincipalKindAPIKey"
    with fresh_human_super [OF 1(5)] human 1(6) obtain p where
      "ctx_principal ctx = Some p" "ap_Kind p = AdminPrincipalKindJWT" by (auto simp: pred_option_def)
    with mutation_actor_kind [OF 1(1), of p] \<open>marked_kind ctx = _\<close> show False by simp
  qed
  ultimately show ?thesis
    using human fresh_human_super [OF 1(5)] fresh_key_not_super [OF 1(5)] 1 authorize_locked_ok(5) [OF 1(7)] by auto
qed

text \<open>
  C29: No stale authority: an authorized mutation of a request with an explicit principal was
  decided on the current rows, that is, the principal's permission version, and for a human
  its role, are those of the locked account; and a target seen by the preflight still has
  the role and status seen there.
\<close>

theorem no_stale_mutation:
  assumes "AuthorizeAdminMutationTx st ctx actorUserID opts = Inr (Some auth)"
    and "ctx_principal ctx = Some p" and "ap_Explicit p"
    and "0 < opt_TargetUserID opts" and "ctx_target_snapshot ctx = Some (role, status)"
    and "opt_ExpectedTargetRole opts = []" and "opt_ExpectedTargetStatus opts = []"
    and "role \<noteq> []" and "status \<noteq> []"
  shows "ap_Version p = version_of st (auth_ActorUserID auth) \<and>
    (ap_Kind p = AdminPrincipalKindJWT \<longrightarrow>
       map_option ur_role (live_user st (auth_ActorUserID auth)) = Some (ap_Role p)) \<and>
    map_option (\<lambda>t. (ur_role t, ur_status t)) (live_user st (opt_TargetUserID opts)) = Some (role, status)"
  using assms(1)
proof (cases rule: authorized_mutation)
  case (1 actorID actor fresh_opt fresh)
  from authorize_locked_ok(4) [OF 1(7) assms(4)] assms obtain t where
    "target_denial st actorID fresh opts role status = Inr t"
    by (auto simp: expected_target_def)
  with target_denial_ok assms(8,9) have
    "live_user st (opt_TargetUserID opts) = Some t \<and> ur_role t = role \<and> ur_status t = status"
    by blast
  moreover have "ap_Version p = version_of st actorID"
    "ap_Kind p = AdminPrincipalKindJWT \<longrightarrow> ap_Role p = ur_role actor"
    using authorize_locked_ok(1) [OF 1(7)] assms(2,3) by (auto simp: preflight_stale_def)
  ultimately show ?thesis using 1(2) authorize_locked_ok(5) [OF 1(7)] by auto
qed

lemma mutation_actor_given:
  "mutation_actor ctx a = Inr (Some b) \<Longrightarrow> 0 < a \<Longrightarrow> b = a"
  by (auto simp: mutation_actor_def Let_def split: if_splits option.splits)

lemma mutation_actor_enforced:
  "mutation_actor ctx a = Inr (Some b) \<Longrightarrow> effective_mode ctx = AdminPermissionModeEnforce \<Longrightarrow>
   \<exists>p. ctx_principal ctx = Some p"
  by (auto simp: mutation_actor_def Let_def split: if_splits option.splits)

lemma map_sum_Some_not_None: "map_sum (\<lambda>e. e) Some x \<noteq> Inr None"
  by (cases x) simp_all

lemma mutation_actor_unmarked: "mutation_actor ctx a = Inr None \<Longrightarrow> ctx_actor_mark ctx = None"
  by (auto simp: mutation_actor_def Let_def split: if_splits)

lemma change_not_unmarked:
  assumes "ctx_actor_mark ctx \<noteq> None"
  shows "AuthorizeAdminMutationTx st ctx a opts \<noteq> Inr None"
proof (cases "mutation_actor ctx a")
  case (Inr x)
  with mutation_actor_unmarked [of ctx a] assms obtain b where "x = Some b" by auto
  with Inr show ?thesis
    by (auto simp: AuthorizeAdminMutationTx_def map_sum_Some_not_None split: option.splits sum.splits)
qed (simp add: AuthorizeAdminMutationTx_def)

lemma effective_mode_mark [simp]: "effective_mode (ctx\<lparr>ctx_actor_mark := m\<rparr>) = effective_mode ctx"
  by (cases "ctx_service_mode ctx") (simp_all add: effective_mode_def)

lemma fresh_enforced:
  "freshAdminMutationPrincipal st (Some p) kind actorUserID actor AdminPermissionModeEnforce = Inr fo \<Longrightarrow>
   \<exists>f. fo = Some f"
  by (cases "fresh_key_principal st p actorUserID")
     (auto simp: freshAdminMutationPrincipal_def split: if_splits sum.splits)

text \<open>
  C4: In enforce mode nobody hands out more than they hold: a change of a permission that
  succeeds was made by a human super administrator, or by a principal that, read again in
  the transaction, may manage permissions of that target and itself holds the permission in
  the granted scope; and nobody changes their own permissions, except a human super
  administrator the oidc ones.
\<close>

theorem change_needs_privilege:
  assumes "apply_change recode st ctx c = (st', Inr v)"
    and "effective_mode ctx = AdminPermissionModeEnforce"
    and "0 < chg_ActorUserID c" and "0 < chg_TargetUserID c"
  shows "\<exists>p actor f. ctx_principal ctx = Some p \<and> live_user st (chg_ActorUserID c) = Some actor \<and>
    freshAdminMutationPrincipal st (Some p) (marked_kind ctx) (chg_ActorUserID c) actor
      AdminPermissionModeEnforce = Inr (Some f) \<and>
    (human_super f \<or>
       Authorize (Some f) ''security.permissions.grant'' (userMutationScope (chg_TargetUserID c)) = Inr True \<and>
       Authorize (Some f) (chg_Permission c) (if chg_Action c = ''grant'' then chg_Scope c else []) = Inr True) \<and>
    (chg_TargetUserID c = chg_ActorUserID c \<longrightarrow> human_super f \<and> has_prefix (chg_Permission c) ''oidc.'')"
proof -
  let ?ctx = "ctx\<lparr>ctx_actor_mark := Some (chg_ActorUserID c)\<rparr>"
  let ?opts = "change_options c"
  have mode: "effective_mode ?ctx = AdminPermissionModeEnforce"
    using assms(2) by simp
  obtain auth where "AuthorizeAdminMutationTx st ?ctx (chg_ActorUserID c) ?opts = Inr (Some auth)"
    using assms(1) change_not_unmarked [of ?ctx st "chg_ActorUserID c" ?opts]
    by (auto simp: apply_change_def Let_def split: sum.splits)
  then show ?thesis
  proof (cases rule: authorized_mutation)
    case (1 actorID actor fresh_opt fresh)
    have id_eq: "actorID = chg_ActorUserID c" using 1(1) assms(3) by (rule mutation_actor_given)
    obtain p where p: "ctx_principal ctx = Some p"
      using mutation_actor_enforced [OF 1(1) mode] by auto
    obtain f where f: "fresh_opt = Some f"
      using 1(5) fresh_enforced [of st p _ actorID actor fresh_opt] by (auto simp: p assms(2))
    have live: "freshAdminMutationPrincipal st (Some p) (marked_kind ctx) (chg_ActorUserID c) actor
        AdminPermissionModeEnforce = Inr (Some f)"
      using 1(5) by (simp add: p assms(2) f id_eq marked_kind_def)
    have "human_super f \<or>
       Authorize (Some f) ''security.permissions.grant'' (userMutationScope (chg_TargetUserID c)) = Inr True \<and>
       Authorize (Some f) (chg_Permission c) (if chg_Action c = ''grant'' then chg_Scope c else []) = Inr True"
      using authorize_locked_ok(2) [OF 1(7)] 1(6)
      by (auto simp: permission_denial_def assms(2) f change_options_def no_options_def
          split: if_splits sum.splits option.splits)
    moreover have "chg_TargetUserID c = chg_ActorUserID c \<longrightarrow>
        human_super f \<and> has_prefix (chg_Permission c) ''oidc.''"
    proof -
      obtain role status t where "target_denial st actorID fresh ?opts role status = Inr t"
        using authorize_locked_ok(4) [OF 1(7)] assms(4) by (auto simp: change_options_def)
      from target_denial_ok [OF this] show ?thesis
        using 1(6) by (simp add: change_options_def no_options_def id_eq f)
    qed
    ultimately show ?thesis using p 1(2) live id_eq by blast
  qed
qed

section \<open>Examples\<close>

text \<open>One super administrator and two ordinary ones without any grant.\<close>

definition sample_store :: admin_store where
  "sample_store =
     \<lparr>users = [(1, \<lparr>ur_role = RoleSuperAdmin, ur_status = StatusActive, ur_deleted = False\<rparr>),
               (2, \<lparr>ur_role = RoleAdmin, ur_status = StatusActive, ur_deleted = False\<rparr>),
               (3, \<lparr>ur_role = RoleAdmin, ur_status = StatusActive, ur_deleted = False\<rparr>)],
      versions = [], grants = [], bindings = [], audit = []\<rparr>"

definition user_principal :: "int \<Rightarrow> string \<Rightarrow> AdminPrincipal" where
  "user_principal userID role = \<lparr>ap_ID = ''user'', ap_Kind = AdminPrincipalKindJWT,
     ap_UserID = userID, ap_Role = role, ap_Version = 0, ap_Grants = [], ap_Explicit = True,
     ap_Source = []\<rparr>"

definition sample_ctx :: "string \<Rightarrow> AdminPrincipal \<Rightarrow> request_ctx" where
  "sample_ctx mode p = \<lparr>ctx_principal = Some p, ctx_service_mode = Some mode,
     ctx_actor_mark = None, ctx_target_snapshot = Some (RoleSuperAdmin, StatusActive),
     ctx_principal_kind = None, ctx_env_mode = []\<rparr>"

definition sample_change :: AdminPermissionChange where
  "sample_change = \<lparr>chg_ActorUserID = 1, chg_ActorIsSuper = True, chg_TargetUserID = 1,
     chg_Action = ''grant'', chg_Permission = ''oidc.keys.read'', chg_Effect = AdminGrantAllow,
     chg_Scope = everywhere, chg_Reason = ''setup''\<rparr>"

lemma sample_trims:
  "trim_space ''users.delete'' = ''users.delete''"
  "trim_space ''security.permissions.grant'' = ''security.permissions.grant''"
  by (simp_all add: plain_text)

lemma sample_known:
  "IsKnownAdminPermission ''users.delete''" "IsKnownAdminPermission ''security.permissions.grant''"
  unfolding IsKnownAdminPermission_def knownAdminPermissions_def append_Cons
  by ((rule list.set_intros(1) | rule list.set_intros(2))+)

lemmas sample_texts = sample_trims sample_known

lemma sample_modes:
  "NormalizeAdminPermissionMode AdminPermissionModeEnforce = AdminPermissionModeEnforce"
  "NormalizeAdminPermissionMode AdminPermissionModeDisabled = AdminPermissionModeDisabled"
  unfolding NormalizeAdminPermissionMode_def admin_consts
  by (simp_all add: plain_text del: to_lower.simps)

lemmas sample_eval = sample_store_def user_principal_def sample_ctx_def sample_texts sample_modes
  AuthorizeAdminMutationTx_def mutation_actor_def effective_mode_def marked_kind_def live_user_def
  freshAdminMutationPrincipal_def readAdminMutationGrants_def ordered_grants_def
  authorize_locked_def permission_denial_def Authorize_def IsSuperAdmin_def human_super_def
  preflight_stale_def target_denial_def expected_target_def no_options_def version_of_def Let_def

lemma role_names [simp]:
  "RoleAdmin \<noteq> []" "RoleSuperAdmin \<noteq> []" "StatusActive \<noteq> []"
  by (simp_all add: admin_consts)

lemma sample_authorized:
  "\<exists>auth. AuthorizeAdminMutationTx sample_store
     (sample_ctx AdminPermissionModeEnforce (user_principal 1 RoleSuperAdmin)) 1
     (user_delete_options 1) = Inr (Some auth) \<and> auth_ActorUserID auth = 1"
  by (simp add: sample_eval user_delete_options_def)

theorem super_admin_protected_witness:
  "\<exists>actor. live_user sample_store 1 = Some actor \<and> ur_role actor = RoleSuperAdmin"
proof -
  obtain auth where auth: "AuthorizeAdminMutationTx sample_store
     (sample_ctx AdminPermissionModeEnforce (user_principal 1 RoleSuperAdmin)) 1
     (user_delete_options 1) = Inr (Some auth)" "auth_ActorUserID auth = 1"
    using sample_authorized by auto
  show ?thesis
    using super_admin_protected [OF auth(1),
        of "\<lparr>ur_role = RoleSuperAdmin, ur_status = StatusActive, ur_deleted = False\<rparr>"]
    by (auto simp: user_delete_options_def no_options_def live_user_def sample_store_def auth(2))
qed

theorem no_stale_mutation_witness:
  "map_option (\<lambda>t. (ur_role t, ur_status t)) (live_user sample_store 1) = Some (RoleSuperAdmin, StatusActive)"
proof -
  obtain auth where auth: "AuthorizeAdminMutationTx sample_store
     (sample_ctx AdminPermissionModeEnforce (user_principal 1 RoleSuperAdmin)) 1
     (user_delete_options 1) = Inr (Some auth)"
    using sample_authorized by auto
  show ?thesis
    using no_stale_mutation [OF auth, of "user_principal 1 RoleSuperAdmin" RoleSuperAdmin StatusActive]
    by (simp add: user_delete_options_def no_options_def sample_ctx_def user_principal_def)
qed

lemma sample_changed:
  "\<exists>st'. apply_change Some sample_store
     (sample_ctx AdminPermissionModeEnforce (user_principal 1 RoleSuperAdmin)) sample_change = (st', Inr 1)"
  by (simp add: apply_change_def sample_change_def change_options_def sample_eval
      finish_change_def bump_version_def has_prefix_def)

lemma sample_mode:
  "effective_mode (sample_ctx AdminPermissionModeEnforce (user_principal 1 RoleSuperAdmin)) =
     AdminPermissionModeEnforce"
  by (simp add: effective_mode_def sample_ctx_def sample_modes)

theorem change_needs_privilege_witness:
  "\<exists>actor f. live_user sample_store 1 = Some actor \<and> human_super f \<and>
     has_prefix ''oidc.keys.read'' ''oidc.''"
proof -
  obtain st' where "apply_change Some sample_store
     (sample_ctx AdminPermissionModeEnforce (user_principal 1 RoleSuperAdmin)) sample_change = (st', Inr 1)"
    using sample_changed by blast
  from change_needs_privilege [OF this sample_mode] show ?thesis
    by (auto simp: sample_change_def)
qed

definition store_service :: "string \<Rightarrow> admin_store AdminPermissionService" where
  "store_service mode = \<lparr>svc_repo = store_repo Some, svc_mode = mode\<rparr>"

text \<open>
  Later states of the tables: any changes of permissions, successful or not, and any writes of other
  tables (users, bindings of keys, audit), in any order.
\<close>

inductive later :: "(scope \<Rightarrow> scope option) \<Rightarrow> admin_store \<Rightarrow> admin_store \<Rightarrow> bool" for recode where
  later_refl: "later recode st st"
| later_change: "later recode st st' \<Longrightarrow> apply_change recode st' ctx c = (st'', r) \<Longrightarrow> later recode st st''"
| later_other: "later recode st st' \<Longrightarrow> versions st'' = versions st' \<Longrightarrow> grants st'' = grants st' \<Longrightarrow> later recode st st''"

lemma apply_change_version: "apply_change recode st ctx c = (st', r) \<Longrightarrow> version_of st uid \<le> version_of st' uid"
  using apply_change_effect [of recode st ctx c st' r]
  by (cases "uid = chg_TargetUserID c") (auto simp: same_but_target_def split: sum.splits)

lemma later_version: "later recode st st' \<Longrightarrow> version_of st uid \<le> version_of st' uid"
proof (induction rule: later.induct)
  case (later_change st st' ctx c st'' r)
  then show ?case using apply_change_version by (meson order_trans)
qed (simp_all add: version_of_def)

text \<open>A principal of either kind is current only with the version of its account.\<close>

lemma current_version:
  assumes "svc_repo svc = store_repo recode" "resolveCurrentPrincipal svc st p = Inr f"
  shows "ap_Version p = version_of st (ap_UserID p)"
proof -
  have jwt: "ap_Version f = version_of st (ap_UserID f)" if "ResolvePrincipal svc st uid = Inr f" for uid
    using that assms(1) by (auto simp: ResolvePrincipal_def store_repo_def get_admin_principal_def
        split: if_splits sum.splits option.splits)
  have key: "ap_Version f = version_of st (ap_UserID f)" if "ResolveLegacyAPIKeyPrincipal svc st k = Inr f" for k
    using that assms(1) by (auto simp: ResolveLegacyAPIKeyPrincipal_def store_repo_def resolve_admin_api_key_binding_def Let_def
        split: if_splits sum.splits option.splits)
  show ?thesis using assms(2) jwt key
    by (fastforce simp: resolveCurrentPrincipal_def Let_def split: if_splits sum.splits)
qed

text \<open>
  C30: A grant retires the target's open sessions and keys: whatever a principal of the target, a human
  or an API key, that was current before the grant asks for afterwards, at any later time and whatever
  has been changed since, is refused with an error by both checks, until it is resolved again; so a
  grant, and above all a denial, cannot be missed by a stale session.
\<close>

theorem grant_retires_sessions:
  assumes "svc_repo svc = store_repo recode" and "resolveCurrentPrincipal svc st p = Inr f"
    and "GrantPermission svc st ctx actor (ap_UserID p) permission effect sc reason = (st', None)"
    and "later recode st' st''"
  shows "isl (AuthorizeRequest svc st'' (Some p) q sc') \<and> isl (CheckPermission svc st'' (Some p) q sc')"
proof -
  from store.grant_effect [OF assms(1,3)] obtain ctx' c v where
    "apply_change recode st ctx' c = (st', Inr v)" "chg_TargetUserID c = ap_UserID p" "chg_Action c = ''grant''"
    by (auto simp: store_repo_def)
  then have "version_of st' (ap_UserID p) = version_of st (ap_UserID p) + 1"
    using apply_change_effect [of recode st ctx' c st' "Inr v"] by simp
  then have "version_of st (ap_UserID p) < version_of st'' (ap_UserID p)"
    using later_version [OF assms(4), of "ap_UserID p"] by simp
  then have "resolveCurrentPrincipal svc st'' p \<noteq> Inr f'" for f'
    using current_version [OF assms(1)] assms(2) by (metis less_irrefl)
  then obtain e where "resolveCurrentPrincipal svc st'' p = Inl e"
    by (cases "resolveCurrentPrincipal svc st'' p") auto
  then show ?thesis by (simp add: AuthorizeRequest_def CheckPermission_def)
qed

lemma sample_grant_texts:
  "trim_space ''oidc.keys.rotate'' = ''oidc.keys.rotate''" "trim_space ''allow'' = ''allow''"
  "to_lower ''allow'' = AdminGrantAllow" "everywhere \<noteq> []" "trim_space ''swap'' = ''swap''" "trim_space ''*'' = ''*''"
  "has_prefix ''oidc.keys.rotate'' ''oidc.''" "normalizeAdminScope everywhere = Inr everywhere"
  by (simp_all add: plain_text has_prefix_def normalizeAdminScope_def everywhere_def
      AdminGrantAllow_def del: to_lower.simps)

lemma sample_grant_known: "IsKnownAdminPermission ''oidc.keys.rotate''"
  unfolding IsKnownAdminPermission_def knownAdminPermissions_def append_Cons
  by (rule list.set_intros(1) | rule list.set_intros(2))+

definition granted_store :: "admin_store" where
  "granted_store = sample_store\<lparr>
     grants := [((3, ''oidc.keys.rotate''),
       \<lparr>gr_effect = AdminGrantAllow, gr_scope = Some everywhere\<rparr>)],
     versions := [(3, 1)],
     audit := [\<lparr>au_actor = 2, au_target = 3, au_action = ''grant'', au_permission = ''oidc.keys.rotate''\<rparr>]\<rparr>"

definition swap_change :: AdminPermissionChange where
  "swap_change = \<lparr>chg_ActorUserID = 2, chg_ActorIsSuper = False, chg_TargetUserID = 3,
     chg_Action = ''grant'', chg_Permission = ''oidc.keys.rotate'', chg_Effect = AdminGrantAllow,
     chg_Scope = everywhere, chg_Reason = ''swap''\<rparr>"

lemma swap_applied:
  "apply_change Some sample_store ((sample_ctx AdminPermissionModeDisabled (user_principal 2 RoleAdmin))
     \<lparr>ctx_target_snapshot := Some (RoleAdmin, StatusActive), ctx_actor_mark := Some 2\<rparr>) swap_change
   = (granted_store, Inr 1)"
  by (simp add: apply_change_def swap_change_def change_options_def finish_change_def
      bump_version_def granted_store_def sample_grant_texts sample_eval)

lemma swap_permitted:
  "AuthorizeRequest (store_service AdminPermissionModeDisabled) sample_store
     (Some (user_principal 2 RoleAdmin)) ''oidc.keys.rotate'' everywhere = Inr True"
  by (simp add: AuthorizeRequest_def store_service_def store_repo_def Mode_def sample_modes
      resolveCurrentPrincipal_def ResolvePrincipal_def get_admin_principal_def live_user_def
      sample_store_def version_of_def user_principal_def Let_def)

lemma swap_target:
  "validateTargetAdmin (store_service AdminPermissionModeDisabled) sample_store
     (user_principal 2 RoleAdmin) 3 =
   Inr \<lparr>apr_UserID = 3, apr_Role = RoleAdmin, apr_Status = StatusActive, apr_Version = 0, apr_Grants = []\<rparr>"
  by (simp add: validateTargetAdmin_def store_service_def store_repo_def get_admin_principal_def
      live_user_def sample_store_def version_of_def ordered_grants_def)

lemma sample_grant:
  "GrantPermission (store_service AdminPermissionModeDisabled) sample_store
     (sample_ctx AdminPermissionModeDisabled (user_principal 2 RoleAdmin))
     (Some (user_principal 2 RoleAdmin)) 3 ''oidc.keys.rotate'' ''allow'' everywhere ''swap''
   = (granted_store, None)"
proof -
  have repo: "ApplyAdminPermissionChange (svc_repo (store_service AdminPermissionModeDisabled)) =
      apply_change Some"
    by (simp add: store_service_def store_repo_def)
  have actor: "ap_UserID (user_principal 2 RoleAdmin) = 2"
    "ap_Kind (user_principal 2 RoleAdmin) = AdminPrincipalKindJWT"
    "ap_Role (user_principal 2 RoleAdmin) = RoleAdmin"
    by (simp_all add: user_principal_def)
  then have "\<not> IsSuperAdmin (user_principal 2 RoleAdmin)" by (simp add: IsSuperAdmin_def)
  then show ?thesis
    using swap_applied
    by (simp add: GrantPermission_def grant_permission_raw_def submit_change_def swap_permitted
        swap_target repo actor swap_change_def sample_grant_texts sample_grant_known Let_def
        del: to_lower.simps)
qed

theorem grant_retires_sessions_witness:
  "isl (AuthorizeRequest (store_service AdminPermissionModeDisabled) (granted_store\<lparr>bindings := []\<rparr>)
     (Some (user_principal 3 RoleAdmin)) ''users.read'' [])"
proof -
  have "\<exists>f. resolveCurrentPrincipal (store_service AdminPermissionModeDisabled) sample_store
      (user_principal 3 RoleAdmin) = Inr f"
    by (simp add: store_service_def store_repo_def resolveCurrentPrincipal_def ResolvePrincipal_def
        get_admin_principal_def live_user_def sample_store_def version_of_def user_principal_def
        Let_def)
  moreover have "GrantPermission (store_service AdminPermissionModeDisabled) sample_store
     (sample_ctx AdminPermissionModeDisabled (user_principal 2 RoleAdmin))
     (Some (user_principal 2 RoleAdmin)) (ap_UserID (user_principal 3 RoleAdmin))
     ''oidc.keys.rotate'' ''allow'' everywhere ''swap'' = (granted_store, None)"
    using sample_grant by (simp add: user_principal_def)
  moreover have "later Some granted_store (granted_store\<lparr>bindings := []\<rparr>)"
    by (rule later_other [OF later_refl]) simp_all
  ultimately show ?thesis
    using grant_retires_sessions [of "store_service AdminPermissionModeDisabled" Some
        sample_store "user_principal 3 RoleAdmin"]
    by (fastforce simp: store_service_def user_principal_def)
qed

definition receiver :: AdminPrincipal where
  "receiver = \<lparr>ap_ID = ''user:'' @ decimal 3, ap_Kind = AdminPrincipalKindJWT, ap_UserID = 3,
     ap_Role = RoleAdmin, ap_Version = 1,
     ap_Grants = [\<lparr>ag_Permission = ''oidc.keys.rotate'', ag_Effect = AdminGrantAllow, ag_Scope = everywhere\<rparr>],
     ap_Explicit = True, ap_Source = ''users.role+admin_principal_grants''\<rparr>"

lemma receiver_resolved:
  "ResolvePrincipal (store_service AdminPermissionModeDisabled) granted_store 3 = Inr receiver"
  by (simp add: receiver_def granted_store_def store_service_def store_repo_def ResolvePrincipal_def
      get_admin_principal_def live_user_def sample_store_def ordered_grants_def version_of_def
      decodePermissionScope_def)

lemma receiver_current:
  "resolveCurrentPrincipal (store_service AdminPermissionModeDisabled) granted_store receiver = Inr receiver"
  using receiver_resolved by (simp add: resolveCurrentPrincipal_def receiver_def Let_def)

lemma receiver_checked:
  "CheckPermission (store_service AdminPermissionModeDisabled) granted_store (Some receiver)
     ''oidc.keys.rotate'' [] = Inr True"
  by (simp add: CheckPermission_def receiver_current authorizeExplicitGrant_def sample_grant_texts
      sample_grant_known Let_def)
     (simp add: receiver_def everywhere_def adminScopeContains_def AdminGrantAllow_def AdminGrantDeny_def)

lemma giver_unchecked:
  "CheckPermission (store_service AdminPermissionModeDisabled) sample_store
     (Some (user_principal 2 RoleAdmin)) ''oidc.keys.rotate'' [] = Inr False"
  by (simp add: CheckPermission_def authorizeExplicitGrant_def store_service_def store_repo_def
      resolveCurrentPrincipal_def ResolvePrincipal_def get_admin_principal_def live_user_def
      sample_store_def ordered_grants_def version_of_def user_principal_def
      sample_grant_texts sample_grant_known Let_def)

text \<open>
  In the disabled mode, which is the default, an ordinary administrator without a single
  grant can hand another one an oidc permission that it does not hold itself, and the
  receiver then passes the check that guards OIDC administration; the giver alone does not
  pass it. The independent boundary around oidc permissions can so be crossed by any two
  ordinary administrators.
\<close>

theorem disabled_mode_hands_out_oidc:
  "CheckPermission (store_service AdminPermissionModeDisabled) sample_store
     (Some (user_principal 2 RoleAdmin)) ''oidc.keys.rotate'' [] = Inr False \<and>
   snd (GrantPermission (store_service AdminPermissionModeDisabled) sample_store
     (sample_ctx AdminPermissionModeDisabled (user_principal 2 RoleAdmin))
     (Some (user_principal 2 RoleAdmin)) 3 ''oidc.keys.rotate'' ''allow'' everywhere ''swap'') = None \<and>
   (\<exists>p. ResolvePrincipal (store_service AdminPermissionModeDisabled) granted_store 3 = Inr p \<and>
      CheckPermission (store_service AdminPermissionModeDisabled) granted_store (Some p)
        ''oidc.keys.rotate'' [] = Inr True)"
  using giver_unchecked sample_grant receiver_resolved receiver_checked by simp

end
