(* ===== verification/Admin_Request_Guard.thy ===== *)
theory Admin_Request_Guard
  imports Admin_Permissions
begin

text \<open>
  The guards in front of the administrative routes: the permission middleware
  (server/middleware/admin_permissions.go), its tests on request fields
  (server/middleware/admin_sensitive_fields.go), and the guard of the user service on
  changes of roles and status (service/admin_permission_guard.go).

  The routing framework is seen through a record of what the guards read of a request: the
  method, the route pattern, its parameters, the values kept in its context, and the body. A
  guard answers with the abort it sends or lets the request pass. The table of routes is an
  argument, with the permission of each route.
\<close>

section \<open>Requests\<close>

text \<open>
  The raw JSON values that the guards distinguish. A number stands for one that fits a
  signed 64 bit integer.
\<close>

datatype raw_json =
    RawNull
  | RawString string
  | RawInt int
  | RawInts "int list"
  | RawOther

text \<open>A body that cannot be read in full, one that is no JSON object, and an object.\<close>

datatype request_body = UnreadableBody | MalformedBody | JsonObject "(string, raw_json) amap"

record gin_request =
  rq_method :: string
  rq_full_path :: string
  rq_params :: "(string \<times> string) list"
  rq_principal :: "AdminPrincipal option"
  rq_mode :: "string option"
  rq_auth_method :: string
  rq_body :: "request_body option"

datatype guard_result = Pass | Abort int string

definition AuditAuthMethodAdminAPIKey :: string where
  "AuditAuthMethodAdminAPIKey = ''admin_api_key''"

definition request_param :: "gin_request \<Rightarrow> string \<Rightarrow> string" where
  "request_param c key = (case map_of (rq_params c) key of None \<Rightarrow> [] | Some v \<Rightarrow> v)"

text \<open>The scope of a request: its numeric parameters, and the names of the resource.\<close>

fun param_scope :: "(string \<times> string) list \<Rightarrow> scope \<Rightarrow> scope" where
  "param_scope [] sc = sc"
| "param_scope ((key, value) # rest) sc =
     (case parse_int64 value of
        Some n \<Rightarrow> param_scope rest (if 0 < n then aput key (VInt n) sc else sc)
      | None \<Rightarrow> param_scope rest sc)"

fun resource_scope :: "string \<Rightarrow> scope_value \<Rightarrow> string list \<Rightarrow> scope \<Rightarrow> scope" where
  "resource_scope path idv [] sc = sc"
| "resource_scope path idv (resource # rest) sc =
     resource_scope path idv rest
       (if str_contains path (''/'' @ resource @ ''/:id'')
        then aput (resource @ ''_ids'') idv (aput (trim_suffix resource ''s'' @ ''_id'') idv sc)
        else sc)"

definition adminRequestScope :: "gin_request \<Rightarrow> scope" where
  "adminRequestScope c =
     (let sc = param_scope (rq_params c) []
      in case aget sc ''id'' of None \<Rightarrow> sc
         | Some idv \<Rightarrow> resource_scope (rq_full_path c) idv
             [''users'', ''groups'', ''accounts'', ''channels'', ''orders'', ''plugins''] sc)"

section \<open>The middleware\<close>

type_synonym 's service_opt = "'s AdminPermissionService option"

definition isHumanJWTAdmin :: "AdminPrincipal option \<Rightarrow> bool" where
  "isHumanJWTAdmin caller = (case caller of None \<Rightarrow> False
     | Some p \<Rightarrow> ap_Kind p = AdminPrincipalKindJWT \<and> (ap_Role p = RoleAdmin \<or> ap_Role p = RoleSuperAdmin))"

definition isAdminAPIKeyRequest :: "gin_request \<Rightarrow> AdminPrincipal option \<Rightarrow> bool" where
  "isAdminAPIKeyRequest c caller \<longleftrightarrow>
     (case caller of None \<Rightarrow> False | Some p \<Rightarrow> ap_Kind p = AdminPrincipalKindAPIKey) \<or>
     rq_auth_method c = AuditAuthMethodAdminAPIKey"

definition adminPermissionMode :: "gin_request \<Rightarrow> 's service_opt \<Rightarrow> string" where
  "adminPermissionMode c svc_opt =
     (case svc_opt of Some svc \<Rightarrow> Mode svc
      | None \<Rightarrow> (case rq_mode c of
            Some mode \<Rightarrow> if mode \<noteq> [] then NormalizeAdminPermissionMode mode else AdminPermissionModeDisabled
          | None \<Rightarrow> AdminPermissionModeDisabled))"

definition permissionServiceAuthorizes :: "'s service_opt \<Rightarrow> 's \<Rightarrow> AdminPrincipal \<Rightarrow> string \<Rightarrow> scope \<Rightarrow> bool" where
  "permissionServiceAuthorizes svc_opt st p permission sc =
     (if trim_space permission = [] then False
      else case svc_opt of None \<Rightarrow> isHumanJWTAdmin (Some p)
        | Some svc \<Rightarrow> AuthorizeRequest svc st (Some p) permission sc = Inr True)"

definition SetAdminPrincipal :: "gin_request \<Rightarrow> 's service_opt \<Rightarrow> AdminPrincipal option \<Rightarrow>
    gin_request \<times> guard_result" where
  "SetAdminPrincipal c svc_opt caller =
     (let mode = (case svc_opt of None \<Rightarrow> AdminPermissionModeDisabled | Some svc \<Rightarrow> Mode svc);
          c1 = c\<lparr>rq_mode := Some mode\<rparr>
      in if caller \<noteq> None then (c1\<lparr>rq_principal := caller\<rparr>, Pass)
         else if svc_opt \<noteq> None \<or> mode = AdminPermissionModeEnforce
           then (c1, Abort 403 ''ADMIN_PRINCIPAL_REQUIRED'')
         else (c1, Pass))"

definition RequireAdminPermission :: "'s service_opt \<Rightarrow> 's \<Rightarrow> string \<Rightarrow> gin_request \<Rightarrow> guard_result" where
  "RequireAdminPermission svc_opt st permission c =
     (case rq_principal c of
        None \<Rightarrow> Abort 403 ''PERMISSION_DENIED''
      | Some p \<Rightarrow>
          if \<not> permissionServiceAuthorizes svc_opt st p (trim_space permission) (adminRequestScope c)
          then Abort 403 ''PERMISSION_DENIED'' else Pass)"

text \<open>The service that the request context carries, as the second argument.\<close>

definition RequireOIDCAdminPermission :: "string \<Rightarrow> 's service_opt \<Rightarrow> 's \<Rightarrow> gin_request \<Rightarrow> guard_result" where
  "RequireOIDCAdminPermission permission0 svc_opt st c =
     (let permission = trim_space permission0
      in if permission = [] then Abort 403 ''OIDC_PERMISSION_DENIED''
         else case (svc_opt, rq_principal c) of
           (Some svc, Some p) \<Rightarrow>
             if CheckPermission svc st (Some p) permission (adminRequestScope c) = Inr True
             then Pass else Abort 403 ''OIDC_PERMISSION_DENIED''
         | _ \<Rightarrow> Abort 403 ''OIDC_PERMISSION_DENIED'')"

definition RequireAdminSuperAdmin :: "gin_request \<Rightarrow> guard_result" where
  "RequireAdminSuperAdmin c =
     (case rq_principal c of
        None \<Rightarrow> Abort 403 ''SUPER_ADMIN_REQUIRED''
      | Some p \<Rightarrow>
          if \<not> IsSuperAdmin p \<or> ap_Kind p \<noteq> AdminPrincipalKindJWT
          then Abort 403 ''SUPER_ADMIN_REQUIRED'' else Pass)"

definition LookupAdminRoutePermission :: "(string, string) amap \<Rightarrow> string \<Rightarrow> string \<Rightarrow> string option" where
  "LookupAdminRoutePermission routes method0 fullPath0 =
     (let method = to_upper (trim_space method0); fullPath = trim_space fullPath0
      in if method = [] \<or> fullPath = [] then None
         else aget routes (method @ '' '' @ fullPath))"

definition attachJWTAdminPrincipal :: "gin_request \<Rightarrow> 's service_opt \<Rightarrow> 's \<Rightarrow> int \<Rightarrow> string \<Rightarrow>
    gin_request \<times> guard_result" where
  "attachJWTAdminPrincipal c svc_opt st userID role =
     (case svc_opt of
        None \<Rightarrow> SetAdminPrincipal c svc_opt
          (Some \<lparr>ap_ID = ''legacy-user'', ap_Kind = AdminPrincipalKindJWT, ap_UserID = userID,
             ap_Role = role, ap_Version = 0, ap_Grants = [], ap_Explicit = False,
             ap_Source = ''legacy_role''\<rparr>)
      | Some svc \<Rightarrow>
          (case ResolvePrincipal svc st userID of
             Inl _ \<Rightarrow> SetAdminPrincipal c svc_opt None
           | Inr p \<Rightarrow> SetAdminPrincipal c svc_opt (Some p)))"

definition attachLegacyAdminAPIKeyPrincipal :: "'s service_opt \<Rightarrow> 's \<Rightarrow> guard_result + AdminPrincipal" where
  "attachLegacyAdminAPIKeyPrincipal svc_opt st =
     (case svc_opt of None \<Rightarrow> Inl (Abort 403 ''ADMIN_KEY_PRINCIPAL_REQUIRED'')
      | Some svc \<Rightarrow>
          (case ResolveLegacyAPIKeyPrincipal svc st ''legacy_admin_api_key'' of
             Inl _ \<Rightarrow> Inl (Abort 401 ''ADMIN_KEY_PRINCIPAL_REQUIRED'')
           | Inr p \<Rightarrow> Inr p))"

definition firstAdminPermissionService :: "'s service_opt list \<Rightarrow> 's service_opt" where
  "firstAdminPermissionService services =
     (case find (\<lambda>s. s \<noteq> None) services of None \<Rightarrow> None | Some s \<Rightarrow> s)"

section \<open>Sensitive fields of a request\<close>

text \<open>ParseInt with its error dropped: 0 for what is no number, the nearest end of the range.\<close>

definition parse_int64_value :: "string \<Rightarrow> int" where
  "parse_int64_value s =
     (let neg = (take 1 s = ''-''); ds = (if take 1 s = ''-'' \<or> take 1 s = ''+'' then drop 1 s else s)
      in if ds = [] then 0
         else case digits_value 0 ds of None \<Rightarrow> 0
           | Some n \<Rightarrow> max min_int64 (min max_int64 (if neg then - n else n)))"

definition is_mutating :: "string \<Rightarrow> bool" where
  "is_mutating method \<longleftrightarrow> method \<in> {''POST'', ''PUT'', ''PATCH'', ''DELETE''}"

definition is_user_resource :: "string \<Rightarrow> bool" where
  "is_user_resource path \<longleftrightarrow> has_prefix path ''/api/v1/admin/users'' \<or>
     str_contains path ''/affiliates/users/'' \<or> has_prefix path ''/api/v1/admin/entitlements'' \<or>
     has_prefix path ''/api/v1/admin/invitations''"

definition assert_target :: "'s AdminPermissionService \<Rightarrow> 's \<Rightarrow> AdminPrincipal \<Rightarrow> int \<Rightarrow> guard_result" where
  "assert_target svc st p target =
     (if target \<le> 0 then Pass
      else if AssertMutableTarget svc st (Some p) target \<noteq> None then Abort 403 ''TARGET_USER_PROTECTED''
      else Pass)"

fun assert_targets :: "'s AdminPermissionService \<Rightarrow> 's \<Rightarrow> AdminPrincipal \<Rightarrow> int list \<Rightarrow> guard_result" where
  "assert_targets svc st p [] = Pass"
| "assert_targets svc st p (target # rest) =
     (case assert_target svc st p target of Pass \<Rightarrow> assert_targets svc st p rest | a \<Rightarrow> a)"

text \<open>The targets named in the path.\<close>

definition path_targets :: "gin_request \<Rightarrow> int list" where
  "path_targets c =
     (if is_mutating (rq_method c) \<and> is_user_resource (rq_full_path c)
      then (if str_contains (rq_full_path c) ''/users/:id''
            then [parse_int64_value (request_param c ''id'')] else []) @
           (if request_param c ''user_id'' \<noteq> []
            then [parse_int64_value (request_param c ''user_id'')] else [])
      else [])"

text \<open>The targets named in the body; \<open>None\<close> when the list of users is invalid.\<close>

definition body_targets :: "(string, raw_json) amap \<Rightarrow> int list option" where
  "body_targets body =
     (let single = (\<lambda>name. case aget body name of
          Some (RawInt n) \<Rightarrow> [n] | Some RawNull \<Rightarrow> [0] | _ \<Rightarrow> []);
          singles = single ''target_user_id'' @ single ''invitee_user_id''
      in case aget body ''user_ids'' of
           None \<Rightarrow> Some singles
         | Some RawNull \<Rightarrow> Some singles
         | Some (RawInts ns) \<Rightarrow> if 1000 < length ns then None else Some (ns @ singles)
         | Some _ \<Rightarrow> None)"

definition sensitive_fields :: "string \<Rightarrow> (string \<times> string) list" where
  "sensitive_fields path =
     (if has_prefix path ''/api/v1/admin/users''
      then [(''role'', ''users.role.assign''), (''status'', ''users.status''),
            (''balance'', ''users.balance.adjust''), (''password'', ''users.credentials.write''),
            (''email'', ''users.credentials.write''), (''allowed_groups'', ''users.entitlement.manage''),
            (''restrict_public_groups'', ''users.entitlement.manage''),
            (''group_rates'', ''groups.rates.manage'')]
      else map (\<lambda>field. (field, ''groups.rates.manage''))
             [''rate_multiplier'', ''image_rate_multiplier'', ''video_rate_multiplier'',
              ''image_rate_independent'', ''peak_rate_multiplier'', ''peak_rate_enabled'',
              ''peak_start'', ''peak_end''])"

text \<open>The range loop over the fields; its order only decides which of equal aborts comes first.\<close>

fun check_fields :: "(string \<Rightarrow> bool) \<Rightarrow> (string, raw_json) amap \<Rightarrow> (string \<times> string) list \<Rightarrow> guard_result" where
  "check_fields check body [] = Pass"
| "check_fields check body ((field, permission) # rest) =
     (case aget body field of
        None \<Rightarrow> check_fields check body rest
      | Some RawNull \<Rightarrow> check_fields check body rest
      | Some raw \<Rightarrow>
          (let needed = (if field = ''role'' \<and> raw = RawString RoleSuperAdmin
                         then ''security.superadmin.assign'' else permission)
           in if \<not> check needed then Abort 403 ''PERMISSION_DENIED'' else check_fields check body rest))"

definition checks_sensitive_route :: "gin_request \<Rightarrow> bool" where
  "checks_sensitive_route c \<longleftrightarrow>
     (let path = rq_full_path c; method = rq_method c
      in (is_mutating method \<and> is_user_resource path) \<or>
         (path = ''/api/v1/admin/users'' \<and> method = ''POST'') \<or>
         (path = ''/api/v1/admin/users/:id'' \<and> method = ''PUT'') \<or>
         (has_prefix path ''/api/v1/admin/groups'' \<and> (method = ''PUT'' \<or> method = ''POST'')))"

definition authorizeAdminSensitiveFields :: "gin_request \<Rightarrow> 's service_opt \<Rightarrow> 's \<Rightarrow> guard_result" where
  "authorizeAdminSensitiveFields c svc_opt st =
     (case (rq_principal c, svc_opt) of
        (Some p, Some svc) \<Rightarrow>
          (case assert_targets svc st p (path_targets c) of
             Abort status code \<Rightarrow> Abort status code
           | Pass \<Rightarrow>
               if \<not> checks_sensitive_route c then Pass
               else (case rq_body c of
                   None \<Rightarrow> Pass
                 | Some UnreadableBody \<Rightarrow> Abort 400 ''INVALID_REQUEST''
                 | Some MalformedBody \<Rightarrow> Pass
                 | Some (JsonObject body) \<Rightarrow>
                     (let fields = check_fields (\<lambda>permission.
                            AuthorizeRequest svc st (Some p) permission (adminRequestScope c) = Inr True)
                          body (sensitive_fields (rq_full_path c))
                      in if \<not> (is_mutating (rq_method c) \<and> is_user_resource (rq_full_path c)) then fields
                         else (case body_targets body of
                             None \<Rightarrow> Abort 400 ''INVALID_USER_IDS''
                           | Some ids \<Rightarrow>
                               (case assert_targets svc st p ids of
                                  Abort status code \<Rightarrow> Abort status code
                                | Pass \<Rightarrow> fields)))))
      | _ \<Rightarrow> Abort 403 ''PERMISSION_DENIED'')"

definition RequireMappedAdminPermission :: "(string, string) amap \<Rightarrow> 's service_opt \<Rightarrow> 's \<Rightarrow>
    gin_request \<Rightarrow> guard_result" where
  "RequireMappedAdminPermission routes svc_opt st c =
     (let mode = adminPermissionMode c svc_opt;
          strict = (mode = AdminPermissionModeEnforce \<or> isAdminAPIKeyRequest c None)
      in case LookupAdminRoutePermission routes (rq_method c) (rq_full_path c) of
           None \<Rightarrow> if strict then Abort 403 ''PERMISSION_NOT_MAPPED'' else Pass
         | Some permission \<Rightarrow>
             (case (if strict then authorizeAdminSensitiveFields c svc_opt st else Pass) of
                Abort status code \<Rightarrow> Abort status code
              | Pass \<Rightarrow> RequireAdminPermission svc_opt st permission c))"

section \<open>Changes of roles and status\<close>

record AdminPermissionState =
  aps_UserID :: int
  aps_Role :: string
  aps_Status :: string
  aps_Version :: int

text \<open>
  What the user repository answers for an account. A repository that cannot read permission
  states answers nothing, without an error.
\<close>

type_synonym state_reader = "(int \<Rightarrow> admin_error + AdminPermissionState option) option"

definition loadAdminPermissionState :: "state_reader \<Rightarrow> int \<Rightarrow> admin_error + AdminPermissionState option" where
  "loadAdminPermissionState reader userID =
     (if userID \<le> 0 then Inl ErrAdminPrincipalNotFound
      else case reader of None \<Rightarrow> Inr None | Some f \<Rightarrow> f userID)"

definition guard_mode :: "request_ctx \<Rightarrow> string" where
  "guard_mode ctx = (case ctx_service_mode ctx of
     Some m \<Rightarrow> NormalizeAdminPermissionMode m | None \<Rightarrow> NormalizeAdminPermissionMode (ctx_env_mode ctx))"

definition authorizeAdminPermission :: "'s service_opt \<Rightarrow> 's \<Rightarrow> request_ctx \<Rightarrow> int \<Rightarrow> string \<Rightarrow>
    admin_error option" where
  "authorizeAdminPermission svc_opt st ctx actorID permission =
     (case ctx_principal ctx of
        None \<Rightarrow> Some ErrAdminPermissionDenied
      | Some p \<Rightarrow>
          if ap_UserID p \<noteq> actorID then Some ErrAdminPermissionDenied
          else if guard_mode ctx \<noteq> AdminPermissionModeEnforce \<and> ap_Kind p \<noteq> AdminPrincipalKindAPIKey
            then None
          else AuthorizeAdminRequest svc_opt st ctx permission [])"

definition target_conflict :: "request_ctx \<Rightarrow> AdminPermissionState \<Rightarrow> bool" where
  "target_conflict ctx target =
     (case ctx_target_snapshot ctx of None \<Rightarrow> False
      | Some (role, status) \<Rightarrow> (role \<noteq> [] \<and> aps_Role target \<noteq> role) \<or>
          (status \<noteq> [] \<and> aps_Status target \<noteq> status))"

text \<open>The second reading of the target: a conflict, a denial, or what the rest may look at.\<close>

definition read_target :: "state_reader \<Rightarrow> request_ctx \<Rightarrow> int \<Rightarrow> admin_error + AdminPermissionState option" where
  "read_target reader ctx targetID =
     (if targetID \<le> 0 then Inr None
      else case loadAdminPermissionState reader targetID of
        Inl _ \<Rightarrow>
          if guard_mode ctx = AdminPermissionModeEnforce
          then (if ctx_target_snapshot ctx \<noteq> None then Inl ErrAdminMutationConflict
                else Inl ErrAdminPermissionDenied)
          else Inr None
      | Inr None \<Rightarrow> Inr None
      | Inr (Some target) \<Rightarrow>
          if target_conflict ctx target then Inl ErrAdminMutationConflict else Inr (Some target))"

definition mutation_permission :: "int \<Rightarrow> string \<Rightarrow> string \<Rightarrow> string" where
  "mutation_permission targetID requestedRole requestedStatus =
     (if requestedRole = RoleSuperAdmin then ''security.superadmin.assign''
      else if requestedRole \<noteq> [] \<and> 0 < targetID then ''users.role.assign''
      else if requestedStatus \<noteq> [] then ''users.status'' else [])"

definition authorizeAdminPrincipalMutation :: "'s service_opt \<Rightarrow> 's \<Rightarrow> state_reader \<Rightarrow> request_ctx \<Rightarrow>
    int \<Rightarrow> int \<Rightarrow> string \<Rightarrow> string \<Rightarrow> admin_error option" where
  "authorizeAdminPrincipalMutation svc_opt st reader ctx actorID targetID requestedRole requestedStatus =
     (case loadAdminPermissionState reader actorID of
        Inr (Some actor) \<Rightarrow>
          (case read_target reader ctx targetID of
             Inl err \<Rightarrow> Some err
           | Inr target_opt \<Rightarrow>
               if requestedRole = RoleSuperAdmin \<and> aps_Role actor \<noteq> RoleSuperAdmin
                 then Some ErrSuperAdminAssignmentDenied
               else if aps_Role actor \<noteq> RoleSuperAdmin \<and> targetID = actorID \<and> 0 < targetID \<and>
                    (requestedRole \<noteq> [] \<or> requestedStatus \<noteq> [])
                 then Some ErrAdminCannotSelfGrant
               else if aps_Role actor \<noteq> RoleSuperAdmin \<and>
                    (case target_opt of None \<Rightarrow> False | Some t \<Rightarrow> aps_Role t = RoleSuperAdmin)
                 then Some ErrAdminCannotModifySuperAdmin
               else if guard_mode ctx = AdminPermissionModeEnforce \<and>
                    mutation_permission targetID requestedRole requestedStatus \<noteq> []
                 then authorizeAdminPermission svc_opt st ctx actorID
                   (mutation_permission targetID requestedRole requestedStatus)
               else None)
      | _ \<Rightarrow>
          if guard_mode ctx = AdminPermissionModeEnforce then Some ErrAdminPermissionDenied
          else if requestedRole = RoleSuperAdmin then Some ErrSuperAdminAssignmentDenied
          else None)"

section \<open>Properties\<close>

lemma permission_pass:
  "RequireAdminPermission svc_opt st permission c = Pass \<Longrightarrow>
   \<exists>p. rq_principal c = Some p \<and>
     permissionServiceAuthorizes svc_opt st p (trim_space permission) (adminRequestScope c)"
  by (auto simp: RequireAdminPermission_def split: option.splits if_splits)

lemma fields_pass:
  "authorizeAdminSensitiveFields c svc_opt st = Pass \<Longrightarrow>
   \<exists>svc p. svc_opt = Some svc \<and> rq_principal c = Some p"
  by (auto simp: authorizeAdminSensitiveFields_def split: option.splits)

text \<open>
  C15: An administrative API key reaches a route only through its own grants: in every mode,
  when the middleware lets a request of a key pass, the route is in the table, and the
  key's current binding has an allowing grant that names exactly the route's permission and
  contains the scope of the request.
\<close>

theorem key_route_needs_grant:
  assumes "RequireMappedAdminPermission routes svc_opt st c = Pass"
    and "rq_auth_method c = AuditAuthMethodAdminAPIKey"
    and "rq_principal c = Some p" and "ap_Kind p = AdminPrincipalKindAPIKey"
  shows "\<exists>permission svc f. svc_opt = Some svc \<and>
    LookupAdminRoutePermission routes (rq_method c) (rq_full_path c) = Some permission \<and>
    resolveCurrentPrincipal svc st p = Inr f \<and>
    (\<exists>g \<in> set (ap_Grants f). ag_Permission g = trim_space permission \<and> allows (adminRequestScope c) g)"
proof -
  have strict: "isAdminAPIKeyRequest c None" using assms(2) by (simp add: isAdminAPIKeyRequest_def)
  obtain permission where lookup:
    "LookupAdminRoutePermission routes (rq_method c) (rq_full_path c) = Some permission"
    using assms(1) strict by (auto simp: RequireMappedAdminPermission_def split: option.splits if_splits)
  have fields: "authorizeAdminSensitiveFields c svc_opt st = Pass"
    and pass: "RequireAdminPermission svc_opt st permission c = Pass"
    using assms(1) strict lookup
    by (auto simp: RequireMappedAdminPermission_def split: guard_result.splits if_splits)
  obtain svc where svc: "svc_opt = Some svc" using fields_pass [OF fields] by auto
  have ok: "AuthorizeRequest svc st (Some p) (trim_space permission) (adminRequestScope c) = Inr True"
    using permission_pass [OF pass] assms(3) svc
    by (auto simp: permissionServiceAuthorizes_def split: if_splits)
  obtain f where f: "resolveCurrentPrincipal svc st p = Inr f"
    using ok by (auto simp: AuthorizeRequest_def split: sum.splits)
  note key = current_key_principal [OF f assms(4)]
  have names: "AdminPrincipalKindAPIKey \<noteq> AdminPrincipalKindJWT" "RoleAdmin \<noteq> RoleSuperAdmin"
    by (simp_all add: admin_consts)
  with key ok have "Authorize (Some f) (trim_space permission) (adminRequestScope c) = Inr True"
    by (auto simp: AuthorizeRequest_def f split: if_splits)
  then obtain g where "g \<in> set (ap_Grants f)" "allows (adminRequestScope c) g"
      "ag_Permission g = trim_space (trim_space permission) \<or> ag_Permission g = ''*''"
    using key names by (metis Authorize_True)
  with key lookup svc f show ?thesis by (auto simp: trim_space_idem)
qed

text \<open>
  C31: What a passing mutation tells, in any mode. When the acting account can be read, it is a super
  administrator, or the mutation does not assign that role, does not change the actor's own role or
  status, and its target is not read as a super administrator; and the target still looks as the
  preflight saw it. When the acting account cannot be read, the mode is not enforce and the mutation does
  not assign the super administrator role (in that mode the guard looks at nothing else). In enforce
  mode the target can be read and the permission that the mutation needs, if any, is granted.
\<close>

theorem principal_mutation_safe:
  assumes "authorizeAdminPrincipalMutation svc_opt st reader ctx actorID targetID role status = None"
  shows "(case loadAdminPermissionState reader actorID of
      Inr (Some actor) \<Rightarrow>
        (aps_Role actor = RoleSuperAdmin \<or>
          role \<noteq> RoleSuperAdmin \<and>
          (targetID = actorID \<longrightarrow> role = [] \<and> status = []) \<and>
          (\<forall>target. loadAdminPermissionState reader targetID = Inr (Some target) \<longrightarrow> aps_Role target \<noteq> RoleSuperAdmin)) \<and>
        (\<forall>target. loadAdminPermissionState reader targetID = Inr (Some target) \<longrightarrow> \<not> target_conflict ctx target)
    | _ \<Rightarrow> guard_mode ctx \<noteq> AdminPermissionModeEnforce \<and> role \<noteq> RoleSuperAdmin) \<and>
    (guard_mode ctx = AdminPermissionModeEnforce \<longrightarrow>
      (0 < targetID \<longrightarrow> (\<exists>target. loadAdminPermissionState reader targetID = Inr target)) \<and>
      (mutation_permission targetID role status \<noteq> [] \<longrightarrow>
        authorizeAdminPermission svc_opt st ctx actorID (mutation_permission targetID role status) = None))"
proof (cases "loadAdminPermissionState reader actorID")
  case (Inr actor_opt)
  then have pos: "0 < actorID" by (simp add: loadAdminPermissionState_def split: if_splits)
  show ?thesis using assms pos
    by (cases actor_opt) (auto simp: authorizeAdminPrincipalMutation_def read_target_def loadAdminPermissionState_def [of reader targetID] Inr
        split: sum.splits option.splits if_splits)
qed (use assms in \<open>auto simp: authorizeAdminPrincipalMutation_def split: if_splits\<close>)

section \<open>Examples\<close>

definition sample_reader :: "int \<Rightarrow> admin_error + AdminPermissionState option" where
  "sample_reader userID = (if userID = 1 \<or> userID = 2
     then Inr (Some \<lparr>aps_UserID = userID, aps_Role = RoleAdmin, aps_Status = StatusActive, aps_Version = 0\<rparr>)
     else Inl ErrAdminPrincipalNotFound)"

definition plain_ctx :: request_ctx where
  "plain_ctx = \<lparr>ctx_principal = None, ctx_service_mode = Some AdminPermissionModeDisabled,
     ctx_actor_mark = None, ctx_target_snapshot = None, ctx_principal_kind = None, ctx_env_mode = []\<rparr>"

lemma plain_mode: "guard_mode plain_ctx = AdminPermissionModeDisabled"
  unfolding guard_mode_def plain_ctx_def NormalizeAdminPermissionMode_def admin_consts
  by (simp add: plain_text del: to_lower.simps)

lemma sample_mutation:
  "authorizeAdminPrincipalMutation (None :: unit service_opt) () (Some sample_reader) plain_ctx 1 2
     [] StatusActive = None"
  unfolding authorizeAdminPrincipalMutation_def loadAdminPermissionState_def read_target_def plain_mode
  by (simp add: sample_reader_def target_conflict_def plain_ctx_def admin_consts)

theorem principal_mutation_safe_witness:
  "\<exists>target. sample_reader 2 = Inr (Some target) \<and> aps_Role target \<noteq> RoleSuperAdmin"
proof -
  have "sample_reader 1 = Inr (Some \<lparr>aps_UserID = 1, aps_Role = RoleAdmin, aps_Status = StatusActive,
      aps_Version = 0\<rparr>)" "\<exists>target. sample_reader 2 = Inr (Some target)"
    by (simp_all add: sample_reader_def)
  moreover have "RoleAdmin \<noteq> RoleSuperAdmin" by (simp add: admin_consts)
  ultimately show ?thesis
    using principal_mutation_safe [OF sample_mutation] by (auto simp: loadAdminPermissionState_def)
qed

definition key_request :: gin_request where
  "key_request = \<lparr>rq_method = ''GET'', rq_full_path = ''/keys'', rq_params = [],
     rq_principal = Some (sample_caller AdminPrincipalKindAPIKey), rq_mode = None,
     rq_auth_method = AuditAuthMethodAdminAPIKey, rq_body = None\<rparr>"

lemma key_request_lookup:
  "LookupAdminRoutePermission [(''GET /keys'', ''oidc.keys.read'')] ''GET'' ''/keys'' = Some ''oidc.keys.read''"
proof -
  have "trim_space ''GET'' = ''GET''" "trim_space ''/keys'' = ''/keys''" by (simp_all add: plain_text)
  moreover have "to_upper ''GET'' = ''GET''" by code_simp
  ultimately show ?thesis by (simp add: LookupAdminRoutePermission_def del: to_upper.simps)
qed

lemma key_request_fields:
  "authorizeAdminSensitiveFields key_request (Some sample_service) () = Pass"
  by (simp add: authorizeAdminSensitiveFields_def key_request_def path_targets_def is_mutating_def
      checks_sensitive_route_def has_prefix_def)

lemma key_request_scope: "adminRequestScope key_request = []"
  by (simp add: adminRequestScope_def key_request_def)

lemma key_request_passes:
  "RequireMappedAdminPermission [(''GET /keys'', ''oidc.keys.read'')] (Some sample_service) () key_request
     = Pass"
proof -
  have request: "rq_method key_request = ''GET''" "rq_full_path key_request = ''/keys''"
    "rq_principal key_request = Some (sample_caller AdminPrincipalKindAPIKey)"
    by (simp_all add: key_request_def)
  have "RequireAdminPermission (Some sample_service) () ''oidc.keys.read'' key_request = Pass"
    by (simp add: RequireAdminPermission_def permissionServiceAuthorizes_def request
        key_request_scope sample_request sample_oidc(2))
  then show ?thesis
    by (simp add: RequireMappedAdminPermission_def request key_request_lookup key_request_fields)
qed

theorem key_route_needs_grant_witness:
  "\<exists>f. resolveCurrentPrincipal sample_service () (sample_caller AdminPrincipalKindAPIKey) = Inr f \<and>
     (\<exists>g \<in> set (ap_Grants f). ag_Permission g = ''oidc.keys.read'')"
  using key_route_needs_grant [OF key_request_passes, of "sample_caller AdminPrincipalKindAPIKey"]
    key_request_lookup sample_oidc(2)
  by (auto simp: key_request_def sample_caller_def)

end
