(* ===== verification/Idempotency_Store.thy ===== *)
theory Idempotency_Store
  imports Gateway_Prelude
begin

text \<open>
  The idempotency records (service/idempotency.go, repository/idempotency_repo.go): the row,
  the repository interface, its implementation by SQL statements over the table, and the
  contract that the two clients of the interface rely on (the coordinator of
  service/idempotency.go and the system operation lock).

  \<^item> \<open>IdempotencyRepository\<close> is the Go interface, a record of functions on the state
    \<open>'st\<close> of a store; the optional interface idempotencyOwnedCASRepository is the field
    \<open>OwnedCAS\<close>, and the statement that PersistSuccess runs in the caller's transaction is
    \<open>ExecPersist\<close>.
  \<^item> Each operation is one SQL statement, so it is atomic. A call may fail before or after
    the statement took effect: \<open>call\<close> says what the caller then sees.
  \<^item> The table keeps instants as they are (PostgreSQL rounds to microseconds), and the
    columns created_at and updated_at, which no operation reads, are left out.
\<close>

section \<open>Rows and the repository interface\<close>

definition IdempotencyStatusProcessing :: string where
  "IdempotencyStatusProcessing = ''processing''"
definition IdempotencyStatusSucceeded :: string where
  "IdempotencyStatusSucceeded = ''succeeded''"
definition IdempotencyStatusFailedRetryable :: string where
  "IdempotencyStatusFailedRetryable = ''failed_retryable''"

lemmas idempotency_status = IdempotencyStatusProcessing_def IdempotencyStatusSucceeded_def
  IdempotencyStatusFailedRetryable_def

record IdempotencyRecord =
  ir_id :: int
  ir_scope :: string
  ir_actor :: string
  ir_key_hash :: string
  ir_fingerprint :: string
  ir_status :: string
  ir_response_status :: "int option"
  ir_response_body :: "string option"
  ir_error_reason :: "string option"
  ir_locked_until :: "instant option"
  ir_expires_at :: instant

record 'st idempotencyOwnedCASRepository =
  TryReclaimOwned :: "int \<Rightarrow> string \<Rightarrow> string \<Rightarrow> string \<Rightarrow> instant option \<Rightarrow> instant \<Rightarrow> instant \<Rightarrow> instant
    \<Rightarrow> 'st \<Rightarrow> 'st \<times> bool"
  MarkFailedRetryableOwned :: "int \<Rightarrow> string \<Rightarrow> string \<Rightarrow> instant \<Rightarrow> string \<Rightarrow> instant \<Rightarrow> instant
    \<Rightarrow> 'st \<Rightarrow> 'st \<times> bool"

record 'st IdempotencyRepository =
  CreateProcessing :: "IdempotencyRecord \<Rightarrow> 'st \<Rightarrow> 'st \<times> int option"
  GetByScopeActorScopeAndKeyHash :: "string \<Rightarrow> string \<Rightarrow> string \<Rightarrow> 'st \<Rightarrow> 'st \<times> IdempotencyRecord option"
  TryReclaim :: "int \<Rightarrow> string \<Rightarrow> instant \<Rightarrow> instant \<Rightarrow> instant \<Rightarrow> 'st \<Rightarrow> 'st \<times> bool"
  ExtendProcessingLock :: "int \<Rightarrow> string \<Rightarrow> instant \<Rightarrow> instant \<Rightarrow> 'st \<Rightarrow> 'st \<times> bool"
  MarkSucceeded :: "int \<Rightarrow> int \<Rightarrow> string \<Rightarrow> instant \<Rightarrow> 'st \<Rightarrow> 'st \<times> bool"
  MarkFailedRetryable :: "int \<Rightarrow> string \<Rightarrow> instant \<Rightarrow> instant \<Rightarrow> 'st \<Rightarrow> 'st \<times> bool"
  DeleteExpired :: "instant \<Rightarrow> int \<Rightarrow> 'st \<Rightarrow> 'st \<times> nat"
  ExecPersist :: "int \<Rightarrow> string \<Rightarrow> string \<Rightarrow> instant \<Rightarrow> string \<Rightarrow> instant \<Rightarrow> 'st \<Rightarrow> 'st \<times> bool"
  OwnedCAS :: "'st idempotencyOwnedCASRepository option"

section \<open>The changes that the statements make to a row\<close>

type_synonym idem_key = "string \<times> string \<times> string"

definition row_key :: "IdempotencyRecord \<Rightarrow> idem_key" where
  "row_key r = (ir_scope r, ir_actor r, ir_key_hash r)"

definition created_row :: "int \<Rightarrow> IdempotencyRecord \<Rightarrow> IdempotencyRecord" where
  "created_row i r = r\<lparr>ir_id := i, ir_response_status := None, ir_response_body := None,
     ir_error_reason := None\<rparr>"

definition reclaimed_row :: "instant \<Rightarrow> instant \<Rightarrow> IdempotencyRecord \<Rightarrow> IdempotencyRecord" where
  "reclaimed_row newLockedUntil newExpiresAt r = r\<lparr>ir_status := IdempotencyStatusProcessing,
     ir_locked_until := Some newLockedUntil, ir_error_reason := None, ir_expires_at := newExpiresAt\<rparr>"

definition extended_row :: "instant \<Rightarrow> instant \<Rightarrow> IdempotencyRecord \<Rightarrow> IdempotencyRecord" where
  "extended_row newLockedUntil newExpiresAt r =
     r\<lparr>ir_locked_until := Some newLockedUntil, ir_expires_at := newExpiresAt\<rparr>"

definition succeeded_row :: "int \<Rightarrow> string \<Rightarrow> instant \<Rightarrow> IdempotencyRecord \<Rightarrow> IdempotencyRecord" where
  "succeeded_row responseStatus responseBody expiresAt r = r\<lparr>ir_status := IdempotencyStatusSucceeded,
     ir_response_status := Some responseStatus, ir_response_body := Some responseBody,
     ir_error_reason := None, ir_locked_until := None, ir_expires_at := expiresAt\<rparr>"

definition failed_row :: "string \<Rightarrow> instant \<Rightarrow> instant \<Rightarrow> IdempotencyRecord \<Rightarrow> IdempotencyRecord" where
  "failed_row errorReason lockedUntil expiresAt r = r\<lparr>ir_status := IdempotencyStatusFailedRetryable,
     ir_error_reason := Some errorReason, ir_locked_until := Some lockedUntil, ir_expires_at := expiresAt\<rparr>"

lemmas row_changes = created_row_def reclaimed_row_def extended_row_def succeeded_row_def failed_row_def

text \<open>The conditions of the statements beside the row's id.\<close>

definition unlocked :: "instant \<Rightarrow> IdempotencyRecord \<Rightarrow> bool" where
  "unlocked now r = (case ir_locked_until r of None \<Rightarrow> True | Some l \<Rightarrow> l \<le> now)"

definition reclaimable :: "string \<Rightarrow> instant \<Rightarrow> IdempotencyRecord \<Rightarrow> bool" where
  "reclaimable fromStatus now r = (ir_status r = fromStatus \<and> unlocked now r)"

definition reclaimable_owned ::
    "string \<Rightarrow> string \<Rightarrow> string \<Rightarrow> instant option \<Rightarrow> instant \<Rightarrow> IdempotencyRecord \<Rightarrow> bool" where
  "reclaimable_owned fromStatus actorScope requestFingerprint expectedLockedUntil now r =
     (ir_status r = fromStatus \<and> ir_actor r = actorScope \<and> ir_fingerprint r = requestFingerprint
      \<and> ir_locked_until r = expectedLockedUntil \<and> unlocked now r)"

definition is_processing :: "IdempotencyRecord \<Rightarrow> bool" where
  "is_processing r = (ir_status r = IdempotencyStatusProcessing)"

definition processing_for :: "string \<Rightarrow> IdempotencyRecord \<Rightarrow> bool" where
  "processing_for requestFingerprint r =
     (ir_status r = IdempotencyStatusProcessing \<and> ir_fingerprint r = requestFingerprint)"

definition owned_by :: "string \<Rightarrow> string \<Rightarrow> instant \<Rightarrow> IdempotencyRecord \<Rightarrow> bool" where
  "owned_by actorScope requestFingerprint expectedLockedUntil r =
     (ir_status r = IdempotencyStatusProcessing \<and> ir_actor r = actorScope
      \<and> ir_fingerprint r = requestFingerprint \<and> ir_locked_until r = Some expectedLockedUntil)"

lemmas row_guards = unlocked_def reclaimable_def reclaimable_owned_def is_processing_def
  processing_for_def owned_by_def


section \<open>The contract of the repository\<close>

text \<open>
  A store is seen as its rows by id and the ids it has handed out. A statement that changes
  the row \<open>i\<close> when a condition holds reports whether it did, and touches nothing else.
\<close>

definition changes_row :: "('st \<Rightarrow> bool) \<Rightarrow> ('st \<Rightarrow> int \<Rightarrow> IdempotencyRecord option) \<Rightarrow> ('st \<Rightarrow> int set) \<Rightarrow>
    int \<Rightarrow> (IdempotencyRecord \<Rightarrow> bool) \<Rightarrow> (IdempotencyRecord \<Rightarrow> IdempotencyRecord) \<Rightarrow>
    ('st \<Rightarrow> 'st \<times> bool) \<Rightarrow> bool" where
  "changes_row good row issued i guard change statement \<longleftrightarrow>
     (\<forall>st. good st \<longrightarrow> good (fst (statement st)) \<and> issued (fst (statement st)) = issued st
        \<and> (if \<exists>r. row st i = Some r \<and> guard r
           then snd (statement st) \<and> row (fst (statement st)) = (row st)(i := map_option change (row st i))
           else \<not> snd (statement st) \<and> row (fst (statement st)) = row st))"

locale idempotency_repository =
  fixes repo :: "'st IdempotencyRepository"
    and row :: "'st \<Rightarrow> int \<Rightarrow> IdempotencyRecord option"
    and issued :: "'st \<Rightarrow> int set"
    and good :: "'st \<Rightarrow> bool"
  assumes row_id: "good st \<Longrightarrow> row st i = Some r \<Longrightarrow> ir_id r = i \<and> i \<in> issued st \<and> 0 < i"
    and row_unique: "good st \<Longrightarrow> row st i = Some r \<Longrightarrow> row st j = Some q \<Longrightarrow> row_key r = row_key q \<Longrightarrow> i = j"
    and create_old: "good st \<Longrightarrow> row st i = Some q \<Longrightarrow> row_key q = row_key r \<Longrightarrow>
      good (fst (CreateProcessing repo r st)) \<and> snd (CreateProcessing repo r st) = None
      \<and> row (fst (CreateProcessing repo r st)) = row st
      \<and> issued st \<subseteq> issued (fst (CreateProcessing repo r st))"
    and create_new: "good st \<Longrightarrow> \<forall>i q. row st i = Some q \<longrightarrow> row_key q \<noteq> row_key r \<Longrightarrow>
      \<exists>i. snd (CreateProcessing repo r st) = Some i \<and> i \<notin> issued st \<and> 0 < i
      \<and> good (fst (CreateProcessing repo r st))
      \<and> row (fst (CreateProcessing repo r st)) = (row st)(i \<mapsto> created_row i r)
      \<and> insert i (issued st) \<subseteq> issued (fst (CreateProcessing repo r st))"
    and get_state: "fst (GetByScopeActorScopeAndKeyHash repo s a h st) = st"
    and get_row: "good st \<Longrightarrow> snd (GetByScopeActorScopeAndKeyHash repo s a h st) = Some r \<longleftrightarrow>
      (\<exists>i. row st i = Some r \<and> row_key r = (s, a, h))"
    and reclaim: "changes_row good row issued i (reclaimable from now) (reclaimed_row l e)
      (TryReclaim repo i from now l e)"
    and extend: "changes_row good row issued i (processing_for fp) (extended_row l e)
      (ExtendProcessingLock repo i fp l e)"
    and succeed: "changes_row good row issued i is_processing (succeeded_row code body e)
      (MarkSucceeded repo i code body e)"
    and fail: "changes_row good row issued i is_processing (failed_row why l e)
      (MarkFailedRetryable repo i why l e)"
    and persist: "changes_row good row issued i (owned_by a fp l) (succeeded_row 200 body e)
      (ExecPersist repo i a fp l body e)"
    and delete: "good st \<Longrightarrow> good (fst (DeleteExpired repo now limit st))
      \<and> issued (fst (DeleteExpired repo now limit st)) = issued st
      \<and> (row (fst (DeleteExpired repo now limit st)) i = row st i
         \<or> row (fst (DeleteExpired repo now limit st)) i = None
           \<and> (\<exists>r. row st i = Some r \<and> ir_expires_at r \<le> now))"

locale owned_idempotency_repository = idempotency_repository repo row issued good
  for repo :: "'st IdempotencyRepository" and row issued good +
  fixes cas :: "'st idempotencyOwnedCASRepository"
  assumes owned: "OwnedCAS repo = Some cas"
    and reclaim_owned: "changes_row good row issued i (reclaimable_owned from a fp old now) (reclaimed_row l e)
      (TryReclaimOwned cas i from a fp old now l e)"
    and fail_owned: "changes_row good row issued i (owned_by a fp held) (failed_row why l e)
      (MarkFailedRetryableOwned cas i a fp held why l e)"

lemma changes_row_good: "changes_row good row issued i g f op \<Longrightarrow> good st \<Longrightarrow> good (fst (op st))"
  by (simp add: changes_row_def)

lemma changes_row_issued: "changes_row good row issued i g f op \<Longrightarrow> good st \<Longrightarrow> issued (fst (op st)) = issued st"
  by (simp add: changes_row_def)

lemma changes_row_taken:
  "changes_row good row issued i g f op \<Longrightarrow> good st \<Longrightarrow> snd (op st) \<longleftrightarrow> (\<exists>r. row st i = Some r \<and> g r)"
  by (cases "\<exists>r. row st i = Some r \<and> g r") (simp_all add: changes_row_def)

lemma changes_row_other:
  "changes_row good row issued i g f op \<Longrightarrow> good st \<Longrightarrow> j \<noteq> i \<Longrightarrow> row (fst (op st)) j = row st j"
  by (cases "\<exists>r. row st i = Some r \<and> g r") (simp_all add: changes_row_def)

lemma changes_row_row:
  "changes_row good row issued i g f op \<Longrightarrow> good st \<Longrightarrow>
   row (fst (op st)) i = (case row st i of None \<Rightarrow> None | Some r \<Rightarrow> Some (if g r then f r else r))"
  by (cases "row st i"; cases "\<exists>r. row st i = Some r \<and> g r") (auto simp: changes_row_def)

text \<open>The row of a call that may have failed: as it was, or changed where the condition held.\<close>

lemma call_row:
  assumes "changes_row good row issued i g f op" "good st"
  shows "row (fst (call ft op st)) i = row st i
    \<or> (\<exists>r. row st i = Some r \<and> g r \<and> row (fst (call ft op st)) i = Some (f r))"
  using changes_row_row[OF assms] by (cases ft) (auto split: option.splits)

lemma call_taken:
  assumes "changes_row good row issued i g f op" "good st" "snd (call ft op st) = Some True"
  shows "\<exists>r. row st i = Some r \<and> g r \<and> row (fst (call ft op st)) i = Some (f r)"
  using changes_row_row[OF assms(1,2)] changes_row_taken[OF assms(1,2)] assms(3)
  by (auto simp: call_Some)


section \<open>The table and its statements\<close>

record idem_table =
  idem_rows :: "IdempotencyRecord list"
  next_id :: int

definition empty_idem_table :: idem_table where
  "empty_idem_table = \<lparr>idem_rows = [], next_id = 1\<rparr>"

text \<open>UPDATE ... SET change WHERE id = i AND guard, and the number of rows it affected.\<close>

definition update_row ::
    "int \<Rightarrow> (IdempotencyRecord \<Rightarrow> bool) \<Rightarrow> (IdempotencyRecord \<Rightarrow> IdempotencyRecord) \<Rightarrow> idem_table \<Rightarrow> idem_table \<times> nat" where
  "update_row i guard change st =
     (st\<lparr>idem_rows := map (\<lambda>r. if ir_id r = i \<and> guard r then change r else r) (idem_rows st)\<rparr>,
      length (filter (\<lambda>r. ir_id r = i \<and> guard r) (idem_rows st)))"

definition sql_CreateProcessing :: "IdempotencyRecord \<Rightarrow> idem_table \<Rightarrow> idem_table \<times> int option" where
  "sql_CreateProcessing rec st =
     (let st' = st\<lparr>next_id := next_id st + 1\<rparr>
      in if list_ex (\<lambda>r. row_key r = row_key rec) (idem_rows st) then (st', None)
         else (st'\<lparr>idem_rows := idem_rows st @ [created_row (next_id st) rec]\<rparr>, Some (next_id st)))"

definition sql_GetByScopeActorScopeAndKeyHash ::
    "string \<Rightarrow> string \<Rightarrow> string \<Rightarrow> idem_table \<Rightarrow> idem_table \<times> IdempotencyRecord option" where
  "sql_GetByScopeActorScopeAndKeyHash scope actorScope keyHash st =
     (st, find (\<lambda>r. ir_scope r = scope \<and> ir_actor r = actorScope \<and> ir_key_hash r = keyHash) (idem_rows st))"

definition sql_TryReclaim :: "int \<Rightarrow> string \<Rightarrow> instant \<Rightarrow> instant \<Rightarrow> instant \<Rightarrow> idem_table \<Rightarrow> idem_table \<times> bool" where
  "sql_TryReclaim i fromStatus now newLockedUntil newExpiresAt st =
     (let (st', affected) = update_row i (reclaimable fromStatus now)
        (reclaimed_row newLockedUntil newExpiresAt) st in (st', 0 < affected))"

definition sql_TryReclaimOwned :: "int \<Rightarrow> string \<Rightarrow> string \<Rightarrow> string \<Rightarrow> instant option \<Rightarrow> instant \<Rightarrow> instant \<Rightarrow> instant
    \<Rightarrow> idem_table \<Rightarrow> idem_table \<times> bool" where
  "sql_TryReclaimOwned i fromStatus actorScope requestFingerprint expectedLockedUntil now newLockedUntil newExpiresAt st =
     (let (st', affected) = update_row i
        (reclaimable_owned fromStatus actorScope requestFingerprint expectedLockedUntil now)
        (reclaimed_row newLockedUntil newExpiresAt) st in (st', affected = 1))"

definition sql_ExtendProcessingLock :: "int \<Rightarrow> string \<Rightarrow> instant \<Rightarrow> instant \<Rightarrow> idem_table \<Rightarrow> idem_table \<times> bool" where
  "sql_ExtendProcessingLock i requestFingerprint newLockedUntil newExpiresAt st =
     (let (st', affected) = update_row i (processing_for requestFingerprint)
        (extended_row newLockedUntil newExpiresAt) st in (st', 0 < affected))"

definition sql_MarkSucceeded :: "int \<Rightarrow> int \<Rightarrow> string \<Rightarrow> instant \<Rightarrow> idem_table \<Rightarrow> idem_table \<times> bool" where
  "sql_MarkSucceeded i responseStatus responseBody expiresAt st =
     (let (st', affected) = update_row i is_processing
        (succeeded_row responseStatus responseBody expiresAt) st in (st', affected = 1))"

definition sql_MarkFailedRetryable :: "int \<Rightarrow> string \<Rightarrow> instant \<Rightarrow> instant \<Rightarrow> idem_table \<Rightarrow> idem_table \<times> bool" where
  "sql_MarkFailedRetryable i errorReason lockedUntil expiresAt st =
     (let (st', affected) = update_row i is_processing
        (failed_row errorReason lockedUntil expiresAt) st in (st', affected = 1))"

definition sql_MarkFailedRetryableOwned :: "int \<Rightarrow> string \<Rightarrow> string \<Rightarrow> instant \<Rightarrow> string \<Rightarrow> instant \<Rightarrow> instant
    \<Rightarrow> idem_table \<Rightarrow> idem_table \<times> bool" where
  "sql_MarkFailedRetryableOwned i actorScope requestFingerprint expectedLockedUntil errorReason lockedUntil expiresAt st =
     (let (st', affected) = update_row i (owned_by actorScope requestFingerprint expectedLockedUntil)
        (failed_row errorReason lockedUntil expiresAt) st in (st', affected = 1))"

definition sql_ExecPersist :: "int \<Rightarrow> string \<Rightarrow> string \<Rightarrow> instant \<Rightarrow> string \<Rightarrow> instant \<Rightarrow> idem_table \<Rightarrow> idem_table \<times> bool" where
  "sql_ExecPersist recordID actorScope requestFingerprint lockedUntil body expiresAt st =
     (let (st', affected) = update_row recordID (owned_by actorScope requestFingerprint lockedUntil)
        (succeeded_row 200 body expiresAt) st in (st', affected = 1))"

text \<open>Rows that expire at the same instant are taken in the order of the table.\<close>

definition sql_DeleteExpired :: "instant \<Rightarrow> int \<Rightarrow> idem_table \<Rightarrow> idem_table \<times> nat" where
  "sql_DeleteExpired now limit st =
     (let lim = (if limit \<le> 0 then 500 else limit);
          victims = map ir_id (take (nat lim)
            (sort_key ir_expires_at (filter (\<lambda>r. ir_expires_at r \<le> now) (idem_rows st))))
      in (st\<lparr>idem_rows := filter (\<lambda>r. ir_id r \<notin> set victims) (idem_rows st)\<rparr>,
          length (filter (\<lambda>r. ir_id r \<in> set victims) (idem_rows st))))"

definition sql_owned_repository :: "idem_table idempotencyOwnedCASRepository" where
  "sql_owned_repository = \<lparr>TryReclaimOwned = sql_TryReclaimOwned,
     MarkFailedRetryableOwned = sql_MarkFailedRetryableOwned\<rparr>"

definition sql_repository :: "idem_table IdempotencyRepository" where
  "sql_repository = \<lparr>CreateProcessing = sql_CreateProcessing,
     GetByScopeActorScopeAndKeyHash = sql_GetByScopeActorScopeAndKeyHash,
     TryReclaim = sql_TryReclaim, ExtendProcessingLock = sql_ExtendProcessingLock,
     MarkSucceeded = sql_MarkSucceeded, MarkFailedRetryable = sql_MarkFailedRetryable,
     DeleteExpired = sql_DeleteExpired, ExecPersist = sql_ExecPersist,
     OwnedCAS = Some sql_owned_repository\<rparr>"

lemmas sql_statements = sql_CreateProcessing_def sql_GetByScopeActorScopeAndKeyHash_def sql_TryReclaim_def
  sql_TryReclaimOwned_def sql_ExtendProcessingLock_def sql_MarkSucceeded_def sql_MarkFailedRetryable_def
  sql_MarkFailedRetryableOwned_def sql_ExecPersist_def sql_DeleteExpired_def

section \<open>The statements keep the contract\<close>

text \<open>Ids and keys are unique (the primary key and the unique index), ids come from the sequence.\<close>

definition good_table :: "idem_table \<Rightarrow> bool" where
  "good_table st \<longleftrightarrow> distinct (map ir_id (idem_rows st)) \<and> distinct (map row_key (idem_rows st))
     \<and> 0 < next_id st \<and> (\<forall>r \<in> set (idem_rows st). 0 < ir_id r \<and> ir_id r < next_id st)"

definition table_row :: "idem_table \<Rightarrow> int \<Rightarrow> IdempotencyRecord option" where
  "table_row st i = find (\<lambda>r. ir_id r = i) (idem_rows st)"

definition table_issued :: "idem_table \<Rightarrow> int set" where
  "table_issued st = {0 <..< next_id st}"

lemma find_unique:
  "distinct (map f xs) \<Longrightarrow> find (\<lambda>x. f x = k) xs = Some x \<longleftrightarrow> x \<in> set xs \<and> f x = k"
  by (induction xs) (auto simp: rev_image_eqI)

lemma table_row_Some: "good_table st \<Longrightarrow> table_row st i = Some r \<longleftrightarrow> r \<in> set (idem_rows st) \<and> ir_id r = i"
  unfolding good_table_def table_row_def by (simp add: find_unique)

lemma good_empty_table: "good_table empty_idem_table"
  by (simp add: good_table_def empty_idem_table_def)

text \<open>A change that leaves a row's identity alone.\<close>

definition keeps_identity :: "(IdempotencyRecord \<Rightarrow> IdempotencyRecord) \<Rightarrow> bool" where
  "keeps_identity f \<longleftrightarrow> (\<forall>r. ir_id (f r) = ir_id r \<and> row_key (f r) = row_key r
     \<and> ir_fingerprint (f r) = ir_fingerprint r)"

lemma row_changes_identity [simp]:
  "keeps_identity (reclaimed_row l e)" "keeps_identity (extended_row l e)"
  "keeps_identity (succeeded_row code body e)" "keeps_identity (failed_row why l e)"
  by (simp_all add: keeps_identity_def row_changes row_key_def)

lemma find_map_if:
  assumes "\<And>x. f (c x) = f x"
  shows "find (\<lambda>x. f x = j) (map (\<lambda>x. if f x = i \<and> g x then c x else x) xs)
    = (if j = i then map_option (\<lambda>x. if g x then c x else x) (find (\<lambda>x. f x = i) xs)
       else find (\<lambda>x. f x = j) xs)"
  by (induction xs) (auto simp: assms)

lemma find_absent: "i \<notin> set (map f xs) \<Longrightarrow> find (\<lambda>x. f x = i) xs = None"
  by (induction xs) auto

lemma filter_absent: "i \<notin> set (map f xs) \<Longrightarrow> filter (\<lambda>x. f x = i \<and> g x) xs = []"
  by (induction xs) auto

lemma affected_count:
  "distinct (map f xs) \<Longrightarrow> length (filter (\<lambda>x. f x = i \<and> g x) xs)
    = (case find (\<lambda>x. f x = i) xs of Some x \<Rightarrow> if g x then 1 else 0 | None \<Rightarrow> 0)"
proof (induction xs)
  case (Cons a xs)
  show ?case
  proof (cases "f a = i")
    case True
    then have "i \<notin> set (map f xs)" using Cons.prems by auto
    then show ?thesis using True by (simp add: filter_absent)
  qed (use Cons in simp)
qed simp

lemma update_row_good:
  assumes "keeps_identity f" "good_table st"
  shows "good_table (fst (update_row i g f st))"
proof -
  let ?u = "\<lambda>r. if ir_id r = i \<and> g r then f r else r"
  have u: "ir_id (?u r) = ir_id r" "row_key (?u r) = row_key r" for r
    using assms(1) by (simp_all add: keeps_identity_def)
  have "map ir_id (map ?u rs) = map ir_id rs" "map row_key (map ?u rs) = map row_key rs" for rs
    unfolding map_map o_def u by (rule refl)+
  then show ?thesis
    using assms unfolding good_table_def update_row_def
    by (auto simp: u keeps_identity_def simp del: map_map)
qed

lemma update_row_changes:
  assumes f: "keeps_identity f"
    and op: "\<And>st. op st = (fst (update_row i g f st), P (snd (update_row i g f st)))"
    and P: "P 1" "\<not> P 0"
  shows "changes_row good_table table_row table_issued i g f op"
proof -
  have row: "table_row (fst (update_row i g f st)) j
      = (if j = i then map_option (\<lambda>r. if g r then f r else r) (table_row st i) else table_row st j)" for st j
    using f by (simp add: table_row_def update_row_def find_map_if keeps_identity_def)
  have cnt: "good_table st \<Longrightarrow> snd (update_row i g f st)
      = (case table_row st i of Some x \<Rightarrow> if g x then 1 else 0 | None \<Rightarrow> 0)" for st
    by (simp add: good_table_def table_row_def update_row_def affected_count)
  have issued: "table_issued (fst (update_row i g f st)) = table_issued st" for st
    by (simp add: table_issued_def update_row_def)
  have hit: "table_row st i = Some r \<Longrightarrow> g r \<Longrightarrow>
      table_row (fst (update_row i g f st)) = (table_row st)(i := map_option f (table_row st i))" for st r
    by (rule ext) (simp add: row)
  have miss: "\<nexists>r. table_row st i = Some r \<and> g r \<Longrightarrow> table_row (fst (update_row i g f st)) = table_row st" for st
    by (rule ext) (cases "table_row st i"; simp add: row)
  show ?thesis
    unfolding changes_row_def
  proof (intro allI impI conjI)
    fix st assume good: "good_table st"
    show "good_table (fst (op st))" "table_issued (fst (op st)) = table_issued st"
      using op[of st] f good by (simp_all add: update_row_good issued)
    show "if \<exists>r. table_row st i = Some r \<and> g r
      then snd (op st) \<and> table_row (fst (op st)) = (table_row st)(i := map_option f (table_row st i))
      else \<not> snd (op st) \<and> table_row (fst (op st)) = table_row st"
    proof (cases "\<exists>r. table_row st i = Some r \<and> g r")
      case True
      then obtain r where r: "table_row st i = Some r" "g r" by blast
      then have "snd (update_row i g f st) = 1" by (simp add: cnt good)
      then show ?thesis using op[of st] P r hit[OF r] by simp
    next
      case False
      then have "snd (update_row i g f st) = 0" by (auto simp: cnt good split: option.split)
      then show ?thesis using op[of st] P False miss[OF False] by simp
    qed
  qed
qed


lemma table_create_old:
  assumes "good_table st" "table_row st i = Some q" "row_key q = row_key r"
  shows "good_table (fst (sql_CreateProcessing r st)) \<and> snd (sql_CreateProcessing r st) = None
    \<and> table_row (fst (sql_CreateProcessing r st)) = table_row st
    \<and> table_issued st \<subseteq> table_issued (fst (sql_CreateProcessing r st))"
proof -
  have "list_ex (\<lambda>r'. row_key r' = row_key r) (idem_rows st)"
    using assms by (auto simp: table_row_Some list_ex_iff)
  then show ?thesis
    using assms(1) by (auto simp: sql_CreateProcessing_def good_table_def table_row_def fun_eq_iff table_issued_def)
qed

lemma table_create_new:
  assumes good: "good_table st" and new: "\<forall>i q. table_row st i = Some q \<longrightarrow> row_key q \<noteq> row_key r"
  shows "\<exists>i. snd (sql_CreateProcessing r st) = Some i \<and> i \<notin> table_issued st \<and> 0 < i
    \<and> good_table (fst (sql_CreateProcessing r st))
    \<and> table_row (fst (sql_CreateProcessing r st)) = (table_row st)(i \<mapsto> created_row i r)
    \<and> insert i (table_issued st) \<subseteq> table_issued (fst (sql_CreateProcessing r st))"
proof -
  have absent: "q \<in> set (idem_rows st) \<Longrightarrow> row_key q \<noteq> row_key r" for q
    using new good by (auto simp: table_row_Some)
  then have "\<not> list_ex (\<lambda>q. row_key q = row_key r) (idem_rows st)" by (auto simp: list_ex_iff)
  then have eq: "sql_CreateProcessing r st = (st\<lparr>next_id := next_id st + 1,
      idem_rows := idem_rows st @ [created_row (next_id st) r]\<rparr>, Some (next_id st))"
    by (simp add: sql_CreateProcessing_def)
  have ids: "q \<in> set (idem_rows st) \<Longrightarrow> ir_id q \<noteq> next_id st" for q
    using good by (auto simp: good_table_def)
  have find: "find (\<lambda>q. ir_id q = j) (rs @ [created_row n r])
      = (if j = n then Some (created_row n r) else find (\<lambda>q. ir_id q = j) rs)"
    if "\<And>q. q \<in> set rs \<Longrightarrow> ir_id q \<noteq> n" for rs n j
    using that by (induction rs) (auto simp: row_changes)
  have "good_table (fst (sql_CreateProcessing r st))"
    using good ids absent
    by (auto simp: eq good_table_def row_changes row_key_def less_le_trans simp del: map_map)
      (force dest: absent)+
  moreover have "table_row (fst (sql_CreateProcessing r st)) = (table_row st)(next_id st \<mapsto> created_row (next_id st) r)"
    by (rule ext) (simp add: eq table_row_def find ids)
  ultimately show ?thesis
    using good by (auto simp: eq table_issued_def good_table_def)
qed


lemma table_get:
  assumes "good_table st"
  shows "snd (sql_GetByScopeActorScopeAndKeyHash s a h st) = Some r
    \<longleftrightarrow> (\<exists>i. table_row st i = Some r \<and> row_key r = (s, a, h))"
proof -
  have "distinct (map row_key (idem_rows st))" using assms by (simp add: good_table_def)
  from find_unique[OF this, of "(s, a, h)"]
  have "find (\<lambda>x. ir_scope x = s \<and> ir_actor x = a \<and> ir_key_hash x = h) (idem_rows st) = Some r
      \<longleftrightarrow> r \<in> set (idem_rows st) \<and> row_key r = (s, a, h)"
    by (simp add: row_key_def)
  then show ?thesis
    by (auto simp: sql_GetByScopeActorScopeAndKeyHash_def table_row_Some[OF assms])
qed

subsection \<open>The clean-up\<close>

text \<open>The rows that DeleteExpired picks: the expired ones that expire first.\<close>

definition victims :: "instant \<Rightarrow> int \<Rightarrow> idem_table \<Rightarrow> IdempotencyRecord list" where
  "victims now limit st = take (nat (if limit \<le> 0 then 500 else limit))
     (sort_key ir_expires_at (filter (\<lambda>r. ir_expires_at r \<le> now) (idem_rows st)))"

lemma victims_expired: "r \<in> set (victims now limit st) \<Longrightarrow> r \<in> set (idem_rows st) \<and> ir_expires_at r \<le> now"
  by (auto simp: victims_def dest: in_set_takeD)

lemma delete_expired_rows:
  assumes "distinct (map ir_id (idem_rows st))"
  shows "idem_rows (fst (sql_DeleteExpired now limit st)) = filter (\<lambda>r. r \<notin> set (victims now limit st)) (idem_rows st)"
    and "snd (sql_DeleteExpired now limit st) = length (filter (\<lambda>r. r \<in> set (victims now limit st)) (idem_rows st))"
proof -
  have inj: "inj_on ir_id (set (idem_rows st))" using assms by (simp add: distinct_map)
  have "ir_id r \<in> set (map ir_id (victims now limit st)) \<longleftrightarrow> r \<in> set (victims now limit st)"
    if "r \<in> set (idem_rows st)" for r
    using inj_onD[OF inj] victims_expired[of _ now limit st] that by fastforce
  then show "idem_rows (fst (sql_DeleteExpired now limit st)) = filter (\<lambda>r. r \<notin> set (victims now limit st)) (idem_rows st)"
    and "snd (sql_DeleteExpired now limit st) = length (filter (\<lambda>r. r \<in> set (victims now limit st)) (idem_rows st))"
    by (auto simp: sql_DeleteExpired_def Let_def victims_def[symmetric] intro!: filter_cong arg_cong[where f = length])
qed

lemma filter_good:
  assumes "good_table st"
  shows "good_table (st\<lparr>idem_rows := filter p (idem_rows st)\<rparr>)"
  using assms by (auto simp: good_table_def distinct_map_filter)

lemma table_delete:
  assumes good: "good_table st"
  shows "good_table (fst (sql_DeleteExpired now limit st))
    \<and> table_issued (fst (sql_DeleteExpired now limit st)) = table_issued st
    \<and> (table_row (fst (sql_DeleteExpired now limit st)) i = table_row st i
       \<or> table_row (fst (sql_DeleteExpired now limit st)) i = None
         \<and> (\<exists>r. table_row st i = Some r \<and> ir_expires_at r \<le> now))"
proof -
  let ?st = "fst (sql_DeleteExpired now limit st)"
  have rows: "idem_rows ?st = filter (\<lambda>r. r \<notin> set (victims now limit st)) (idem_rows st)"
    using good by (intro delete_expired_rows) (simp add: good_table_def)
  have seq: "next_id ?st = next_id st" by (simp add: sql_DeleteExpired_def Let_def)
  have good': "good_table ?st"
    using filter_good[OF good] rows seq by (auto simp: good_table_def)
  have sub: "table_row ?st i = Some r \<longleftrightarrow> table_row st i = Some r \<and> r \<notin> set (victims now limit st)" for r
    by (auto simp: table_row_Some[OF good] table_row_Some[OF good'] rows)
  show ?thesis
  proof (cases "table_row st i")
    case None
    then have "table_row ?st i \<noteq> Some r" for r by (simp add: sub)
    then have "table_row ?st i = None" by (metis not_Some_eq)
    then show ?thesis using good' seq None by (simp add: table_issued_def)
  next
    case (Some r)
    show ?thesis
    proof (cases "r \<in> set (victims now limit st)")
      case True
      then have "table_row ?st i \<noteq> Some q" for q using Some by (auto simp: sub)
      then have "table_row ?st i = None" by (metis not_Some_eq)
      then show ?thesis
        using good' seq Some victims_expired[OF True] by (simp add: table_issued_def)
    next
      case False
      then have "table_row ?st i = table_row st i" using Some sub[of r] by simp
      then show ?thesis using good' seq by (simp add: table_issued_def)
    qed
  qed
qed

subsection \<open>The interpretation\<close>

lemma sql_reclaim: "changes_row good_table table_row table_issued i (reclaimable from now) (reclaimed_row l e)
    (sql_TryReclaim i from now l e)"
  by (rule update_row_changes[where P = "\<lambda>n. 0 < n"]) (simp_all add: sql_statements case_prod_unfold Let_def)

lemma sql_extend: "changes_row good_table table_row table_issued i (processing_for fp) (extended_row l e)
    (sql_ExtendProcessingLock i fp l e)"
  by (rule update_row_changes[where P = "\<lambda>n. 0 < n"]) (simp_all add: sql_statements case_prod_unfold Let_def)

lemma sql_succeed: "changes_row good_table table_row table_issued i is_processing (succeeded_row code body e)
    (sql_MarkSucceeded i code body e)"
  by (rule update_row_changes[where P = "\<lambda>n. n = 1"]) (simp_all add: sql_statements case_prod_unfold Let_def)

lemma sql_fail: "changes_row good_table table_row table_issued i is_processing (failed_row why l e)
    (sql_MarkFailedRetryable i why l e)"
  by (rule update_row_changes[where P = "\<lambda>n. n = 1"]) (simp_all add: sql_statements case_prod_unfold Let_def)

lemma sql_persist: "changes_row good_table table_row table_issued i (owned_by a fp l) (succeeded_row 200 body e)
    (sql_ExecPersist i a fp l body e)"
  by (rule update_row_changes[where P = "\<lambda>n. n = 1"]) (simp_all add: sql_statements case_prod_unfold Let_def)

lemma sql_reclaim_owned: "changes_row good_table table_row table_issued i
    (reclaimable_owned from a fp old now) (reclaimed_row l e) (sql_TryReclaimOwned i from a fp old now l e)"
  by (rule update_row_changes[where P = "\<lambda>n. n = 1"]) (simp_all add: sql_statements case_prod_unfold Let_def)

lemma sql_fail_owned: "changes_row good_table table_row table_issued i (owned_by a fp held) (failed_row why l e)
    (sql_MarkFailedRetryableOwned i a fp held why l e)"
  by (rule update_row_changes[where P = "\<lambda>n. n = 1"]) (simp_all add: sql_statements case_prod_unfold Let_def)

interpretation sql: owned_idempotency_repository sql_repository table_row table_issued good_table sql_owned_repository
proof unfold_locales
  show "good_table st \<Longrightarrow> table_row st i = Some r \<Longrightarrow> ir_id r = i \<and> i \<in> table_issued st \<and> 0 < i" for st i r
    by (auto simp: table_row_Some good_table_def table_issued_def)
  show "good_table st \<Longrightarrow> table_row st i = Some r \<Longrightarrow> table_row st j = Some q \<Longrightarrow> row_key r = row_key q \<Longrightarrow> i = j" for st i r j q
    by (auto simp: table_row_Some) (auto simp: good_table_def distinct_map dest: inj_onD)
  show "snd (GetByScopeActorScopeAndKeyHash sql_repository s a h st) = Some r \<longleftrightarrow>
      (\<exists>i. table_row st i = Some r \<and> row_key r = (s, a, h))" if "good_table st" for st s a h r
    using table_get[OF that] by (simp add: sql_repository_def)
  show "\<exists>i. snd (CreateProcessing sql_repository r st) = Some i \<and> i \<notin> table_issued st \<and> 0 < i
      \<and> good_table (fst (CreateProcessing sql_repository r st))
      \<and> table_row (fst (CreateProcessing sql_repository r st)) = (table_row st)(i \<mapsto> created_row i r)
      \<and> insert i (table_issued st) \<subseteq> table_issued (fst (CreateProcessing sql_repository r st))"
    if "good_table st" "\<forall>i q. table_row st i = Some q \<longrightarrow> row_key q \<noteq> row_key r" for st r
    using table_create_new[OF that] by (simp add: sql_repository_def)
  show "fst (GetByScopeActorScopeAndKeyHash sql_repository s a h st) = st" for s a h st
    by (simp add: sql_repository_def sql_GetByScopeActorScopeAndKeyHash_def)
qed (simp_all add: sql_repository_def sql_owned_repository_def table_create_old
  table_delete sql_reclaim sql_extend sql_succeed sql_fail sql_persist sql_reclaim_owned sql_fail_owned)


section \<open>The clean-up service\<close>

definition cleanup_batch :: "int option \<Rightarrow> int" where
  "cleanup_batch configured = (case configured of Some b \<Rightarrow> if 0 < b then b else 500 | None \<Rightarrow> 500)"

definition cleanup_interval :: "int option \<Rightarrow> duration" where
  "cleanup_interval configured =
     (case configured of Some n \<Rightarrow> if 0 < n then wrap64 (n * second) else 60 * second | None \<Rightarrow> 60 * second)"

definition cleanupOnce :: "'st IdempotencyRepository \<Rightarrow> int \<Rightarrow> fault \<Rightarrow> instant \<Rightarrow> 'st \<Rightarrow> 'st" where
  "cleanupOnce repo batch ft now st = fst (call ft (DeleteExpired repo now batch) st)"

lemma sorted_take_le:
  assumes "sorted (map f xs)" "x \<in> set (take n xs)" "y \<in> set (drop n xs)"
  shows "f x \<le> f y"
proof -
  have "sorted (map f (take n xs) @ map f (drop n xs))"
    using assms(1) by (simp flip: map_append)
  then show ?thesis using assms(2,3) by (auto simp: sorted_append)
qed

lemma length_filter_mem:
  assumes "distinct xs" "distinct ys" "set ys \<subseteq> set xs"
  shows "length (filter (\<lambda>x. x \<in> set ys) xs) = length ys"
proof -
  have "distinct (filter (\<lambda>x. x \<in> set ys) xs)" using assms(1) by simp
  moreover have "set (filter (\<lambda>x. x \<in> set ys) xs) = set ys" using assms(3) by auto
  ultimately show ?thesis using assms(2) by (metis distinct_card)
qed

text \<open>
  The clean-up removes only rows that have expired, the ones that expired first, and
  exactly as many as the batch and the number of expired rows allow; every other row stays.
\<close>
theorem cleanup_oldest_first:
  assumes good: "good_table st" and run: "sql_DeleteExpired now limit st = (st', n)"
  shows "n = min (nat (if limit \<le> 0 then 500 else limit)) (length (filter (\<lambda>r. ir_expires_at r \<le> now) (idem_rows st)))
    \<and> length (idem_rows st') + n = length (idem_rows st)
    \<and> set (idem_rows st') \<subseteq> set (idem_rows st)
    \<and> (\<forall>r \<in> set (idem_rows st) - set (idem_rows st'). ir_expires_at r \<le> now
        \<and> (\<forall>q \<in> set (idem_rows st'). ir_expires_at q \<le> now \<longrightarrow> ir_expires_at r \<le> ir_expires_at q))"
proof -
  let ?v = "victims now limit st" and ?lim = "nat (if limit \<le> 0 then 500 else limit)"
  let ?old = "sort_key ir_expires_at (filter (\<lambda>r. ir_expires_at r \<le> now) (idem_rows st))"
  have ids: "distinct (map ir_id (idem_rows st))" using good by (simp add: good_table_def)
  then have dist: "distinct (idem_rows st)" by (simp add: distinct_map)
  have rows: "idem_rows st' = filter (\<lambda>r. r \<notin> set ?v) (idem_rows st)"
    and n: "n = length (filter (\<lambda>r. r \<in> set ?v) (idem_rows st))"
    using delete_expired_rows[OF ids, of now limit] run by simp_all
  have v: "?v = take ?lim ?old" by (simp add: victims_def)
  have "n = length ?v"
    unfolding n by (rule length_filter_mem) (auto simp: dist v victims_expired dest: in_set_takeD)
  then have n': "n = min ?lim (length (filter (\<lambda>r. ir_expires_at r \<le> now) (idem_rows st)))"
    by (simp add: v min.commute)
  have len: "length (idem_rows st') + n = length (idem_rows st)"
    unfolding rows n using sum_length_filter_compl[of "\<lambda>r. r \<in> set ?v" "idem_rows st"] by simp
  have first: "ir_expires_at r \<le> ir_expires_at q"
    if "r \<in> set ?v" "q \<in> set (idem_rows st')" "ir_expires_at q \<le> now" for r q
  proof (rule sorted_take_le[where f = ir_expires_at and xs = ?old and n = ?lim])
    show "sorted (map ir_expires_at ?old)" by simp
    show "r \<in> set (take ?lim ?old)" using that by (simp add: v)
    have "q \<in> set ?old" "q \<notin> set (take ?lim ?old)" using that by (auto simp: rows v)
    then show "q \<in> set (drop ?lim ?old)"
      using append_take_drop_id[of ?lim ?old] by (metis Un_iff set_append)
  qed
  show ?thesis
    using n' len first by (auto simp: rows dest: victims_expired)
qed

lemma cleanup_oldest_first_witness:
  "snd (sql_DeleteExpired 10 1 \<lparr>idem_rows =
     [\<lparr>ir_id = 1, ir_scope = [], ir_actor = [], ir_key_hash = ''a'', ir_fingerprint = [], ir_status = [],
       ir_response_status = None, ir_response_body = None, ir_error_reason = None, ir_locked_until = None, ir_expires_at = 9\<rparr>,
      \<lparr>ir_id = 2, ir_scope = [], ir_actor = [], ir_key_hash = ''b'', ir_fingerprint = [], ir_status = [],
       ir_response_status = None, ir_response_body = None, ir_error_reason = None, ir_locked_until = None, ir_expires_at = 8\<rparr>],
     next_id = 3\<rparr>) = 1"
proof -
  let ?st = "\<lparr>idem_rows =
     [\<lparr>ir_id = 1, ir_scope = [], ir_actor = [], ir_key_hash = ''a'', ir_fingerprint = [], ir_status = [],
       ir_response_status = None, ir_response_body = None, ir_error_reason = None, ir_locked_until = None, ir_expires_at = 9\<rparr>,
      \<lparr>ir_id = 2, ir_scope = [], ir_actor = [], ir_key_hash = ''b'', ir_fingerprint = [], ir_status = [],
       ir_response_status = None, ir_response_body = None, ir_error_reason = None, ir_locked_until = None, ir_expires_at = 8\<rparr>],
     next_id = 3\<rparr> :: idem_table"
  have "good_table ?st" by (simp add: good_table_def row_key_def)
  from cleanup_oldest_first[OF this, of 10 1 "fst (sql_DeleteExpired 10 1 ?st)" "snd (sql_DeleteExpired 10 1 ?st)"]
  show ?thesis by simp
qed

end
