(* ===== verification/Idempotency.thy ===== *)
theory Idempotency
  imports Idempotency_Store
begin

text \<open>
  The idempotency coordinator (service/idempotency.go): key normalisation, the request
  fingerprint, stored responses, retry hints, and the protocol by which a request claims a
  record, runs the business operation and stores its outcome.

  \<^item> The protocol is a machine with one repository call per step, so that requests of several
    processes can be interleaved; \<open>executor_run\<close> plays one request alone.
  \<^item> encoding/json, crypto/sha256 and the redaction of logged text are the fields of a
    \<open>codec\<close>; the values of Go's type any are the type \<open>'d\<close>.
  \<^item> The text and the cause of an error, the log lines and the counters are left out.
\<close>

section \<open>Errors\<close>

record ApplicationError =
  ae_code :: int
  ae_reason :: string
  ae_metadata :: "(string, string) amap option"

datatype go_error = App ApplicationError | Other

definition Conflict :: "string \<Rightarrow> ApplicationError" where
  "Conflict reason = \<lparr>ae_code = 409, ae_reason = reason, ae_metadata = None\<rparr>"

definition BadRequest :: "string \<Rightarrow> ApplicationError" where
  "BadRequest reason = \<lparr>ae_code = 400, ae_reason = reason, ae_metadata = None\<rparr>"

definition WithMetadata :: "ApplicationError \<Rightarrow> (string, string) amap \<Rightarrow> ApplicationError" where
  "WithMetadata e md = e\<lparr>ae_metadata := Some md\<rparr>"

definition ErrIdempotencyKeyRequired :: ApplicationError where
  "ErrIdempotencyKeyRequired = BadRequest ''IDEMPOTENCY_KEY_REQUIRED''"
definition ErrIdempotencyKeyInvalid :: ApplicationError where
  "ErrIdempotencyKeyInvalid = BadRequest ''IDEMPOTENCY_KEY_INVALID''"
definition ErrIdempotencyKeyConflict :: ApplicationError where
  "ErrIdempotencyKeyConflict = Conflict ''IDEMPOTENCY_KEY_CONFLICT''"
definition ErrIdempotencyInProgress :: ApplicationError where
  "ErrIdempotencyInProgress = Conflict ''IDEMPOTENCY_IN_PROGRESS''"
definition ErrIdempotencyRetryBackoff :: ApplicationError where
  "ErrIdempotencyRetryBackoff = Conflict ''IDEMPOTENCY_RETRY_BACKOFF''"
definition ErrIdempotencyStoreUnavail :: ApplicationError where
  "ErrIdempotencyStoreUnavail = WithMetadata
     \<lparr>ae_code = 503, ae_reason = ''IDEMPOTENCY_STORE_UNAVAILABLE'', ae_metadata = None\<rparr>
     [(''retry_after'', ''1'')]"
definition ErrIdempotencyInvalidPayload :: ApplicationError where
  "ErrIdempotencyInvalidPayload = BadRequest ''IDEMPOTENCY_PAYLOAD_INVALID''"

lemmas idempotency_errors = ErrIdempotencyKeyRequired_def ErrIdempotencyKeyInvalid_def
  ErrIdempotencyKeyConflict_def ErrIdempotencyInProgress_def ErrIdempotencyRetryBackoff_def
  ErrIdempotencyStoreUnavail_def ErrIdempotencyInvalidPayload_def BadRequest_def Conflict_def WithMetadata_def

fun Reason :: "go_error \<Rightarrow> string" where
  "Reason (App e) = ae_reason e"
| "Reason Other = []"

text \<open>The whole seconds of a duration: Seconds() cut to an int (exact below 2 to the 23 seconds).\<close>

definition whole_seconds :: "duration \<Rightarrow> int" where
  "whole_seconds d = (if 0 \<le> d then d div second else - ((- d) div second))"

definition conflictWithRetryAfter :: "ApplicationError \<Rightarrow> instant option \<Rightarrow> instant \<Rightarrow> go_error" where
  "conflictWithRetryAfter base lockedUntil now =
     (case lockedUntil of
        None \<Rightarrow> App base
      | Some l \<Rightarrow>
          let sec = whole_seconds (time_sub l now);
              sec = (if sec \<le> 0 then 1 else sec)
          in App (WithMetadata base [(''retry_after'', decimal sec)]))"

definition RetryAfterSecondsFromError :: "go_error \<Rightarrow> int" where
  "RetryAfterSecondsFromError err =
     (case err of
        Other \<Rightarrow> 0
      | App e \<Rightarrow>
          (case ae_metadata e of
             None \<Rightarrow> 0
           | Some md \<Rightarrow>
               let v = trim_space (case aget md ''retry_after'' of Some x \<Rightarrow> x | None \<Rightarrow> [])
               in if v = [] then 0
                  else (case parse_int64 v of
                          None \<Rightarrow> 0
                        | Some seconds \<Rightarrow> if seconds \<le> 0 then 0 else seconds)))"

section \<open>Keys, fingerprints and stored responses\<close>

record 'd codec =
  json_marshal :: "'d \<Rightarrow> string option"
  json_unmarshal :: "string \<Rightarrow> 'd option"
  json_decode_number :: "string \<Rightarrow> 'd option"
  redact_text :: "string \<Rightarrow> string"
  sha256_hex :: "string \<Rightarrow> string"
  empty_object :: 'd

record IdempotencyConfig =
  DefaultTTL :: duration
  SystemOperationTTL :: duration
  ProcessingTimeout :: duration
  FailedRetryBackoff :: duration
  MaxStoredResponseLen :: int
  ObserveOnly :: bool

definition DefaultIdempotencyConfig :: IdempotencyConfig where
  "DefaultIdempotencyConfig = \<lparr>DefaultTTL = 24 * hour, SystemOperationTTL = 1 * hour,
     ProcessingTimeout = 30 * second, FailedRetryBackoff = 5 * second,
     MaxStoredResponseLen = 64 * 1024, ObserveOnly = True\<rparr>"

definition DefaultWriteIdempotencyTTL :: "IdempotencyConfig option \<Rightarrow> duration" where
  "DefaultWriteIdempotencyTTL coordinator =
     (case coordinator of
        Some cfg \<Rightarrow> if 0 < DefaultTTL cfg then DefaultTTL cfg else DefaultTTL DefaultIdempotencyConfig
      | None \<Rightarrow> DefaultTTL DefaultIdempotencyConfig)"

definition DefaultSystemOperationIdempotencyTTL :: "IdempotencyConfig option \<Rightarrow> duration" where
  "DefaultSystemOperationIdempotencyTTL coordinator =
     (case coordinator of
        Some cfg \<Rightarrow> if 0 < SystemOperationTTL cfg then SystemOperationTTL cfg
                    else SystemOperationTTL DefaultIdempotencyConfig
      | None \<Rightarrow> SystemOperationTTL DefaultIdempotencyConfig)"

text \<open>
  A key is empty (no key) or at most 128 printable ASCII characters. A multi-byte rune is
  above 126, and so is each of its bytes, so the check of the runes is one of the bytes.
\<close>

definition NormalizeIdempotencyKey :: "string \<Rightarrow> ApplicationError + string" where
  "NormalizeIdempotencyKey raw =
     (let key = trim_space raw
      in if key = [] then Inr []
         else if 128 < length key then Inl ErrIdempotencyKeyInvalid
         else if list_ex (\<lambda>c. \<not> byte_in 33 126 c) key then Inl ErrIdempotencyKeyInvalid
         else Inr key)"

definition BuildIdempotencyFingerprint ::
    "'d codec \<Rightarrow> string \<Rightarrow> string \<Rightarrow> string \<Rightarrow> 'd \<Rightarrow> ApplicationError + string" where
  "BuildIdempotencyFingerprint cd method route actorScope payload =
     (let method = (if method = [] then ''POST'' else method);
          route = (if route = [] then ''/'' else route);
          actorScope = (if actorScope = [] then ''anonymous'' else actorScope)
      in case json_marshal cd payload of
           None \<Rightarrow> Inl ErrIdempotencyInvalidPayload
         | Some raw \<Rightarrow> Inr (sha256_hex cd
             (to_upper method @ [byte 10] @ route @ [byte 10] @ actorScope @ [byte 10] @ raw)))"

text \<open>The loop of truncateUTF8: the longest prefix of at most \<open>n\<close> bytes that is valid UTF-8.\<close>

fun truncate_loop :: "string \<Rightarrow> nat \<Rightarrow> nat" where
  "truncate_loop s 0 = 0"
| "truncate_loop s (Suc n) = (if valid_utf8 (take (Suc n) s) then Suc n else truncate_loop s n)"

definition truncateUTF8 :: "string \<Rightarrow> int \<Rightarrow> string" where
  "truncateUTF8 s maxBytes =
     (if maxBytes \<le> 0 \<or> int (length s) \<le> maxBytes then s
      else take (truncate_loop s (nat maxBytes)) s)"

definition marshalStoredResponse :: "'d codec \<Rightarrow> IdempotencyConfig \<Rightarrow> 'd \<Rightarrow> string option" where
  "marshalStoredResponse cd cfg data =
     (case json_marshal cd data of
        None \<Rightarrow> None
      | Some raw \<Rightarrow>
          let redacted = redact_text cd raw
          in if 0 < MaxStoredResponseLen cfg \<and> MaxStoredResponseLen cfg < int (length redacted)
             then Some (truncateUTF8 redacted (MaxStoredResponseLen cfg) @ ''...(truncated)'')
             else Some redacted)"

definition marshalAtomicStoredResponse :: "'d codec \<Rightarrow> IdempotencyConfig \<Rightarrow> 'd \<Rightarrow> string option" where
  "marshalAtomicStoredResponse cd cfg data =
     (case json_marshal cd data of
        None \<Rightarrow> None
      | Some raw \<Rightarrow>
          if 0 < MaxStoredResponseLen cfg \<and> MaxStoredResponseLen cfg < int (length raw) then None
          else Some raw)"

definition decode_with :: "(string \<Rightarrow> 'd option) \<Rightarrow> 'd \<Rightarrow> string option \<Rightarrow> 'd option" where
  "decode_with decode blank stored =
     (case stored of
        None \<Rightarrow> Some blank
      | Some s \<Rightarrow> if trim_space s = [] then Some blank else decode s)"

definition decodeStoredResponse :: "'d codec \<Rightarrow> string option \<Rightarrow> 'd option" where
  "decodeStoredResponse cd = decode_with (json_unmarshal cd) (empty_object cd)"

definition decodeAtomicStoredResponse :: "'d codec \<Rightarrow> string option \<Rightarrow> 'd option" where
  "decodeAtomicStoredResponse cd = decode_with (json_decode_number cd) (empty_object cd)"


section \<open>Requests\<close>

record 'd IdempotencyExecuteOptions =
  op_scope :: string
  op_actor :: string
  op_method :: string
  op_route :: string
  op_key :: string
  op_payload :: 'd
  op_ttl :: duration
  op_require_key :: bool
  op_committed_data_on_failure :: bool

record 'd IdempotencyExecuteResult =
  res_data :: 'd
  res_replayed :: bool
  res_pending :: bool

text \<open>Which executor the caller passes: Execute passes a plain one, ExecuteAtomic an atomic one.\<close>

datatype executor = NoExecutor | PlainExecutor | AtomicExecutor

text \<open>The locals of execute that the protocol uses: the record to create and the caller's times.\<close>

record claim_request =
  cl_atomic :: bool
  cl_scope :: string
  cl_actor :: string
  cl_key_hash :: string
  cl_fingerprint :: string
  cl_now :: instant
  cl_locked_until :: instant
  cl_expires_at :: instant
  cl_committed_data :: bool

text \<open>What execute does before its first repository call.\<close>

datatype preparation = Rejected ApplicationError | WithoutKey | Claiming claim_request

definition actor_scope :: "string \<Rightarrow> string" where
  "actor_scope raw = (if trim_space raw = [] then ''anonymous'' else trim_space raw)"

definition prepare :: "'d codec \<Rightarrow> IdempotencyConfig \<Rightarrow> bool \<Rightarrow> executor \<Rightarrow> 'd IdempotencyExecuteOptions
    \<Rightarrow> instant \<Rightarrow> preparation" where
  "prepare cd cfg repo_present exe opts now =
     (if exe = NoExecutor
      then Rejected \<lparr>ae_code = 500, ae_reason = ''IDEMPOTENCY_EXECUTOR_NIL'', ae_metadata = None\<rparr>
      else case NormalizeIdempotencyKey (op_key opts) of
        Inl err \<Rightarrow> Rejected err
      | Inr key \<Rightarrow>
          if key = [] then
            (if exe = AtomicExecutor \<or> (op_require_key opts \<and> \<not> ObserveOnly cfg)
             then Rejected ErrIdempotencyKeyRequired else WithoutKey)
          else if \<not> repo_present then Rejected ErrIdempotencyStoreUnavail
          else if op_scope opts = [] then Rejected (BadRequest ''IDEMPOTENCY_SCOPE_REQUIRED'')
          else case BuildIdempotencyFingerprint cd (op_method opts) (op_route opts)
                      (actor_scope (op_actor opts)) (op_payload opts) of
            Inl err \<Rightarrow> Rejected err
          | Inr fingerprint \<Rightarrow>
              let ttl = (if op_ttl opts \<le> 0 then DefaultTTL cfg else op_ttl opts)
              in Claiming \<lparr>cl_atomic = (exe = AtomicExecutor), cl_scope = op_scope opts,
                   cl_actor = actor_scope (op_actor opts), cl_key_hash = sha256_hex cd key,
                   cl_fingerprint = fingerprint, cl_now = now,
                   cl_locked_until = now + ProcessingTimeout cfg, cl_expires_at = now + ttl,
                   cl_committed_data = op_committed_data_on_failure opts\<rparr>)"

definition claim_key :: "claim_request \<Rightarrow> idem_key" where
  "claim_key rq = (cl_scope rq, cl_actor rq, cl_key_hash rq)"

definition claim_record :: "claim_request \<Rightarrow> IdempotencyRecord" where
  "claim_record rq = \<lparr>ir_id = 0, ir_scope = cl_scope rq, ir_actor = cl_actor rq,
     ir_key_hash = cl_key_hash rq, ir_fingerprint = cl_fingerprint rq,
     ir_status = IdempotencyStatusProcessing, ir_response_status = None, ir_response_body = None,
     ir_error_reason = None, ir_locked_until = Some (cl_locked_until rq), ir_expires_at = cl_expires_at rq\<rparr>"

section \<open>The claim of an atomic request\<close>

record IdempotencyAtomicClaim =
  ac_record :: int
  ac_actor :: string
  ac_fingerprint :: string
  ac_locked_until :: instant
  ac_expires_at :: instant
  ac_persisted :: bool

definition atomic_claim :: "claim_request \<Rightarrow> int \<Rightarrow> IdempotencyAtomicClaim" where
  "atomic_claim rq i = \<lparr>ac_record = i, ac_actor = cl_actor rq, ac_fingerprint = cl_fingerprint rq,
     ac_locked_until = cl_locked_until rq, ac_expires_at = cl_expires_at rq, ac_persisted = False\<rparr>"

definition PersistSuccess :: "'d codec \<Rightarrow> IdempotencyConfig \<Rightarrow> 'st IdempotencyRepository \<Rightarrow> fault \<Rightarrow> 'd
    \<Rightarrow> 'st \<times> IdempotencyAtomicClaim \<Rightarrow> ('st \<times> IdempotencyAtomicClaim) \<times> ApplicationError option" where
  "PersistSuccess cd cfg repo ft data s =
     (let (st, c) = s
      in if ac_record c \<le> 0 \<or> ac_persisted c then ((st, c), Some ErrIdempotencyStoreUnavail)
         else case marshalAtomicStoredResponse cd cfg data of
           None \<Rightarrow> ((st, c), Some ErrIdempotencyStoreUnavail)
         | Some body \<Rightarrow>
             (case call ft (ExecPersist repo (ac_record c) (ac_actor c) (ac_fingerprint c)
                     (ac_locked_until c) body (ac_expires_at c)) st of
                (st', None) \<Rightarrow> ((st', c), Some ErrIdempotencyStoreUnavail)
              | (st', Some False) \<Rightarrow> ((st', c), Some ErrIdempotencyStoreUnavail)
              | (st', Some True) \<Rightarrow> ((st', c\<lparr>ac_persisted := True\<rparr>), None)))"

text \<open>
  What the caller's function does. An atomic one runs a transaction: it calls PersistSuccess
  any number of times, commits or rolls back, and returns a value or an error. The row lock of
  the transaction makes the whole of it one step for the record.
\<close>

record 'd business =
  bz_persists :: "('d \<times> fault) list"
  bz_commits :: bool
  bz_result :: "go_error + 'd"

fun persist_all :: "'d codec \<Rightarrow> IdempotencyConfig \<Rightarrow> 'st IdempotencyRepository \<Rightarrow> ('d \<times> fault) list
    \<Rightarrow> 'st \<times> IdempotencyAtomicClaim \<Rightarrow> 'st \<times> IdempotencyAtomicClaim" where
  "persist_all cd cfg repo [] s = s"
| "persist_all cd cfg repo ((data, ft) # rest) s =
     persist_all cd cfg repo rest (fst (PersistSuccess cd cfg repo ft data s))"

section \<open>The protocol\<close>

text \<open>Where a request is: before a repository call, before the business function, or done.\<close>

datatype 'd place =
    AtCreate
  | AtLookup
  | AtReclaimProcessing IdempotencyRecord
  | AtReclaimExpired IdempotencyRecord
  | AtRelookup
  | AtReclaimFailed IdempotencyRecord
  | AtRun int
  | AtMarkFailed int go_error
  | AtMarkSucceeded int 'd string
  | Returned "go_error + 'd IdempotencyExecuteResult"

abbreviation store_unavailable :: "'d place" where
  "store_unavailable \<equiv> Returned (Inl (App ErrIdempotencyStoreUnavail))"

text \<open>What the environment decides at a step: the fault of the call, time.Now(), the business.\<close>

record 'd happening =
  hp_fault :: fault
  hp_clock :: instant
  hp_business :: "'d business"

definition claimed :: "int \<Rightarrow> 'd place" where
  "claimed i = (if i = 0 then store_unavailable else AtRun i)"

definition locked_after :: "IdempotencyRecord \<Rightarrow> instant \<Rightarrow> bool" where
  "locked_after r now = (case ir_locked_until r of Some l \<Rightarrow> now < l | None \<Rightarrow> False)"

definition replay :: "'d codec \<Rightarrow> claim_request \<Rightarrow> IdempotencyRecord \<Rightarrow> 'd place" where
  "replay cd rq existing =
     (case (if cl_atomic rq then decodeAtomicStoredResponse cd else decodeStoredResponse cd)
             (ir_response_body existing) of
        None \<Rightarrow> store_unavailable
      | Some data \<Rightarrow> Returned (Inr \<lparr>res_data = data, res_replayed = True, res_pending = False\<rparr>))"

text \<open>The switch on the status of a record that the request has not claimed.\<close>

definition not_reclaimed :: "'d codec \<Rightarrow> claim_request \<Rightarrow> IdempotencyRecord \<Rightarrow> 'd place" where
  "not_reclaimed cd rq existing =
     (if ir_status existing = IdempotencyStatusSucceeded then replay cd rq existing
      else if ir_status existing = IdempotencyStatusFailedRetryable then
        (if locked_after existing (cl_now rq)
         then Returned (Inl (conflictWithRetryAfter
                (if cl_atomic rq then ErrIdempotencyInProgress else ErrIdempotencyRetryBackoff)
                (ir_locked_until existing) (cl_now rq)))
         else AtReclaimFailed existing)
      else Returned (Inl (App ErrIdempotencyKeyConflict)))"

definition in_progress :: "claim_request \<Rightarrow> IdempotencyRecord \<Rightarrow> 'd place" where
  "in_progress rq existing = Returned (Inl (conflictWithRetryAfter ErrIdempotencyInProgress
     (ir_locked_until existing) (cl_now rq)))"

definition found :: "'d codec \<Rightarrow> claim_request \<Rightarrow> IdempotencyRecord \<Rightarrow> 'd place" where
  "found cd rq existing =
     (if ir_fingerprint existing \<noteq> cl_fingerprint rq then Returned (Inl (App ErrIdempotencyKeyConflict))
      else if ir_status existing = IdempotencyStatusProcessing then
        (if \<not> cl_atomic rq \<or> locked_after existing (cl_now rq) then in_progress rq existing
         else AtReclaimProcessing existing)
      else if ir_expires_at existing \<le> cl_now rq then AtReclaimExpired existing
      else not_reclaimed cd rq existing)"

text \<open>tryReclaim: by the owned statement where the repository has it.\<close>

definition tryReclaim :: "'st IdempotencyRepository \<Rightarrow> claim_request \<Rightarrow> IdempotencyRecord \<Rightarrow> bool
    \<Rightarrow> fault \<Rightarrow> 'st \<Rightarrow> 'st \<times> bool option" where
  "tryReclaim repo rq existing requireOwnedCAS ft st =
     (case OwnedCAS repo of
        Some owned \<Rightarrow> call ft (TryReclaimOwned owned (ir_id existing) (ir_status existing)
          (ir_actor existing) (ir_fingerprint existing) (ir_locked_until existing)
          (cl_now rq) (cl_locked_until rq) (cl_expires_at rq)) st
      | None \<Rightarrow>
          if requireOwnedCAS then (st, Some False)
          else call ft (TryReclaim repo (ir_id existing) (ir_status existing)
            (cl_now rq) (cl_locked_until rq) (cl_expires_at rq)) st)"

text \<open>The end of a plain request whose response could not be stored.\<close>

definition not_stored :: "claim_request \<Rightarrow> 'd \<Rightarrow> 'd place" where
  "not_stored rq data =
     (if cl_committed_data rq
      then Returned (Inr \<lparr>res_data = data, res_replayed = False, res_pending = True\<rparr>)
      else store_unavailable)"

definition run_business :: "'d codec \<Rightarrow> IdempotencyConfig \<Rightarrow> 'st IdempotencyRepository \<Rightarrow> claim_request \<Rightarrow> int
    \<Rightarrow> 'd business \<Rightarrow> 'st \<Rightarrow> 'st \<times> 'd place" where
  "run_business cd cfg repo rq i bz st =
     (if cl_atomic rq then
        let (st', claim) = persist_all cd cfg repo (bz_persists bz) (st, atomic_claim rq i);
            st' = (if bz_commits bz then st' else st)
        in (case bz_result bz of
              Inl err \<Rightarrow> (st', AtMarkFailed i err)
            | Inr data \<Rightarrow>
                (st', if ac_persisted claim
                      then Returned (Inr \<lparr>res_data = data, res_replayed = False, res_pending = False\<rparr>)
                      else store_unavailable))
      else
        (case bz_result bz of
           Inl err \<Rightarrow> (st, AtMarkFailed i err)
         | Inr data \<Rightarrow>
             (st, case marshalStoredResponse cd cfg data of
                    None \<Rightarrow> not_stored rq data
                  | Some body \<Rightarrow> AtMarkSucceeded i data body)))"

definition failure_reason :: "go_error \<Rightarrow> string" where
  "failure_reason err = (if Reason err = [] then ''EXECUTION_FAILED'' else Reason err)"

fun mark_failed :: "IdempotencyConfig \<Rightarrow> 'st IdempotencyRepository \<Rightarrow> claim_request \<Rightarrow> int \<Rightarrow> go_error
    \<Rightarrow> 'd happening \<Rightarrow> 'st \<Rightarrow> 'st" where
  "mark_failed cfg repo rq i err hp st =
     (let backoffUntil = hp_clock hp + FailedRetryBackoff cfg
      in if cl_atomic rq then
           (case OwnedCAS repo of
              None \<Rightarrow> st
            | Some owned \<Rightarrow> fst (call (hp_fault hp) (MarkFailedRetryableOwned owned i (cl_actor rq)
                (cl_fingerprint rq) (cl_locked_until rq) (failure_reason err) backoffUntil (cl_expires_at rq)) st))
         else fst (call (hp_fault hp) (MarkFailedRetryable repo i (failure_reason err)
                backoffUntil (cl_expires_at rq)) st))"

fun coord_step :: "'d codec \<Rightarrow> IdempotencyConfig \<Rightarrow> 'st IdempotencyRepository \<Rightarrow> claim_request \<Rightarrow> 'd happening
    \<Rightarrow> 'st \<times> 'd place \<Rightarrow> 'st \<times> 'd place" where
  "coord_step cd cfg repo rq hp (st, AtCreate) =
     (case call (hp_fault hp) (CreateProcessing repo (claim_record rq)) st of
        (st', None) \<Rightarrow> (st', store_unavailable)
      | (st', Some (Some i)) \<Rightarrow> (st', claimed i)
      | (st', Some None) \<Rightarrow> (st', AtLookup))"
| "coord_step cd cfg repo rq hp (st, AtLookup) =
     (case call (hp_fault hp) (GetByScopeActorScopeAndKeyHash repo (cl_scope rq) (cl_actor rq) (cl_key_hash rq)) st of
        (st', None) \<Rightarrow> (st', store_unavailable)
      | (st', Some None) \<Rightarrow> (st', store_unavailable)
      | (st', Some (Some existing)) \<Rightarrow> (st', found cd rq existing))"
| "coord_step cd cfg repo rq hp (st, AtReclaimProcessing existing) =
     (case tryReclaim repo rq existing True (hp_fault hp) st of
        (st', None) \<Rightarrow> (st', store_unavailable)
      | (st', Some False) \<Rightarrow> (st', in_progress rq existing)
      | (st', Some True) \<Rightarrow> (st', claimed (ir_id existing)))"
| "coord_step cd cfg repo rq hp (st, AtReclaimExpired existing) =
     (case tryReclaim repo rq existing False (hp_fault hp) st of
        (st', None) \<Rightarrow> (st', store_unavailable)
      | (st', Some False) \<Rightarrow> (st', AtRelookup)
      | (st', Some True) \<Rightarrow> (st', claimed (ir_id existing)))"
| "coord_step cd cfg repo rq hp (st, AtRelookup) =
     (case call (hp_fault hp) (GetByScopeActorScopeAndKeyHash repo (cl_scope rq) (cl_actor rq) (cl_key_hash rq)) st of
        (st', None) \<Rightarrow> (st', store_unavailable)
      | (st', Some None) \<Rightarrow> (st', store_unavailable)
      | (st', Some (Some latest)) \<Rightarrow>
          (st', if ir_fingerprint latest \<noteq> cl_fingerprint rq
                then Returned (Inl (App ErrIdempotencyKeyConflict))
                else not_reclaimed cd rq latest))"
| "coord_step cd cfg repo rq hp (st, AtReclaimFailed existing) =
     (case tryReclaim repo rq existing False (hp_fault hp) st of
        (st', None) \<Rightarrow> (st', store_unavailable)
      | (st', Some False) \<Rightarrow> (st', in_progress rq existing)
      | (st', Some True) \<Rightarrow> (st', claimed (ir_id existing)))"
| "coord_step cd cfg repo rq hp (st, AtRun i) = run_business cd cfg repo rq i (hp_business hp) st"
| "coord_step cd cfg repo rq hp (st, AtMarkFailed i err) =
     (mark_failed cfg repo rq i err hp st, Returned (Inl err))"
| "coord_step cd cfg repo rq hp (st, AtMarkSucceeded i data body) =
     (case call (hp_fault hp) (MarkSucceeded repo i 200 body (cl_expires_at rq)) st of
        (st', Some True) \<Rightarrow> (st', Returned (Inr \<lparr>res_data = data, res_replayed = False, res_pending = False\<rparr>))
      | (st', _) \<Rightarrow> (st', not_stored rq data))"
| "coord_step cd cfg repo rq hp (st, Returned res) = (st, Returned res)"

text \<open>A request alone: \<open>hps k\<close> is what happens at its step \<open>k\<close>.\<close>

fun run_steps :: "'d codec \<Rightarrow> IdempotencyConfig \<Rightarrow> 'st IdempotencyRepository \<Rightarrow> claim_request \<Rightarrow> 'd happening list
    \<Rightarrow> 'st \<times> 'd place \<Rightarrow> 'st \<times> 'd place" where
  "run_steps cd cfg repo rq [] s = s"
| "run_steps cd cfg repo rq (hp # hps) s = run_steps cd cfg repo rq hps (coord_step cd cfg repo rq hp s)"

definition executor_run :: "'d codec \<Rightarrow> IdempotencyConfig \<Rightarrow> 'st IdempotencyRepository option \<Rightarrow> executor
    \<Rightarrow> 'd IdempotencyExecuteOptions \<Rightarrow> instant \<Rightarrow> 'd happening list \<Rightarrow> 'st \<Rightarrow> 'st \<times> 'd place" where
  "executor_run cd cfg repo exe opts now hps st =
     (case prepare cd cfg (repo \<noteq> None) exe opts now of
        Rejected err \<Rightarrow> (st, Returned (Inl (App err)))
      | WithoutKey \<Rightarrow>
          (case hps of
             [] \<Rightarrow> (st, AtCreate)
           | hp # _ \<Rightarrow>
               (st, Returned (case bz_result (hp_business hp) of
                  Inl err \<Rightarrow> Inl err
                | Inr data \<Rightarrow> Inr \<lparr>res_data = data, res_replayed = False, res_pending = False\<rparr>)))
      | Claiming rq \<Rightarrow> (case repo of None \<Rightarrow> (st, store_unavailable)
                       | Some r \<Rightarrow> run_steps cd cfg r rq hps (st, AtCreate)))"


section \<open>A request always returns\<close>

fun rank :: "'d place \<Rightarrow> nat" where
  "rank AtCreate = 7"
| "rank AtLookup = 6"
| "rank (AtReclaimExpired _) = 5"
| "rank AtRelookup = 4"
| "rank (AtReclaimFailed _) = 3"
| "rank (AtReclaimProcessing _) = 3"
| "rank (AtRun _) = 2"
| "rank (AtMarkFailed _ _) = 1"
| "rank (AtMarkSucceeded _ _ _) = 1"
| "rank (Returned _) = 0"

lemma rank_0: "rank pl = 0 \<longleftrightarrow> (\<exists>res. pl = Returned res)"
  by (cases pl) auto

lemma rank_claimed: "rank (claimed i) \<le> 2"
  by (simp add: claimed_def)

lemma rank_not_reclaimed: "rank (not_reclaimed cd rq r) \<le> 3"
  by (simp add: not_reclaimed_def replay_def split: option.split)

lemma rank_found: "rank (found cd rq r) \<le> 5"
  using rank_not_reclaimed[of cd rq r] by (simp add: found_def in_progress_def)

lemma rank_not_stored: "rank (not_stored rq d) = 0"
  by (simp add: not_stored_def)

lemma rank_run_business: "rank (snd (run_business cd cfg repo rq i bz st)) \<le> 1"
  by (auto simp: run_business_def rank_not_stored case_prod_unfold Let_def split: sum.split option.split)

lemma rank_step: "rank (snd (coord_step cd cfg repo rq hp (st, pl))) \<le> rank pl - 1"
proof (cases pl)
  case (AtRun i)
  then show ?thesis using rank_run_business by simp
next
  case AtCreate
  then show ?thesis
    using le_trans[OF rank_claimed, of 6] by (auto split: prod.split option.split)
next
  case AtRelookup
  then show ?thesis
    using rank_not_reclaimed[of cd rq] by (auto split: prod.split option.split)
next
  case (AtReclaimExpired r)
  then show ?thesis
    using rank_claimed[of "ir_id r"] by (auto split: prod.split option.split bool.split intro: order_trans)
qed (use rank_claimed rank_found rank_not_stored in
     \<open>auto simp: in_progress_def intro: order_trans split: prod.split option.split bool.split\<close>)

lemma rank_run: "rank (snd (run_steps cd cfg repo rq hps s)) \<le> rank (snd s) - length hps"
proof (induction hps arbitrary: s)
  case (Cons hp hps)
  have "rank (snd (coord_step cd cfg repo rq hp s)) \<le> rank (snd s) - 1"
    using rank_step[of cd cfg repo rq hp "fst s" "snd s"] by simp
  then show ?case using Cons[of "coord_step cd cfg repo rq hp s"] by simp
qed simp

text \<open>
  Every idempotent request returns: whatever the store answers and however its calls fail,
  seven steps take it to a result or an error.
\<close>
theorem executor_returns:
  assumes "7 \<le> length hps"
  shows "\<exists>res. snd (executor_run cd cfg repo exe opts now hps st) = Returned res"
proof (cases "prepare cd cfg (repo \<noteq> None) exe opts now")
  case WithoutKey
  then show ?thesis using assms by (cases hps) (simp_all add: executor_run_def)
next
  case (Claiming rq)
  then show ?thesis
  proof (cases repo)
    case (Some r)
    have "rank (snd (run_steps cd cfg r rq hps (st, AtCreate))) = 0"
      using rank_run[of cd cfg r rq hps "(st, AtCreate)"] assms by simp
    then show ?thesis using Claiming Some by (simp add: executor_run_def rank_0)
  qed (simp add: executor_run_def)
qed (simp add: executor_run_def)


section \<open>Hints and stored texts\<close>

lemma hint_roundtrip:
  "RetryAfterSecondsFromError (conflictWithRetryAfter base (Some l) now)
     = max 1 (min max_int64 (l - now) div second)"
proof -
  let ?s = "whole_seconds (time_sub l now)"
  have le: "?s \<le> max_int64"
    by (auto simp: whole_seconds_def time_sub_def duration_units max_int64_def min_int64_def)
  have eq: "max 1 ?s = max 1 (min max_int64 (l - now) div second)"
    by (auto simp: whole_seconds_def time_sub_def duration_units max_int64_def min_int64_def max_def min_def)
  let ?n = "if ?s \<le> 0 then 1 else ?s"
  have n: "?n = max 1 ?s" "0 \<le> ?n" "0 < ?n" "?n \<le> max_int64"
    using le by (auto simp: max_int64_def)
  have "trim_space (decimal ?n) = decimal ?n" "decimal ?n \<noteq> []"
    using decimal_plain[OF n(2)] parse_decimal[OF n(2) n(4)] by (auto simp: trim_space_plain parse_int64_def)
  then show ?thesis
    using n parse_decimal[OF n(2) n(4)] eq
    by (simp add: conflictWithRetryAfter_def RetryAfterSecondsFromError_def WithMetadata_def Let_def)
qed

text \<open>
  The retry hint of a conflict is read back as it was written: the whole seconds until the
  lock ends (saturated as Go's durations are), and never less than one.
\<close>
theorem retry_hint_roundtrip:
  "RetryAfterSecondsFromError (conflictWithRetryAfter base (Some l) now)
     = max 1 (min max_int64 (l - now) div second)"
by (rule hint_roundtrip)

lemma truncate_loop_le: "truncate_loop s n \<le> n"
  by (induction n) auto

lemma truncate_loop_valid: "valid_utf8 (take (truncate_loop s n) s)"
  by (induction n) simp_all

lemma truncate_loop_max: "m \<le> n \<Longrightarrow> valid_utf8 (take m s) \<Longrightarrow> m \<le> truncate_loop s n"
  by (induction n) (auto simp: le_Suc_eq)

text \<open>
  A response over the limit is cut to the longest valid UTF-8 prefix that fits: the
  result is a prefix, is valid, fits, and no longer prefix that fits is valid.
\<close>
theorem truncation_longest_prefix:
  assumes "0 < m" "m < int (length s)"
  shows "\<exists>k. truncateUTF8 s m = take k s \<and> int k \<le> m \<and> valid_utf8 (take k s)
    \<and> (\<forall>j. int j \<le> m \<and> valid_utf8 (take j s) \<longrightarrow> j \<le> k)"
proof (intro exI conjI allI impI)
  show "truncateUTF8 s m = take (truncate_loop s (nat m)) s" using assms by (simp add: truncateUTF8_def)
  show "int (truncate_loop s (nat m)) \<le> m" using truncate_loop_le[of s "nat m"] assms(1) by linarith
  show "valid_utf8 (take (truncate_loop s (nat m)) s)" by (rule truncate_loop_valid)
  show "j \<le> truncate_loop s (nat m)" if "int j \<le> m \<and> valid_utf8 (take j s)" for j
    using that by (intro truncate_loop_max) auto
qed

lemma truncation_longest_prefix_witness:
  "\<exists>k. truncateUTF8 [byte 65, byte 195, byte 169] 2 = take k [byte 65, byte 195, byte 169] \<and> k \<le> 2"
  using truncation_longest_prefix[of 2 "[byte 65, byte 195, byte 169]"] by auto

section \<open>One request over a repository\<close>

context idempotency_repository begin

lemma create_state:
  assumes "good st"
  shows "good (fst (CreateProcessing repo r st))"
  using assms create_old[OF assms, of _ _ r] create_new[OF assms, of r] by blast

text \<open>The first two calls of a request whose key has a record: it is found, the rows stay.\<close>

lemma finds_record:
  assumes "good st" "row st i = Some r" "row_key r = claim_key rq"
    and "hp_fault h1 = Fine" "hp_fault h2 = Fine"
  shows "\<exists>st'. run_steps cd cfg repo rq (h1 # h2 # hps) (st, AtCreate)
      = run_steps cd cfg repo rq hps (st', found cd rq r) \<and> row st' = row st \<and> good st'"
proof -
  have key: "row_key r = row_key (claim_record rq)"
    using assms(3) by (simp add: row_key_def claim_record_def claim_key_def)
  from create_old[OF assms(1,2) key]
  obtain st1 where 1: "CreateProcessing repo (claim_record rq) st = (st1, None)" "good st1" "row st1 = row st"
    by (metis prod.collapse)
  have "snd (GetByScopeActorScopeAndKeyHash repo (cl_scope rq) (cl_actor rq) (cl_key_hash rq) st1) = Some r"
    using 1 assms(2,3) get_row[OF 1(2)] by (auto simp: claim_key_def)
  then have "GetByScopeActorScopeAndKeyHash repo (cl_scope rq) (cl_actor rq) (cl_key_hash rq) st1 = (st1, Some r)"
    using get_state by (metis prod.collapse)
  then show ?thesis using 1 assms(4,5) by auto
qed

lemma returned_stays: "run_steps cd cfg repo rq hps (st, Returned res) = (st, Returned res)"
  by (induction hps) auto

lemma found_returned:
  assumes "good st" "row st i = Some r" "row_key r = claim_key rq"
    and "hp_fault h1 = Fine" "hp_fault h2 = Fine" and "found cd rq r = Returned res"
  shows "\<exists>st'. run_steps cd cfg repo rq (h1 # h2 # hps) (st, AtCreate) = (st', Returned res) \<and> row st' = row st \<and> good st'"
  using finds_record[OF assms(1-5), of cd cfg hps] assms(6) by (auto simp: returned_stays)

text \<open>A plain request whose key has no record runs, stores its response, and returns the value.\<close>

lemma first_run:
  assumes good: "good st" and new: "\<forall>i q. row st i = Some q \<longrightarrow> row_key q \<noteq> claim_key rq"
    and plain: "\<not> cl_atomic rq" and fine: "hp_fault h1 = Fine" "hp_fault h3 = Fine"
    and ok: "bz_result (hp_business h2) = Inr data" and body: "marshalStoredResponse cd cfg data = Some body"
  shows "\<exists>st' i r. run_steps cd cfg repo rq [h1, h2, h3] (st, AtCreate)
      = (st', Returned (Inr \<lparr>res_data = data, res_replayed = False, res_pending = False\<rparr>))
    \<and> good st' \<and> row st' i = Some r \<and> row_key r = claim_key rq \<and> ir_fingerprint r = cl_fingerprint rq
    \<and> ir_status r = IdempotencyStatusSucceeded \<and> ir_response_body r = Some body \<and> ir_expires_at r = cl_expires_at rq"
proof -
  have "\<forall>i q. row st i = Some q \<longrightarrow> row_key q \<noteq> row_key (claim_record rq)"
    using new by (simp add: row_key_def claim_record_def claim_key_def)
  from create_new[OF good this] obtain st1 i where
    1: "CreateProcessing repo (claim_record rq) st = (st1, Some i)" "0 < i" "good st1"
      "row st1 i = Some (created_row i (claim_record rq))"
    by (metis fun_upd_same prod.collapse)
  let ?op = "MarkSucceeded repo i 200 body (cl_expires_at rq)" and ?q = "created_row i (claim_record rq)"
  have q: "is_processing ?q" by (simp add: is_processing_def created_row_def claim_record_def)
  have taken: "snd (?op st1)" using changes_row_taken[OF succeed 1(3)] 1(4) q by blast
  obtain st2 where 2: "?op st1 = (st2, True)" using taken by (metis prod.collapse)
  have "good st2" using changes_row_good[OF succeed 1(3), of i 200 body "cl_expires_at rq"] 2 by simp
  moreover have "row st2 i = Some (succeeded_row 200 body (cl_expires_at rq) ?q)"
    using changes_row_row[OF succeed 1(3), of i 200 body "cl_expires_at rq"] 2 1(4) q by simp
  ultimately show ?thesis
    using 1 2 plain fine ok body
    by (intro exI[of _ st2] exI[of _ i] exI[of _ "succeeded_row 200 body (cl_expires_at rq) ?q"])
      (simp add: claimed_def run_business_def row_changes row_key_def claim_key_def claim_record_def)
qed

end


lemma executor_run_claiming:
  "prepare cd cfg True exe opts now = Claiming rq \<Longrightarrow>
   executor_run cd cfg (Some repo) exe opts now hps st = run_steps cd cfg repo rq hps (st, AtCreate)"
  by (simp add: executor_run_def)

lemma prepare_claiming:
  "prepare cd cfg present exe opts now = Claiming rq \<Longrightarrow>
   cl_atomic rq = (exe = AtomicExecutor) \<and> cl_now rq = now \<and> cl_locked_until rq = now + ProcessingTimeout cfg
   \<and> cl_expires_at rq = now + (if op_ttl opts \<le> 0 then DefaultTTL cfg else op_ttl opts)"
  by (auto simp: prepare_def Let_def split: if_splits sum.splits)

text \<open>
  A plain request that stored a response, then a request with its key and payload: the second
  one gets whatever decoding the stored response gives.
\<close>

lemma stored_then_replayed:
  assumes good: "good_table st" and new: "\<forall>r \<in> set (idem_rows st). row_key r \<noteq> claim_key rq"
    and first: "prepare cd cfg True PlainExecutor opts now = Claiming rq"
    and calls: "hp_fault h1 = Fine" "hp_fault h3 = Fine"
    and outcome: "bz_result (hp_business h2) = Inr data" and body: "marshalStoredResponse cd cfg data = Some body"
    and retry: "prepare cd cfg' True PlainExecutor opts' now' = Claiming rq'"
      "claim_key rq' = claim_key rq" "cl_fingerprint rq' = cl_fingerprint rq" "now' < cl_expires_at rq"
    and calls': "hp_fault h1' = Fine" "hp_fault h2' = Fine"
  shows "\<exists>st1 st2. executor_run cd cfg (Some sql_repository) PlainExecutor opts now [h1, h2, h3] st
      = (st1, Returned (Inr \<lparr>res_data = data, res_replayed = False, res_pending = False\<rparr>))
    \<and> executor_run cd cfg' (Some sql_repository) PlainExecutor opts' now' (h1' # h2' # hps') st1
      = (st2, case decodeStoredResponse cd (Some body) of
           None \<Rightarrow> store_unavailable
         | Some data' \<Rightarrow> Returned (Inr \<lparr>res_data = data', res_replayed = True, res_pending = False\<rparr>))"
proof -
  have "\<forall>i q. table_row st i = Some q \<longrightarrow> row_key q \<noteq> claim_key rq"
    using new by (simp add: table_row_Some[OF good])
  from sql.first_run[OF good this, of h1 h3 h2, OF _ calls outcome body] prepare_claiming[OF first]
  obtain st1 i r where 1: "run_steps cd cfg sql_repository rq [h1, h2, h3] (st, AtCreate)
      = (st1, Returned (Inr \<lparr>res_data = data, res_replayed = False, res_pending = False\<rparr>))"
    and r: "good_table st1" "table_row st1 i = Some r" "row_key r = claim_key rq'"
      "ir_fingerprint r = cl_fingerprint rq'" "ir_status r = IdempotencyStatusSucceeded"
      "ir_response_body r = Some body" "ir_expires_at r = cl_expires_at rq"
    using retry by auto
  let ?answer = "case decodeStoredResponse cd (Some body) of None \<Rightarrow> store_unavailable
    | Some data' \<Rightarrow> Returned (Inr \<lparr>res_data = data', res_replayed = True, res_pending = False\<rparr>)"
  obtain res where res: "?answer = Returned res" by (cases "decodeStoredResponse cd (Some body)") auto
  have "found cd rq' r = ?answer"
    using r retry prepare_claiming[OF retry(1)]
    by (simp add: found_def not_reclaimed_def replay_def idempotency_status)
  from sql.found_returned[OF r(1-3) calls' this[unfolded res], of cfg' hps'] 1 show ?thesis
    unfolding res by (auto simp: executor_run_claiming[OF first] executor_run_claiming[OF retry(1)])
qed

text \<open>
  C24: With its two calls answered, a request whose key already has a record with another payload, one that is still in
  progress (for an atomic request, while its lock lasts) or one in its retry back-off (before
  the record expires) is refused, and the record stays as it was.
\<close>
theorem duplicate_refused:
  assumes good: "good_table st" and r: "r \<in> set (idem_rows st)" "row_key r = claim_key rq"
    and prep: "prepare cd cfg True exe opts now = Claiming rq"
    and calls: "hp_fault h1 = Fine" "hp_fault h2 = Fine"
  shows "\<exists>st' pl. executor_run cd cfg (Some sql_repository) exe opts now (h1 # h2 # hps) st = (st', pl)
    \<and> (ir_fingerprint r \<noteq> cl_fingerprint rq \<longrightarrow>
         pl = Returned (Inl (App ErrIdempotencyKeyConflict)) \<and> r \<in> set (idem_rows st'))
    \<and> (ir_fingerprint r = cl_fingerprint rq \<and> ir_status r = IdempotencyStatusProcessing
         \<and> (exe = PlainExecutor \<or> locked_after r now) \<longrightarrow>
         pl = Returned (Inl (conflictWithRetryAfter ErrIdempotencyInProgress (ir_locked_until r) now))
         \<and> r \<in> set (idem_rows st'))
    \<and> (ir_fingerprint r = cl_fingerprint rq \<and> ir_status r = IdempotencyStatusFailedRetryable
         \<and> locked_after r now \<and> now < ir_expires_at r \<longrightarrow>
         (\<exists>e. pl = Returned (Inl (conflictWithRetryAfter e (ir_locked_until r) now))) \<and> r \<in> set (idem_rows st'))"
proof -
  have row: "table_row st (ir_id r) = Some r" using r by (simp add: table_row_Some[OF good])
  have kept: "r \<in> set (idem_rows st')" if "table_row st' = table_row st" "good_table st'" for st'
    using that row table_row_Some[of st' "ir_id r" r] by simp
  let ?refused = "\<exists>res. found cd rq r = Returned res"
  have exe: "cl_atomic rq = (exe = AtomicExecutor)" "cl_now rq = now" using prepare_claiming[OF prep] by auto
  show ?thesis
  proof (cases ?refused)
    case True
    then obtain res where res: "found cd rq r = Returned res" by blast
    from sql.found_returned[OF good row r(2) calls res, of cfg hps]
    obtain st' where "executor_run cd cfg (Some sql_repository) exe opts now (h1 # h2 # hps) st = (st', Returned res)"
      "r \<in> set (idem_rows st')"
      using kept by (auto simp: executor_run_claiming[OF prep])
    then show ?thesis
      using res exe by (auto simp: found_def in_progress_def not_reclaimed_def idempotency_status)
  next
    case False
    then have "ir_fingerprint r = cl_fingerprint rq"
      "ir_status r = IdempotencyStatusProcessing \<Longrightarrow> exe \<noteq> PlainExecutor \<and> \<not> locked_after r now"
      "ir_status r = IdempotencyStatusFailedRetryable \<Longrightarrow> \<not> (locked_after r now \<and> now < ir_expires_at r)"
      using exe by (auto simp: found_def in_progress_def not_reclaimed_def idempotency_status split: if_splits)
    then show ?thesis
      by (cases "executor_run cd cfg (Some sql_repository) exe opts now (h1 # h2 # hps) st") auto
  qed
qed


text \<open>
  A response over the limit is stored cut off, with a mark that ends it in a bracket. No
  JSON text ends in a closing round bracket, so the stored text cannot be decoded: the request
  succeeds, but every retry before the record expires is told that the store is unavailable.
\<close>
theorem truncated_response_unreplayable:
  assumes good: "good_table st" and new: "\<forall>r \<in> set (idem_rows st). row_key r \<noteq> claim_key rq"
    and first: "prepare cd cfg True PlainExecutor opts now = Claiming rq"
    and calls: "hp_fault h1 = Fine" "hp_fault h3 = Fine"
    and outcome: "bz_result (hp_business h2) = Inr data" "json_marshal cd data = Some raw"
    and long: "0 < MaxStoredResponseLen cfg" "MaxStoredResponseLen cfg < int (length (redact_text cd raw))"
    and json: "\<And>s. s \<noteq> [] \<Longrightarrow> last s = CHR '')'' \<Longrightarrow> json_unmarshal cd s = None"
    and retry: "prepare cd cfg' True PlainExecutor opts' now' = Claiming rq'"
      "claim_key rq' = claim_key rq" "cl_fingerprint rq' = cl_fingerprint rq" "now' < cl_expires_at rq"
    and calls': "hp_fault h1' = Fine" "hp_fault h2' = Fine"
  shows "\<exists>st1 st2. executor_run cd cfg (Some sql_repository) PlainExecutor opts now [h1, h2, h3] st
      = (st1, Returned (Inr \<lparr>res_data = data, res_replayed = False, res_pending = False\<rparr>))
    \<and> executor_run cd cfg' (Some sql_repository) PlainExecutor opts' now' (h1' # h2' # hps') st1
      = (st2, store_unavailable)"
proof -
  let ?body = "truncateUTF8 (redact_text cd raw) (MaxStoredResponseLen cfg) @ ''...(truncated)''"
  have body: "marshalStoredResponse cd cfg data = Some ?body"
    using outcome long by (simp add: marshalStoredResponse_def Let_def)
  have "CHR ''t'' \<in> set ?body" "plain_char CHR ''t''" by (simp_all add: plain_char_def)
  then have undecodable: "decodeStoredResponse cd (Some ?body) = None"
    using json[of ?body] trim_space_not_Nil[of "CHR ''t''" ?body] by (simp add: decodeStoredResponse_def decode_with_def)
  show ?thesis
    using stored_then_replayed[OF good new first calls outcome(1) body retry calls', of hps'] undecodable by simp
qed

section \<open>A concrete instance\<close>

text \<open>Texts as values, stored as they are.\<close>

definition text_codec :: "string codec" where
  "text_codec = \<lparr>json_marshal = Some, json_unmarshal = (\<lambda>s. if last s = CHR '')'' then None else Some s),
     json_decode_number = Some, redact_text = (\<lambda>s. s), sha256_hex = (\<lambda>s. s), empty_object = []\<rparr>"

definition demo_options :: "string IdempotencyExecuteOptions" where
  "demo_options = \<lparr>op_scope = ''s'', op_actor = ''u'', op_method = ''POST'', op_route = ''/r'',
     op_key = ''k'', op_payload = ''p'', op_ttl = 100, op_require_key = True, op_committed_data_on_failure = False\<rparr>"

definition demo_claim :: "bool \<Rightarrow> instant \<Rightarrow> duration \<Rightarrow> claim_request" where
  "demo_claim atomic now timeout = \<lparr>cl_atomic = atomic, cl_scope = ''s'', cl_actor = ''u'', cl_key_hash = ''k'',
     cl_fingerprint = ''POST'' @ [byte 10] @ ''/r'' @ [byte 10] @ ''u'' @ [byte 10] @ ''p'', cl_now = now,
     cl_locked_until = now + timeout, cl_expires_at = now + 100, cl_committed_data = False\<rparr>"

definition calm :: "string happening" where
  "calm = \<lparr>hp_fault = Fine, hp_clock = 0,
     hp_business = \<lparr>bz_persists = [(''ok'', Fine)], bz_commits = True, bz_result = Inr ''ok''\<rparr>\<rparr>"

lemma demo_texts:
  "trim_space ''k'' = ''k''" "trim_space ''u'' = ''u''" "to_upper ''POST'' = ''POST''"
  "list_ex (\<lambda>c. \<not> byte_in 33 126 c) ''k'' = False"
     apply (simp add: trim_space_plain plain_char_def)
    apply (simp add: trim_space_plain plain_char_def)
   apply code_simp
  apply (simp add: byte_in_def)
  done

lemma demo_key: "NormalizeIdempotencyKey ''k'' = Inr ''k''"
  unfolding NormalizeIdempotencyKey_def demo_texts Let_def by simp

lemma demo_fingerprint: "BuildIdempotencyFingerprint text_codec ''POST'' ''/r'' ''u'' ''p''
    = Inr (''POST'' @ [byte 10] @ ''/r'' @ [byte 10] @ ''u'' @ [byte 10] @ ''p'')"
  by (simp add: BuildIdempotencyFingerprint_def text_codec_def demo_texts(3) del: to_upper.simps)

lemma demo_prepare:
  "exe \<noteq> NoExecutor \<Longrightarrow> prepare text_codec cfg True exe demo_options now
     = Claiming (demo_claim (exe = AtomicExecutor) now (ProcessingTimeout cfg))"
  by (simp add: prepare_def demo_options_def demo_key demo_fingerprint actor_scope_def demo_texts(2) Let_def
      demo_claim_def) (simp add: text_codec_def)


lemma demo_stored: "marshalStoredResponse text_codec DefaultIdempotencyConfig ''ok'' = Some ''ok''"
  by (simp add: marshalStoredResponse_def text_codec_def DefaultIdempotencyConfig_def)

lemma demo_decoded: "decodeStoredResponse text_codec (Some ''ok'') = Some ''ok''"
  by (simp add: decodeStoredResponse_def decode_with_def text_codec_def trim_space_plain plain_char_def)

lemma truncated_response_unreplayable_witness:
  "\<exists>st1 st2. executor_run text_codec (DefaultIdempotencyConfig\<lparr>MaxStoredResponseLen := 1\<rparr>) (Some sql_repository)
      PlainExecutor demo_options 0 [calm, calm, calm] empty_idem_table
      = (st1, Returned (Inr \<lparr>res_data = ''ok'', res_replayed = False, res_pending = False\<rparr>))
    \<and> executor_run text_codec DefaultIdempotencyConfig (Some sql_repository) PlainExecutor demo_options 50
      [calm, calm] st1 = (st2, store_unavailable)"
proof -
  have prep: "prepare text_codec (DefaultIdempotencyConfig\<lparr>MaxStoredResponseLen := 1\<rparr>) True PlainExecutor demo_options 0
      = Claiming (demo_claim False 0 (30 * second))"
    "prepare text_codec DefaultIdempotencyConfig True PlainExecutor demo_options 50
      = Claiming (demo_claim False 50 (30 * second))"
    by (simp_all add: demo_prepare DefaultIdempotencyConfig_def)
  have raw: "json_marshal text_codec ''ok'' = Some ''ok''" by (simp add: text_codec_def)
  show ?thesis
    by (rule truncated_response_unreplayable[OF good_empty_table _ prep(1) _ _ _ raw _ _ _ prep(2)])
      (simp_all add: empty_idem_table_def calm_def demo_claim_def claim_key_def text_codec_def DefaultIdempotencyConfig_def)
qed

lemma duplicate_refused_witness:
  "\<exists>st'. executor_run text_codec DefaultIdempotencyConfig (Some sql_repository) PlainExecutor demo_options 5 [calm, calm]
      \<lparr>idem_rows = [created_row 1 (claim_record (demo_claim False 0 (30 * second)))], next_id = 2\<rparr>
    = (st', Returned (Inl (conflictWithRetryAfter ErrIdempotencyInProgress (Some (30 * second)) 5)))"
proof -
  let ?r = "created_row 1 (claim_record (demo_claim False 0 (30 * second)))"
  have "good_table \<lparr>idem_rows = [?r], next_id = 2\<rparr>" by (simp add: good_table_def created_row_def)
  from duplicate_refused[OF this, of ?r "demo_claim False 5 (30 * second)" text_codec DefaultIdempotencyConfig
      PlainExecutor demo_options 5 calm calm "[]"]
  show ?thesis
    by (auto simp: demo_prepare calm_def DefaultIdempotencyConfig_def created_row_def claim_record_def
        demo_claim_def claim_key_def row_key_def)
qed

end
