(* ===== verification/Idempotency_Races.thy ===== *)
theory Idempotency_Races
  imports Idempotency
begin

text \<open>
  Idempotent requests of several processes over one store: any interleaving of their
  repository calls, failing calls and clean-up runs.

  The state keeps every request that has arrived with its place in the protocol, and for
  each record the last request that learnt it owns it (\<open>sys_owner\<close>, which no process reads).
  Whether the requests of a scope are atomic is fixed by the parameter \<open>mode\<close>, as each handler
  of the program uses one of the two executors for its scope.
\<close>

section \<open>The system\<close>

record ('st, 'd) idem_system =
  sys_store :: 'st
  sys_requests :: "nat \<Rightarrow> (claim_request \<times> 'd place) option"
  sys_owner :: "int \<Rightarrow> nat option"

text \<open>The record whose claim a request holds.\<close>

fun held :: "'d place \<Rightarrow> int option" where
  "held (AtRun i) = Some i"
| "held (AtMarkFailed i _) = Some i"
| "held (AtMarkSucceeded i _ _) = Some i"
| "held _ = None"

definition new_owner :: "nat \<Rightarrow> 'd place \<Rightarrow> 'd place \<Rightarrow> (int \<Rightarrow> nat option) \<Rightarrow> int \<Rightarrow> nat option" where
  "new_owner p pl pl' owner =
     (case (held pl, held pl') of (None, Some i) \<Rightarrow> owner(i \<mapsto> p) | _ \<Rightarrow> owner)"

inductive idem_step :: "'d codec \<Rightarrow> IdempotencyConfig \<Rightarrow> 'st IdempotencyRepository \<Rightarrow> (string \<Rightarrow> bool)
    \<Rightarrow> ('st, 'd) idem_system \<Rightarrow> ('st, 'd) idem_system \<Rightarrow> bool"
  for cd cfg repo mode where
  arrive: "sys_requests s p = None \<Longrightarrow> prepare cd cfg True exe opts now = Claiming rq \<Longrightarrow>
    cl_atomic rq = mode (cl_scope rq) \<Longrightarrow>
    idem_step cd cfg repo mode s (s\<lparr>sys_requests := (sys_requests s)(p \<mapsto> (rq, AtCreate))\<rparr>)"
| advance: "sys_requests s p = Some (rq, pl) \<Longrightarrow>
    coord_step cd cfg repo rq hp (sys_store s, pl) = (st', pl') \<Longrightarrow>
    idem_step cd cfg repo mode s \<lparr>sys_store = st', sys_requests = (sys_requests s)(p \<mapsto> (rq, pl')),
      sys_owner = new_owner p pl pl' (sys_owner s)\<rparr>"
| cleanup: "idem_step cd cfg repo mode s (s\<lparr>sys_store := cleanupOnce repo batch ft now (sys_store s)\<rparr>)"

definition idem_start :: "'st \<Rightarrow> ('st, 'd) idem_system" where
  "idem_start st = \<lparr>sys_store = st, sys_requests = (\<lambda>_. None), sys_owner = (\<lambda>_. None)\<rparr>"

inductive idem_reach :: "'d codec \<Rightarrow> IdempotencyConfig \<Rightarrow> 'st IdempotencyRepository \<Rightarrow> (string \<Rightarrow> bool)
    \<Rightarrow> 'st \<Rightarrow> ('st, 'd) idem_system \<Rightarrow> bool"
  for cd cfg repo mode st where
  start: "idem_reach cd cfg repo mode st (idem_start st)"
| step: "idem_reach cd cfg repo mode st s \<Longrightarrow> idem_step cd cfg repo mode s s' \<Longrightarrow>
    idem_reach cd cfg repo mode st s'"

section \<open>What a step does to the rows\<close>

text \<open>Rows keep their identity from one state to the next; ids are never handed out again.\<close>

definition evolves :: "('st \<Rightarrow> int \<Rightarrow> IdempotencyRecord option) \<Rightarrow> ('st \<Rightarrow> int set) \<Rightarrow> 'st \<Rightarrow> 'st \<Rightarrow> bool" where
  "evolves row issued st st' \<longleftrightarrow> issued st \<subseteq> issued st'
     \<and> (\<forall>i \<in> issued st. \<forall>r'. row st' i = Some r' \<longrightarrow>
         (\<exists>r. row st i = Some r \<and> row_key r' = row_key r \<and> ir_fingerprint r' = ir_fingerprint r))"

lemma evolves_refl [simp]: "evolves row issued st st"
  by (simp add: evolves_def)

lemma evolvesD:
  "evolves row issued st st' \<Longrightarrow> i \<in> issued st \<Longrightarrow> i \<in> issued st'"
  "evolves row issued st st' \<Longrightarrow> i \<in> issued st \<Longrightarrow> row st' i = Some r' \<Longrightarrow>
    \<exists>r. row st i = Some r \<and> row_key r' = row_key r \<and> ir_fingerprint r' = ir_fingerprint r"
  unfolding evolves_def by blast+

lemma evolves_trans:
  assumes "evolves row issued a b" "evolves row issued b c"
  shows "evolves row issued a c"
proof -
  have "\<exists>r. row a i = Some r \<and> row_key r' = row_key r \<and> ir_fingerprint r' = ir_fingerprint r"
    if i: "i \<in> issued a" and r': "row c i = Some r'" for i r'
  proof -
    from evolvesD(2)[OF assms(2) evolvesD(1)[OF assms(1) i] r'] obtain q where
      q: "row b i = Some q" "row_key r' = row_key q" "ir_fingerprint r' = ir_fingerprint q" by blast
    from evolvesD(2)[OF assms(1) i q(1)] q(2,3) show ?thesis by auto
  qed
  moreover have "issued a \<subseteq> issued c" using assms unfolding evolves_def by blast
  ultimately show ?thesis unfolding evolves_def by blast
qed

text \<open>The row \<open>i\<close> is the only one that may have changed.\<close>

definition only_row :: "('st \<Rightarrow> int \<Rightarrow> IdempotencyRecord option) \<Rightarrow> int \<Rightarrow> 'st \<Rightarrow> 'st \<Rightarrow> bool" where
  "only_row row i st st' \<longleftrightarrow> (\<forall>j. j \<noteq> i \<longrightarrow> row st' j = row st j)"

lemma changes_row_evolves:
  assumes "changes_row good row issued i g f op" "keeps_identity f" "good st"
  shows "good (fst (op st)) \<and> evolves row issued st (fst (op st)) \<and> only_row row i st (fst (op st))"
proof -
  have "row (fst (op st)) j = Some r' \<Longrightarrow> \<exists>r. row st j = Some r \<and> row_key r' = row_key r \<and> ir_fingerprint r' = ir_fingerprint r" for j r'
    using changes_row_row[OF assms(1,3)] changes_row_other[OF assms(1,3), of j] assms(2)
    by (cases "j = i") (auto simp: keeps_identity_def split: option.splits if_splits)
  then show ?thesis
    using changes_row_good[OF assms(1,3)] changes_row_issued[OF assms(1,3)] changes_row_other[OF assms(1,3)]
    by (auto simp: evolves_def only_row_def)
qed

lemma call_changes:
  assumes "changes_row good row issued i g f op" "keeps_identity f" "good st"
  shows "good (fst (call ft op st)) \<and> evolves row issued st (fst (call ft op st))
    \<and> only_row row i st (fst (call ft op st))"
  using changes_row_evolves[OF assms] assms(3) by (cases ft) (auto simp: only_row_def)

text \<open>What a request knows about the record at its place.\<close>

definition knows :: "('st \<Rightarrow> int \<Rightarrow> IdempotencyRecord option) \<Rightarrow> ('st \<Rightarrow> int set) \<Rightarrow> claim_request \<Rightarrow> 'st \<Rightarrow> int \<Rightarrow> bool" where
  "knows row issued rq st i \<longleftrightarrow> i \<in> issued st \<and> 0 < i 
     \<and> (\<forall>r. row st i = Some r \<longrightarrow> row_key r = claim_key rq \<and> ir_fingerprint r = cl_fingerprint rq)"

fun place_ok :: "('st \<Rightarrow> int \<Rightarrow> IdempotencyRecord option) \<Rightarrow> ('st \<Rightarrow> int set) \<Rightarrow> claim_request \<Rightarrow> 'st
    \<Rightarrow> 'd place \<Rightarrow> bool" where
  "place_ok row issued rq st (AtReclaimProcessing ex) = (knows row issued rq st (ir_id ex) \<and> cl_atomic rq \<and> is_processing ex)"
| "place_ok row issued rq st (AtReclaimExpired ex) = (knows row issued rq st (ir_id ex) \<and> \<not> is_processing ex)"
| "place_ok row issued rq st (AtReclaimFailed ex) = (knows row issued rq st (ir_id ex) \<and> ir_status ex = IdempotencyStatusFailedRetryable)"
| "place_ok row issued rq st (AtRun i) = knows row issued rq st i"
| "place_ok row issued rq st (AtMarkFailed i err) = knows row issued rq st i"
| "place_ok row issued rq st (AtMarkSucceeded i data body) = (knows row issued rq st i \<and> \<not> cl_atomic rq)"
| "place_ok row issued rq st _ = True"

lemma knows_evolves: "evolves row issued st st' \<Longrightarrow> knows row issued rq st i \<Longrightarrow> knows row issued rq st' i"
  unfolding knows_def using evolvesD[of row issued st st' i] by fastforce

lemma place_ok_evolves: "evolves row issued st st' \<Longrightarrow> place_ok row issued rq st pl \<Longrightarrow> place_ok row issued rq st' pl"
  by (cases pl) (auto intro: knows_evolves)

lemma held_knows: "place_ok row issued rq st pl \<Longrightarrow> held pl = Some i \<Longrightarrow> knows row issued rq st i"
  by (cases pl) auto

text \<open>The three ways a step changes the rows: not at all, by a claim, by an outcome.\<close>

definition writes_claim :: "('st \<Rightarrow> int \<Rightarrow> IdempotencyRecord option) \<Rightarrow> ('st \<Rightarrow> int set) \<Rightarrow> claim_request
    \<Rightarrow> 'st \<Rightarrow> 'd place \<Rightarrow> 'st \<Rightarrow> 'd place \<Rightarrow> int \<Rightarrow> IdempotencyRecord \<Rightarrow> bool" where
  "writes_claim row issued rq st pl st' pl' i r \<longleftrightarrow> held pl = None \<and> (held pl' = None \<or> held pl' = Some i)
     \<and> row st' = (row st)(i \<mapsto> r) \<and> is_processing r \<and> ir_locked_until r = Some (cl_locked_until rq)
     \<and> row_key r = claim_key rq
     \<and> (i \<notin> issued st \<or> (\<exists>q. row st i = Some q \<and> row_key q = claim_key rq \<and> (cl_atomic rq \<or> \<not> is_processing q)))"

definition writes_outcome :: "('st \<Rightarrow> int \<Rightarrow> IdempotencyRecord option) \<Rightarrow> claim_request
    \<Rightarrow> 'st \<Rightarrow> 'd place \<Rightarrow> 'st \<Rightarrow> 'd place \<Rightarrow> int \<Rightarrow> bool" where
  "writes_outcome row rq st pl st' pl' i \<longleftrightarrow> held pl = Some i \<and> (held pl' = None \<or> held pl' = Some i)
     \<and> only_row row i st st' \<and> (\<forall>r. row st' i = Some r \<and> is_processing r \<longrightarrow> row st i = Some r)
     \<and> (cl_atomic rq \<or> row st' = row st \<or> held pl' = None)"

definition writes_nothing :: "('st \<Rightarrow> int \<Rightarrow> IdempotencyRecord option)
    \<Rightarrow> 'st \<Rightarrow> 'd place \<Rightarrow> 'st \<Rightarrow> 'd place \<Rightarrow> bool" where
  "writes_nothing row st pl st' pl' \<longleftrightarrow> row st' = row st \<and> (held pl' = None \<or> held pl' = held pl)"

definition effect :: "('st \<Rightarrow> int \<Rightarrow> IdempotencyRecord option) \<Rightarrow> ('st \<Rightarrow> int set) \<Rightarrow> claim_request
    \<Rightarrow> 'st \<Rightarrow> 'd place \<Rightarrow> 'st \<Rightarrow> 'd place \<Rightarrow> bool" where
  "effect row issued rq st pl st' pl' \<longleftrightarrow> writes_nothing row st pl st' pl'
     \<or> (\<exists>i r. writes_claim row issued rq st pl st' pl' i r) \<or> (\<exists>i. writes_outcome row rq st pl st' pl' i)"

lemma held_not_reclaimed: "held (not_reclaimed cd rq r) = None"
  by (simp add: not_reclaimed_def replay_def split: option.split)

lemma held_found: "held (found cd rq r) = None"
  by (simp add: found_def in_progress_def held_not_reclaimed)

lemma held_in_progress: "held (in_progress rq r) = None"
  by (simp add: in_progress_def)

lemma held_not_stored: "held (not_stored rq d) = None"
  by (simp add: not_stored_def)

lemmas held_places = held_not_reclaimed held_found held_in_progress held_not_stored

lemma place_ok_in_progress: "place_ok row issued rq st (in_progress rq' r)"
  by (simp add: in_progress_def)

lemma place_ok_not_reclaimed:
  "knows row issued rq st (ir_id r) \<Longrightarrow> place_ok row issued rq st (not_reclaimed cd rq r)"
  by (simp add: not_reclaimed_def replay_def is_processing_def idempotency_status split: option.split)

lemma place_ok_found:
  "(ir_fingerprint r = cl_fingerprint rq \<Longrightarrow> knows row issued rq st (ir_id r)) \<Longrightarrow> place_ok row issued rq st (found cd rq r)"
  using place_ok_not_reclaimed[of row issued rq st r cd]
  by (auto simp: found_def place_ok_in_progress is_processing_def)

text \<open>Everything one step guarantees, for one proof per place.\<close>

definition step_ok :: "('st \<Rightarrow> int \<Rightarrow> IdempotencyRecord option) \<Rightarrow> ('st \<Rightarrow> int set) \<Rightarrow> ('st \<Rightarrow> bool)
    \<Rightarrow> claim_request \<Rightarrow> 'st \<Rightarrow> 'd place \<Rightarrow> 'st \<times> 'd place \<Rightarrow> bool" where
  "step_ok row issued good rq st pl s' \<longleftrightarrow> good (fst s') \<and> evolves row issued st (fst s')
     \<and> place_ok row issued rq (fst s') (snd s') \<and> effect row issued rq st pl (fst s') (snd s')"

context owned_idempotency_repository begin

lemma step_create:
  fixes cd :: "'d codec"
  assumes good: "good st"
  shows "step_ok row issued good rq st AtCreate (coord_step cd cfg repo rq hp (st, AtCreate))"
proof (cases "\<exists>i q. row st i = Some q \<and> row_key q = row_key (claim_record rq)")
  case True
  then obtain i q where "row st i = Some q" "row_key q = row_key (claim_record rq)" by blast
  from create_old[OF good this] good show ?thesis
    by (cases "hp_fault hp") (auto simp: step_ok_def effect_def writes_nothing_def evolves_def)
next
  case False
  then have "\<forall>i q. row st i = Some q \<longrightarrow> row_key q \<noteq> row_key (claim_record rq)" by blast
  from create_new[OF good this] obtain i where i: "snd (CreateProcessing repo (claim_record rq) st) = Some i"
    "i \<notin> issued st" "0 < i" and st': "good (fst (CreateProcessing repo (claim_record rq) st))"
    "row (fst (CreateProcessing repo (claim_record rq) st)) = (row st)(i \<mapsto> created_row i (claim_record rq))"
    "insert i (issued st) \<subseteq> issued (fst (CreateProcessing repo (claim_record rq) st))"
    by blast
  let ?r = "created_row i (claim_record rq)" and ?st = "fst (CreateProcessing repo (claim_record rq) st)"
  have r: "is_processing ?r" "ir_locked_until ?r = Some (cl_locked_until rq)" "row_key ?r = claim_key rq"
    "ir_fingerprint ?r = cl_fingerprint rq"
    by (simp_all add: is_processing_def created_row_def claim_record_def row_key_def claim_key_def)
  have ev: "evolves row issued st ?st" using st' i by (auto simp: evolves_def)
  have claim: "writes_claim row issued rq st AtCreate ?st pl' i ?r" if "held pl' = None \<or> held pl' = Some i" for pl' :: "'d place"
    using that r st' i by (simp add: writes_claim_def)
  have "knows row issued rq ?st i" using st' r i by (auto simp: knows_def)
  then show ?thesis
    using i st'(1) ev good claim[of "AtRun i"] claim[of store_unavailable]
    by (cases "hp_fault hp") (auto simp: step_ok_def claimed_def effect_def writes_nothing_def)
qed

lemma get_known:
  assumes "good st" "snd (GetByScopeActorScopeAndKeyHash repo (cl_scope rq) (cl_actor rq) (cl_key_hash rq) st) = Some r"
  shows "ir_fingerprint r = cl_fingerprint rq \<Longrightarrow> knows row issued rq st (ir_id r)"
  using assms get_row[OF assms(1)] row_id[OF assms(1)] by (fastforce simp: knows_def claim_key_def)

lemma step_lookup:
  assumes "good st"
  shows "step_ok row issued good rq st AtLookup (coord_step cd cfg repo rq hp (st, AtLookup))"
  using assms get_known[OF assms] get_state
  by (cases "hp_fault hp"; cases "snd (GetByScopeActorScopeAndKeyHash repo (cl_scope rq) (cl_actor rq) (cl_key_hash rq) st)")
    (auto simp: step_ok_def effect_def writes_nothing_def held_places place_ok_found)

lemma step_relookup:
  assumes "good st"
  shows "step_ok row issued good rq st AtRelookup (coord_step cd cfg repo rq hp (st, AtRelookup))"
  using assms get_known[OF assms] get_state
  by (cases "hp_fault hp"; cases "snd (GetByScopeActorScopeAndKeyHash repo (cl_scope rq) (cl_actor rq) (cl_key_hash rq) st)")
    (auto simp: step_ok_def effect_def writes_nothing_def held_places place_ok_not_reclaimed)

end


context owned_idempotency_repository begin

lemma try_reclaim_owned:
  "tryReclaim repo rq ex req ft st = call ft (TryReclaimOwned cas (ir_id ex) (ir_status ex) (ir_actor ex)
     (ir_fingerprint ex) (ir_locked_until ex) (cl_now rq) (cl_locked_until rq) (cl_expires_at rq)) st"
  by (simp add: tryReclaim_def owned)

lemma reclaim_writes:
  assumes good: "good st" and knows: "knows row issued rq st (ir_id ex)"
    and free: "cl_atomic rq \<or> \<not> is_processing ex" and pl: "held pl = None"
    and run: "tryReclaim repo rq ex req ft st = (st', taken)"
  shows "good st' \<and> evolves row issued st st'"
    and "held pl' = None \<or> held pl' = Some (ir_id ex) \<and> taken = Some True \<Longrightarrow> effect row issued rq st pl st' pl'"
proof -
  let ?i = "ir_id ex" and ?op = "TryReclaimOwned cas (ir_id ex) (ir_status ex) (ir_actor ex)
     (ir_fingerprint ex) (ir_locked_until ex) (cl_now rq) (cl_locked_until rq) (cl_expires_at rq)"
    and ?f = "reclaimed_row (cl_locked_until rq) (cl_expires_at rq)"
  have st': "st' = fst (call ft ?op st)" "taken = snd (call ft ?op st)"
    using run by (simp_all add: try_reclaim_owned)
  note change = call_changes[OF reclaim_owned row_changes_identity(1) good]
  show ev: "good st' \<and> evolves row issued st st'"
    unfolding st' using change by simp
  have other: "j \<noteq> ?i \<Longrightarrow> row st' j = row st j" for j
    using change unfolding st' by (simp add: only_row_def)
  assume pl': "held pl' = None \<or> held pl' = Some (ir_id ex) \<and> taken = Some True"
  have same: "row st' = row st" if "row st' ?i = row st ?i"
    using other that by (metis ext)
  have claim: "writes_claim row issued rq st pl st' pl' ?i (?f r)"
    if r: "row st ?i = Some r" "reclaimable_owned (ir_status ex) (ir_actor ex) (ir_fingerprint ex)
         (ir_locked_until ex) (cl_now rq) r" and new: "row st' ?i = Some (?f r)" for r
  proof -
    have "row st' = (row st)(?i \<mapsto> ?f r)" by (rule ext) (simp add: new other)
    then show ?thesis
      using r knows pl pl' free
      by (auto simp: writes_claim_def knows_def reclaimed_row_def is_processing_def row_key_def reclaimable_owned_def)
  qed
  show "effect row issued rq st pl st' pl'"
  proof (cases "taken = Some True")
    case True
    then show ?thesis
      using call_taken[OF reclaim_owned good, of ft] st' claim by (fastforce simp: effect_def)
  next
    case False
    then have "held pl' = None" using pl' by simp
    then show ?thesis
      using call_row[OF reclaim_owned good, where ft = ft] claim same unfolding effect_def writes_nothing_def st' by blast
  qed
qed

lemma taken_runs:
  assumes "good st" "knows row issued rq st i" "evolves row issued st st'"
  shows "claimed i = AtRun i" "place_ok row issued rq st' (AtRun i)"
  using assms knows_evolves[OF assms(3,2)] by (auto simp: claimed_def knows_def)

lemma step_reclaim:
  fixes pl :: "'d place"
  assumes good: "good st" and pl: "pl = AtReclaimProcessing ex \<or> pl = AtReclaimExpired ex \<or> pl = AtReclaimFailed ex"
    and ok: "place_ok row issued rq st pl"
  shows "step_ok row issued good rq st pl (coord_step cd cfg repo rq hp (st, pl))"
proof -
  have knows: "knows row issued rq st (ir_id ex)" "cl_atomic rq \<or> \<not> is_processing ex" and h: "held pl = None"
    using ok pl by (auto simp: is_processing_def idempotency_status)
  obtain st' taken where run: "tryReclaim repo rq ex req (hp_fault hp) st = (st', taken)" for req
    by (metis surj_pair try_reclaim_owned)
  note w = reclaim_writes[OF good knows h run]
  have lost: "step_ok row issued good rq st pl (st', pl')" if "held pl' = None" "place_ok row issued rq st' pl'" for pl' :: "'d place"
    using w(1) w(2)[OF disjI1, OF that(1)] that(2) by (simp add: step_ok_def)
  have won: "step_ok row issued good rq st pl (st', claimed (ir_id ex))" if "taken = Some True"
    using w(1) w(2)[OF disjI2, of "AtRun (ir_id ex)"] that
    by (simp add: step_ok_def taken_runs[OF good knows(1) conjunct2[OF w(1)], simplified])
  have unavailable: "step_ok row issued good rq st pl (st', store_unavailable)" by (rule lost) simp_all
  have in_prog: "step_ok row issued good rq st pl (st', in_progress rq ex)" by (rule lost) (simp_all add: in_progress_def)
  have again: "step_ok row issued good rq st pl (st', AtRelookup)" by (rule lost) simp_all
  show ?thesis
    using pl run lost won unavailable in_prog again by (auto split: option.split bool.split)
qed

lemma persist_step:
  assumes good: "good st" and c: "ac_record c = i"
  shows "\<exists>st' c'. fst (PersistSuccess cd cfg repo ft d (st, c)) = (st', c') \<and> ac_record c' = i
    \<and> good st' \<and> evolves row issued st st' \<and> only_row row i st st'
    \<and> (\<forall>r. row st' i = Some r \<and> is_processing r \<longrightarrow> row st i = Some r)"
proof -
  have kept: ?thesis if "fst (PersistSuccess cd cfg repo ft d (st, c)) = (st, c)"
    using that good c by (auto simp: only_row_def)
  show ?thesis
  proof (cases "ac_record c \<le> 0 \<or> ac_persisted c")
    case True
    then show ?thesis by (intro kept) (simp add: PersistSuccess_def)
  next
    case False
    show ?thesis
    proof (cases "marshalAtomicStoredResponse cd cfg d")
      case None
      then show ?thesis by (intro kept) (simp add: PersistSuccess_def)
    next
      case (Some body)
      let ?op = "ExecPersist repo i (ac_actor c) (ac_fingerprint c) (ac_locked_until c) body (ac_expires_at c)"
      have "\<not> is_processing (succeeded_row 200 body e r)" for e r
        by (simp add: is_processing_def succeeded_row_def idempotency_status)
      then have "\<forall>r. row (fst (call ft ?op st)) i = Some r \<and> is_processing r \<longrightarrow> row st i = Some r"
        using call_row[OF persist good, of ft i "ac_actor c" "ac_fingerprint c" "ac_locked_until c" body "ac_expires_at c"]
        by auto
      moreover have "fst (fst (PersistSuccess cd cfg repo ft d (st, c))) = fst (call ft ?op st)"
        "ac_record (snd (fst (PersistSuccess cd cfg repo ft d (st, c)))) = i"
        using False Some c by (auto simp: PersistSuccess_def split: prod.split option.split bool.split)
      ultimately show ?thesis
        using call_changes[OF persist row_changes_identity(3) good, of ft i] by (metis prod.collapse)
    qed
  qed
qed

lemma persist_all_step:
  assumes "good st" "ac_record c = i"
  shows "\<exists>st' c'. persist_all cd cfg repo ds (st, c) = (st', c') \<and> good st' \<and> evolves row issued st st'
    \<and> only_row row i st st' \<and> (\<forall>r. row st' i = Some r \<and> is_processing r \<longrightarrow> row st i = Some r)"
  using assms
proof (induction ds arbitrary: st c)
  case Nil
  then show ?case by (simp add: only_row_def)
next
  case (Cons a ds)
  obtain d ft where a: "a = (d, ft)" by force
  from persist_step[OF Cons.prems, of cd cfg ft d] obtain st1 c1 where
    1: "fst (PersistSuccess cd cfg repo ft d (st, c)) = (st1, c1)" "ac_record c1 = i" "good st1"
      "evolves row issued st st1" "only_row row i st st1"
      "\<forall>r. row st1 i = Some r \<and> is_processing r \<longrightarrow> row st i = Some r"
    by blast
  from Cons.IH[OF 1(3,2)] show ?case
    using 1 a evolves_trans[OF 1(4)] by (fastforce simp: only_row_def)
qed

end


context owned_idempotency_repository begin

lemma step_run:
  assumes good: "good st" and ok: "knows row issued rq st i"
  shows "step_ok row issued good rq st (AtRun i) (coord_step cd cfg repo rq hp (st, AtRun i))"
proof (cases "cl_atomic rq")
  case True
  have "ac_record (atomic_claim rq i) = i" by (simp add: atomic_claim_def)
  from persist_all_step[OF good this, of cd cfg "bz_persists (hp_business hp)"] obtain st1 c1 where
    1: "persist_all cd cfg repo (bz_persists (hp_business hp)) (st, atomic_claim rq i) = (st1, c1)"
      "good st1" "evolves row issued st st1" "only_row row i st st1"
      "\<forall>r. row st1 i = Some r \<and> is_processing r \<longrightarrow> row st i = Some r"
    by blast
  have writes: "writes_outcome row rq st (AtRun i) st2 pl' i"
    if "held pl' = None \<or> held pl' = Some i" "st2 = st \<or> st2 = st1" for st2 pl'
    using that 1 True by (auto simp: writes_outcome_def only_row_def)
  have effect: "effect row issued rq st (AtRun i) st2 pl'"
    if "held pl' = None \<or> held pl' = Some i" "st2 = st \<or> st2 = st1" for st2 pl'
    unfolding effect_def using writes[OF that] by blast
  show ?thesis
    using 1 good True ok knows_evolves[OF 1(3) ok]
    by (cases "bz_commits (hp_business hp)")
      (auto simp: step_ok_def run_business_def intro!: effect split: sum.split)
next
  case False
  then show ?thesis
    using good ok
    by (auto simp: step_ok_def run_business_def effect_def writes_nothing_def held_places not_stored_def
        split: sum.split option.split)
qed

lemma outcome_ends:
  assumes good: "good st" and op: "changes_row good row issued i g f op" "keeps_identity f"
    and f: "\<And>r. \<not> is_processing (f r)"
    and pl: "held pl = Some i" "held pl' = None" "place_ok row issued rq (fst (call ft op st)) pl'"
  shows "step_ok row issued good rq st pl (fst (call ft op st), pl')"
proof -
  have "writes_outcome row rq st pl (fst (call ft op st)) pl' i"
    using call_changes[OF op good, of ft] call_row[OF op(1) good, of ft] f pl by (auto simp: writes_outcome_def)
  then show ?thesis
    using call_changes[OF op good, of ft] pl by (auto simp: step_ok_def effect_def)
qed

lemma not_processing:
  "\<not> is_processing (succeeded_row code body e r)" "\<not> is_processing (failed_row why l e r)"
  by (simp_all add: is_processing_def row_changes idempotency_status)

lemma step_mark_failed:
  assumes "good st"
  shows "step_ok row issued good rq st (AtMarkFailed i err) (coord_step cd cfg repo rq hp (st, AtMarkFailed i err))"
  by (auto simp: owned Let_def intro!: outcome_ends[OF assms fail_owned row_changes_identity(4) not_processing(2)]
    outcome_ends[OF assms fail row_changes_identity(4) not_processing(2)])

lemma step_mark_succeeded:
  fixes data :: 'd
  assumes "good st"
  shows "step_ok row issued good rq st (AtMarkSucceeded i data body)
    (coord_step cd cfg repo rq hp (st, AtMarkSucceeded i data body))"
proof -
  let ?op = "MarkSucceeded repo i 200 body (cl_expires_at rq)"
  have ends: "step_ok row issued good rq st (AtMarkSucceeded i data body) (fst (call (hp_fault hp) ?op st), pl')"
    if "held pl' = None" "\<And>st'. place_ok row issued rq st' pl'" for pl' :: "'d place"
    by (rule outcome_ends[OF assms succeed row_changes_identity(3) not_processing(1)]) (simp_all add: that)
  have stored: "step_ok row issued good rq st (AtMarkSucceeded i data body)
      (fst (call (hp_fault hp) ?op st), Returned res)" for res
    by (rule ends) simp_all
  have unstored: "step_ok row issued good rq st (AtMarkSucceeded i data body)
      (fst (call (hp_fault hp) ?op st), not_stored rq data)"
    by (rule ends) (simp_all add: not_stored_def)
  show ?thesis
    using stored unstored by (auto split: prod.split option.split bool.split)
qed

text \<open>Every step of every request.\<close>

lemma step_is_ok:
  assumes "good st" "place_ok row issued rq st pl"
  shows "step_ok row issued good rq st pl (coord_step cd cfg repo rq hp (st, pl))"
proof (cases pl)
  case (Returned res)
  then show ?thesis using assms by (simp add: step_ok_def effect_def writes_nothing_def)
next
  case (AtReclaimProcessing ex)
  show ?thesis by (rule step_reclaim[of st pl ex]) (use assms AtReclaimProcessing in auto)
next
  case (AtReclaimExpired ex)
  show ?thesis by (rule step_reclaim[of st pl ex]) (use assms AtReclaimExpired in auto)
next
  case (AtReclaimFailed ex)
  show ?thesis by (rule step_reclaim[of st pl ex]) (use assms AtReclaimFailed in auto)
qed (use assms step_create step_lookup step_relookup step_run step_mark_failed step_mark_succeeded in
     \<open>auto simp del: coord_step.simps\<close>)

end


section \<open>Invariants of the system\<close>

definition requests_ok :: "('st \<Rightarrow> int \<Rightarrow> IdempotencyRecord option) \<Rightarrow> ('st \<Rightarrow> int set) \<Rightarrow> ('st \<Rightarrow> bool)
    \<Rightarrow> (string \<Rightarrow> bool) \<Rightarrow> ('st, 'd) idem_system \<Rightarrow> bool" where
  "requests_ok row issued good mode s \<longleftrightarrow> good (sys_store s)
     \<and> (\<forall>p rq pl. sys_requests s p = Some (rq, pl) \<longrightarrow>
          place_ok row issued rq (sys_store s) pl \<and> cl_atomic rq = mode (cl_scope rq))"

text \<open>No two requests wrote the same lock: their clocks read different instants.\<close>

definition distinct_locks :: "('st, 'd) idem_system \<Rightarrow> bool" where
  "distinct_locks s \<longleftrightarrow> (\<forall>p q rp pp rq pq. sys_requests s p = Some (rp, pp) \<and> sys_requests s q = Some (rq, pq)
     \<and> cl_locked_until rp = cl_locked_until rq \<longrightarrow> p = q)"

text \<open>A record that carries the lock of a request that holds it has not been claimed since.\<close>

definition owner_ok :: "('st \<Rightarrow> int \<Rightarrow> IdempotencyRecord option) \<Rightarrow> ('st, 'd) idem_system \<Rightarrow> bool" where
  "owner_ok row s \<longleftrightarrow> (\<forall>p rq pl i r. sys_requests s p = Some (rq, pl) \<and> held pl = Some i
     \<and> row (sys_store s) i = Some r \<and> is_processing r \<and> ir_locked_until r = Some (cl_locked_until rq)
     \<longrightarrow> sys_owner s i = Some p)"

text \<open>A plain request that holds a record is the only plain one, and the record says so.\<close>

definition plain_ok :: "('st \<Rightarrow> int \<Rightarrow> IdempotencyRecord option) \<Rightarrow> ('st, 'd) idem_system \<Rightarrow> bool" where
  "plain_ok row s \<longleftrightarrow> (\<forall>p rq pl i. sys_requests s p = Some (rq, pl) \<and> \<not> cl_atomic rq \<and> held pl = Some i \<longrightarrow>
     (\<forall>r. row (sys_store s) i = Some r \<longrightarrow> is_processing r)
     \<and> (\<forall>q rq' pl'. sys_requests s q = Some (rq', pl') \<and> \<not> cl_atomic rq' \<and> held pl' = Some i \<longrightarrow> q = p))"

context owned_idempotency_repository begin

lemma cleanup_rows:
  assumes "good st"
  shows "good (cleanupOnce repo batch ft now st) \<and> evolves row issued st (cleanupOnce repo batch ft now st)
    \<and> (row (cleanupOnce repo batch ft now st) i = row st i \<or> row (cleanupOnce repo batch ft now st) i = None)"
proof -
  have kept: "row (fst (DeleteExpired repo now batch st)) j = row st j \<or> row (fst (DeleteExpired repo now batch st)) j = None" for j
    using delete[OF assms, of now batch j] by auto
  then have "row (fst (DeleteExpired repo now batch st)) j = Some r \<Longrightarrow> row st j = Some r" for j r
    by (metis option.distinct(1))
  then show ?thesis
    using assms delete[OF assms, of now batch] kept by (cases ft) (auto simp: cleanupOnce_def evolves_def)
qed

lemma requests_ok_step:
  assumes "idem_step cd cfg repo mode s s'" "requests_ok row issued good mode s"
  shows "requests_ok row issued good mode s'"
  using assms
proof cases
  case (advance p rq pl hp st' pl')
  then have "step_ok row issued good rq (sys_store s) pl (st', pl')"
    using step_is_ok[of "sys_store s" rq pl cd cfg hp] assms(2) unfolding requests_ok_def by metis
  then show ?thesis
    using advance assms(2) by (auto simp: step_ok_def requests_ok_def intro: place_ok_evolves)
next
  case (cleanup batch ft now)
  then show ?thesis
    using assms(2) cleanup_rows[of "sys_store s"]
    by (auto simp: requests_ok_def intro: place_ok_evolves[of row issued "sys_store s"])
qed (auto simp: requests_ok_def)

text \<open>The step of one request, as the invariants use it.\<close>

lemma advance_effect:
  assumes "requests_ok row issued good mode s" "sys_requests s p = Some (rq, pl)"
    and "coord_step cd cfg repo rq hp (sys_store s, pl) = (st', pl')"
  shows "effect row issued rq (sys_store s) pl st' pl'"
    and "evolves row issued (sys_store s) st'" and "held pl = Some i \<Longrightarrow> knows row issued rq (sys_store s) i"
  using step_is_ok[of "sys_store s" rq pl cd cfg hp] assms
  by (auto simp: requests_ok_def step_ok_def intro: held_knows)

end


text \<open>Two requests of different kinds never know the same row.\<close>

lemma knows_same_kind:
  assumes "knows row issued rq st i" "knows row issued rq' st i" "row st i = Some r"
    and "cl_atomic rq = mode (cl_scope rq)" "cl_atomic rq' = mode (cl_scope rq')"
  shows "cl_atomic rq = cl_atomic rq'"
  using assms by (auto simp: knows_def claim_key_def)

lemma owner_ok_I:
  assumes "\<And>p rq pl i r. sys_requests s p = Some (rq, pl) \<Longrightarrow> held pl = Some i \<Longrightarrow> row (sys_store s) i = Some r
    \<Longrightarrow> is_processing r \<Longrightarrow> ir_locked_until r = Some (cl_locked_until rq) \<Longrightarrow> sys_owner s i = Some p"
  shows "owner_ok row s"
  using assms unfolding owner_ok_def by blast

lemma owner_ok_D:
  "owner_ok row s \<Longrightarrow> sys_requests s p = Some (rq, pl) \<Longrightarrow> held pl = Some i \<Longrightarrow> row (sys_store s) i = Some r
    \<Longrightarrow> is_processing r \<Longrightarrow> ir_locked_until r = Some (cl_locked_until rq) \<Longrightarrow> sys_owner s i = Some p"
  unfolding owner_ok_def by blast

lemma plain_ok_D:
  assumes "plain_ok row s" "sys_requests s p = Some (rq, pl)" "\<not> cl_atomic rq" "held pl = Some i"
  shows "row (sys_store s) i = Some r \<Longrightarrow> is_processing r"
    and "sys_requests s q = Some (rq', pl') \<Longrightarrow> \<not> cl_atomic rq' \<Longrightarrow> held pl' = Some i \<Longrightarrow> q = p"
  using assms unfolding plain_ok_def by blast+

lemma plain_ok_I:
  assumes "\<And>p rq pl i r. sys_requests s p = Some (rq, pl) \<Longrightarrow> \<not> cl_atomic rq \<Longrightarrow> held pl = Some i
      \<Longrightarrow> row (sys_store s) i = Some r \<Longrightarrow> is_processing r"
    and "\<And>p rq pl i q rq' pl'. sys_requests s p = Some (rq, pl) \<Longrightarrow> \<not> cl_atomic rq \<Longrightarrow> held pl = Some i
      \<Longrightarrow> sys_requests s q = Some (rq', pl') \<Longrightarrow> \<not> cl_atomic rq' \<Longrightarrow> held pl' = Some i \<Longrightarrow> q = p"
  shows "plain_ok row s"
  using assms unfolding plain_ok_def by blast

lemma distinct_locks_D:
  "distinct_locks s \<Longrightarrow> sys_requests s p = Some (rp, pp) \<Longrightarrow> sys_requests s q = Some (rq, pq)
    \<Longrightarrow> cl_locked_until rp = cl_locked_until rq \<Longrightarrow> p = q"
  unfolding distinct_locks_def by blast

lemma new_owner_kept: "held pl' = None \<or> held pl \<noteq> None \<or> held pl' = held pl \<Longrightarrow> new_owner p pl pl' owner = owner"
  by (auto simp: new_owner_def split: option.splits)

lemma new_owner_claim: "held pl = None \<Longrightarrow> held pl' = Some i \<Longrightarrow> new_owner p pl pl' owner = owner(i \<mapsto> p)"
  by (simp add: new_owner_def)

context owned_idempotency_repository begin

lemma owner_ok_advance:
  assumes ok: "requests_ok row issued good mode s" and own: "owner_ok row s"
    and p: "sys_requests s p = Some (rq, pl)" and run: "coord_step cd cfg repo rq hp (sys_store s, pl) = (st', pl')"
    and s': "s' = \<lparr>sys_store = st', sys_requests = (sys_requests s)(p \<mapsto> (rq, pl')),
      sys_owner = new_owner p pl pl' (sys_owner s)\<rparr>"
    and dist: "distinct_locks s'"
  shows "owner_ok row s'"
proof (rule owner_ok_I)
  fix q rq' pq j r
  assume q: "sys_requests s' q = Some (rq', pq)" "held pq = Some j" "row (sys_store s') j = Some r"
    "is_processing r" "ir_locked_until r = Some (cl_locked_until rq')"
  have before: "sys_requests s q = Some (rq', if q = p then pl else pq)"
    using q(1) p by (auto simp: s' split: if_splits)
  from advance_effect(1)[OF ok p run] consider
    "writes_nothing row (sys_store s) pl st' pl'"
    | i r' where "writes_claim row issued rq (sys_store s) pl st' pl' i r'"
    | i where "writes_outcome row rq (sys_store s) pl st' pl' i"
    by (auto simp: effect_def)
  then show "sys_owner s' j = Some q"
  proof cases
    case 1
    then have "held (if q = p then pl else pq) = Some j" "row (sys_store s) j = Some r"
      using q by (auto simp: writes_nothing_def s' split: if_splits)
    from owner_ok_D[OF own before this q(4,5)] show ?thesis
      using 1 by (auto simp: s' writes_nothing_def new_owner_kept)
  next
    case (2 i r')
    show ?thesis
    proof (cases "q = p")
      case True
      then have "held pl' = Some j" using q by (simp add: s')
      moreover have "j = i" using 2 calculation by (auto simp: writes_claim_def)
      ultimately show ?thesis using 2 True by (simp add: s' writes_claim_def new_owner_claim)
    next
      case False
      have "j \<noteq> i"
      proof
        assume "j = i"
        then have "cl_locked_until rq = cl_locked_until rq'" using 2 q by (auto simp: s' writes_claim_def)
        moreover have "sys_requests s' p = Some (rq, pl')" by (simp add: s')
        ultimately show False using distinct_locks_D[OF dist _ q(1)] False by blast
      qed
      then have "row (sys_store s) j = Some r" "new_owner p pl pl' (sys_owner s) j = sys_owner s j"
        using 2 q by (auto simp: s' writes_claim_def new_owner_def split: option.split)
      with owner_ok_D[OF own before _ this(1) q(4,5)] False q show ?thesis by (simp add: s')
    qed
  next
    case (3 i)
    then have "held (if q = p then pl else pq) = Some j" "row (sys_store s) j = Some r"
      using q by (auto simp: writes_outcome_def only_row_def s' split: if_splits)
    from owner_ok_D[OF own before this q(4,5)] show ?thesis
      using 3 by (auto simp: s' writes_outcome_def new_owner_kept)
  qed
qed

lemma owner_ok_step:
  assumes "idem_step cd cfg repo mode s s'" "requests_ok row issued good mode s" "owner_ok row s" "distinct_locks s'"
  shows "owner_ok row s'"
  using assms(1)
proof cases
  case (arrive p exe opts now rq)
  then show ?thesis using assms(3) by (auto simp: owner_ok_def)
next
  case (advance p rq pl hp st' pl')
  then show ?thesis using owner_ok_advance[OF assms(2,3) advance(2,3) advance(1) assms(4)] by simp
next
  case (cleanup batch ft now)
  have "row (cleanupOnce repo batch ft now (sys_store s)) i = Some r \<Longrightarrow> row (sys_store s) i = Some r" for i r
    using assms(2) cleanup_rows[of "sys_store s" batch ft now i] by (auto simp: requests_ok_def)
  then show ?thesis
    using assms(3) cleanup unfolding owner_ok_def by auto
qed

lemma plain_ok_advance:
  assumes ok: "requests_ok row issued good mode s" and inv: "plain_ok row s"
    and q: "sys_requests s q = Some (rq, pl)" and run: "coord_step cd cfg repo rq hp (sys_store s, pl) = (st', pl')"
    and s': "s' = \<lparr>sys_store = st', sys_requests = (sys_requests s)(q \<mapsto> (rq, pl')),
      sys_owner = new_owner q pl pl' (sys_owner s)\<rparr>"
  shows "plain_ok row s'"
proof -
  note eff = advance_effect[OF ok q run]
  have kinds: "sys_requests s p = Some (rp, pp) \<Longrightarrow> place_ok row issued rp (sys_store s) pp
      \<and> cl_atomic rp = mode (cl_scope rp)" for p rp pp
    using ok by (auto simp: requests_ok_def)
  have knows: "sys_requests s p = Some (rp, pp) \<Longrightarrow> held pp = Some i \<Longrightarrow> knows row issued rp (sys_store s) i" for p rp pp i
    by (rule held_knows[OF conjunct1[OF kinds]])
  show ?thesis
  proof (rule plain_ok_I)
    fix p rp pp i r
    assume p: "sys_requests s' p = Some (rp, pp)" "\<not> cl_atomic rp" "held pp = Some i" and r: "row (sys_store s') i = Some r"
    have before: "sys_requests s p = Some (rp, if p = q then pl else pp)"
      using p(1) q by (auto simp: s' split: if_splits)
    from eff(1) consider "writes_nothing row (sys_store s) pl st' pl'"
      | k r' where "writes_claim row issued rq (sys_store s) pl st' pl' k r'"
      | k where "writes_outcome row rq (sys_store s) pl st' pl' k"
      by (auto simp: effect_def)
    then show "is_processing r"
    proof cases
      case 1
      then have "held (if p = q then pl else pp) = Some i" "row (sys_store s) i = Some r"
        using p r by (auto simp: writes_nothing_def s' split: if_splits)
      then show ?thesis using plain_ok_D(1)[OF inv before p(2)] by blast
    next
      case (2 k r')
      show ?thesis
      proof (cases "i = k")
        case True
        then show ?thesis using 2 r by (auto simp: writes_claim_def s')
      next
        case False
        then have "p \<noteq> q" using 2 p by (auto simp: writes_claim_def s')
        moreover have "row (sys_store s) i = Some r" using 2 r False by (auto simp: writes_claim_def s')
        ultimately show ?thesis using plain_ok_D(1)[OF inv before p(2)] p(3) by simp
      qed
    next
      case (3 k)
      show ?thesis
      proof (cases "p = q")
        case True
        then have "row st' = row (sys_store s)" "held pl = Some i"
          using 3 p q by (auto simp: writes_outcome_def s')
        then show ?thesis using plain_ok_D(1)[OF inv before p(2)] True r by (simp add: s')
      next
        case False
        have here: "held pp = Some i" "sys_requests s p = Some (rp, pp)" using p before False by auto
        show ?thesis
        proof (cases "row (sys_store s) i")
          case (Some r0)
          have "i \<noteq> k"
          proof
            assume "i = k"
            then have "held pl = Some i" using 3 by (simp add: writes_outcome_def)
            moreover from this have "\<not> cl_atomic rq"
              using knows_same_kind[OF knows[OF here(2,1)] knows[OF q] Some] kinds[OF here(2)] kinds[OF q] p(2) by blast
            ultimately show False using plain_ok_D(2)[OF inv here(2) p(2) here(1) q] False by simp
          qed
          then have "row (sys_store s) i = Some r" using 3 r by (auto simp: writes_outcome_def only_row_def s')
          then show ?thesis using plain_ok_D(1)[OF inv here(2) p(2) here(1)] by blast
        next
          case None
          then show ?thesis
            using knows[OF here(2,1)] eff(2) r by (auto simp: knows_def evolves_def s')
        qed
      qed
    qed
  next
    fix p rp pp i x rx px
    assume p: "sys_requests s' p = Some (rp, pp)" "\<not> cl_atomic rp" "held pp = Some i"
      and x: "sys_requests s' x = Some (rx, px)" "\<not> cl_atomic rx" "held px = Some i"
    have nobody: False
      if a: "sys_requests s a = Some (ra, pa)" "\<not> cl_atomic ra" "held pa = Some i" "a \<noteq> q"
        and new: "\<not> cl_atomic rq" "held pl' = Some i" for a ra pa
    proof (cases "held pl = Some i")
      case True
      then show False using plain_ok_D(2)[OF inv a(1-3) q new(1)] a(4) by simp
    next
      case False
      from eff(1) False new obtain r' where claim: "writes_claim row issued rq (sys_store s) pl st' pl' i r'"
        by (auto simp: effect_def writes_nothing_def writes_outcome_def writes_claim_def)
      have "i \<in> issued (sys_store s)" using knows[OF a(1,3)] by (simp add: knows_def)
      then obtain r0 where "row (sys_store s) i = Some r0" "\<not> is_processing r0"
        using claim new by (auto simp: writes_claim_def)
      then show False using plain_ok_D(1)[OF inv a(1-3)] by blast
    qed
    show "x = p"
      using plain_ok_D(2)[OF inv, of p rp pp i x rx px] p x nobody[of p rp pp] nobody[of x rx px]
      by (auto simp: s' split: if_splits)
  qed
qed

lemma plain_ok_step:
  assumes "idem_step cd cfg repo mode s s'" "requests_ok row issued good mode s" "plain_ok row s"
  shows "plain_ok row s'"
  using assms(1)
proof cases
  case (arrive p exe opts now rq)
  then show ?thesis using assms(3) by (auto simp: plain_ok_def)
next
  case (advance p rq pl hp st' pl')
  then show ?thesis using plain_ok_advance[OF assms(2,3) advance(2,3)] by simp
next
  case (cleanup batch ft now)
  have "row (cleanupOnce repo batch ft now (sys_store s)) i = Some r \<Longrightarrow> row (sys_store s) i = Some r" for i r
    using assms(2) cleanup_rows[of "sys_store s" batch ft now i] by (auto simp: requests_ok_def)
  then show ?thesis
    using assms(3) cleanup unfolding plain_ok_def by auto
qed

lemma distinct_locks_before:
  assumes "idem_step cd cfg repo mode s s'" "distinct_locks s'"
  shows "distinct_locks s"
  using assms
proof cases
  case (arrive p exe opts now rq)
  then have "sys_requests s q = Some x \<Longrightarrow> sys_requests s' q = Some x" for q x by auto
  then show ?thesis using assms(2) unfolding distinct_locks_def by blast
next
  case (advance p rq pl hp st' pl')
  then have "sys_requests s q = Some (r, x) \<Longrightarrow> \<exists>y. sys_requests s' q = Some (r, y)" for q r x by auto
  then show ?thesis using assms(2) unfolding distinct_locks_def by metis
qed (auto simp: distinct_locks_def)

lemma reach_ok:
  assumes "idem_reach cd cfg repo mode st s" "good st"
  shows "requests_ok row issued good mode s \<and> plain_ok row s \<and> (distinct_locks s \<longrightarrow> owner_ok row s)"
  using assms(1)
proof induction
  case start
  then show ?case by (simp add: requests_ok_def plain_ok_def owner_ok_def idem_start_def assms(2))
next
  case (step s s')
  then show ?case
    using requests_ok_step plain_ok_step owner_ok_step distinct_locks_before by blast
qed

end


section \<open>Playing an interleaving\<close>

text \<open>An interleaving as a script: which request arrives or advances next.\<close>

datatype 'd move = Arrives nat claim_request | Advances nat "'d happening"

fun play :: "'d codec \<Rightarrow> IdempotencyConfig \<Rightarrow> 'st IdempotencyRepository \<Rightarrow> 'd move list
    \<Rightarrow> ('st, 'd) idem_system \<Rightarrow> ('st, 'd) idem_system" where
  "play cd cfg repo [] s = s"
| "play cd cfg repo (Arrives p rq # ms) s =
     play cd cfg repo ms (s\<lparr>sys_requests := (sys_requests s)(p \<mapsto> (rq, AtCreate))\<rparr>)"
| "play cd cfg repo (Advances p hp # ms) s =
     (case sys_requests s p of
        None \<Rightarrow> play cd cfg repo ms s
      | Some (rq, pl) \<Rightarrow>
          (case coord_step cd cfg repo rq hp (sys_store s, pl) of
             (st', pl') \<Rightarrow> play cd cfg repo ms \<lparr>sys_store = st', sys_requests = (sys_requests s)(p \<mapsto> (rq, pl')),
               sys_owner = new_owner p pl pl' (sys_owner s)\<rparr>))"

text \<open>Arrivals of fresh requests that some options prepare.\<close>

fun fair_script :: "'d codec \<Rightarrow> IdempotencyConfig \<Rightarrow> (string \<Rightarrow> bool) \<Rightarrow> nat set \<Rightarrow> 'd move list \<Rightarrow> bool" where
  "fair_script cd cfg mode used [] = True"
| "fair_script cd cfg mode used (Arrives p rq # ms) =
     (p \<notin> used \<and> cl_atomic rq = mode (cl_scope rq) \<and> (\<exists>exe opts now. prepare cd cfg True exe opts now = Claiming rq)
      \<and> fair_script cd cfg mode (insert p used) ms)"
| "fair_script cd cfg mode used (Advances p hp # ms) = fair_script cd cfg mode used ms"

lemma play_reach:
  assumes "idem_reach cd cfg repo mode st s" "fair_script cd cfg mode used ms" "dom (sys_requests s) \<subseteq> used"
  shows "idem_reach cd cfg repo mode st (play cd cfg repo ms s)"
  using assms
proof (induction cd cfg repo ms s arbitrary: used rule: play.induct)
  case (2 cd cfg repo p rq ms s)
  then obtain exe opts now where "prepare cd cfg True exe opts now = Claiming rq" "p \<notin> used"
    "cl_atomic rq = mode (cl_scope rq)" by auto
  then have "idem_reach cd cfg repo mode st (s\<lparr>sys_requests := (sys_requests s)(p \<mapsto> (rq, AtCreate))\<rparr>)"
    using 2(2,4) by (intro idem_reach.step[OF 2(2)] idem_step.arrive) auto
  moreover have "dom (sys_requests (s\<lparr>sys_requests := (sys_requests s)(p \<mapsto> (rq, AtCreate))\<rparr>)) \<subseteq> insert p used"
    using 2(4) by auto
  ultimately show ?case using 2(1)[of "insert p used"] 2(3) by (simp del: dom_fun_upd fun_upd_apply)
next
  case (3 cd cfg repo p hp ms s)
  show ?case
  proof (cases "sys_requests s p")
    case None
    then show ?thesis using 3 by simp
  next
    case (Some a)
    obtain rq pl where a: "a = (rq, pl)" by force
    obtain st' pl' where run: "coord_step cd cfg repo rq hp (sys_store s, pl) = (st', pl')" by force
    let ?s = "\<lparr>sys_store = st', sys_requests = (sys_requests s)(p \<mapsto> (rq, pl')), sys_owner = new_owner p pl pl' (sys_owner s)\<rparr>"
    have "idem_reach cd cfg repo mode st ?s"
      using 3(3) idem_step.advance[OF Some[unfolded a] run] by (rule idem_reach.step)
    moreover have "dom (sys_requests ?s) \<subseteq> used" using 3(5) Some by auto
    moreover have "fair_script cd cfg mode used ms" using 3(4) by simp
    ultimately have "idem_reach cd cfg repo mode st (play cd cfg repo ms ?s)"
      using 3(2)[OF Some a[symmetric] run[symmetric]] by blast
    then show ?thesis using Some a run by simp
  qed
qed simp

text \<open>Requests over the demo codec: all are prepared from the same options.\<close>

definition demo_config :: IdempotencyConfig where
  "demo_config = DefaultIdempotencyConfig\<lparr>ProcessingTimeout := 10\<rparr>"

lemma demo_fair:
  "\<exists>exe opts now'. prepare text_codec demo_config True exe opts now' = Claiming (demo_claim atomic now 10)"
  by (rule exI[of _ "if atomic then AtomicExecutor else PlainExecutor"], rule exI[of _ demo_options], rule exI[of _ now])
    (simp add: demo_prepare demo_config_def)

lemma demo_stored_here: "marshalStoredResponse text_codec demo_config ''ok'' = Some ''ok''"
  by (simp add: marshalStoredResponse_def text_codec_def DefaultIdempotencyConfig_def demo_config_def)

lemmas demo_run = idem_start_def empty_idem_table_def calm_def sql_repository_def sql_owned_repository_def
  sql_statements update_row_def row_changes row_guards claim_record_def row_key_def claimed_def
  found_def locked_after_def tryReclaim_def new_owner_def idempotency_status run_business_def demo_stored_here
  in_progress_def not_reclaimed_def Let_def

definition atomic_sched :: "string move list" where
  "atomic_sched = [Arrives 0 (demo_claim True 0 10), Advances 0 calm,
     Arrives 1 (demo_claim True 40 10), Advances 1 calm, Advances 1 calm, Advances 1 calm]"

lemma demo_key_eq: "claim_key (demo_claim a t d) = (''s'', ''u'', ''k'')"
  by (simp add: claim_key_def demo_claim_def)

lemma atomic_sched_state:
  "play text_codec demo_config sql_repository atomic_sched (idem_start empty_idem_table)
   = \<lparr>sys_store = \<lparr>idem_rows = [reclaimed_row 50 140 (created_row 1 (claim_record (demo_claim True 0 10)))], next_id = 3\<rparr>,
      sys_requests = [0 \<mapsto> (demo_claim True 0 10, AtRun 1), 1 \<mapsto> (demo_claim True 40 10, AtRun 1)],
      sys_owner = [1 \<mapsto> 1]\<rparr>"
  by (simp add: atomic_sched_def demo_run demo_claim_def)

section \<open>What the protocol guarantees, and what it does not\<close>

text \<open>
  C6: An atomic request that lost its record to a later claim cannot store a success or a
  failure any more, in any interleaving of requests whose clocks differ: PersistSuccess reports
  the store unavailable, so its transaction is not committed as a success, and neither call
  changes a row.
\<close>
theorem overtaken_claim_rejected:
  assumes reach: "idem_reach cd cfg sql_repository mode st s" and good: "good_table st" and clocks: "distinct_locks s"
    and p: "sys_requests s p = Some (rq, pl)" "held pl = Some i" "cl_atomic rq"
    and lost: "sys_owner s i \<noteq> Some p"
  shows "\<exists>st' c. PersistSuccess cd cfg sql_repository ft data (sys_store s, atomic_claim rq i)
      = ((st', c), Some ErrIdempotencyStoreUnavail) \<and> \<not> ac_persisted c \<and> table_row st' = table_row (sys_store s)
    \<and> table_row (mark_failed cfg sql_repository rq i err hp (sys_store s)) = table_row (sys_store s)"
proof -
  let ?st = "sys_store s"
  have ok: "good_table ?st" "owner_ok table_row s"
    using sql.reach_ok[OF reach good] clocks by (auto simp: requests_ok_def)
  have not_owned: "\<not> owned_by (cl_actor rq) (cl_fingerprint rq) (cl_locked_until rq) r"
    if "table_row ?st i = Some r" for r
    using owner_ok_D[OF ok(2) p(1,2) that] lost by (auto simp: owned_by_def is_processing_def)
  have same: "table_row (fst (call ft' op ?st)) = table_row ?st" "snd (call ft' op ?st) \<noteq> Some True"
    if "changes_row good_table table_row table_issued i (owned_by (cl_actor rq) (cl_fingerprint rq) (cl_locked_until rq)) f op"
    for f op ft'
    using that ok(1) not_owned by (cases ft'; force simp: changes_row_def)+
  show ?thesis
  proof (cases "i \<le> 0 \<or> marshalAtomicStoredResponse cd cfg data = None")
    case True
    then show ?thesis
      using same(1)[OF sql.fail_owned] p(3)
      by (auto simp: PersistSuccess_def atomic_claim_def sql.owned Let_def split: option.split)
  next
    case False
    then obtain body where body: "marshalAtomicStoredResponse cd cfg data = Some body" by auto
    obtain st' res where run: "call ft (ExecPersist sql_repository i (cl_actor rq) (cl_fingerprint rq)
        (cl_locked_until rq) body (cl_expires_at rq)) ?st = (st', res)" by force
    then have "table_row st' = table_row ?st" "res \<noteq> Some True"
      using same[OF sql.persist, of ft body "cl_expires_at rq"] by simp_all
    then show ?thesis
      using False body run same(1)[OF sql.fail_owned] p(3)
      by (auto simp: PersistSuccess_def atomic_claim_def sql.owned Let_def split: option.split bool.split)
  qed
qed

lemma overtaken_claim_rejected_witness:
  "\<exists>s st' c. idem_reach text_codec demo_config sql_repository (\<lambda>_. True) empty_idem_table s
    \<and> PersistSuccess text_codec demo_config sql_repository Fine ''late'' (sys_store s, atomic_claim (demo_claim True 0 10) 1)
      = ((st', c), Some ErrIdempotencyStoreUnavail)"
proof -
  let ?s = "play text_codec demo_config sql_repository atomic_sched (idem_start empty_idem_table)"
  have reach: "idem_reach text_codec demo_config sql_repository (\<lambda>_. True) empty_idem_table ?s"
    by (rule play_reach[OF idem_reach.start, where used = "{}"])
      (simp_all add: atomic_sched_def demo_fair idem_start_def, simp_all add: demo_claim_def)
  have dist: "distinct_locks ?s"
    unfolding atomic_sched_state by (auto simp: distinct_locks_def demo_claim_def split: if_splits)
  have state: "sys_requests ?s 0 = Some (demo_claim True 0 10, AtRun 1)" "sys_owner ?s 1 \<noteq> Some 0"
    unfolding atomic_sched_state by simp_all
  have "cl_atomic (demo_claim True 0 10)" by (simp add: demo_claim_def)
  from overtaken_claim_rejected[OF reach good_empty_table dist state(1) _ this state(2), of Fine "''late''"]
  have "\<exists>st' c. PersistSuccess text_codec demo_config sql_repository Fine ''late'' (sys_store ?s, atomic_claim (demo_claim True 0 10) 1)
      = ((st', c), Some ErrIdempotencyStoreUnavail)"
    by (metis held.simps(1))
  with reach show ?thesis by blast
qed

text \<open>
  At most one plain request holds a key: two requests with the same key that both believe
  they own a record, and whose records are still in the table, are the same request. So the
  business function of a plain request never runs twice at the same time.
\<close>
theorem plain_requests_exclude:
  assumes reach: "idem_reach cd cfg sql_repository mode st s" and good: "good_table st"
    and p: "sys_requests s p = Some (rp, pp)" "\<not> cl_atomic rp" "held pp = Some i" "table_row (sys_store s) i \<noteq> None"
    and q: "sys_requests s q = Some (rq, pq)" "\<not> cl_atomic rq" "held pq = Some j" "table_row (sys_store s) j \<noteq> None"
    and key: "claim_key rp = claim_key rq"
  shows "p = q"
proof -
  have ok: "requests_ok table_row table_issued good_table mode s" "plain_ok table_row s"
    using sql.reach_ok[OF reach good] by auto
  then have g: "good_table (sys_store s)" by (simp add: requests_ok_def)
  have "knows table_row table_issued rp (sys_store s) i" "knows table_row table_issued rq (sys_store s) j"
    using ok(1) p q held_knows unfolding requests_ok_def by metis+
  with p(4) q(4) key have "i = j" by (auto simp: knows_def intro: sql.row_unique[OF g])
  with plain_ok_D(2)[OF ok(2) q(1-3) p(1,2)] p(3) show ?thesis by simp
qed

lemma plain_requests_exclude_witness:
  "\<exists>s. idem_reach text_codec demo_config sql_repository (\<lambda>_. False) empty_idem_table s
    \<and> (\<exists>!p. \<exists>rq pl. sys_requests s p = Some (rq, pl) \<and> \<not> cl_atomic rq \<and> held pl = Some 1
          \<and> claim_key rq = (''s'', ''u'', ''k''))"
proof -
  let ?ms = "[Arrives 0 (demo_claim False 0 10), Advances 0 calm, Arrives 1 (demo_claim False 5 10),
    Advances 1 calm, Advances 1 calm]"
  let ?s = "play text_codec demo_config sql_repository ?ms (idem_start empty_idem_table)"
  let ?holds = "\<lambda>p. \<exists>rq pl. sys_requests ?s p = Some (rq, pl) \<and> \<not> cl_atomic rq \<and> held pl = Some 1
    \<and> claim_key rq = (''s'', ''u'', ''k'')"
  have reach: "idem_reach text_codec demo_config sql_repository (\<lambda>_. False) empty_idem_table ?s"
    by (rule play_reach[OF idem_reach.start, where used = "{}"])
      (simp_all add: demo_fair idem_start_def, simp_all add: demo_claim_def)
  have state: "sys_requests ?s 0 = Some (demo_claim False 0 10, AtRun 1)" "table_row (sys_store ?s) 1 \<noteq> None"
    by (simp_all add: demo_run demo_claim_def table_row_def)
  then have first: "?holds 0"
    by (intro exI[of _ "demo_claim False 0 10"] exI[of _ "AtRun 1 :: string place"])
      (simp add: demo_key_eq del: play.simps, simp add: demo_claim_def)
  have only: "p = q" if "?holds p" "?holds q" for p q
    using that state(2) plain_requests_exclude[OF reach good_empty_table] by metis
  show ?thesis
    using reach first only by (intro exI[of _ ?s] conjI) (assumption, blast)
qed


text \<open>Two requests find the same expired record; the first to reclaim it finishes in between.\<close>

definition expired_moves :: "string move list" where
  "expired_moves = [Arrives 0 (demo_claim False 0 10), Advances 0 calm, Advances 0 calm, Advances 0 calm,
     Arrives 1 (demo_claim False 200 10), Advances 1 calm, Advances 1 calm,
     Arrives 2 (demo_claim False 210 10), Advances 2 calm, Advances 2 calm, Advances 2 calm]"

definition expired_row :: IdempotencyRecord where
  "expired_row = succeeded_row 200 ''ok'' 100 (created_row 1 (claim_record (demo_claim False 0 10)))"

lemma expired_moves_state:
  "play text_codec demo_config sql_repository expired_moves (idem_start empty_idem_table)
   = \<lparr>sys_store = \<lparr>idem_rows = [reclaimed_row 220 310 expired_row], next_id = 4\<rparr>,
      sys_requests = [0 \<mapsto> (demo_claim False 0 10, Returned (Inr \<lparr>res_data = ''ok'', res_replayed = False, res_pending = False\<rparr>)),
        1 \<mapsto> (demo_claim False 200 10, AtReclaimExpired expired_row), 2 \<mapsto> (demo_claim False 210 10, AtRun 1)],
      sys_owner = [1 \<mapsto> 2]\<rparr>"
  by (simp add: expired_moves_def demo_run demo_claim_def expired_row_def)

lemma expired_moves_fair:
  "fair_script text_codec demo_config (\<lambda>_. False) {} (expired_moves @ [Advances p calm, Advances q calm, Advances r calm])"
  by (simp add: expired_moves_def demo_fair) (simp add: demo_claim_def)

lemma play_append: "play cd cfg repo (a @ b) s = play cd cfg repo b (play cd cfg repo a s)"
  by (induction cd cfg repo a s rule: play.induct) (auto split: option.split prod.split)

lemma expired_moves_reach:
  "idem_reach text_codec demo_config sql_repository (\<lambda>_. False) empty_idem_table
    (play text_codec demo_config sql_repository [Advances p calm, Advances q calm, Advances r calm]
      (play text_codec demo_config sql_repository expired_moves (idem_start empty_idem_table)))"
  using play_reach[OF idem_reach.start expired_moves_fair, of empty_idem_table sql_repository p q r]
  by (simp add: play_append idem_start_def)

text \<open>
  C36: The reclaim of an expired record does not look at the record's expiry again, so it can
  take a record that another request has renewed and completed in between: there is an
  interleaving in which a request returns a fresh result, and a second request with the same
  key and payload, which started before that result expires, runs the business function again
  instead of replaying it.
\<close>
theorem expired_reclaim_repeats_business:
  "\<exists>s rq1 rq2. idem_reach text_codec demo_config sql_repository (\<lambda>_. False) empty_idem_table s
    \<and> sys_requests s 2 = Some (rq2, Returned (Inr \<lparr>res_data = ''ok'', res_replayed = False, res_pending = False\<rparr>))
    \<and> sys_requests s 1 = Some (rq1, AtRun 1)
    \<and> claim_key rq1 = claim_key rq2 \<and> cl_fingerprint rq1 = cl_fingerprint rq2 \<and> cl_now rq1 < cl_expires_at rq2"
proof -
  let ?s = "play text_codec demo_config sql_repository [Advances 2 calm, Advances 2 calm, Advances 1 calm]
    (play text_codec demo_config sql_repository expired_moves (idem_start empty_idem_table))"
  have "sys_requests ?s 2 = Some (demo_claim False 210 10, Returned (Inr \<lparr>res_data = ''ok'', res_replayed = False, res_pending = False\<rparr>))
      \<and> sys_requests ?s 1 = Some (demo_claim False 200 10, AtRun 1)"
    unfolding expired_moves_state by (simp add: demo_run demo_claim_def expired_row_def)
  then show ?thesis
    using expired_moves_reach[of 2 2 1]
    by (intro exI[of _ ?s] exI[of _ "demo_claim False 200 10"] exI[of _ "demo_claim False 210 10"])
      (simp add: demo_key_eq del: play.simps, simp add: demo_claim_def)
qed

text \<open>
  The loser of a race for an expired record is told that its key was reused with a
  different payload, although the record has its own payload: there is an interleaving of two
  requests with the same key and payload in which one of them ends in that error.
\<close>
theorem expired_reclaim_loser_misreported:
  "\<exists>s rq1 rq2. idem_reach text_codec demo_config sql_repository (\<lambda>_. False) empty_idem_table s
    \<and> sys_requests s 2 = Some (rq2, AtRun 1)
    \<and> sys_requests s 1 = Some (rq1, Returned (Inl (App ErrIdempotencyKeyConflict)))
    \<and> claim_key rq1 = claim_key rq2 \<and> cl_fingerprint rq1 = cl_fingerprint rq2"
proof -
  let ?s = "play text_codec demo_config sql_repository [Advances 1 calm, Advances 1 calm, Advances 1 calm]
    (play text_codec demo_config sql_repository expired_moves (idem_start empty_idem_table))"
  have "sys_requests ?s 2 = Some (demo_claim False 210 10, AtRun 1)
      \<and> sys_requests ?s 1 = Some (demo_claim False 200 10, Returned (Inl (App ErrIdempotencyKeyConflict)))"
    unfolding expired_moves_state by (simp add: demo_run demo_claim_def expired_row_def)
  then show ?thesis
    using expired_moves_reach[of 1 1 1]
    by (intro exI[of _ ?s] exI[of _ "demo_claim False 200 10"] exI[of _ "demo_claim False 210 10"])
      (simp add: demo_key_eq del: play.simps, simp add: demo_claim_def)
qed

end
