(* ===== verification/Idempotency_Replay.thy ===== *)
theory Idempotency_Replay
  imports Idempotency_Races
begin

text \<open>
  What a stored response is good for, in any interleaving (service/idempotency.go): a record whose
  response is stored is left alone by every step of every request whose clock is before the expiry, so
  the requests with its key and payload that arrive by then replay it.
\<close>

section \<open>Until a record expires\<close>

text \<open>
  The steps of the system as long as the clocks that the requests and the clean-up have read are before
  an instant.
\<close>

inductive idem_before :: "'d codec \<Rightarrow> IdempotencyConfig \<Rightarrow> 'st IdempotencyRepository \<Rightarrow> (string \<Rightarrow> bool) \<Rightarrow> instant
    \<Rightarrow> ('st, 'd) idem_system \<Rightarrow> ('st, 'd) idem_system \<Rightarrow> bool"
  for cd cfg repo mode e s where
  before_start: "idem_before cd cfg repo mode e s s"
| before_arrive: "idem_before cd cfg repo mode e s s' \<Longrightarrow> sys_requests s' p = None \<Longrightarrow>
    prepare cd cfg True exe opts now = Claiming rq \<Longrightarrow> cl_atomic rq = mode (cl_scope rq) \<Longrightarrow> now < e \<Longrightarrow>
    idem_before cd cfg repo mode e s (s'\<lparr>sys_requests := (sys_requests s')(p \<mapsto> (rq, AtCreate))\<rparr>)"
| before_advance: "idem_before cd cfg repo mode e s s' \<Longrightarrow> sys_requests s' p = Some (rq, pl) \<Longrightarrow> cl_now rq < e \<Longrightarrow>
    coord_step cd cfg repo rq hp (sys_store s', pl) = (st', pl') \<Longrightarrow>
    idem_before cd cfg repo mode e s \<lparr>sys_store = st', sys_requests = (sys_requests s')(p \<mapsto> (rq, pl')),
      sys_owner = new_owner p pl pl' (sys_owner s')\<rparr>"
| before_cleanup: "idem_before cd cfg repo mode e s s' \<Longrightarrow> now < e \<Longrightarrow>
    idem_before cd cfg repo mode e s (s'\<lparr>sys_store := cleanupOnce repo batch ft now (sys_store s')\<rparr>)"


section \<open>Steps leave a stored response alone\<close>

text \<open>A record with a stored response, and a request that is not about to reclaim it as expired.\<close>

definition response_stored :: "IdempotencyRecord \<Rightarrow> bool" where
  "response_stored r \<longleftrightarrow> ir_status r = IdempotencyStatusSucceeded"

definition spares :: "int \<Rightarrow> 'd place \<Rightarrow> bool" where
  "spares i pl \<longleftrightarrow> (\<forall>ex. pl = AtReclaimExpired ex \<longrightarrow> ir_id ex \<noteq> i)"

lemma spares_simps [simp]:
  "spares i AtCreate" "spares i AtLookup" "spares i AtRelookup" "spares i (AtRun j)" "spares i (AtMarkFailed j err)"
  "spares i (AtMarkSucceeded j d b)" "spares i (Returned res)" "spares i (AtReclaimFailed ex)" "spares i (AtReclaimProcessing ex)"
  "spares i (AtReclaimExpired ex) = (ir_id ex \<noteq> i)" "spares i (claimed j)" "spares i (in_progress rq ex)"
  "spares i (not_reclaimed cd rq ex)" "spares i (not_stored rq d)"
  by (auto simp: spares_def claimed_def in_progress_def not_reclaimed_def not_stored_def replay_def split: option.splits if_splits)

lemma stored_not_processing: "response_stored r \<Longrightarrow> \<not> is_processing r" "response_stored r \<Longrightarrow> \<not> owned_by a fp l r"
  by (auto simp: response_stored_def is_processing_def owned_by_def idempotency_status)

lemma call_keeps:
  assumes "changes_row good row issued j g f op" "good st" "row st i = Some r" "j = i \<Longrightarrow> \<not> g r"
  shows "row (fst (call ft op st)) i = Some r"
proof (cases "j = i")
  case True
  then show ?thesis using call_row[OF assms(1,2), of ft] assms(3,4) by auto
next
  case False
  then show ?thesis using changes_row_other[OF assms(1,2), of i] assms(3) by (cases ft) auto
qed

lemma call_good: "changes_row good row issued j g f op \<Longrightarrow> good st \<Longrightarrow> good (fst (call ft op st))"
  using changes_row_good[of good row issued j g f op st] by (cases ft) simp_all

context owned_idempotency_repository begin

lemma persist_keeps:
  assumes "good st" "row st i = Some r" "response_stored r"
  shows "good (fst (fst (PersistSuccess cd cfg repo ft d (st, c)))) \<and> row (fst (fst (PersistSuccess cd cfg repo ft d (st, c)))) i = Some r"
proof -
  let ?op = "\<lambda>body. ExecPersist repo (ac_record c) (ac_actor c) (ac_fingerprint c) (ac_locked_until c) body (ac_expires_at c)"
  have "row (fst (call ft (?op body) st)) i = Some r" "good (fst (call ft (?op body) st))" for body
    using call_keeps[OF persist assms(1,2)] stored_not_processing(2)[OF assms(3)] call_good[OF persist assms(1)] by blast+
  then show ?thesis using assms(1,2)
    by (auto simp: PersistSuccess_def Let_def split: option.split prod.split bool.split) (metis fst_conv)+
qed

lemma persist_all_keeps:
  assumes "good st" "row st i = Some r" "response_stored r"
  shows "row (fst (persist_all cd cfg repo ds (st, c))) i = Some r"
  using assms
proof (induction ds arbitrary: st c)
  case (Cons a ds)
  obtain d ft where a: "a = (d, ft)" by force
  obtain st1 c1 where 1: "fst (PersistSuccess cd cfg repo ft d (st, c)) = (st1, c1)" by force
  from persist_keeps[OF Cons.prems, of cd cfg ft d c] have "good st1" "row st1 i = Some r" by (simp_all add: 1)
  from Cons.IH[OF this Cons.prems(3)] show ?case by (simp add: a 1)
qed simp

lemma step_keeps_stored:
  assumes good: "good st" and r: "row st i = Some r" "response_stored r" "cl_now rq < ir_expires_at r"
    and pl: "place_ok row issued rq st pl" "spares i pl"
    and run: "coord_step cd cfg repo rq hp (st, pl) = (st', pl')"
  shows "row st' i = Some r \<and> spares i pl'"
proof -
  have reclaim: "row st' i = Some r" if "tryReclaim repo rq ex req ft st = (st', taken)" "ir_id ex = i \<Longrightarrow> \<not> response_stored ex"
    for ex req ft taken
  proof -
    have "row (fst (call ft (TryReclaimOwned cas (ir_id ex) (ir_status ex) (ir_actor ex) (ir_fingerprint ex)
        (ir_locked_until ex) (cl_now rq) (cl_locked_until rq) (cl_expires_at rq)) st)) i = Some r"
      by (rule call_keeps[OF reclaim_owned good r(1)])
        (use that(2) r(2) in \<open>auto simp: reclaimable_owned_def response_stored_def\<close>)
    then show ?thesis using that(1) by (simp add: try_reclaim_owned)
  qed
  have look: "spares i (found cd rq ex)" if g: "snd (GetByScopeActorScopeAndKeyHash repo s a h st) = Some ex" for ex s a h
  proof -
    obtain j where j: "row st j = Some ex" using iffD1[OF get_row[OF good] g] by blast
    have "ir_id ex = j" using row_id[OF good j] by blast
    then have "ir_id ex = i \<Longrightarrow> ex = r" using j r(1) by simp
    then show ?thesis using r(3) by (auto simp: found_def)
  qed
  show ?thesis
  proof (cases pl)
    case AtCreate
    have "row (fst (CreateProcessing repo (claim_record rq) st)) i = Some r"
    proof (cases "\<exists>j q. row st j = Some q \<and> row_key q = row_key (claim_record rq)")
      case True
      then show ?thesis using create_old[OF good] r(1) by fastforce
    next
      case False
      then obtain j where "j \<notin> issued st"
        "row (fst (CreateProcessing repo (claim_record rq) st)) = (row st)(j \<mapsto> created_row j (claim_record rq))"
        using create_new[OF good] by blast
      then show ?thesis using row_id[OF good r(1)] r(1) by auto
    qed
    then have "row (fst (call (hp_fault hp) (CreateProcessing repo (claim_record rq)) st)) i = Some r"
      using r(1) by (cases "hp_fault hp") simp_all
    then show ?thesis using run AtCreate by (auto split: prod.splits option.splits)
  next
    case AtLookup
    then show ?thesis using run r(1) look get_state
      by (cases "hp_fault hp"; cases "snd (GetByScopeActorScopeAndKeyHash repo (cl_scope rq) (cl_actor rq) (cl_key_hash rq) st)")
        (auto simp: call_Some)
  next
    case AtRelookup
    then show ?thesis using run r(1) get_state
      by (cases "hp_fault hp"; cases "snd (GetByScopeActorScopeAndKeyHash repo (cl_scope rq) (cl_actor rq) (cl_key_hash rq) st)") auto
  next
    case (AtReclaimProcessing ex)
    then have "\<not> response_stored ex" using pl(1) stored_not_processing(1) by auto
    then show ?thesis using run reclaim AtReclaimProcessing by (auto split: prod.splits option.splits bool.splits)
  next
    case (AtReclaimExpired ex)
    then show ?thesis using run reclaim pl(2) by (auto split: prod.splits option.splits bool.splits)
  next
    case (AtReclaimFailed ex)
    then have "\<not> response_stored ex" using pl(1) by (auto simp: response_stored_def idempotency_status)
    then show ?thesis using run reclaim AtReclaimFailed by (auto split: prod.splits option.splits bool.splits)
  next
    case (AtRun j)
    then show ?thesis using run r(1) persist_all_keeps[OF good r(1,2), of cd cfg "bz_persists (hp_business hp)" "atomic_claim rq j"]
      by (auto simp: run_business_def Let_def case_prod_unfold split: if_splits sum.splits option.splits)
  next
    case (AtMarkFailed j err)
    have "row (fst (call ft (MarkFailedRetryableOwned cas j a fp l why b e) st)) i = Some r"
      "row (fst (call ft (MarkFailedRetryable repo j why b e) st)) i = Some r" for ft a fp l why b e
      using call_keeps[OF fail_owned good r(1)] call_keeps[OF fail good r(1)] stored_not_processing[OF r(2)] by blast+
    then show ?thesis using run AtMarkFailed by (auto simp: owned Let_def)
  next
    case (AtMarkSucceeded j d b)
    have "row (fst (call (hp_fault hp) (MarkSucceeded repo j 200 b (cl_expires_at rq)) st)) i = Some r"
      using call_keeps[OF succeed good r(1)] stored_not_processing(1)[OF r(2)] by blast
    then show ?thesis using run AtMarkSucceeded by (auto split: prod.splits option.splits bool.splits)
  next
    case (Returned res)
    then show ?thesis using run r(1) by auto
  qed
qed

end


section \<open>Storing a response\<close>




context owned_idempotency_repository begin

lemma persisted_row:
  assumes "good st" "ac_record c = i" "\<not> ac_persisted c" "persist_all cd cfg repo ds (st, c) = (st', c')" "ac_persisted c'"
  shows "\<exists>d body q. d \<in> fst ` set ds \<and> marshalAtomicStoredResponse cd cfg d = Some body
    \<and> row st' i = Some (succeeded_row 200 body (ac_expires_at c) q)"
  using assms
proof (induction ds arbitrary: st)
  case (Cons a ds)
  obtain d ft where a: "a = (d, ft)" by force
  obtain st1 c1 err where 1: "PersistSuccess cd cfg repo ft d (st, c) = ((st1, c1), err)" by (metis surj_pair)
  show ?case
  proof (cases "ac_persisted c1")
    case True
    then obtain body where body: "marshalAtomicStoredResponse cd cfg d = Some body"
      and op: "call ft (ExecPersist repo i (ac_actor c) (ac_fingerprint c) (ac_locked_until c) body (ac_expires_at c)) st = (st1, Some True)"
      using 1 Cons.prems(2,3) by (auto simp: PersistSuccess_def split: if_splits option.splits prod.splits bool.splits)
    from call_taken[OF persist Cons.prems(1), of ft i "ac_actor c" "ac_fingerprint c" "ac_locked_until c" body "ac_expires_at c"]
    obtain q where q: "row st1 i = Some (succeeded_row 200 body (ac_expires_at c) q)" by (auto simp: op)
    have g: "good st1" using call_good[OF persist Cons.prems(1), of ft] op by (metis fst_conv)
    have "response_stored (succeeded_row 200 body (ac_expires_at c) q)" by (simp add: response_stored_def succeeded_row_def)
    from persist_all_keeps[OF g q this, of cd cfg ds c1] show ?thesis
      using Cons.prems(4) body by (auto simp: a 1)
  next
    case False
    then have "c1 = c" using 1 by (auto simp: PersistSuccess_def Let_def split: if_splits option.splits prod.splits bool.splits)
    moreover have "good st1"
      using persist_step[OF Cons.prems(1,2), of cd cfg ft d] 1 by (metis fst_conv)
    ultimately show ?thesis using Cons.IH[of st1] Cons.prems by (auto simp: a 1)
  qed
qed simp

text \<open>A request that answers its own value has stored a response, under its key, payload and expiry.\<close>

lemma own_value_stored:
  assumes good: "good st" and pl: "place_ok row issued rq st pl" "held pl = Some i"
    and run: "coord_step cd cfg repo rq hp (st, pl) = (st', Returned (Inr \<lparr>res_data = data, res_replayed = False, res_pending = False\<rparr>))"
    and commits: "cl_atomic rq \<longrightarrow> bz_commits (hp_business hp)"
    and marks: "\<And>j d body. pl = AtMarkSucceeded j d body \<Longrightarrow> marshalStoredResponse cd cfg d = Some body"
  shows "\<exists>r. row st' i = Some r \<and> response_stored r \<and> row_key r = claim_key rq \<and> ir_fingerprint r = cl_fingerprint rq
    \<and> ir_expires_at r = cl_expires_at rq
    \<and> (if cl_atomic rq then \<exists>d\<in>fst ` set (bz_persists (hp_business hp)). ir_response_body r = marshalAtomicStoredResponse cd cfg d
        else ir_response_body r = marshalStoredResponse cd cfg data)"
proof -
  have knows: "knows row issued rq st i" by (rule held_knows[OF pl])
  have ev: "evolves row issued st st'" using step_is_ok[OF good pl(1), of cd cfg hp] run by (simp add: step_ok_def)
  have same: "row_key r = claim_key rq \<and> ir_fingerprint r = cl_fingerprint rq" if "row st' i = Some r" for r
    using knows_evolves[OF ev knows] that by (simp add: knows_def)
  have stored: "response_stored (succeeded_row 200 body e q)" "ir_response_body (succeeded_row 200 body e q) = Some body"
    "ir_expires_at (succeeded_row 200 body e q) = e" for body e q
    by (simp_all add: response_stored_def succeeded_row_def)
  show ?thesis
  proof (cases pl)
    case (AtRun j)
    then have j: "j = i" using pl(2) by simp
    obtain st1 c1 where 1: "persist_all cd cfg repo (bz_persists (hp_business hp)) (st, atomic_claim rq i) = (st1, c1)" by force
    have at: "cl_atomic rq" "ac_persisted c1" "st' = st1"
      using run commits by (auto simp: AtRun j run_business_def 1 not_stored_def Let_def split: if_splits sum.splits option.splits)
    from persisted_row[OF good _ _ 1 at(2)]
    obtain d body q where d: "d \<in> fst ` set (bz_persists (hp_business hp))" "marshalAtomicStoredResponse cd cfg d = Some body"
      "row st1 i = Some (succeeded_row 200 body (cl_expires_at rq) q)"
      by (auto simp: atomic_claim_def)
    have "\<exists>d\<in>fst ` set (bz_persists (hp_business hp)). Some body = marshalAtomicStoredResponse cd cfg d"
      by (rule bexI[OF _ d(1)]) (simp add: d(2))
    then show ?thesis using at same stored d(3)
      by (intro exI[of _ "succeeded_row 200 body (cl_expires_at rq) q"]) (simp del: bex_simps)
  next
    case (AtMarkSucceeded j d body)
    then have j: "j = i" "\<not> cl_atomic rq" using pl by auto
    have op: "call (hp_fault hp) (MarkSucceeded repo i 200 body (cl_expires_at rq)) st = (st', Some True)" "d = data"
      using run by (auto simp: AtMarkSucceeded j not_stored_def split: prod.splits option.splits bool.splits if_splits)
    from call_taken[OF succeed good, of "hp_fault hp" i 200 body "cl_expires_at rq"]
    obtain q where "row st' i = Some (succeeded_row 200 body (cl_expires_at rq) q)" by (auto simp: op(1))
    then show ?thesis using same stored j(2) marks[OF AtMarkSucceeded] op(2)
      by (intro exI[of _ "succeeded_row 200 body (cl_expires_at rq) q"]) auto
  qed (use pl(2) run in auto)
qed

end

section \<open>Retries\<close>

text \<open>The answer of a retry: the decoded response, marked as replayed.\<close>

definition stored_answer :: "'d codec \<Rightarrow> claim_request \<Rightarrow> IdempotencyRecord \<Rightarrow> 'd place" where
  "stored_answer cd rq r =
     (case (if cl_atomic rq then decodeAtomicStoredResponse cd else decodeStoredResponse cd) (ir_response_body r) of
        None \<Rightarrow> store_unavailable
      | Some data \<Rightarrow> Returned (Inr \<lparr>res_data = data, res_replayed = True, res_pending = False\<rparr>))"

definition retrying :: "'d codec \<Rightarrow> claim_request \<Rightarrow> IdempotencyRecord \<Rightarrow> 'd place \<Rightarrow> bool" where
  "retrying cd rq r pl \<longleftrightarrow> pl = AtCreate \<or> pl = AtLookup \<or> pl = store_unavailable \<or> pl = stored_answer cd rq r"

context owned_idempotency_repository begin

lemma found_stored:
  assumes "response_stored r" "ir_fingerprint r = cl_fingerprint rq" "cl_now rq < ir_expires_at r"
  shows "found cd rq r = stored_answer cd rq r"
  using assms by (auto simp: found_def not_reclaimed_def replay_def stored_answer_def response_stored_def idempotency_status)

lemma retry_calls:
  assumes good: "good st" and r: "row st i = Some r" "response_stored r" "row_key r = claim_key rq"
    and fp: "ir_fingerprint r = cl_fingerprint rq" "cl_now rq < ir_expires_at r"
  shows "snd (coord_step cd cfg repo rq hp (st, AtCreate)) = (if hp_fault hp = Fine then AtLookup else store_unavailable)"
    and "snd (coord_step cd cfg repo rq hp (st, AtLookup)) = (if hp_fault hp = Fine then stored_answer cd rq r else store_unavailable)"
proof -
  have "row_key r = row_key (claim_record rq)" using r(3) by (simp add: row_key_def claim_record_def claim_key_def)
  from create_old[OF good r(1) this] have "snd (CreateProcessing repo (claim_record rq) st) = None" by blast
  then show "snd (coord_step cd cfg repo rq hp (st, AtCreate)) = (if hp_fault hp = Fine then AtLookup else store_unavailable)"
    by (cases "hp_fault hp"; cases "CreateProcessing repo (claim_record rq) st") auto
  have "snd (GetByScopeActorScopeAndKeyHash repo (cl_scope rq) (cl_actor rq) (cl_key_hash rq) st) = Some r"
    using get_row[OF good] r(1,3) by (auto simp: claim_key_def)
  then show "snd (coord_step cd cfg repo rq hp (st, AtLookup)) = (if hp_fault hp = Fine then stored_answer cd rq r else store_unavailable)"
    by (cases "hp_fault hp"; cases "GetByScopeActorScopeAndKeyHash repo (cl_scope rq) (cl_actor rq) (cl_key_hash rq) st")
      (auto simp: found_stored[OF r(2) fp])
qed

lemma retry_step:
  assumes "good st" "row st i = Some r" "response_stored r" "row_key r = claim_key rq"
    "ir_fingerprint r = cl_fingerprint rq" "cl_now rq < ir_expires_at r"
    and "retrying cd rq r pl" "coord_step cd cfg repo rq hp (st, pl) = (st', pl')"
  shows "retrying cd rq r pl'"
proof -
  have "pl' = snd (coord_step cd cfg repo rq hp (st, pl))" using assms(8) by simp
  moreover have "\<exists>res. stored_answer cd rq r = Returned res" by (simp add: stored_answer_def split: option.split)
  then obtain res where "stored_answer cd rq r = Returned res" by blast
  ultimately show ?thesis
    using assms(7) retry_calls[OF assms(1-6), of cd cfg hp] unfolding retrying_def by auto
qed

definition retries_ok :: "'d codec \<Rightarrow> ('st, 'd) idem_system \<Rightarrow> int \<Rightarrow> IdempotencyRecord \<Rightarrow> ('st, 'd) idem_system \<Rightarrow> bool" where
  "retries_ok cd s0 i r s \<longleftrightarrow> row (sys_store s) i = Some r
     \<and> (\<forall>q rq pl. sys_requests s q = Some (rq, pl) \<longrightarrow> spares i pl)
     \<and> (\<forall>q rq pl. sys_requests s0 q = None \<and> sys_requests s q = Some (rq, pl) \<and> claim_key rq = row_key r
          \<and> cl_fingerprint rq = ir_fingerprint r \<longrightarrow> cl_now rq < ir_expires_at r \<and> retrying cd rq r pl)"

lemma retries_kept:
  assumes "idem_before cd cfg repo mode e s0 s" "requests_ok row issued good mode s0" "retries_ok cd s0 i r s0"
    and "response_stored r" "ir_expires_at r = e"
  shows "requests_ok row issued good mode s \<and> retries_ok cd s0 i r s"
  using assms
proof induction
  case (before_arrive s' p exe opts now rq)
  then have ok: "requests_ok row issued good mode s'" "retries_ok cd s0 i r s'" by blast+
  have "requests_ok row issued good mode (s'\<lparr>sys_requests := (sys_requests s')(p \<mapsto> (rq, AtCreate))\<rparr>)"
    by (rule requests_ok_step[OF idem_step.arrive ok(1)]) (rule before_arrive)+
  moreover have "cl_now rq < ir_expires_at r"
    using prepare_claiming[OF before_arrive.hyps(3)] before_arrive.hyps(5) before_arrive.prems(4) by simp
  moreover have "retrying cd rq r AtCreate" by (simp add: retrying_def)
  ultimately show ?case using ok(2) unfolding retries_ok_def by (auto split: if_splits)
next
  case (before_advance s' p rq pl hp st' pl')
  then have ok: "requests_ok row issued good mode s'" "retries_ok cd s0 i r s'" by blast+
  have g: "good (sys_store s')" and place: "place_ok row issued rq (sys_store s') pl"
    using ok(1) before_advance.hyps(2) by (auto simp: requests_ok_def)
  have r: "row (sys_store s') i = Some r" and sp: "spares i pl"
    using ok(2) before_advance.hyps(2) by (auto simp: retries_ok_def)
  have "cl_now rq < ir_expires_at r" using before_advance.hyps(3) before_advance.prems(4) by simp
  from step_keeps_stored[OF g r before_advance.prems(3) this place sp before_advance.hyps(4)]
  have kept: "row st' i = Some r" "spares i pl'" by auto
  have again: "retrying cd rq r pl'" if "retrying cd rq r pl" "claim_key rq = row_key r" "cl_fingerprint rq = ir_fingerprint r"
    by (rule retry_step[OF g r before_advance.prems(3) _ _ _ that(1) before_advance.hyps(4)])
      (use that before_advance.hyps(3) before_advance.prems(4) in simp_all)
  have "requests_ok row issued good mode \<lparr>sys_store = st', sys_requests = (sys_requests s')(p \<mapsto> (rq, pl')),
      sys_owner = new_owner p pl pl' (sys_owner s')\<rparr>"
    by (rule requests_ok_step[OF idem_step.advance ok(1)]) (rule before_advance)+
  then show ?case using ok(2) kept again before_advance.hyps(2) unfolding retries_ok_def by (auto split: if_splits)
next
  case (before_cleanup s' now batch ft)
  then have ok: "requests_ok row issued good mode s'" "retries_ok cd s0 i r s'" by blast+
  have g: "good (sys_store s')" and r: "row (sys_store s') i = Some r" using ok by (auto simp: requests_ok_def retries_ok_def)
  have "row (cleanupOnce repo batch ft now (sys_store s')) i = Some r"
    using delete[OF g, of now batch i] r before_cleanup.hyps(2) before_cleanup.prems(4) by (cases ft) (auto simp: cleanupOnce_def)
  moreover have "requests_ok row issued good mode (s'\<lparr>sys_store := cleanupOnce repo batch ft now (sys_store s')\<rparr>)"
    by (rule requests_ok_step[OF idem_step.cleanup ok(1)])
  ultimately show ?case using ok(2) unfolding retries_ok_def by auto
qed blast

end






end
