(* ===== verification/System_Operation_Lock.thy ===== *)
theory System_Operation_Lock
  imports Idempotency
begin

text \<open>
  The lock of system operations (service/system_operation_lock_service.go): one record of the
  idempotency table, under a fixed key, that an operation creates or reclaims, renews while it
  runs and releases at its end. It is the second client of the repository interface of
  \<open>Idempotency_Store\<close>.

  Acquire is a machine with one repository call per step, as the coordinator is. The renewal
  goroutine is a function of the ticks and the stop signal its select statement receives.
  The parameter \<open>hash\<close> is HashIdempotencyKey.
\<close>

section \<open>The service\<close>

definition systemOperationLockScope :: string where
  "systemOperationLockScope = ''admin.system.operations.global_lock''"
definition systemOperationLockActorScope :: string where
  "systemOperationLockActorScope = ''system:global''"
definition systemOperationLockKey :: string where
  "systemOperationLockKey = ''global-system-operation-lock''"

definition ErrSystemOperationBusy :: ApplicationError where
  "ErrSystemOperationBusy = Conflict ''SYSTEM_OPERATION_BUSY''"

record SystemOperationLock =
  sl_record :: int
  sl_operation :: string

record SystemOperationLockService =
  so_lease :: duration
  so_renew :: duration
  so_ttl :: duration

definition NewSystemOperationLockService :: "IdempotencyConfig \<Rightarrow> SystemOperationLockService" where
  "NewSystemOperationLockService cfg =
     (let lease = (if ProcessingTimeout cfg \<le> 0 then 30 * second else ProcessingTimeout cfg);
          renewInterval = lease div 3;
          renewInterval = (if renewInterval < second then second else renewInterval);
          ttl = (if SystemOperationTTL cfg \<le> 0 then hour else SystemOperationTTL cfg)
      in \<lparr>so_lease = lease, so_renew = renewInterval, so_ttl = ttl\<rparr>)"

definition busyError :: "string \<Rightarrow> instant option \<Rightarrow> instant \<Rightarrow> ApplicationError" where
  "busyError operationID lockedUntil now =
     (let metadata = (if operationID \<noteq> [] then [(''operation_id'', operationID)] else []);
          metadata = (case lockedUntil of
              None \<Rightarrow> metadata
            | Some l \<Rightarrow>
                let sec = whole_seconds (time_sub l now); sec = (if sec \<le> 0 then 1 else sec)
                in aput ''retry_after'' (decimal sec) metadata)
      in if metadata = [] then ErrSystemOperationBusy else WithMetadata ErrSystemOperationBusy metadata)"

section \<open>Acquire\<close>

text \<open>The locals of Acquire: the operation, its hashed key and its times.\<close>

record acquire_request =
  aq_operation :: string
  aq_key_hash :: string
  aq_now :: instant
  aq_locked_until :: instant
  aq_expires_at :: instant

definition acquire_request :: "(string \<Rightarrow> string) \<Rightarrow> SystemOperationLockService \<Rightarrow> string \<Rightarrow> instant \<Rightarrow> acquire_request" where
  "acquire_request hash svc operationID now = \<lparr>aq_operation = operationID, aq_key_hash = hash systemOperationLockKey,
     aq_now = now, aq_locked_until = now + so_lease svc, aq_expires_at = now + so_ttl svc\<rparr>"

definition lock_record :: "acquire_request \<Rightarrow> IdempotencyRecord" where
  "lock_record aq = \<lparr>ir_id = 0, ir_scope = systemOperationLockScope, ir_actor = systemOperationLockActorScope,
     ir_key_hash = aq_key_hash aq, ir_fingerprint = aq_operation aq, ir_status = IdempotencyStatusProcessing,
     ir_response_status = None, ir_response_body = None, ir_error_reason = None,
     ir_locked_until = Some (aq_locked_until aq), ir_expires_at = aq_expires_at aq\<rparr>"

datatype acquire_place =
    SlCreate
  | SlLookup
  | SlReclaim IdempotencyRecord
  | SlRelookup
  | SlDone "ApplicationError + SystemOperationLock"

definition acquired :: "acquire_request \<Rightarrow> int \<Rightarrow> acquire_place" where
  "acquired aq i = SlDone (if i = 0 then Inl ErrIdempotencyStoreUnavail
     else Inr \<lparr>sl_record = i, sl_operation = aq_operation aq\<rparr>)"

definition lock_lookup :: "'st IdempotencyRepository \<Rightarrow> acquire_request \<Rightarrow> 'st \<Rightarrow> 'st \<times> IdempotencyRecord option" where
  "lock_lookup repo aq = GetByScopeActorScopeAndKeyHash repo systemOperationLockScope
     systemOperationLockActorScope (aq_key_hash aq)"

fun acquire_step :: "'st IdempotencyRepository \<Rightarrow> acquire_request \<Rightarrow> fault \<Rightarrow> 'st \<times> acquire_place \<Rightarrow> 'st \<times> acquire_place" where
  "acquire_step repo aq ft (st, SlCreate) =
     (case call ft (CreateProcessing repo (lock_record aq)) st of
        (st', None) \<Rightarrow> (st', SlDone (Inl ErrIdempotencyStoreUnavail))
      | (st', Some (Some i)) \<Rightarrow> (st', acquired aq i)
      | (st', Some None) \<Rightarrow> (st', SlLookup))"
| "acquire_step repo aq ft (st, SlLookup) =
     (case call ft (lock_lookup repo aq) st of
        (st', None) \<Rightarrow> (st', SlDone (Inl ErrIdempotencyStoreUnavail))
      | (st', Some None) \<Rightarrow> (st', SlDone (Inl ErrIdempotencyStoreUnavail))
      | (st', Some (Some existing)) \<Rightarrow>
          (st', if ir_status existing = IdempotencyStatusProcessing \<and> locked_after existing (aq_now aq)
                then SlDone (Inl (busyError (ir_fingerprint existing) (ir_locked_until existing) (aq_now aq)))
                else SlReclaim existing))"
| "acquire_step repo aq ft (st, SlReclaim existing) =
     (case call ft (TryReclaim repo (ir_id existing) (ir_status existing) (aq_now aq)
             (aq_locked_until aq) (aq_expires_at aq)) st of
        (st', None) \<Rightarrow> (st', SlDone (Inl ErrIdempotencyStoreUnavail))
      | (st', Some False) \<Rightarrow> (st', SlRelookup)
      | (st', Some True) \<Rightarrow> (st', acquired aq (ir_id existing)))"
| "acquire_step repo aq ft (st, SlRelookup) =
     (case call ft (lock_lookup repo aq) st of
        (st', Some (Some latest)) \<Rightarrow>
          (st', SlDone (Inl (busyError (ir_fingerprint latest) (ir_locked_until latest) (aq_now aq))))
      | (st', _) \<Rightarrow> (st', SlDone (Inl ErrSystemOperationBusy)))"
| "acquire_step repo aq ft (st, SlDone res) = (st, SlDone res)"

fun acquire_steps :: "'st IdempotencyRepository \<Rightarrow> acquire_request \<Rightarrow> fault list \<Rightarrow> 'st \<times> acquire_place \<Rightarrow> 'st \<times> acquire_place" where
  "acquire_steps repo aq [] s = s"
| "acquire_steps repo aq (ft # fts) s = acquire_steps repo aq fts (acquire_step repo aq ft s)"

definition Acquire :: "(string \<Rightarrow> string) \<Rightarrow> 'st IdempotencyRepository option \<Rightarrow> SystemOperationLockService \<Rightarrow> string
    \<Rightarrow> instant \<Rightarrow> fault list \<Rightarrow> 'st \<Rightarrow> 'st \<times> acquire_place" where
  "Acquire hash repo svc operationID now fts st =
     (case repo of
        None \<Rightarrow> (st, SlDone (Inl ErrIdempotencyStoreUnavail))
      | Some r \<Rightarrow>
          if operationID = [] then (st, SlDone (Inl (BadRequest ''SYSTEM_OPERATION_ID_REQUIRED'')))
          else acquire_steps r (acquire_request hash svc operationID now) fts (st, SlCreate))"

section \<open>Renewal and release\<close>

datatype renew_event = Tick instant fault | StopSignal

fun renewLoop :: "'st IdempotencyRepository \<Rightarrow> SystemOperationLockService \<Rightarrow> SystemOperationLock \<Rightarrow> renew_event list
    \<Rightarrow> 'st \<Rightarrow> 'st" where
  "renewLoop repo svc lock [] st = st"
| "renewLoop repo svc lock (StopSignal # evs) st = st"
| "renewLoop repo svc lock (Tick now ft # evs) st =
     (case call ft (ExtendProcessingLock repo (sl_record lock) (sl_operation lock)
             (now + so_lease svc) (now + so_ttl svc)) st of
        (st', None) \<Rightarrow> renewLoop repo svc lock evs st'
      | (st', Some ok) \<Rightarrow> if ok then renewLoop repo svc lock evs st' else st')"

definition release_body :: "string \<Rightarrow> string" where
  "release_body operationID = ''{\"operation_id\":\"'' @ operationID @ ''\",\"released\":true}''"

text \<open>Release reports \<open>True\<close> when its error is nil. Its two readings of the clock are arguments.\<close>

definition Release :: "'st IdempotencyRepository option \<Rightarrow> SystemOperationLockService \<Rightarrow> SystemOperationLock option
    \<Rightarrow> bool \<Rightarrow> string \<Rightarrow> instant \<Rightarrow> instant \<Rightarrow> fault \<Rightarrow> 'st \<Rightarrow> 'st \<times> bool" where
  "Release repo svc lock succeeded failureReason now now' ft st =
     (case (repo, lock) of
        (Some r, Some l) \<Rightarrow>
          (let expiresAt = now + so_ttl svc;
               (st', res) =
                 (if succeeded
                  then call ft (MarkSucceeded r (sl_record l) 200
                    (release_body (sl_operation l)) expiresAt) st
                  else call ft (MarkFailedRetryable r (sl_record l)
                    (if failureReason = [] then ''SYSTEM_OPERATION_FAILED'' else failureReason) now' expiresAt) st)
           in (st', res = Some True))
      | _ \<Rightarrow> (st, True))"


section \<open>What the lock guarantees\<close>

definition lock_key :: "(string \<Rightarrow> string) \<Rightarrow> idem_key" where
  "lock_key hash = (systemOperationLockScope, systemOperationLockActorScope, hash systemOperationLockKey)"

lemma request_key: "row_key (lock_record (acquire_request hash svc op now)) = lock_key hash"
  by (simp add: row_key_def lock_record_def acquire_request_def lock_key_def)

lemma acquired_inr: "acquired aq i = SlDone (Inr l) \<longleftrightarrow> i \<noteq> 0 \<and> l = \<lparr>sl_record = i, sl_operation = aq_operation aq\<rparr>"
  by (auto simp: acquired_def)

context idempotency_repository begin

text \<open>The first two calls when the key has a row.\<close>

lemma acquire_looks_up:
  assumes good: "good st" and r: "row st i = Some r" "row_key r = lock_key hash" and op: "op \<noteq> []"
  shows "\<exists>st'. Acquire hash (Some repo) svc op now (Fine # Fine # fts) st
      = acquire_steps repo (acquire_request hash svc op now) fts
          (st', if ir_status r = IdempotencyStatusProcessing \<and> locked_after r now
                then SlDone (Inl (busyError (ir_fingerprint r) (ir_locked_until r) now)) else SlReclaim r)
    \<and> row st' = row st \<and> good st'"
proof -
  let ?aq = "acquire_request hash svc op now"
  from create_old[OF good r(1), of "lock_record ?aq"] r(2)
  obtain st1 where 1: "CreateProcessing repo (lock_record ?aq) st = (st1, None)" "good st1" "row st1 = row st"
    unfolding request_key by (metis prod.collapse)
  have "snd (lock_lookup repo ?aq st1) = Some r"
    unfolding lock_lookup_def get_row[OF 1(2)] 1(3) using r by (auto simp: acquire_request_def lock_key_def)
  then have "lock_lookup repo ?aq st1 = (st1, Some r)"
    using get_state[of systemOperationLockScope systemOperationLockActorScope "aq_key_hash ?aq" st1]
    unfolding lock_lookup_def by (metis prod.collapse)
  then show ?thesis
    using 1 op by (intro exI[of _ st1]) (simp add: Acquire_def acquire_request_def)
qed

lemma acquire_reclaims:
  assumes good: "good st" and r: "row st i = Some r" "row_key r = lock_key hash" and op: "op \<noteq> []"
    and free: "unlocked now r"
  shows "\<exists>st'. Acquire hash (Some repo) svc op now [Fine, Fine, Fine] st
      = (st', SlDone (Inr \<lparr>sl_record = i, sl_operation = op\<rparr>))
    \<and> row st' i = Some (reclaimed_row (now + so_lease svc) (now + so_ttl svc) r) \<and> good st'"
proof -
  let ?aq = "acquire_request hash svc op now"
  from acquire_looks_up[OF good r op, of svc now "[Fine]"] obtain st1 where
    1: "Acquire hash (Some repo) svc op now [Fine, Fine, Fine] st
      = acquire_steps repo ?aq [Fine] (st1, SlReclaim r)" "row st1 = row st" "good st1"
    using free by (auto simp: unlocked_def locked_after_def split: option.splits)
  have i: "ir_id r = i" "i \<noteq> 0" using row_id[OF good r(1)] by auto
  let ?op = "TryReclaim repo i (ir_status r) now (now + so_lease svc) (now + so_ttl svc)"
  have here: "row st1 i = Some r" using r 1 by simp
  have ok: "reclaimable (ir_status r) now r" using free by (simp add: reclaimable_def)
  have "snd (?op st1)" using changes_row_taken[OF reclaim 1(3)] here ok by blast
  moreover have "row (fst (?op st1)) i = Some (reclaimed_row (now + so_lease svc) (now + so_ttl svc) r)"
    using changes_row_row[OF reclaim 1(3), of i "ir_status r" now "now + so_lease svc" "now + so_ttl svc"] here ok by simp
  moreover have "good (fst (?op st1))" using changes_row_good[OF reclaim 1(3)] .
  ultimately show ?thesis
    using 1(1) i by (intro exI[of _ "fst (?op st1)"]) (auto simp: acquire_request_def acquired_def split: prod.splits)
qed

lemma renew_keeps_others:
  assumes "good st" "row st i = Some r" "ir_fingerprint r \<noteq> op"
  shows "row (renewLoop repo svc \<lparr>sl_record = i, sl_operation = op\<rparr> evs st) = row st
    \<and> good (renewLoop repo svc \<lparr>sl_record = i, sl_operation = op\<rparr> evs st)"
  using assms
proof (induction evs arbitrary: st)
  case (Cons e evs)
  show ?case
  proof (cases e)
    case (Tick now ft)
    let ?op = "ExtendProcessingLock repo i op (now + so_lease svc) (now + so_ttl svc)"
    have "\<not> processing_for op r" using Cons.prems by (simp add: processing_for_def)
    then have no: "row (fst (?op st)) = row st" "\<not> snd (?op st)" "good (fst (?op st))"
      using extend[of i op "now + so_lease svc" "now + so_ttl svc"] Cons.prems by (auto simp: changes_row_def)
    then show ?thesis
      using Tick Cons by (cases ft) auto
  qed (use Cons in simp)
qed simp

end


text \<open>
  C21: Acquire succeeds only where it created the record or found the record's lock over: a
  step that grants the lock, at any point of any interleaving, started from a table in which no
  row has the lock's key or the row is unlocked at the instant the request read, and leaves
  the row in progress, locked for the lease.
\<close>
theorem lock_granted_only_when_free:
  assumes good: "good_table st" and aq: "aq = acquire_request hash svc op now"
    and run: "acquire_step sql_repository aq ft (st, pl) = (st', SlDone (Inr l))"
    and pl: "\<And>res. pl \<noteq> SlDone res"
  shows "(\<forall>r. table_row st (sl_record l) = Some r \<longrightarrow> unlocked now r)
    \<and> (\<exists>r. table_row st' (sl_record l) = Some r \<and> is_processing r \<and> ir_locked_until r = Some (now + so_lease svc))
    \<and> (pl = SlCreate \<longrightarrow> (\<forall>r \<in> set (idem_rows st). row_key r \<noteq> lock_key hash))"
proof (cases pl)
  case SlCreate
  have new: "\<forall>i q. table_row st i = Some q \<longrightarrow> row_key q \<noteq> row_key (lock_record aq)"
  proof (intro allI impI notI)
    fix i q assume "table_row st i = Some q" "row_key q = row_key (lock_record aq)"
    from sql.create_old[OF good this] run SlCreate show False
      by (cases ft) (auto split: prod.splits)
  qed
  from sql.create_new[OF good new] run SlCreate obtain i where
    i: "ft = Fine" "l = \<lparr>sl_record = i, sl_operation = aq_operation aq\<rparr>" "i \<notin> table_issued st"
      "table_row st' = (table_row st)(i \<mapsto> created_row i (lock_record aq))"
    by (cases ft) (auto simp: acquired_def split: prod.splits if_splits)
  have "table_row st i = None"
    using i(3) sql.row_id[OF good, of i] by (cases "table_row st i") auto
  moreover have "\<forall>r \<in> set (idem_rows st). row_key r \<noteq> lock_key hash"
    using new table_row_Some[OF good] unfolding aq request_key by blast
  ultimately show ?thesis
    using i SlCreate by (simp add: aq created_row_def lock_record_def acquire_request_def is_processing_def)
next
  case (SlReclaim ex)
  let ?op = "TryReclaim sql_repository (ir_id ex) (ir_status ex) now (now + so_lease svc) (now + so_ttl svc)"
  have taken: "snd (call ft ?op st) = Some True" and st': "st' = fst (call ft ?op st)" and l: "sl_record l = ir_id ex"
    using run SlReclaim by (auto simp: aq acquire_request_def acquired_def split: prod.splits option.splits bool.splits if_splits)
  from call_taken[where ft = ft and st = st, OF sql.reclaim good taken] obtain r where "table_row st (ir_id ex) = Some r"
    "reclaimable (ir_status ex) now r" "table_row st' (ir_id ex) = Some (reclaimed_row (now + so_lease svc) (now + so_ttl svc) r)"
    unfolding st' by blast
  then show ?thesis
    using l SlReclaim by (simp add: reclaimable_def reclaimed_row_def is_processing_def)
qed (use run pl in \<open>auto split: prod.splits option.splits if_splits\<close>)


lemma lock_granted_only_when_free_witness:
  "\<exists>l. snd (acquire_step sql_repository (acquire_request (\<lambda>s. s) \<lparr>so_lease = 30, so_renew = 10, so_ttl = 60\<rparr> ''op'' 0) Fine
      (empty_idem_table, SlCreate)) = SlDone (Inr l) \<and> sl_record l = 1"
proof -
  let ?svc = "\<lparr>so_lease = 30, so_renew = 10, so_ttl = 60\<rparr>"
  let ?s = "acquire_step sql_repository (acquire_request (\<lambda>s. s) ?svc ''op'' 0) Fine (empty_idem_table, SlCreate)"
  have run: "?s = (fst ?s, SlDone (Inr \<lparr>sl_record = 1, sl_operation = ''op''\<rparr>))"
    by (simp add: sql_repository_def sql_statements empty_idem_table_def acquired_def acquire_request_def)
  from lock_granted_only_when_free[OF good_empty_table refl run] run show ?thesis
    by (intro exI[of _ "\<lparr>sl_record = 1, sl_operation = ''op''\<rparr>"]) (metis SystemOperationLock.select_convs(1) snd_conv)
qed

text \<open>
  While the lock is held and its lease has not ended, Acquire is refused: the error names
  the operation stored with the record, says after how many whole seconds (at least one) the
  lease ends, and the record stays.
\<close>
theorem held_lock_refused:
  assumes good: "good_table st" and r: "r \<in> set (idem_rows st)" "row_key r = lock_key hash" and op: "op \<noteq> []"
    and held: "ir_status r = IdempotencyStatusProcessing" "ir_locked_until r = Some l" "now < l"
  shows "\<exists>st' e. Acquire hash (Some sql_repository) svc op now [Fine, Fine] st = (st', SlDone (Inl e))
    \<and> ae_reason e = ''SYSTEM_OPERATION_BUSY'' \<and> ae_code e = 409 \<and> r \<in> set (idem_rows st')
    \<and> RetryAfterSecondsFromError (App e) = max 1 (min max_int64 (l - now) div second)
    \<and> (ir_fingerprint r \<noteq> [] \<longrightarrow> (\<exists>md. ae_metadata e = Some md \<and> aget md ''operation_id'' = Some (ir_fingerprint r)))"
proof -
  have row: "table_row st (ir_id r) = Some r" using r by (simp add: table_row_Some[OF good])
  let ?e = "busyError (ir_fingerprint r) (Some l) now"
  from sql.acquire_looks_up[OF good row r(2) op, of svc now "[]"] held obtain st' where
    1: "Acquire hash (Some sql_repository) svc op now [Fine, Fine] st = (st', SlDone (Inl ?e))"
      "table_row st' = table_row st" "good_table st'"
    by (auto simp: locked_after_def)
  let ?sec = "if whole_seconds (time_sub l now) \<le> 0 then 1 else whole_seconds (time_sub l now)"
  have md: "\<exists>md. ae_metadata ?e = Some md \<and> aget md ''retry_after'' = Some (decimal ?sec)
      \<and> (ir_fingerprint r \<noteq> [] \<longrightarrow> aget md ''operation_id'' = Some (ir_fingerprint r))"
    by (simp add: busyError_def WithMetadata_def Let_def amap_simps)
  moreover have "RetryAfterSecondsFromError (App ?e)
      = RetryAfterSecondsFromError (conflictWithRetryAfter ErrSystemOperationBusy (Some l) now)"
    using md by (auto simp: RetryAfterSecondsFromError_def conflictWithRetryAfter_def WithMetadata_def Let_def)
  moreover have "ae_reason ?e = ''SYSTEM_OPERATION_BUSY''" "ae_code ?e = 409"
    by (simp_all add: busyError_def WithMetadata_def ErrSystemOperationBusy_def Conflict_def Let_def)
  moreover have "r \<in> set (idem_rows st')" using row 1 table_row_Some[OF 1(3), of "ir_id r" r] by simp
  ultimately show ?thesis using 1(1) hint_roundtrip by auto
qed

text \<open>
  The renewal of a lock that was not newly created never extends it: reclaiming the record
  keeps the operation id of its first owner, and the renewal asks for its own. So when the
  lease of the reclaimed lock ends, whatever the renewals did, another operation acquires the
  lock although the first one has not released it.
\<close>
theorem reclaimed_lock_never_renewed:
  assumes good: "good_table st" and r: "r \<in> set (idem_rows st)" "row_key r = lock_key hash"
    and free: "unlocked now r" and op: "op \<noteq> []" "ir_fingerprint r \<noteq> op"
    and later: "now + so_lease svc \<le> now2" and op2: "op2 \<noteq> []"
  shows "\<exists>st1 st2. Acquire hash (Some sql_repository) svc op now [Fine, Fine, Fine] st
      = (st1, SlDone (Inr \<lparr>sl_record = ir_id r, sl_operation = op\<rparr>))
    \<and> table_row (renewLoop sql_repository svc \<lparr>sl_record = ir_id r, sl_operation = op\<rparr> evs st1) = table_row st1
    \<and> Acquire hash (Some sql_repository) svc op2 now2 [Fine, Fine, Fine]
        (renewLoop sql_repository svc \<lparr>sl_record = ir_id r, sl_operation = op\<rparr> evs st1)
      = (st2, SlDone (Inr \<lparr>sl_record = ir_id r, sl_operation = op2\<rparr>))"
proof -
  have row: "table_row st (ir_id r) = Some r" using r by (simp add: table_row_Some[OF good])
  let ?r = "reclaimed_row (now + so_lease svc) (now + so_ttl svc) r"
  from sql.acquire_reclaims[OF good row r(2) op(1) free] obtain st1 where
    1: "Acquire hash (Some sql_repository) svc op now [Fine, Fine, Fine] st
      = (st1, SlDone (Inr \<lparr>sl_record = ir_id r, sl_operation = op\<rparr>))"
      "table_row st1 (ir_id r) = Some ?r" "good_table st1"
    by blast
  have "ir_fingerprint ?r \<noteq> op" using op by (simp add: reclaimed_row_def)
  from sql.renew_keeps_others[OF 1(3,2) this, of svc evs]
  have same: "table_row (renewLoop sql_repository svc \<lparr>sl_record = ir_id r, sl_operation = op\<rparr> evs st1) = table_row st1"
    and good2: "good_table (renewLoop sql_repository svc \<lparr>sl_record = ir_id r, sl_operation = op\<rparr> evs st1)"
    by auto
  have "row_key ?r = lock_key hash" "unlocked now2 ?r"
    using r later by (simp_all add: reclaimed_row_def row_key_def unlocked_def)
  from sql.acquire_reclaims[OF good2 _ this(1) op2 this(2), of "ir_id r" svc] same 1 show ?thesis by auto
qed

text \<open>
  Release checks only that the record is in progress, not who holds it: an operation whose
  lease has ended releases the lock of the operation that took it over, and a third operation
  acquires the lock at once, while the second one's lease still runs.
\<close>
theorem late_release_frees_other:
  assumes good: "good_table st" and r: "r \<in> set (idem_rows st)" "row_key r = lock_key hash"
    and held: "is_processing r" and op: "op3 \<noteq> []"
  shows "\<exists>st1 st2. Release (Some sql_repository) svc (Some \<lparr>sl_record = ir_id r, sl_operation = late\<rparr>) True why t t' Fine st
      = (st1, True)
    \<and> Acquire hash (Some sql_repository) svc op3 now [Fine, Fine, Fine] st1
      = (st2, SlDone (Inr \<lparr>sl_record = ir_id r, sl_operation = op3\<rparr>))"
proof -
  have row: "table_row st (ir_id r) = Some r" using r by (simp add: table_row_Some[OF good])
  let ?body = "release_body late"
  let ?op = "MarkSucceeded sql_repository (ir_id r) 200 ?body (t + so_ttl svc)"
  let ?r = "succeeded_row 200 ?body (t + so_ttl svc) r"
  have st1: "good_table (fst (?op st))" "snd (?op st)" "table_row (fst (?op st)) (ir_id r) = Some ?r"
    using changes_row_good[OF sql.succeed good] changes_row_taken[OF sql.succeed good]
      changes_row_row[OF sql.succeed good, of "ir_id r" 200 ?body "t + so_ttl svc"] row held by auto
  have "row_key ?r = lock_key hash" "unlocked now ?r"
    using r by (simp_all add: succeeded_row_def row_key_def unlocked_def)
  from sql.acquire_reclaims[OF st1(1,3) this(1) op this(2), of svc] obtain st2 where
    "Acquire hash (Some sql_repository) svc op3 now [Fine, Fine, Fine] (fst (?op st))
      = (st2, SlDone (Inr \<lparr>sl_record = ir_id r, sl_operation = op3\<rparr>))"
    by blast
  moreover have "Release (Some sql_repository) svc (Some \<lparr>sl_record = ir_id r, sl_operation = late\<rparr>) True why t t' Fine st
      = (fst (?op st), True)"
    using st1(2) by (simp add: Release_def Let_def prod_eq_iff)
  ultimately show ?thesis by blast
qed


section \<open>Concrete locks\<close>

definition demo_service :: SystemOperationLockService where
  "demo_service = NewSystemOperationLockService DefaultIdempotencyConfig"

lemma demo_service: "demo_service = \<lparr>so_lease = 30 * second, so_renew = 10 * second, so_ttl = hour\<rparr>"
  by (simp add: demo_service_def NewSystemOperationLockService_def DefaultIdempotencyConfig_def duration_units)

lemma demo_lease: "so_lease demo_service = 30 * second"
  by (simp add: demo_service)

definition demo_lock_row :: IdempotencyRecord where
  "demo_lock_row = created_row 1 (lock_record (acquire_request (\<lambda>s. s) demo_service ''first'' 0))"

lemma demo_lock_table: "good_table \<lparr>idem_rows = [demo_lock_row], next_id = 2\<rparr>"
  by (simp add: good_table_def demo_lock_row_def created_row_def)

lemma demo_lock_facts: "row_key demo_lock_row = lock_key (\<lambda>s. s)" "ir_id demo_lock_row = 1"
  "ir_status demo_lock_row = IdempotencyStatusProcessing" "ir_locked_until demo_lock_row = Some (30 * second)"
  "ir_fingerprint demo_lock_row = ''first''"
  by (simp_all add: demo_lock_row_def created_row_def lock_record_def acquire_request_def row_key_def lock_key_def
      demo_service)

lemma held_lock_refused_witness:
  "\<exists>st' e. Acquire (\<lambda>s. s) (Some sql_repository) demo_service ''second'' second [Fine, Fine]
      \<lparr>idem_rows = [demo_lock_row], next_id = 2\<rparr> = (st', SlDone (Inl e))
    \<and> RetryAfterSecondsFromError (App e) = 29"
  using held_lock_refused[OF demo_lock_table, of demo_lock_row "\<lambda>s. s" "''second''" "30 * second" second demo_service]
  by (auto simp: demo_lock_facts duration_units max_int64_def)

lemma reclaimed_lock_never_renewed_witness:
  "\<exists>st1 st2. Acquire (\<lambda>s. s) (Some sql_repository) demo_service ''second'' (30 * second) [Fine, Fine, Fine]
      \<lparr>idem_rows = [demo_lock_row], next_id = 2\<rparr> = (st1, SlDone (Inr \<lparr>sl_record = 1, sl_operation = ''second''\<rparr>))
    \<and> Acquire (\<lambda>s. s) (Some sql_repository) demo_service ''third'' (60 * second) [Fine, Fine, Fine]
        (renewLoop sql_repository demo_service \<lparr>sl_record = 1, sl_operation = ''second''\<rparr> [Tick (40 * second) Fine, Tick (50 * second) Fine] st1)
      = (st2, SlDone (Inr \<lparr>sl_record = 1, sl_operation = ''third''\<rparr>))"
  using reclaimed_lock_never_renewed[OF demo_lock_table, of demo_lock_row "\<lambda>s. s" "30 * second" "''second''" demo_service
      "60 * second" "''third''" "[Tick (40 * second) Fine, Tick (50 * second) Fine]"]
  by (auto simp: demo_lock_facts unlocked_def demo_lease simp del: renewLoop.simps)

lemma late_release_frees_other_witness:
  "\<exists>st1 st2. Release (Some sql_repository) demo_service (Some \<lparr>sl_record = 1, sl_operation = ''zero''\<rparr>) True [] 5 6 Fine
      \<lparr>idem_rows = [demo_lock_row], next_id = 2\<rparr> = (st1, True)
    \<and> Acquire (\<lambda>s. s) (Some sql_repository) demo_service ''third'' 7 [Fine, Fine, Fine] st1
      = (st2, SlDone (Inr \<lparr>sl_record = 1, sl_operation = ''third''\<rparr>))"
  using late_release_frees_other[OF demo_lock_table, of demo_lock_row "\<lambda>s. s" "''third''" demo_service "''zero''" "[]" 5 6 7]
  by (simp add: demo_lock_facts is_processing_def)

lemma renew_tick:
  assumes "good_table st" "table_row st i = Some r" "is_processing r" "ir_fingerprint r = op"
  shows "good_table (fst (ExtendProcessingLock sql_repository i op (t + so_lease svc) (t + so_ttl svc) st))
    \<and> snd (ExtendProcessingLock sql_repository i op (t + so_lease svc) (t + so_ttl svc) st)
    \<and> table_row (fst (ExtendProcessingLock sql_repository i op (t + so_lease svc) (t + so_ttl svc) st)) i
      = Some (extended_row (t + so_lease svc) (t + so_ttl svc) r)"
  using sql.extend[of i op "t + so_lease svc" "t + so_ttl svc"] assms
  by (auto simp: changes_row_def processing_for_def is_processing_def)

text \<open>
  A lock on a newly created record is renewed: after any ticks at rising instants whose calls
  succeed, the record is in progress and locked for one lease from the last tick.
\<close>
theorem created_lock_renewed:
  assumes good: "good_table st" and r: "table_row st i = Some r" "is_processing r" "ir_fingerprint r = op"
  shows "\<exists>r'. table_row (renewLoop sql_repository svc \<lparr>sl_record = i, sl_operation = op\<rparr> (map (\<lambda>t. Tick t Fine) ts @ [Tick now Fine]) st) i
      = Some r' \<and> is_processing r' \<and> ir_locked_until r' = Some (now + so_lease svc)
      \<and> ir_expires_at r' = now + so_ttl svc"
  using good r
proof (induction ts arbitrary: st r)
  case Nil
  then show ?case using renew_tick[of st i r op now svc] by (simp add: extended_row_def is_processing_def)
next
  case (Cons t ts)
  let ?r = "extended_row (t + so_lease svc) (t + so_ttl svc) r"
  have "is_processing ?r" "ir_fingerprint ?r = op" using Cons.prems by (simp_all add: extended_row_def is_processing_def)
  then show ?case
    using renew_tick[OF Cons.prems, of t svc] Cons.IH[of _ ?r] by simp
qed

lemma created_lock_renewed_witness:
  "\<exists>r'. table_row (renewLoop sql_repository demo_service \<lparr>sl_record = 1, sl_operation = ''first''\<rparr>
      (map (\<lambda>t. Tick t Fine) [10, 20] @ [Tick 30 Fine]) \<lparr>idem_rows = [demo_lock_row], next_id = 2\<rparr>) 1 = Some r'
    \<and> ir_locked_until r' = Some (30 + so_lease demo_service)"
proof -
  have "table_row \<lparr>idem_rows = [demo_lock_row], next_id = 2\<rparr> 1 = Some demo_lock_row"
    by (simp add: table_row_def demo_lock_facts)
  from created_lock_renewed[OF demo_lock_table this, of "''first''" demo_service "[10, 20]" 30]
  show ?thesis by (auto simp: demo_lock_facts is_processing_def simp del: renewLoop.simps)
qed

end
