(* ===== verification/Compat_Types.thy ===== *)
theory Compat_Types
  imports Gateway_Prelude
begin

text \<open>
  The wire types of the format converters (pkg/apicompat/types.go), with the fields that the
  modelled converters read or write; a field left out keeps its zero value in them. A string
  field that the JSON form omits when empty is the empty string here, an optional pointer is an
  option, raw JSON is its text. Token counts are unbounded: Go's int has 64 bits.
\<close>

section \<open>Anthropic Messages\<close>

record AnthropicContentBlock =
  ab_type :: string
  ab_text :: string
  ab_thinking :: string
  ab_signature :: string
  ab_id :: string
  ab_name :: string
  ab_input :: string
  ab_tool_use_id :: string
  ab_content :: string

record AnthropicUsage =
  au_input :: int
  au_output :: int
  au_cache_creation :: int
  au_cache_read :: int

record AnthropicResponse =
  ar_id :: string
  ar_content :: "AnthropicContentBlock list"
  ar_model :: string
  ar_stop_reason :: "string option"
  ar_usage :: AnthropicUsage

definition AnthropicStopReasonString :: "string option \<Rightarrow> string" where
  "AnthropicStopReasonString p = (case p of None \<Rightarrow> [] | Some s \<Rightarrow> s)"

record AnthropicDelta =
  ad_type :: string
  ad_text :: string
  ad_partial_json :: string
  ad_thinking :: string
  ad_signature :: string
  ad_stop_reason :: string

record AnthropicStreamEvent =
  ae_type :: string
  ae_message :: "AnthropicResponse option"
  ae_index :: "int option"
  ae_block :: "AnthropicContentBlock option"
  ae_delta :: "AnthropicDelta option"
  ae_usage :: "AnthropicUsage option"

definition no_usage :: AnthropicUsage where
  "no_usage = \<lparr>au_input = 0, au_output = 0, au_cache_creation = 0, au_cache_read = 0\<rparr>"

section \<open>OpenAI Responses\<close>

record ResponsesContentPart =
  rp_type :: string
  rp_text :: string

record ResponsesSummary =
  rs_type :: string
  rs_text :: string

record WebSearchAction =
  wa_type :: string
  wa_query :: string

record ResponsesOutput =
  ro_type :: string
  ro_id :: string
  ro_role :: string
  ro_content :: "ResponsesContentPart list"
  ro_status :: string
  ro_encrypted :: string
  ro_summary :: "ResponsesSummary list"
  ro_call_id :: string
  ro_name :: string
  ro_arguments :: string
  ro_action :: "WebSearchAction option"

record ResponsesUsage =
  ru_input :: int
  ru_output :: int
  ru_total :: int
  ru_cache_creation :: int
  ru_cached :: "int option"

record ResponsesResponse =
  rr_id :: string
  rr_object :: string
  rr_model :: string
  rr_status :: string
  rr_output :: "ResponsesOutput list"
  rr_usage :: "ResponsesUsage option"
  rr_incomplete :: "string option"

record ResponsesStreamEvent =
  re_type :: string
  re_response :: "ResponsesResponse option"
  re_usage :: "ResponsesUsage option"
  re_item :: "ResponsesOutput option"
  re_output_index :: int
  re_content_index :: int
  re_delta :: string
  re_text :: string
  re_item_id :: string
  re_call_id :: string
  re_name :: string
  re_arguments :: string
  re_summary_index :: int
  re_part :: "ResponsesContentPart option"
  re_sequence :: int

text \<open>The zero values of Go.\<close>

definition zero_block :: AnthropicContentBlock where
  "zero_block = \<lparr>ab_type = [], ab_text = [], ab_thinking = [], ab_signature = [], ab_id = [], ab_name = [], ab_input = [],
     ab_tool_use_id = [], ab_content = []\<rparr>"

definition zero_delta :: AnthropicDelta where
  "zero_delta = \<lparr>ad_type = [], ad_text = [], ad_partial_json = [], ad_thinking = [], ad_signature = [], ad_stop_reason = []\<rparr>"

definition stream_event :: "string \<Rightarrow> AnthropicStreamEvent" where
  "stream_event ty = \<lparr>ae_type = ty, ae_message = None, ae_index = None, ae_block = None, ae_delta = None, ae_usage = None\<rparr>"

definition zero_output :: ResponsesOutput where
  "zero_output = \<lparr>ro_type = [], ro_id = [], ro_role = [], ro_content = [], ro_status = [], ro_encrypted = [], ro_summary = [],
     ro_call_id = [], ro_name = [], ro_arguments = [], ro_action = None\<rparr>"

definition zero_event :: ResponsesStreamEvent where
  "zero_event = \<lparr>re_type = [], re_response = None, re_usage = None, re_item = None, re_output_index = 0, re_content_index = 0,
     re_delta = [], re_text = [], re_item_id = [], re_call_id = [], re_name = [], re_arguments = [], re_summary_index = 0,
     re_part = None, re_sequence = 0\<rparr>"

lemmas zero_values = zero_block_def zero_delta_def stream_event_def zero_output_def zero_event_def

end
