(* ===== verification/Anthropic_Responses.thy ===== *)
theory Anthropic_Responses
  imports Compat_Types
begin

text \<open>
  Anthropic answers in the format of the OpenAI Responses API
  (pkg/apicompat/anthropic_to_responses_response.go): the conversion of a whole message and
  the stateful converter of the event stream.

  \<^item> A handler takes the converter's state and returns it with the events it emits.
  \<^item> generateItemID and generateResponsesID draw random texts. Here the state counts the draws
    and the parameter \<open>gen\<close> says what each one yields.
  \<^item> JSON and the framing of server-sent events are left out.
\<close>

section \<open>Whole messages\<close>

definition output_text :: "string \<Rightarrow> ResponsesContentPart" where
  "output_text t = \<lparr>rp_type = ''output_text'', rp_text = t\<rparr>"

definition summary_text :: "string \<Rightarrow> ResponsesSummary" where
  "summary_text t = \<lparr>rs_type = ''summary_text'', rs_text = t\<rparr>"

definition toResponsesCallID :: "string \<Rightarrow> string" where
  "toResponsesCallID i = i"

text \<open>The loop over the blocks: the outputs and the text parts so far, and the draws.\<close>

fun block_step :: "(nat \<Rightarrow> string) \<Rightarrow> AnthropicContentBlock \<Rightarrow> ResponsesOutput list \<times> ResponsesContentPart list \<times> nat
    \<Rightarrow> ResponsesOutput list \<times> ResponsesContentPart list \<times> nat" where
  "block_step gen block (outputs, parts, n) =
     (if ab_type block = ''thinking'' then
        (if ab_thinking block \<noteq> []
         then (outputs @ [zero_output\<lparr>ro_type := ''reasoning'', ro_id := gen n,
                 ro_summary := [summary_text (ab_thinking block)]\<rparr>], parts, n + 1)
         else (outputs, parts, n))
      else if ab_type block = ''text'' then
        (if ab_text block \<noteq> [] then (outputs, parts @ [output_text (ab_text block)], n)
         else (outputs, parts, n))
      else if ab_type block = ''tool_use'' then
        (outputs @ [zero_output\<lparr>ro_type := ''function_call'', ro_id := gen n,
           ro_call_id := toResponsesCallID (ab_id block), ro_name := ab_name block,
           ro_arguments := (if ab_input block \<noteq> [] then ab_input block else ''{}''),
           ro_status := ''completed''\<rparr>], parts, n + 1)
      else (outputs, parts, n))"

definition message_output :: "string \<Rightarrow> ResponsesContentPart list \<Rightarrow> ResponsesOutput" where
  "message_output i parts = zero_output\<lparr>ro_type := ''message'', ro_id := i, ro_role := ''assistant'',
     ro_content := parts, ro_status := ''completed''\<rparr>"

definition anthropicStopReasonToResponsesStatus :: "string \<Rightarrow> string" where
  "anthropicStopReasonToResponsesStatus stopReason =
     (if stopReason = ''max_tokens'' then ''incomplete''
      else if stopReason \<in> {''end_turn'', ''tool_use'', ''stop_sequence''} then ''completed''
      else ''completed'')"

definition responses_usage :: "int \<Rightarrow> int \<Rightarrow> int \<Rightarrow> int \<Rightarrow> ResponsesUsage" where
  "responses_usage input output cacheRead cacheCreation =
     (let totalInputTokens = input + cacheRead + cacheCreation
      in \<lparr>ru_input = totalInputTokens, ru_output = output, ru_total = totalInputTokens + output,
          ru_cache_creation = cacheCreation,
          ru_cached = (if 0 < cacheRead then Some cacheRead else None)\<rparr>)"

definition AnthropicToResponsesResponse :: "(nat \<Rightarrow> string) \<Rightarrow> (nat \<Rightarrow> string) \<Rightarrow> AnthropicResponse \<Rightarrow> ResponsesResponse" where
  "AnthropicToResponsesResponse genResponse gen resp =
     (let (outputs, parts, n) = fold (block_step gen) (ar_content resp) ([], [], 0);
          outputs = (if parts \<noteq> [] then outputs @ [message_output (gen n) parts] else outputs);
          outputs = (if outputs = [] then [message_output (gen n) [output_text []]] else outputs);
          status = anthropicStopReasonToResponsesStatus (AnthropicStopReasonString (ar_stop_reason resp));
          u = ar_usage resp
      in \<lparr>rr_id = (if ar_id resp = [] then genResponse 0 else ar_id resp), rr_object = ''response'',
          rr_model = ar_model resp, rr_status = status, rr_output = outputs,
          rr_usage = Some (responses_usage (au_input u) (au_output u) (au_cache_read u) (au_cache_creation u)),
          rr_incomplete = (if status = ''incomplete'' then Some ''max_output_tokens'' else None)\<rparr>)"

section \<open>The state of the stream converter\<close>

record AnthropicEventToResponsesState =
  ResponseID :: string
  Model :: string
  SequenceNumber :: int
  CreatedSent :: bool
  CompletedSent :: bool
  OutputIndex :: int
  CurrentItemID :: string
  CurrentItemType :: string
  ContentIndex :: int
  TextAccum :: string
  CurrentCallID :: string
  CurrentName :: string
  CurrentContent :: "ResponsesContentPart list"
  CurrentArgs :: string
  CurrentSummary :: string
  Outputs :: "ResponsesOutput list"
  InputTokens :: int
  OutputTokens :: int
  CacheReadInputTokens :: int
  CacheCreationInputTokens :: int
  StopReason :: string
  drawn :: nat

type_synonym conv = AnthropicEventToResponsesState
type_synonym emitted = "conv \<times> ResponsesStreamEvent list"

definition NewAnthropicEventToResponsesState :: conv where
  "NewAnthropicEventToResponsesState = \<lparr>ResponseID = [], Model = [], SequenceNumber = 0, CreatedSent = False,
     CompletedSent = False, OutputIndex = 0, CurrentItemID = [], CurrentItemType = [], ContentIndex = 0,
     TextAccum = [], CurrentCallID = [], CurrentName = [], CurrentContent = [], CurrentArgs = [],
     CurrentSummary = [], Outputs = [], InputTokens = 0, OutputTokens = 0, CacheReadInputTokens = 0,
     CacheCreationInputTokens = 0, StopReason = [], drawn = 0\<rparr>"

section \<open>Events\<close>

definition makeResponsesEvent :: "string \<Rightarrow> ResponsesStreamEvent \<Rightarrow> conv \<Rightarrow> conv \<times> ResponsesStreamEvent" where
  "makeResponsesEvent eventType tmpl st =
     (st\<lparr>SequenceNumber := SequenceNumber st + 1\<rparr>,
      tmpl\<lparr>re_type := eventType, re_sequence := SequenceNumber st\<rparr>)"

text \<open>Emits one event after the events already there.\<close>

definition emit :: "string \<Rightarrow> (conv \<Rightarrow> ResponsesStreamEvent) \<Rightarrow> emitted \<Rightarrow> emitted" where
  "emit eventType tmpl s =
     (let (st', ev) = makeResponsesEvent eventType (tmpl (fst s)) (fst s) in (st', snd s @ [ev]))"

definition makeResponsesCreatedEvent :: "conv \<Rightarrow> conv \<times> ResponsesStreamEvent" where
  "makeResponsesCreatedEvent st =
     (st\<lparr>SequenceNumber := SequenceNumber st + 1\<rparr>,
      zero_event\<lparr>re_type := ''response.created'', re_sequence := SequenceNumber st,
        re_response := Some \<lparr>rr_id = ResponseID st, rr_object = ''response'', rr_model = Model st,
          rr_status = ''in_progress'', rr_output = [], rr_usage = None, rr_incomplete = None\<rparr>\<rparr>)"

definition makeResponsesCompletedEvent :: "string \<Rightarrow> string option \<Rightarrow> conv \<Rightarrow> conv \<times> ResponsesStreamEvent" where
  "makeResponsesCompletedEvent status incompleteDetails st =
     (st\<lparr>SequenceNumber := SequenceNumber st + 1\<rparr>,
      zero_event\<lparr>re_type := (if status = ''incomplete'' then ''response.incomplete'' else ''response.completed''),
        re_sequence := SequenceNumber st,
        re_response := Some \<lparr>rr_id = ResponseID st, rr_object = ''response'', rr_model = Model st,
          rr_status = status, rr_output = Outputs st,
          rr_usage = Some (responses_usage (InputTokens st) (OutputTokens st) (CacheReadInputTokens st)
            (CacheCreationInputTokens st)),
          rr_incomplete = incompleteDetails\<rparr>\<rparr>)"

definition current_item :: "conv \<Rightarrow> ResponsesOutput" where
  "current_item st =
     (let item = zero_output\<lparr>ro_type := CurrentItemType st, ro_id := CurrentItemID st, ro_status := ''completed''\<rparr>
      in if CurrentItemType st = ''message''
         then item\<lparr>ro_role := ''assistant'', ro_content := CurrentContent st\<rparr>
         else if CurrentItemType st = ''function_call''
         then item\<lparr>ro_call_id := CurrentCallID st, ro_name := CurrentName st,
                ro_arguments := (if CurrentArgs st = [] then ''{}'' else CurrentArgs st)\<rparr>
         else if CurrentItemType st = ''reasoning'' \<and> CurrentSummary st \<noteq> []
         then item\<lparr>ro_summary := [summary_text (CurrentSummary st)]\<rparr>
         else item)"

definition close_state :: "conv \<Rightarrow> conv" where
  "close_state st = st\<lparr>Outputs := Outputs st @ [current_item st], CurrentItemType := [], CurrentItemID := [],
     CurrentCallID := [], CurrentName := [], CurrentContent := [], CurrentArgs := [], CurrentSummary := [],
     TextAccum := [], OutputIndex := OutputIndex st + 1, ContentIndex := 0\<rparr>"

definition closeCurrentResponsesItem :: "emitted \<Rightarrow> emitted" where
  "closeCurrentResponsesItem s =
     (let st = fst s
      in if CurrentItemType st = [] then s
         else emit ''response.output_item.done''
           (\<lambda>st'. zero_event\<lparr>re_output_index := OutputIndex st' - 1, re_item := Some (current_item st)\<rparr>)
           (close_state st, snd s))"

section \<open>The handlers\<close>

definition keep_positive :: "int \<Rightarrow> int \<Rightarrow> int" where
  "keep_positive new old = (if 0 < new then new else old)"

definition anthToResHandleMessageStart :: "AnthropicStreamEvent \<Rightarrow> conv \<Rightarrow> emitted" where
  "anthToResHandleMessageStart evt st =
     (let st = (case ae_message evt of
            None \<Rightarrow> st
          | Some m \<Rightarrow> st\<lparr>ResponseID := ar_id m,
              Model := (if Model st = [] then ar_model m else Model st),
              InputTokens := keep_positive (au_input (ar_usage m)) (InputTokens st),
              CacheReadInputTokens := keep_positive (au_cache_read (ar_usage m)) (CacheReadInputTokens st),
              CacheCreationInputTokens := keep_positive (au_cache_creation (ar_usage m)) (CacheCreationInputTokens st)\<rparr>)
      in if CreatedSent st then (st, [])
         else (let (st', ev) = makeResponsesCreatedEvent (st\<lparr>CreatedSent := True\<rparr>) in (st', [ev])))"

definition open_item :: "(nat \<Rightarrow> string) \<Rightarrow> string \<Rightarrow> conv \<Rightarrow> conv" where
  "open_item gen itemType st = st\<lparr>CurrentItemID := gen (drawn st), CurrentItemType := itemType, drawn := drawn st + 1\<rparr>"

definition anthToResHandleContentBlockStart :: "(nat \<Rightarrow> string) \<Rightarrow> AnthropicStreamEvent \<Rightarrow> conv \<Rightarrow> emitted" where
  "anthToResHandleContentBlockStart gen evt st =
     (case ae_block evt of
        None \<Rightarrow> (st, [])
      | Some block \<Rightarrow>
          if ab_type block = ''thinking'' then
            emit ''response.output_item.added''
              (\<lambda>st. zero_event\<lparr>re_output_index := OutputIndex st,
                 re_item := Some (zero_output\<lparr>ro_type := ''reasoning'', ro_id := CurrentItemID st\<rparr>)\<rparr>)
              ((open_item gen ''reasoning'' st)\<lparr>ContentIndex := 0\<rparr>, [])
          else if ab_type block = ''text'' then
            (let s = (if CurrentItemType st \<noteq> ''message''
                 then emit ''response.output_item.added''
                   (\<lambda>st. zero_event\<lparr>re_output_index := OutputIndex st,
                      re_item := Some (zero_output\<lparr>ro_type := ''message'', ro_id := CurrentItemID st,
                        ro_role := ''assistant'', ro_status := ''in_progress''\<rparr>)\<rparr>)
                   ((open_item gen ''message'' st)\<lparr>ContentIndex := 0\<rparr>, [])
                 else (st, []));
                 (st', evs) = emit ''response.content_part.added''
                   (\<lambda>st. zero_event\<lparr>re_output_index := OutputIndex st, re_content_index := ContentIndex st,
                      re_item_id := CurrentItemID st, re_part := Some (output_text [])\<rparr>) s
             in (st'\<lparr>TextAccum := []\<rparr>, evs))
          else if ab_type block = ''tool_use'' then
            (let (st', evs) = closeCurrentResponsesItem (st, [])
             in emit ''response.output_item.added''
                  (\<lambda>st. zero_event\<lparr>re_output_index := OutputIndex st,
                     re_item := Some (zero_output\<lparr>ro_type := ''function_call'', ro_id := CurrentItemID st,
                       ro_call_id := CurrentCallID st, ro_name := CurrentName st, ro_status := ''in_progress''\<rparr>)\<rparr>)
                  ((open_item gen ''function_call'' st')\<lparr>CurrentCallID := toResponsesCallID (ab_id block),
                     CurrentName := ab_name block\<rparr>, evs))
          else (st, []))"

definition anthToResHandleContentBlockDelta :: "AnthropicStreamEvent \<Rightarrow> conv \<Rightarrow> emitted" where
  "anthToResHandleContentBlockDelta evt st =
     (case ae_delta evt of
        None \<Rightarrow> (st, [])
      | Some d \<Rightarrow>
          if ad_type d = ''text_delta'' then
            (if ad_text d = [] then (st, [])
             else emit ''response.output_text.delta''
               (\<lambda>st. zero_event\<lparr>re_output_index := OutputIndex st, re_content_index := ContentIndex st,
                  re_delta := ad_text d, re_item_id := CurrentItemID st\<rparr>)
               (st\<lparr>TextAccum := TextAccum st @ ad_text d\<rparr>, []))
          else if ad_type d = ''thinking_delta'' then
            (if ad_thinking d = [] then (st, [])
             else emit ''response.reasoning_summary_text.delta''
               (\<lambda>st. zero_event\<lparr>re_output_index := OutputIndex st, re_summary_index := 0,
                  re_delta := ad_thinking d, re_item_id := CurrentItemID st\<rparr>)
               (st\<lparr>CurrentSummary := CurrentSummary st @ ad_thinking d\<rparr>, []))
          else if ad_type d = ''input_json_delta'' then
            (if ad_partial_json d = [] then (st, [])
             else emit ''response.function_call_arguments.delta''
               (\<lambda>st. zero_event\<lparr>re_output_index := OutputIndex st, re_delta := ad_partial_json d,
                  re_item_id := CurrentItemID st, re_call_id := CurrentCallID st, re_name := CurrentName st\<rparr>)
               (st\<lparr>CurrentArgs := CurrentArgs st @ ad_partial_json d\<rparr>, []))
          else (st, []))"

definition anthToResHandleContentBlockStop :: "conv \<Rightarrow> emitted" where
  "anthToResHandleContentBlockStop st =
     (if CurrentItemType st = ''reasoning'' then
        closeCurrentResponsesItem (emit ''response.reasoning_summary_text.done''
          (\<lambda>st. zero_event\<lparr>re_output_index := OutputIndex st, re_summary_index := 0,
             re_item_id := CurrentItemID st\<rparr>) (st, []))
      else if CurrentItemType st = ''function_call'' then
        closeCurrentResponsesItem (emit ''response.function_call_arguments.done''
          (\<lambda>st. zero_event\<lparr>re_output_index := OutputIndex st, re_item_id := CurrentItemID st,
             re_call_id := CurrentCallID st, re_name := CurrentName st\<rparr>) (st, []))
      else if CurrentItemType st = ''message'' then
        (let text = TextAccum st
         in emit ''response.content_part.done''
              (\<lambda>st. zero_event\<lparr>re_output_index := OutputIndex st, re_content_index := ContentIndex st,
                 re_item_id := CurrentItemID st, re_part := Some (output_text text)\<rparr>)
              (emit ''response.output_text.done''
                (\<lambda>st. zero_event\<lparr>re_output_index := OutputIndex st, re_content_index := ContentIndex st,
                   re_item_id := CurrentItemID st, re_text := text\<rparr>)
                (st\<lparr>TextAccum := [], CurrentContent := CurrentContent st @ [output_text text]\<rparr>, [])))
      else (st, []))"

definition anthToResHandleMessageDelta :: "AnthropicStreamEvent \<Rightarrow> conv \<Rightarrow> emitted" where
  "anthToResHandleMessageDelta evt st =
     (let st = (case ae_usage evt of
            None \<Rightarrow> st
          | Some u \<Rightarrow> st\<lparr>OutputTokens := au_output u, InputTokens := keep_positive (au_input u) (InputTokens st),
              CacheReadInputTokens := keep_positive (au_cache_read u) (CacheReadInputTokens st),
              CacheCreationInputTokens := keep_positive (au_cache_creation u) (CacheCreationInputTokens st)\<rparr>);
          st = (case ae_delta evt of
            None \<Rightarrow> st
          | Some d \<Rightarrow> if ad_stop_reason d \<noteq> [] then st\<lparr>StopReason := ad_stop_reason d\<rparr> else st)
      in (st, []))"

definition anthropicResponsesStreamTerminalState :: "string \<Rightarrow> string \<times> string option" where
  "anthropicResponsesStreamTerminalState stopReason =
     (if stopReason = ''max_tokens'' then (''incomplete'', Some ''max_output_tokens'') else (''completed'', None))"

text \<open>The end of a stream, as the message_stop handler and the finalizer share it.\<close>

definition terminate_stream :: "conv \<Rightarrow> emitted" where
  "terminate_stream st =
     (let (st', evs) = closeCurrentResponsesItem (st, []);
          (status, incompleteDetails) = anthropicResponsesStreamTerminalState (StopReason st');
          (st'', ev) = makeResponsesCompletedEvent status incompleteDetails st'
      in (st''\<lparr>CompletedSent := True\<rparr>, evs @ [ev]))"

definition anthToResHandleMessageStop :: "conv \<Rightarrow> emitted" where
  "anthToResHandleMessageStop st = (if CompletedSent st then (st, []) else terminate_stream st)"

definition FinalizeAnthropicResponsesStream :: "conv \<Rightarrow> emitted" where
  "FinalizeAnthropicResponsesStream st =
     (if \<not> CreatedSent st \<or> CompletedSent st then (st, []) else terminate_stream st)"

definition AnthropicEventToResponsesEvents :: "(nat \<Rightarrow> string) \<Rightarrow> AnthropicStreamEvent \<Rightarrow> conv \<Rightarrow> emitted" where
  "AnthropicEventToResponsesEvents gen evt st =
     (if ae_type evt = ''message_start'' then anthToResHandleMessageStart evt st
      else if ae_type evt = ''content_block_start'' then anthToResHandleContentBlockStart gen evt st
      else if ae_type evt = ''content_block_delta'' then anthToResHandleContentBlockDelta evt st
      else if ae_type evt = ''content_block_stop'' then anthToResHandleContentBlockStop st
      else if ae_type evt = ''message_delta'' then anthToResHandleMessageDelta evt st
      else if ae_type evt = ''message_stop'' then anthToResHandleMessageStop st
      else (st, []))"

text \<open>The loop of the handlers that relay a stream.\<close>

fun convert_stream :: "(nat \<Rightarrow> string) \<Rightarrow> AnthropicStreamEvent list \<Rightarrow> conv \<Rightarrow> emitted" where
  "convert_stream gen [] st = (st, [])"
| "convert_stream gen (evt # evts) st =
     (let (st1, out1) = AnthropicEventToResponsesEvents gen evt st;
          (st2, out2) = convert_stream gen evts st1
      in (st2, out1 @ out2))"


section \<open>Numbering\<close>

text \<open>
  A stateful converter numbers its events when every call continues the count; then so does
  every run of calls.
\<close>

lemma upto_append: "[n .. n + int a - 1] @ [n + int a .. n + int a + int b - 1] = [n .. n + int a + int b - 1]"
proof (cases b)
  case (Suc k)
  then show ?thesis using upto_split1[of n "n + int a" "n + int a + int b - 1"] by simp
qed simp

locale numbering_converter =
  fixes handle :: "'i \<Rightarrow> 's \<Rightarrow> 's \<times> 'o list" and next_number :: "'s \<Rightarrow> int" and number :: "'o \<Rightarrow> int"
  assumes handle_numbers: "handle i s = (s', out) \<Longrightarrow>
    map number out = [next_number s .. next_number s + int (length out) - 1]
    \<and> next_number s' = next_number s + int (length out)"
begin

lemma run_numbers:
  assumes "\<And>s. run [] s = (s, [])"
    and "\<And>i is s. run (i # is) s = (let (s1, o1) = handle i s; (s2, o2) = run is s1 in (s2, o1 @ o2))"
    and "run is s = (s', out)"
  shows "map number out = [next_number s .. next_number s + int (length out) - 1]
    \<and> next_number s' = next_number s + int (length out)"
  using assms(3)
proof (induction "is" arbitrary: s s' out)
  case Nil
  then show ?case by (simp add: assms(1))
next
  case (Cons i "is")
  obtain s1 o1 where 1: "handle i s = (s1, o1)" by force
  obtain s2 o2 where 2: "run is s1 = (s2, o2)" by force
  have out: "s' = s2" "out = o1 @ o2" using Cons.prems 1 2 by (simp_all add: assms(2))
  show ?case
    using handle_numbers[OF 1] Cons.IH[OF 2] upto_append[of "next_number s" "length o1" "length o2"]
    unfolding out by (simp add: algebra_simps)
qed

end

definition numbers_from :: "int \<Rightarrow> emitted \<Rightarrow> bool" where
  "numbers_from n s \<longleftrightarrow> map re_sequence (snd s) = [n .. n + int (length (snd s)) - 1]
     \<and> SequenceNumber (fst s) = n + int (length (snd s))"

lemma numbers_start: "SequenceNumber st = n \<Longrightarrow> numbers_from n (st, [])"
  by (simp add: numbers_from_def)

lemma numbers_emit:
  assumes "numbers_from n s" "\<And>st. SequenceNumber (f st) = SequenceNumber st"
  shows "numbers_from n (emit ty tmpl (f (fst s), snd s))"
  using assms upto_rec2[of n "n + int (length (snd s))"]
  by (simp add: numbers_from_def emit_def makeResponsesEvent_def)

lemma numbers_emit_here: "numbers_from n s \<Longrightarrow> numbers_from n (emit ty tmpl s)"
  using numbers_emit[of n s "\<lambda>st. st"] by simp


lemma numbers_close: "numbers_from n s \<Longrightarrow> numbers_from n (closeCurrentResponsesItem s)"
  unfolding closeCurrentResponsesItem_def Let_def
  using numbers_emit[of n s close_state] by (auto simp: close_state_def)

lemma numbers_created:
  "numbers_from n (fst (makeResponsesCreatedEvent st), [snd (makeResponsesCreatedEvent st)])" if "SequenceNumber st = n"
  using that by (simp add: numbers_from_def makeResponsesCreatedEvent_def)

lemma numbers_terminate: "numbers_from (SequenceNumber st) (terminate_stream st)"
proof -
  obtain st1 evs where 1: "closeCurrentResponsesItem (st, []) = (st1, evs)" by force
  have "numbers_from (SequenceNumber st) (st1, evs)"
    using numbers_close[OF numbers_start[OF refl], of st] 1 by simp
  then show ?thesis
    using upto_rec2[of "SequenceNumber st" "SequenceNumber st + int (length evs)"]
    by (simp add: terminate_stream_def 1 numbers_from_def makeResponsesCompletedEvent_def case_prod_unfold Let_def)
qed

lemma numbers_handle: "numbers_from (SequenceNumber st) (AnthropicEventToResponsesEvents gen evt st)"
proof -
  have here: "numbers_from (SequenceNumber st) (emit ty tmpl (st', []))" if "SequenceNumber st' = SequenceNumber st" for ty tmpl st'
    using that by (intro numbers_emit_here numbers_start)
  have start: "numbers_from (SequenceNumber st) (anthToResHandleMessageStart evt st)"
    by (auto simp: anthToResHandleMessageStart_def Let_def makeResponsesCreatedEvent_def numbers_from_def split: option.split)
  have part: "numbers_from n (case emit ty tmpl s of (st', evs) \<Rightarrow> (st'\<lparr>TextAccum := []\<rparr>, evs))" if "numbers_from n s" for n ty tmpl s
    using numbers_emit_here[OF that, of ty tmpl] by (simp add: case_prod_unfold numbers_from_def Let_def)
  have tool: "numbers_from n (case s of (st', evs) \<Rightarrow> emit ty tmpl (f st', evs))"
    if "numbers_from n s" "\<And>st. SequenceNumber (f st) = SequenceNumber st" for n ty tmpl s f
    using numbers_emit[OF that, of ty tmpl] by (simp add: case_prod_unfold Let_def)
  have opened: "SequenceNumber (open_item gen ty st') = SequenceNumber st'" for ty st'
    by (simp add: open_item_def)
  have block: "numbers_from (SequenceNumber st) (anthToResHandleContentBlockStart gen evt st)"
    unfolding anthToResHandleContentBlockStart_def
    by (auto simp: opened Let_def split: option.split intro!: here part numbers_start tool numbers_close)
  have delta: "numbers_from (SequenceNumber st) (anthToResHandleContentBlockDelta evt st)"
    by (auto simp: anthToResHandleContentBlockDelta_def intro!: here numbers_start split: option.split)
  have stop: "numbers_from (SequenceNumber st) (anthToResHandleContentBlockStop st)"
    by (auto simp: anthToResHandleContentBlockStop_def Let_def intro!: here numbers_start numbers_close numbers_emit_here)
  have mdelta: "numbers_from (SequenceNumber st) (anthToResHandleMessageDelta evt st)"
    by (auto simp: anthToResHandleMessageDelta_def Let_def numbers_from_def split: option.split)
  have mstop: "numbers_from (SequenceNumber st) (anthToResHandleMessageStop st)"
    using numbers_terminate by (simp add: anthToResHandleMessageStop_def numbers_from_def)
  show ?thesis
    using start block delta stop mdelta mstop by (simp add: AnthropicEventToResponsesEvents_def numbers_start)
qed

interpretation conv: numbering_converter "AnthropicEventToResponsesEvents gen" SequenceNumber re_sequence for gen
  by unfold_locales (metis numbers_handle numbers_from_def fst_conv snd_conv)

text \<open>
  The events of a stream are numbered from zero without gaps, the synthetic end included,
  whatever events arrive.
\<close>
theorem events_numbered:
  "(let (st, out) = convert_stream gen evts NewAnthropicEventToResponsesState;
        (st', tail) = FinalizeAnthropicResponsesStream st
    in map re_sequence (out @ tail) = [0 .. int (length (out @ tail)) - 1])"
proof -
  obtain st out where run: "convert_stream gen evts NewAnthropicEventToResponsesState = (st, out)" by force
  have out: "map re_sequence out = [0 .. int (length out) - 1]" "SequenceNumber st = int (length out)"
    using conv.run_numbers[where run = "convert_stream gen", OF _ _ run]
    by (simp_all add: NewAnthropicEventToResponsesState_def)
  have "numbers_from (SequenceNumber st) (FinalizeAnthropicResponsesStream st)"
    using numbers_terminate by (simp add: FinalizeAnthropicResponsesStream_def numbers_from_def)
  then show ?thesis
    using out upto_append[of 0 "length out" "length (snd (FinalizeAnthropicResponsesStream st))"]
    by (simp add: run numbers_from_def case_prod_unfold Let_def)
qed


section \<open>What the events say and what the final response carries\<close>

definition is_done :: "ResponsesStreamEvent \<Rightarrow> bool" where
  "is_done e = (re_type e = ''response.output_item.done'')"

definition is_terminal :: "ResponsesStreamEvent \<Rightarrow> bool" where
  "is_terminal e = (re_type e = ''response.completed'' \<or> re_type e = ''response.incomplete'')"

definition is_created :: "ResponsesStreamEvent \<Rightarrow> bool" where
  "is_created e = (re_type e = ''response.created'')"

lemmas event_kinds = is_done_def is_terminal_def is_created_def

text \<open>The items of the output_item.done events, in order.\<close>

definition done_items :: "ResponsesStreamEvent list \<Rightarrow> ResponsesOutput list" where
  "done_items evs = map (\<lambda>e. the (re_item e)) (filter is_done evs)"

text \<open>Every terminal event carries the items that were done before it.\<close>

fun terminals_ok :: "ResponsesOutput list \<Rightarrow> ResponsesStreamEvent list \<Rightarrow> bool" where
  "terminals_ok acc [] = True"
| "terminals_ok acc (e # es) =
     ((is_terminal e \<longrightarrow> map_option rr_output (re_response e) = Some acc)
      \<and> terminals_ok (acc @ done_items [e]) es)"

lemma done_items_append [simp]: "done_items (a @ b) = done_items a @ done_items b"
  by (simp add: done_items_def)

lemma done_items_Nil [simp]: "done_items [] = []"
  by (simp add: done_items_def)

lemma done_items_Cons: "done_items (e # es) = done_items [e] @ done_items es"
  by (simp add: done_items_def)

lemma terminals_ok_append: "terminals_ok acc (a @ b) \<longleftrightarrow> terminals_ok acc a \<and> terminals_ok (acc @ done_items a) b"
proof (induction a arbitrary: acc)
  case (Cons e a)
  then show ?case using done_items_Cons[of e a] by simp
qed simp

text \<open>The events emitted since a state, against the state reached.\<close>

definition tracks :: "conv \<Rightarrow> emitted \<Rightarrow> bool" where
  "tracks st0 s \<longleftrightarrow> Outputs (fst s) = Outputs st0 @ done_items (snd s)
     \<and> OutputIndex (fst s) = OutputIndex st0 + int (length (done_items (snd s)))
     \<and> map re_output_index (filter is_done (snd s)) = [OutputIndex st0 .. OutputIndex (fst s) - 1]
     \<and> terminals_ok (Outputs st0) (snd s)
     \<and> of_bool (CompletedSent (fst s)) = of_bool (CompletedSent st0) + length (filter is_terminal (snd s))
     \<and> of_bool (CreatedSent (fst s)) = of_bool (CreatedSent st0) + length (filter is_created (snd s))"

definition keeps_books :: "(conv \<Rightarrow> conv) \<Rightarrow> bool" where
  "keeps_books f \<longleftrightarrow> (\<forall>st. Outputs (f st) = Outputs st \<and> OutputIndex (f st) = OutputIndex st
     \<and> CompletedSent (f st) = CompletedSent st \<and> CreatedSent (f st) = CreatedSent st)"

lemma tracks_quiet: "keeps_books f \<Longrightarrow> tracks st0 s \<Longrightarrow> tracks st0 (f (fst s), snd s)"
  by (simp add: tracks_def keeps_books_def)

lemma tracks_start: "tracks st (st, [])"
  by (simp add: tracks_def)

lemma tracks_emit:
  assumes "tracks st0 s" "keeps_books f"
    and "ty \<notin> {''response.output_item.done'', ''response.completed'', ''response.incomplete'', ''response.created''}"
  shows "tracks st0 (emit ty tmpl (f (fst s), snd s))"
  using assms by (simp add: tracks_def emit_def makeResponsesEvent_def keeps_books_def terminals_ok_append
      event_kinds done_items_def)

lemma tracks_close:
  assumes "tracks st0 s"
  shows "tracks st0 (closeCurrentResponsesItem s)"
proof (cases "CurrentItemType (fst s) = []")
  case False
  then show ?thesis
    using assms upto_rec2[of "OutputIndex st0" "OutputIndex (fst s)"]
    by (simp add: closeCurrentResponsesItem_def Let_def emit_def makeResponsesEvent_def tracks_def close_state_def
        terminals_ok_append event_kinds done_items_def)
qed (use assms in \<open>simp add: closeCurrentResponsesItem_def\<close>)

lemma close_sent: "CompletedSent (fst (closeCurrentResponsesItem s)) = CompletedSent (fst s)"
  by (simp add: closeCurrentResponsesItem_def Let_def emit_def makeResponsesEvent_def close_state_def)

lemma tracks_terminate:
  assumes "\<not> CompletedSent st"
  shows "tracks st (terminate_stream st)"
proof -
  obtain st1 evs where 1: "closeCurrentResponsesItem (st, []) = (st1, evs)" by force
  have "tracks st (st1, evs)" "\<not> CompletedSent st1"
    using tracks_close[OF tracks_start, of st] close_sent[of "(st, [])"] assms 1 by simp_all
  then show ?thesis
    by (auto simp: terminate_stream_def 1 makeResponsesCompletedEvent_def case_prod_unfold Let_def tracks_def
        terminals_ok_append event_kinds done_items_def)
qed


lemma books [simp]:
  "keeps_books (\<lambda>st. st)" "keeps_books (open_item gen ty)"
  "keeps_books f \<Longrightarrow> keeps_books (\<lambda>st. (f st)\<lparr>ContentIndex := n\<rparr>)"
  "keeps_books f \<Longrightarrow> keeps_books (\<lambda>st. (f st)\<lparr>CurrentCallID := c, CurrentName := nm\<rparr>)"
  "keeps_books (\<lambda>st. st\<lparr>TextAccum := g st\<rparr>)" "keeps_books (\<lambda>st. st\<lparr>CurrentSummary := g st\<rparr>)"
  "keeps_books (\<lambda>st. st\<lparr>CurrentArgs := g st\<rparr>)" "keeps_books (\<lambda>st. st\<lparr>TextAccum := g st, CurrentContent := h st\<rparr>)"
  by (simp_all add: keeps_books_def open_item_def)

lemma tracks_emit_first:
  "keeps_books f \<Longrightarrow> ty \<notin> {''response.output_item.done'', ''response.completed'', ''response.incomplete'', ''response.created''}
    \<Longrightarrow> tracks st (emit ty tmpl (f st, []))"
  using tracks_emit[OF tracks_start, of f ty st tmpl] by simp

lemma tracks_block_start: "tracks st (anthToResHandleContentBlockStart gen evt st)"
proof (cases "ae_block evt")
  case (Some block)
  consider "ab_type block = ''thinking''" | "ab_type block = ''text''" | "ab_type block = ''tool_use''"
    | "ab_type block \<notin> {''thinking'', ''text'', ''tool_use''}" by blast
  then show ?thesis
  proof cases
    case 1
    then show ?thesis
      using tracks_emit_first[of "\<lambda>st. (open_item gen ''reasoning'' st)\<lparr>ContentIndex := 0\<rparr>" _ st]
      by (simp add: anthToResHandleContentBlockStart_def Some)
  next
    case 2
    let ?open = "emit ''response.output_item.added''
      (\<lambda>st. zero_event\<lparr>re_output_index := OutputIndex st,
         re_item := Some (zero_output\<lparr>ro_type := ''message'', ro_id := CurrentItemID st,
           ro_role := ''assistant'', ro_status := ''in_progress''\<rparr>)\<rparr>)
      ((open_item gen ''message'' st)\<lparr>ContentIndex := 0\<rparr>, [])"
    have part: "tracks st (case emit ''response.content_part.added'' tmpl s of (st', evs) \<Rightarrow> (st'\<lparr>TextAccum := []\<rparr>, evs))"
      if "tracks st s" for s tmpl
      using tracks_quiet[of "\<lambda>st. st\<lparr>TextAccum := []\<rparr>", OF _ tracks_emit[OF that, of "\<lambda>st. st"]]
      by (simp add: case_prod_unfold)
    have "tracks st ?open"
      using tracks_emit_first[of "\<lambda>st. (open_item gen ''message'' st)\<lparr>ContentIndex := 0\<rparr>" _ st] by simp
    then show ?thesis
      using 2 part tracks_start[of st] by (simp add: anthToResHandleContentBlockStart_def Some Let_def)
  next
    case 3
    then show ?thesis
      using tracks_emit[OF tracks_close[OF tracks_start[of st]],
          of "\<lambda>st. (open_item gen ''function_call'' st)\<lparr>CurrentCallID := toResponsesCallID (ab_id block), CurrentName := ab_name block\<rparr>"]
      by (simp add: anthToResHandleContentBlockStart_def Some case_prod_unfold Let_def)
  qed (simp add: anthToResHandleContentBlockStart_def Some tracks_start)
qed (simp add: anthToResHandleContentBlockStart_def tracks_start)

lemma tracks_handle: "tracks st (AnthropicEventToResponsesEvents gen evt st)"
proof -
  have start: "tracks st (anthToResHandleMessageStart evt st)"
    by (auto simp: anthToResHandleMessageStart_def Let_def makeResponsesCreatedEvent_def tracks_def event_kinds
        done_items_def split: option.split)
  have delta: "tracks st (anthToResHandleContentBlockDelta evt st)"
    by (auto simp: anthToResHandleContentBlockDelta_def intro!: tracks_emit_first[of "\<lambda>st. st\<lparr>TextAccum := _ st\<rparr>"]
        tracks_emit_first[of "\<lambda>st. st\<lparr>CurrentSummary := _ st\<rparr>"] tracks_emit_first[of "\<lambda>st. st\<lparr>CurrentArgs := _ st\<rparr>"]
        tracks_start split: option.split)
  have close: "tracks st (closeCurrentResponsesItem (emit ty tmpl (st, [])))"
    if "ty \<notin> {''response.output_item.done'', ''response.completed'', ''response.incomplete'', ''response.created''}" for ty tmpl
    using tracks_close tracks_emit_first[of "\<lambda>st. st"] that by simp
  have message: "tracks st (emit ''response.content_part.done'' t2 (emit ''response.output_text.done'' t1
      (st\<lparr>TextAccum := [], CurrentContent := c\<rparr>, [])))" for t1 t2 c
    using tracks_emit[OF tracks_emit_first[of "\<lambda>st. st\<lparr>TextAccum := [], CurrentContent := c\<rparr>" "''response.output_text.done''" st], of "\<lambda>st. st"]
    by simp
  have stop: "tracks st (anthToResHandleContentBlockStop st)"
    using close message tracks_start by (simp add: anthToResHandleContentBlockStop_def Let_def)
  have mdelta: "tracks st (anthToResHandleMessageDelta evt st)"
    by (auto simp: anthToResHandleMessageDelta_def Let_def tracks_def split: option.split)
  have mstop: "tracks st (anthToResHandleMessageStop st)"
    using tracks_terminate tracks_start by (simp add: anthToResHandleMessageStop_def)
  show ?thesis
    using start tracks_block_start delta stop mdelta mstop tracks_start
    by (simp add: AnthropicEventToResponsesEvents_def)
qed

lemma tracks_trans:
  assumes "tracks st (st1, a)" "tracks st1 (st2, b)"
  shows "tracks st (st2, a @ b)"
proof -
  have n: "OutputIndex st1 = OutputIndex st + int (length (done_items a))"
    "OutputIndex st2 = OutputIndex st1 + int (length (done_items b))"
    using assms by (simp_all add: tracks_def)
  then show ?thesis
    using assms upto_append[of "OutputIndex st" "length (done_items a)" "length (done_items b)"]
    by (simp add: tracks_def terminals_ok_append)
qed

lemma tracks_run: "tracks st (convert_stream gen evts st)"
proof (induction evts arbitrary: st)
  case (Cons evt evts)
  obtain st1 a where 1: "AnthropicEventToResponsesEvents gen evt st = (st1, a)" by force
  obtain st2 b where 2: "convert_stream gen evts st1 = (st2, b)" by force
  show ?case using tracks_trans[of st st1 a st2 b] tracks_handle[of st gen evt] Cons[of st1] 1 2 by simp
qed (simp add: tracks_start)

text \<open>
  Whatever events arrive: the items that output_item.done events carry have the output
  indices 0, 1, 2 and so on, every terminal event carries exactly the items done before it, and
  there is at most one response.created and at most one terminal event.
\<close>
theorem final_response_lists_done_items:
  "(let (st, out) = convert_stream gen evts NewAnthropicEventToResponsesState
    in map re_output_index (filter is_done out) = [0 .. int (length (done_items out)) - 1]
     \<and> terminals_ok [] out \<and> Outputs st = done_items out
     \<and> length (filter is_created out) \<le> 1 \<and> length (filter is_terminal out) \<le> 1)"
proof -
  obtain st out where run: "convert_stream gen evts NewAnthropicEventToResponsesState = (st, out)" by force
  have "tracks NewAnthropicEventToResponsesState (st, out)" using tracks_run[of NewAnthropicEventToResponsesState gen evts] run by simp
  moreover have "(of_bool b :: nat) \<le> 1" for b by (cases b) auto
  ultimately show ?thesis
    unfolding run by (auto simp: tracks_def NewAnthropicEventToResponsesState_def) (metis One_nat_def)+
qed

end
