(* ===== verification/Responses_Client.thy ===== *)
theory Responses_Client
  imports Anthropic_Responses
begin

text \<open>
  What a client of the Responses API makes of the converted stream: an abstract client that
  builds the outputs from the events, as the comments of anthropic_to_responses_response.go
  describe the accumulating helper of the SDK, and refuses a stream that breaks the protocol.
  The converter is shown to serve this client for every message whose text blocks are followed
  by a tool call or the end; for the two other cases the stream is shown to be broken.
\<close>

section \<open>The client\<close>

text \<open>An item as it must look when it is done: complete, with arguments that are an object.\<close>

definition finished :: "ResponsesOutput \<Rightarrow> ResponsesOutput" where
  "finished item = item\<lparr>ro_status := ''completed'',
     ro_arguments := (if ro_type item = ''function_call'' \<and> ro_arguments item = [] then ''{}'' else ro_arguments item)\<rparr>"

definition add_summary :: "string \<Rightarrow> ResponsesOutput \<Rightarrow> ResponsesOutput" where
  "add_summary d item = item\<lparr>ro_summary := (case ro_summary item of
     [] \<Rightarrow> [summary_text d] | s # ss \<Rightarrow> s\<lparr>rs_text := rs_text s @ d\<rparr> # ss)\<rparr>"

definition add_text :: "nat \<Rightarrow> string \<Rightarrow> ResponsesOutput \<Rightarrow> ResponsesOutput" where
  "add_text ci d item = item\<lparr>ro_content := (ro_content item)[ci := (ro_content item ! ci)\<lparr>rp_text := rp_text (ro_content item ! ci) @ d\<rparr>]\<rparr>"

definition client_step :: "ResponsesStreamEvent \<Rightarrow> ResponsesOutput list \<Rightarrow> ResponsesOutput list option" where
  "client_step e items =
     (let ty = re_type e; oi = nat (re_output_index e); ci = nat (re_content_index e); item = items ! oi;
          known = (0 \<le> re_output_index e \<and> oi < length items);
          mine = (known \<and> re_item_id e = ro_id item);
          part = (mine \<and> 0 \<le> re_content_index e \<and> ci < length (ro_content item))
      in if ty = ''response.created'' then Some items
         else if ty = ''response.output_item.added'' then
           (case re_item e of
              Some new \<Rightarrow> if re_output_index e = int (length items) then Some (items @ [new]) else None
            | None \<Rightarrow> None)
         else if ty = ''response.content_part.added'' then
           (case re_part e of
              Some p \<Rightarrow> if mine \<and> re_content_index e = int (length (ro_content item))
                then Some (items[oi := item\<lparr>ro_content := ro_content item @ [p]\<rparr>]) else None
            | None \<Rightarrow> None)
         else if ty = ''response.output_text.delta'' then
           (if part then Some (items[oi := add_text ci (re_delta e) item]) else None)
         else if ty = ''response.output_text.done'' then
           (if part \<and> rp_text (ro_content item ! ci) = re_text e then Some items else None)
         else if ty = ''response.content_part.done'' then
           (if part \<and> re_part e = Some (ro_content item ! ci) then Some items else None)
         else if ty = ''response.reasoning_summary_text.delta'' then
           (if mine then Some (items[oi := add_summary (re_delta e) item]) else None)
         else if ty = ''response.function_call_arguments.delta'' then
           (if mine then Some (items[oi := item\<lparr>ro_arguments := ro_arguments item @ re_delta e\<rparr>]) else None)
         else if ty = ''response.reasoning_summary_text.done'' \<or> ty = ''response.function_call_arguments.done'' then
           (if mine then Some items else None)
         else if ty = ''response.output_item.done'' then
           (if known \<and> re_item e = Some (finished item) then Some (items[oi := finished item]) else None)
         else if is_terminal e then
           (if map_option rr_output (re_response e) = Some items then Some items else None)
         else None)"

abbreviation client_run :: "ResponsesStreamEvent list \<Rightarrow> ResponsesOutput list \<Rightarrow> ResponsesOutput list option" where
  "client_run \<equiv> checked_run client_step"

section \<open>Messages as streams\<close>

text \<open>A message block with its content in the pieces in which it arrives.\<close>

datatype block = Thinking "string list" | Text "string list" | Tool string string "string list"

definition block_header :: "block \<Rightarrow> AnthropicContentBlock" where
  "block_header b = (case b of
     Thinking _ \<Rightarrow> zero_block\<lparr>ab_type := ''thinking''\<rparr>
   | Text _ \<Rightarrow> zero_block\<lparr>ab_type := ''text''\<rparr>
   | Tool i nm _ \<Rightarrow> zero_block\<lparr>ab_type := ''tool_use'', ab_id := i, ab_name := nm\<rparr>)"

definition start_of :: "block \<Rightarrow> AnthropicStreamEvent" where
  "start_of b = (stream_event ''content_block_start'')\<lparr>ae_block := Some (block_header b)\<rparr>"

definition delta_of :: "AnthropicDelta \<Rightarrow> AnthropicStreamEvent" where
  "delta_of d = (stream_event ''content_block_delta'')\<lparr>ae_delta := Some d\<rparr>"

definition text_delta :: "string \<Rightarrow> AnthropicDelta" where
  "text_delta t = zero_delta\<lparr>ad_type := ''text_delta'', ad_text := t\<rparr>"
definition thinking_delta :: "string \<Rightarrow> AnthropicDelta" where
  "thinking_delta t = zero_delta\<lparr>ad_type := ''thinking_delta'', ad_thinking := t\<rparr>"
definition json_delta :: "string \<Rightarrow> AnthropicDelta" where
  "json_delta t = zero_delta\<lparr>ad_type := ''input_json_delta'', ad_partial_json := t\<rparr>"

fun deltas_of :: "block \<Rightarrow> AnthropicDelta list" where
  "deltas_of (Thinking ds) = map thinking_delta ds"
| "deltas_of (Text ds) = map text_delta ds"
| "deltas_of (Tool i nm ds) = map json_delta ds"

definition block_stream :: "block \<Rightarrow> AnthropicStreamEvent list" where
  "block_stream b = [start_of b] @ map delta_of (deltas_of b) @ [stream_event ''content_block_stop'']"

definition message_stream :: "AnthropicResponse \<Rightarrow> block list \<Rightarrow> AnthropicUsage \<Rightarrow> string \<Rightarrow> AnthropicStreamEvent list" where
  "message_stream m bs u reason =
     [(stream_event ''message_start'')\<lparr>ae_message := Some m\<rparr>] @ concat (map block_stream bs)
     @ [(stream_event ''message_delta'')\<lparr>ae_usage := Some u,
          ae_delta := Some (zero_delta\<lparr>ad_stop_reason := reason\<rparr>)\<rparr>,
        stream_event ''message_stop'']"

text \<open>What the client should end with: one item for each block, in order.\<close>

definition item_for :: "string \<Rightarrow> block \<Rightarrow> ResponsesOutput" where
  "item_for i b = (case b of
     Thinking ds \<Rightarrow> zero_output\<lparr>ro_type := ''reasoning'', ro_id := i, ro_status := ''completed'',
       ro_summary := (if concat ds = [] then [] else [summary_text (concat ds)])\<rparr>
   | Text ds \<Rightarrow> message_output i [output_text (concat ds)]
   | Tool cid nm ds \<Rightarrow> zero_output\<lparr>ro_type := ''function_call'', ro_id := i, ro_status := ''completed'',
       ro_call_id := cid, ro_name := nm, ro_arguments := (if concat ds = [] then ''{}'' else concat ds)\<rparr>)"

fun items_for :: "(nat \<Rightarrow> string) \<Rightarrow> nat \<Rightarrow> block list \<Rightarrow> ResponsesOutput list" where
  "items_for gen k [] = []"
| "items_for gen k (b # bs) = item_for (gen k) b # items_for gen (k + 1) bs"

text \<open>A text block is followed by a tool call or by nothing.\<close>

fun served :: "block list \<Rightarrow> bool" where
  "served (Text ds # b # bs) = ((case b of Tool _ _ _ \<Rightarrow> True | _ \<Rightarrow> False) \<and> served (b # bs))"
| "served (b # bs) = served bs"
| "served [] = True"


section \<open>Converter and client together\<close>

text \<open>
  \<open>serves gen P evts Q\<close>: from a converter and a client in \<open>P\<close>, converting \<open>evts\<close> gives events
  that the client accepts, and the two end in \<open>Q\<close>.
\<close>

definition serves :: "(nat \<Rightarrow> string) \<Rightarrow> (conv \<Rightarrow> ResponsesOutput list \<Rightarrow> bool) \<Rightarrow> AnthropicStreamEvent list
    \<Rightarrow> (conv \<Rightarrow> ResponsesOutput list \<Rightarrow> bool) \<Rightarrow> bool" where
  "serves gen P evts Q \<longleftrightarrow> (\<forall>st items. P st items \<longrightarrow>
     (\<exists>items'. client_run (snd (convert_stream gen evts st)) items = Some items'
        \<and> Q (fst (convert_stream gen evts st)) items'))"

lemma convert_stream_append:
  "convert_stream gen (a @ b) st =
     (fst (convert_stream gen b (fst (convert_stream gen a st))),
      snd (convert_stream gen a st) @ snd (convert_stream gen b (fst (convert_stream gen a st))))"
  by (induction a arbitrary: st) (auto simp: case_prod_unfold Let_def)

lemma serves_seq: "serves gen P a Q \<Longrightarrow> serves gen Q b R \<Longrightarrow> serves gen P (a @ b) R"
  unfolding serves_def convert_stream_append fst_conv snd_conv checked_run_append by fastforce

lemma serves_Nil: "serves gen P [] P"
  by (simp add: serves_def)

lemma serves_one:
  assumes "\<And>st items. P st items \<Longrightarrow> \<exists>items'. client_run (snd (AnthropicEventToResponsesEvents gen evt st)) items = Some items'
    \<and> Q (fst (AnthropicEventToResponsesEvents gen evt st)) items'"
  shows "serves gen P [evt] Q"
  using assms by (auto simp: serves_def case_prod_unfold Let_def)

text \<open>Between blocks: no item is open, or a message whose only part is complete.\<close>

definition running :: "conv \<Rightarrow> ResponsesOutput list \<Rightarrow> bool" where
  "running st outs \<longleftrightarrow> CreatedSent st \<and> \<not> CompletedSent st \<and> Outputs st = outs \<and> OutputIndex st = int (length outs)"

definition idle :: "nat \<Rightarrow> ResponsesOutput list \<Rightarrow> conv \<Rightarrow> ResponsesOutput list \<Rightarrow> bool" where
  "idle k outs st items \<longleftrightarrow> running st outs \<and> CurrentItemType st = [] \<and> CurrentContent st = [] \<and> CurrentArgs st = []
     \<and> CurrentSummary st = [] \<and> ContentIndex st = 0 \<and> drawn st = k \<and> items = outs"

definition thinking :: "string \<Rightarrow> nat \<Rightarrow> ResponsesOutput list \<Rightarrow> string \<Rightarrow> conv \<Rightarrow> ResponsesOutput list \<Rightarrow> bool" where
  "thinking i k outs s st items \<longleftrightarrow> running st outs \<and> CurrentItemType st = ''reasoning'' \<and> CurrentContent st = []
     \<and> CurrentArgs st = [] \<and> CurrentSummary st = s \<and> CurrentItemID st = i \<and> drawn st = k
     \<and> items = outs @ [zero_output\<lparr>ro_type := ''reasoning'', ro_id := i,
         ro_summary := (if s = [] then [] else [summary_text s])\<rparr>]"

definition open_message :: "string \<Rightarrow> string \<Rightarrow> ResponsesOutput" where
  "open_message i t = zero_output\<lparr>ro_type := ''message'', ro_id := i, ro_role := ''assistant'', ro_status := ''in_progress'',
     ro_content := [output_text t]\<rparr>"

definition writing :: "string \<Rightarrow> nat \<Rightarrow> ResponsesOutput list \<Rightarrow> string \<Rightarrow> conv \<Rightarrow> ResponsesOutput list \<Rightarrow> bool" where
  "writing i k outs t st items \<longleftrightarrow> running st outs \<and> CurrentItemType st = ''message'' \<and> CurrentContent st = []
     \<and> CurrentArgs st = [] \<and> CurrentSummary st = [] \<and> ContentIndex st = 0 \<and> TextAccum st = t \<and> CurrentItemID st = i
     \<and> drawn st = k \<and> items = outs @ [open_message i t]"

definition written :: "string \<Rightarrow> nat \<Rightarrow> ResponsesOutput list \<Rightarrow> string \<Rightarrow> conv \<Rightarrow> ResponsesOutput list \<Rightarrow> bool" where
  "written i k outs t st items \<longleftrightarrow> running st outs \<and> CurrentItemType st = ''message'' \<and> CurrentContent st = [output_text t]
     \<and> CurrentArgs st = [] \<and> CurrentSummary st = [] \<and> ContentIndex st = 0 \<and> CurrentItemID st = i
     \<and> drawn st = k \<and> items = outs @ [open_message i t]"

definition calling :: "string \<Rightarrow> string \<Rightarrow> string \<Rightarrow> nat \<Rightarrow> ResponsesOutput list \<Rightarrow> string \<Rightarrow> conv \<Rightarrow> ResponsesOutput list \<Rightarrow> bool" where
  "calling i cid nm k outs a st items \<longleftrightarrow> running st outs \<and> CurrentItemType st = ''function_call'' \<and> CurrentContent st = []
     \<and> CurrentArgs st = a \<and> CurrentSummary st = [] \<and> ContentIndex st = 0 \<and> CurrentItemID st = i \<and> CurrentCallID st = cid
     \<and> CurrentName st = nm \<and> drawn st = k
     \<and> items = outs @ [zero_output\<lparr>ro_type := ''function_call'', ro_id := i, ro_call_id := cid, ro_name := nm,
         ro_status := ''in_progress'', ro_arguments := a\<rparr>]"

lemmas places = running_def idle_def thinking_def writing_def written_def calling_def

lemmas conversion = AnthropicEventToResponsesEvents_def stream_event_def emit_def makeResponsesEvent_def Let_def
  zero_event_def zero_block_def zero_delta_def client_step_def is_terminal_def nth_append

lemma serve_thinking_start:
  "serves gen (idle k outs) [start_of (Thinking ds)] (thinking (gen k) (k + 1) outs [])"
  by (rule serves_one) (simp add: conversion start_of_def block_header_def anthToResHandleContentBlockStart_def
      open_item_def places zero_output_def)

lemma serve_thinking_delta:
  "serves gen (thinking i k outs s) [delta_of (thinking_delta d)] (thinking i k outs (s @ d))"
  by (rule serves_one) (auto simp: conversion delta_of_def thinking_delta_def anthToResHandleContentBlockDelta_def
      places zero_output_def add_summary_def summary_text_def)

lemma serve_thinking_stop:
  "serves gen (thinking i k outs s) [stream_event ''content_block_stop'']
     (idle k (outs @ [zero_output\<lparr>ro_type := ''reasoning'', ro_id := i, ro_status := ''completed'',
        ro_summary := (if s = [] then [] else [summary_text s])\<rparr>]))"
  by (rule serves_one) (auto simp: conversion anthToResHandleContentBlockStop_def closeCurrentResponsesItem_def
      close_state_def current_item_def places zero_output_def finished_def)


lemma serve_text_start: "serves gen (idle k outs) [start_of (Text ds)] (writing (gen k) (k + 1) outs [])"
  by (rule serves_one) (simp add: conversion start_of_def block_header_def anthToResHandleContentBlockStart_def
      open_item_def places zero_output_def open_message_def output_text_def)

lemma serve_text_delta: "serves gen (writing i k outs t) [delta_of (text_delta d)] (writing i k outs (t @ d))"
  by (rule serves_one) (auto simp: conversion delta_of_def text_delta_def anthToResHandleContentBlockDelta_def
      places zero_output_def open_message_def output_text_def add_text_def)

lemma serve_text_stop: "serves gen (writing i k outs t) [stream_event ''content_block_stop''] (written i k outs t)"
  by (rule serves_one) (auto simp: conversion anthToResHandleContentBlockStop_def
      places zero_output_def open_message_def output_text_def)

lemma serve_tool_start: "serves gen (idle k outs) [start_of (Tool cid nm ds)] (calling (gen k) cid nm (k + 1) outs [])"
  by (rule serves_one) (simp add: conversion start_of_def block_header_def anthToResHandleContentBlockStart_def
      open_item_def places zero_output_def closeCurrentResponsesItem_def toResponsesCallID_def)

lemma serve_tool_after_text:
  "serves gen (written i k outs t) [start_of (Tool cid nm ds)]
     (calling (gen k) cid nm (k + 1) (outs @ [message_output i [output_text t]]) [])"
  by (rule serves_one) (simp add: conversion start_of_def block_header_def anthToResHandleContentBlockStart_def
      open_item_def places zero_output_def closeCurrentResponsesItem_def toResponsesCallID_def close_state_def
      current_item_def finished_def open_message_def message_output_def)

lemma serve_tool_delta: "serves gen (calling i cid nm k outs a) [delta_of (json_delta d)] (calling i cid nm k outs (a @ d))"
  by (rule serves_one) (auto simp: conversion delta_of_def json_delta_def anthToResHandleContentBlockDelta_def
      places zero_output_def)

lemma serve_tool_stop:
  "serves gen (calling i cid nm k outs a) [stream_event ''content_block_stop'']
     (idle k (outs @ [zero_output\<lparr>ro_type := ''function_call'', ro_id := i, ro_status := ''completed'',
        ro_call_id := cid, ro_name := nm, ro_arguments := (if a = [] then ''{}'' else a)\<rparr>]))"
  by (rule serves_one) (auto simp: conversion anthToResHandleContentBlockStop_def closeCurrentResponsesItem_def
      close_state_def current_item_def places zero_output_def finished_def)

definition ended :: "ResponsesOutput list \<Rightarrow> conv \<Rightarrow> ResponsesOutput list \<Rightarrow> bool" where
  "ended outs st items \<longleftrightarrow> CompletedSent st \<and> Outputs st = outs \<and> items = outs"

lemma serve_stop_idle: "serves gen (idle k outs) [stream_event ''message_stop''] (ended outs)"
  by (rule serves_one) (simp add: conversion anthToResHandleMessageStop_def terminate_stream_def
      closeCurrentResponsesItem_def makeResponsesCompletedEvent_def case_prod_unfold places ended_def)

lemma serve_stop_written:
  "serves gen (written i k outs t) [stream_event ''message_stop''] (ended (outs @ [message_output i [output_text t]]))"
  by (rule serves_one) (simp add: conversion anthToResHandleMessageStop_def terminate_stream_def zero_output_def
      closeCurrentResponsesItem_def makeResponsesCompletedEvent_def case_prod_unfold places ended_def close_state_def
      current_item_def finished_def open_message_def message_output_def)

lemma serve_message_delta_idle:
  "ae_type e = ''message_delta'' \<Longrightarrow> serves gen (idle k outs) [e] (idle k outs)"
  by (rule serves_one) (auto simp: AnthropicEventToResponsesEvents_def anthToResHandleMessageDelta_def Let_def places
      split: option.split)

lemma serve_message_delta_written:
  "ae_type e = ''message_delta'' \<Longrightarrow> serves gen (written i k outs t) [e] (written i k outs t)"
  by (rule serves_one) (auto simp: AnthropicEventToResponsesEvents_def anthToResHandleMessageDelta_def Let_def places
      split: option.split)

lemma serve_message_start:
  "ae_type e = ''message_start'' \<Longrightarrow>
   serves gen (\<lambda>st items. st = NewAnthropicEventToResponsesState \<and> items = []) [e] (idle 0 [])"
  by (rule serves_one) (auto simp: conversion anthToResHandleMessageStart_def makeResponsesCreatedEvent_def
      NewAnthropicEventToResponsesState_def places split: option.split)

section \<open>Blocks\<close>

lemma serve_deltas:
  assumes "\<And>s d. serves gen (P s) [delta_of (f d)] (P (s @ d))"
  shows "serves gen (P s) (map delta_of (map f ds)) (P (s @ concat ds))"
proof (induction ds arbitrary: s)
  case (Cons d ds)
  then show ?case using serves_seq[OF assms[of s d] Cons[of "s @ d"]] by simp
qed (simp add: serves_Nil)

lemma serve_thinking:
  "serves gen (idle k outs) (block_stream (Thinking ds)) (idle (k + 1) (outs @ [item_for (gen k) (Thinking ds)]))"
  using serves_seq[OF serve_thinking_start[where ds = ds and gen = gen and k = k and outs = outs] serves_seq[OF serve_deltas[where P = "thinking (gen k) (k + 1) outs" and f = thinking_delta and s = "[]" and ds = ds, OF serve_thinking_delta] serve_thinking_stop]]
  by (simp add: block_stream_def item_for_def cong: if_cong split del: if_split)

lemma serve_text:
  "serves gen (idle k outs) (block_stream (Text ds)) (written (gen k) (k + 1) outs (concat ds))"
  using serves_seq[OF serve_text_start[where ds = ds and gen = gen and k = k and outs = outs] serves_seq[OF serve_deltas[where P = "writing (gen k) (k + 1) outs" and f = text_delta and s = "[]" and ds = ds, OF serve_text_delta] serve_text_stop]]
  by (simp add: block_stream_def)

lemma serve_tool:
  "serves gen (idle k outs) (block_stream (Tool cid nm ds)) (idle (k + 1) (outs @ [item_for (gen k) (Tool cid nm ds)]))"
  using serves_seq[OF serve_tool_start[where ds = ds and gen = gen and k = k and outs = outs and cid = cid and nm = nm] serves_seq[OF serve_deltas[where P = "calling (gen k) cid nm (k + 1) outs" and f = json_delta and s = "[]" and ds = ds, OF serve_tool_delta] serve_tool_stop]]
  by (simp add: block_stream_def item_for_def cong: if_cong split del: if_split)

lemma serve_text_tool:
  "serves gen (written i k outs t) (block_stream (Tool cid nm ds))
     (idle (k + 1) (outs @ [message_output i [output_text t]] @ [item_for (gen k) (Tool cid nm ds)]))"
  using serves_seq[OF serve_tool_after_text[where ds = ds and gen = gen and k = k and outs = outs and cid = cid and nm = nm and i = i and t = t] serves_seq[OF serve_deltas[where P = "calling (gen k) cid nm (k + 1) (outs @ [message_output i [output_text t]])" and f = json_delta and s = "[]" and ds = ds, OF serve_tool_delta] serve_tool_stop]]
  by (simp add: block_stream_def item_for_def cong: if_cong split del: if_split)

section \<open>Messages\<close>

text \<open>What the rest of a message does, from idle or after a text block.\<close>

lemma serve_rest:
  assumes "ae_type e = ''message_delta''"
  shows "served bs \<Longrightarrow> serves gen (idle k outs) (concat (map block_stream bs) @ [e, stream_event ''message_stop''])
           (ended (outs @ items_for gen k bs))"
    and "served (Text [t] # bs) \<Longrightarrow> serves gen (written i k outs t) (concat (map block_stream bs) @ [e, stream_event ''message_stop''])
           (ended (outs @ [message_output i [output_text t]] @ items_for gen k bs))"
proof (induction bs arbitrary: k outs i t)
  case Nil
  {
  case 1
  show ?case using serves_seq[OF serve_message_delta_idle[OF assms] serve_stop_idle] by simp
  next
  case 2
  show ?case using serves_seq[OF serve_message_delta_written[OF assms] serve_stop_written] by simp
  }
next
  case (Cons b bs)
  {
  case 1
  show ?case
  proof (cases b)
    case (Thinking ds)
    then show ?thesis using serves_seq[OF serve_thinking Cons(1)] 1 by simp
  next
    case (Text ds)
    then have "served (Text [concat ds] # bs)" using 1 by (cases bs) auto
    then show ?thesis using serves_seq[OF serve_text Cons(2)] Text by (simp add: item_for_def)
  next
    case (Tool cid nm ds)
    then show ?thesis using serves_seq[OF serve_tool Cons(1)] 1 by simp
  qed
  next
  case 2
  then obtain cid nm ds where b: "b = Tool cid nm ds" and "served bs" by (cases b) auto
  then show ?case using serves_seq[OF serve_text_tool Cons(1)] b by simp
  }
qed


text \<open>
  C8: The streamed conversion implements the client's contract. Take a message whose text blocks
  are each followed by a tool call or the end, with each block's content in any number of pieces.
  The client accepts every event of the converted stream, and it ends with exactly one finished
  item for each block, in order, with the pieces put together: the same items that the final
  response reports.
\<close>
theorem stream_serves_client:
  assumes "served bs"
  shows "let (st, out) = convert_stream gen (message_stream m bs u reason) NewAnthropicEventToResponsesState
         in client_run out [] = Some (items_for gen 0 bs) \<and> Outputs st = items_for gen 0 bs"
proof -
  let ?start = "(stream_event ''message_start'')\<lparr>ae_message := Some m\<rparr>"
  let ?fin = "(stream_event ''message_delta'')\<lparr>ae_usage := Some u,
    ae_delta := Some (zero_delta\<lparr>ad_stop_reason := reason\<rparr>)\<rparr>"
  have "ae_type ?start = ''message_start''" "ae_type ?fin = ''message_delta''"
    by (simp_all add: stream_event_def)
  then show ?thesis
    using serves_seq[OF serve_message_start serve_rest(1)[OF _ assms], of ?start ?fin gen]
    by (auto simp: serves_def message_stream_def ended_def case_prod_unfold)
qed

definition demo_message :: AnthropicResponse where
  "demo_message = \<lparr>ar_id = ''msg_1'', ar_content = [], ar_model = ''m'', ar_stop_reason = None, ar_usage = no_usage\<rparr>"

definition demo_gen :: "nat \<Rightarrow> string" where
  "demo_gen k = ''item_'' @ replicate k CHR ''x''"

definition demo_blocks :: "block list" where
  "demo_blocks = [Thinking [''a'', ''b''], Text [''Let me '', ''look.''], Tool ''t1'' ''read'' [''{\"p\":'', ''1}''], Tool ''t2'' ''list'' []]"

theorem stream_serves_client_witness:
  "(let (st, out) = convert_stream demo_gen (message_stream demo_message demo_blocks no_usage ''tool_use'')
       NewAnthropicEventToResponsesState
    in client_run out [] = Some (items_for demo_gen 0 demo_blocks) \<and> Outputs st = items_for demo_gen 0 demo_blocks)
   \<and> map ro_arguments (items_for demo_gen 0 demo_blocks) = [[], [], ''{\"p\":1}'', ''{}'']"
  by (rule conjI, rule stream_serves_client) (simp_all add: demo_blocks_def item_for_def zero_output_def message_output_def)

section \<open>The stream and the whole message\<close>

text \<open>What a list of items says, thinks and calls, whatever the order of text and calls is.\<close>

definition said :: "ResponsesOutput list \<Rightarrow> string" where
  "said items = concat (map (\<lambda>i. concat (map rp_text (ro_content i))) items)"

definition thought :: "ResponsesOutput list \<Rightarrow> string" where
  "thought items = concat (map (\<lambda>i. concat (map rs_text (ro_summary i))) items)"

definition calls :: "ResponsesOutput list \<Rightarrow> (string \<times> string \<times> string) list" where
  "calls items = map (\<lambda>i. (ro_call_id i, ro_name i, ro_arguments i)) (filter (\<lambda>i. ro_type i = ''function_call'') items)"

definition whole_block :: "block \<Rightarrow> AnthropicContentBlock" where
  "whole_block b = (case b of
     Thinking ds \<Rightarrow> (block_header b)\<lparr>ab_thinking := concat ds\<rparr>
   | Text ds \<Rightarrow> (block_header b)\<lparr>ab_text := concat ds\<rparr>
   | Tool _ _ ds \<Rightarrow> (block_header b)\<lparr>ab_input := concat ds\<rparr>)"

lemma said_simps [simp]: "said [] = []" "said (i # is) = concat (map rp_text (ro_content i)) @ said is" "said (a @ b) = said a @ said b"
  by (simp_all add: said_def)
lemma thought_simps [simp]: "thought [] = []" "thought (i # is) = concat (map rs_text (ro_summary i)) @ thought is" "thought (a @ b) = thought a @ thought b"
  by (simp_all add: thought_def)
lemma calls_simps [simp]: "calls [] = []" "calls (a @ b) = calls a @ calls b"
  "calls (i # is) = (if ro_type i = ''function_call'' then [(ro_call_id i, ro_name i, ro_arguments i)] else []) @ calls is"
  by (simp_all add: calls_def)

lemmas message_parts = whole_block_def block_header_def item_for_def zero_output_def zero_block_def message_output_def
  output_text_def summary_text_def toResponsesCallID_def

lemma fold_blocks:
  assumes "fold (block_step gen) (map whole_block bs) (outs, parts, n) = (outs', parts', n')"
    and "said outs = []"
  shows "said outs' = [] \<and> concat (map rp_text parts') = concat (map rp_text parts) @ said (items_for gen' k bs)
    \<and> thought outs' = thought outs @ thought (items_for gen' k bs) \<and> calls outs' = calls outs @ calls (items_for gen' k bs)"
  using assms
proof (induction bs arbitrary: outs parts n k)
  case (Cons b bs)
  obtain outs1 parts1 n1 where one: "block_step gen (whole_block b) (outs, parts, n) = (outs1, parts1, n1)"
    by (metis prod_cases3)
  have b: "said outs1 = []" "concat (map rp_text parts1) = concat (map rp_text parts) @ said [item_for (gen' k) b]"
    "thought outs1 = thought outs @ thought [item_for (gen' k) b]" "calls outs1 = calls outs @ calls [item_for (gen' k) b]"
    using one Cons.prems(2) by (auto simp: message_parts split: block.splits if_splits)
  show ?case
    using Cons.IH[of outs1 parts1 n1 "k + 1"] Cons.prems(1) b one by simp
qed simp

text \<open>
  C19: For a message in which every text block is the last block or followed by a tool call
  (served; a text before another text or a thought is lost or refused, see below), streaming or not
  makes no difference to the content: the items of the converted stream
  and those of the whole message's conversion hold the same text, the same thoughts and the same
  tool calls with the same arguments, whatever the identifiers drawn. (The order of the message
  among the calls differs: the whole conversion puts it last.)
\<close>
theorem streamed_and_whole_agree:
  assumes "served bs"
  shows "let streamed = Outputs (fst (convert_stream gen (message_stream m bs u reason) NewAnthropicEventToResponsesState));
             whole = rr_output (AnthropicToResponsesResponse genR gen' (m\<lparr>ar_content := map whole_block bs\<rparr>))
         in said whole = said streamed \<and> thought whole = thought streamed \<and> calls whole = calls streamed"
proof -
  obtain outs parts n where f: "fold (block_step gen') (map whole_block bs) ([], [], 0) = (outs, parts, n)"
    by (metis prod_cases3)
  have serve: "serves gen (\<lambda>st items. st = NewAnthropicEventToResponsesState \<and> items = []) (message_stream m bs u reason)
      (ended (items_for gen 0 bs))"
    unfolding message_stream_def
    using serves_seq[OF serve_message_start serve_rest(1)[OF _ assms]] by (simp add: stream_event_def)
  then show ?thesis
    using fold_blocks[OF f, of gen 0] by (auto simp: serves_def ended_def AnthropicToResponsesResponse_def f Let_def
        message_output_def zero_output_def output_text_def)
qed

theorem streamed_and_whole_agree_witness:
  "(let streamed = Outputs (fst (convert_stream demo_gen (message_stream demo_message demo_blocks no_usage ''tool_use'')
       NewAnthropicEventToResponsesState));
        whole = rr_output (AnthropicToResponsesResponse demo_gen demo_gen (demo_message\<lparr>ar_content := map whole_block demo_blocks\<rparr>))
    in said whole = said streamed \<and> thought whole = thought streamed \<and> calls whole = calls streamed)
   \<and> said (items_for demo_gen 0 demo_blocks) = ''Let me look.''"
  by (rule conjI, rule streamed_and_whole_agree) (simp_all add: demo_blocks_def message_parts)


section \<open>The two cases that are not served\<close>

text \<open>
  A second text block keeps the message open but its part is announced with the index of the
  first: ContentIndex is read by the handlers and never raised.
\<close>

lemma refused_second_text:
  assumes "written i k outs t st items"
  shows "client_run (snd (convert_stream gen (block_stream (Text ds)) st)) items = None"
proof -
  have "client_run (snd (AnthropicEventToResponsesEvents gen (start_of (Text ds)) st)) items = None"
    using assms by (simp add: conversion start_of_def block_header_def anthToResHandleContentBlockStart_def places
        open_message_def zero_output_def)
  then show ?thesis by (simp add: block_stream_def case_prod_unfold checked_run_append Let_def)
qed

text \<open>
  Two text blocks in a row break the stream: whatever their contents and whatever follows,
  the client refuses it. The second response.content_part.added announces part 0 again, because
  no code raises ContentIndex when a part is done.
\<close>
theorem second_text_block_refused:
  "client_run (snd (convert_stream gen (message_stream m (Text ds # Text es # bs) u reason) NewAnthropicEventToResponsesState)) [] = None"
proof -
  let ?start = "(stream_event ''message_start'')\<lparr>ae_message := Some m\<rparr>"
  have "serves gen (\<lambda>st items. st = NewAnthropicEventToResponsesState \<and> items = []) ([?start] @ block_stream (Text ds))
      (written (gen 0) 1 [] (concat ds))"
    using serves_seq[OF serve_message_start serve_text, of ?start gen ds] by (simp add: stream_event_def)
  then obtain items where "client_run (snd (convert_stream gen ([?start] @ block_stream (Text ds)) NewAnthropicEventToResponsesState)) [] = Some items"
    and "written (gen 0) 1 [] (concat ds) (fst (convert_stream gen ([?start] @ block_stream (Text ds)) NewAnthropicEventToResponsesState)) items"
    by (auto simp: serves_def)
  then have "client_run (snd (convert_stream gen (([?start] @ block_stream (Text ds)) @ block_stream (Text es)) NewAnthropicEventToResponsesState)) [] = None"
    using refused_second_text by (simp only: convert_stream_append snd_conv checked_run_append bind.bind_lunit)
  moreover have "message_stream m (Text ds # Text es # bs) u reason
      = (([?start] @ block_stream (Text ds)) @ block_stream (Text es)) @ concat (map block_stream bs)
        @ tl (message_stream m [] u reason)"
    by (simp add: message_stream_def)
  ultimately show ?thesis
    by (simp only: convert_stream_append[of gen "([?start] @ block_stream (Text ds)) @ block_stream (Text es)"] snd_conv checked_run_append) simp
qed

text \<open>A thinking block after a text takes over the open message, without closing it.\<close>

definition usurped :: "string \<Rightarrow> ResponsesOutput list \<Rightarrow> string \<Rightarrow> conv \<Rightarrow> ResponsesOutput list \<Rightarrow> bool" where
  "usurped i outs s st items \<longleftrightarrow> \<not> CompletedSent st \<and> Outputs st = outs \<and> CurrentItemType st = ''reasoning''
     \<and> CurrentSummary st = s \<and> CurrentItemID st = i"

lemma usurp:
  assumes "written j k outs t st items" and "ae_type e = ''message_delta''"
  shows "Outputs (fst (convert_stream gen (block_stream (Thinking es) @ [e, stream_event ''message_stop'']) st))
    = outs @ [item_for (gen k) (Thinking es)]"
proof -
  have start: "usurped (gen k) outs [] (fst (AnthropicEventToResponsesEvents gen (start_of (Thinking es)) st)) []"
    using assms(1) by (simp add: conversion start_of_def block_header_def anthToResHandleContentBlockStart_def places
        open_item_def usurped_def)
  have delta: "usurped i outs (s @ concat ds) (fst (convert_stream gen (map delta_of (map thinking_delta ds)) st)) []"
    if "usurped i outs s st []" for i s st ds
    using that
  proof (induction ds arbitrary: s st)
    case (Cons d ds)
    have "usurped i outs (s @ d) (fst (AnthropicEventToResponsesEvents gen (delta_of (thinking_delta d)) st)) []"
      using Cons.prems by (auto simp: conversion delta_of_def thinking_delta_def anthToResHandleContentBlockDelta_def usurped_def)
    then show ?case using Cons.IH by (simp add: case_prod_unfold Let_def) (metis append.assoc)
  qed simp
  have stop: "Outputs (fst (convert_stream gen [stream_event ''content_block_stop'', e, stream_event ''message_stop''] st))
      = outs @ [zero_output\<lparr>ro_type := ''reasoning'', ro_id := i, ro_status := ''completed'',
          ro_summary := (if s = [] then [] else [summary_text s])\<rparr>]"
    if "usurped i outs s st []" for i s st
    using that assms(2) by (auto simp: conversion usurped_def anthToResHandleContentBlockStop_def closeCurrentResponsesItem_def
        close_state_def current_item_def anthToResHandleMessageDelta_def anthToResHandleMessageStop_def terminate_stream_def
        makeResponsesCompletedEvent_def case_prod_unfold zero_output_def split: option.split)
  show ?thesis
    using stop[OF delta[OF start]]
    by (simp add: block_stream_def convert_stream_append case_prod_unfold Let_def item_for_def cong: if_cong split del: if_split)
qed

text \<open>
  A thinking block after a text loses the text: the thinking handler opens its item over the
  message without closing it, so the final response of such a message holds the reasoning item
  alone and no text.
\<close>
theorem text_before_thinking_lost:
  "Outputs (fst (convert_stream gen (message_stream m [Text ds, Thinking es] u reason) NewAnthropicEventToResponsesState))
     = [item_for (gen 1) (Thinking es)]
   \<and> said (items_for gen 0 [Text ds, Thinking es]) = concat ds
   \<and> said [item_for (gen 1) (Thinking es)] = []"
proof -
  let ?start = "(stream_event ''message_start'')\<lparr>ae_message := Some m\<rparr>"
  let ?fin = "(stream_event ''message_delta'')\<lparr>ae_usage := Some u,
    ae_delta := Some (zero_delta\<lparr>ad_stop_reason := reason\<rparr>)\<rparr>"
  have "serves gen (\<lambda>st items. st = NewAnthropicEventToResponsesState \<and> items = []) ([?start] @ block_stream (Text ds))
      (written (gen 0) 1 [] (concat ds))"
    using serves_seq[OF serve_message_start serve_text, of ?start gen ds] by (simp add: stream_event_def)
  then obtain items where "written (gen 0) 1 [] (concat ds)
      (fst (convert_stream gen ([?start] @ block_stream (Text ds)) NewAnthropicEventToResponsesState)) items"
    by (auto simp: serves_def)
  then have "Outputs (fst (convert_stream gen (block_stream (Thinking es) @ tl (message_stream m [] u reason))
      (fst (convert_stream gen ([?start] @ block_stream (Text ds)) NewAnthropicEventToResponsesState)))) = [] @ [item_for (gen 1) (Thinking es)]"
    using usurp[of "gen 0" 1 "[]" "concat ds" _ items ?fin gen es] by (simp add: message_stream_def stream_event_def)
  moreover have "message_stream m [Text ds, Thinking es] u reason
      = ([?start] @ block_stream (Text ds)) @ block_stream (Thinking es) @ tl (message_stream m [] u reason)"
    by (simp add: message_stream_def)
  ultimately have "Outputs (fst (convert_stream gen (message_stream m [Text ds, Thinking es] u reason) NewAnthropicEventToResponsesState))
      = [item_for (gen 1) (Thinking es)]"
    by (simp only: convert_stream_append[of gen "[?start] @ block_stream (Text ds)"] fst_conv append_Nil)
  then show ?thesis by (simp add: message_parts)
qed

end
