(* ===== verification/Responses_Anthropic.thy ===== *)
theory Responses_Anthropic
  imports Compat_Types
begin

text \<open>
  Answers of the OpenAI Responses API in the format of Anthropic
  (pkg/apicompat/responses_to_anthropic.go): the conversion of a whole response and the
  stateful converter of the event stream.

  \<^item> A handler takes the converter's state and returns it with the events it emits.
  \<^item> encoding/json is a parameter: validity, the members of an object, and the texts of a
    string and of an object.
  \<^item> The field Created is written once and never read; it is left out.
\<close>

section \<open>JSON\<close>

record json_codec =
  json_valid :: "string \<Rightarrow> bool"
  json_members :: "string \<Rightarrow> (string \<times> string) list option"
  json_object :: "(string \<times> string) list \<Rightarrow> string option"
  json_string :: "string \<Rightarrow> string"

definition sanitizeAnthropicToolUseInput :: "json_codec \<Rightarrow> string \<Rightarrow> string \<Rightarrow> string" where
  "sanitizeAnthropicToolUseInput J name raw =
     (if name \<noteq> ''Read'' \<or> raw = [] then raw
      else (case json_members J raw of
              None \<Rightarrow> raw
            | Some input \<Rightarrow>
                if map_of input ''pages'' \<noteq> Some [CHR 0x22, CHR 0x22] then raw
                else (case json_object J (filter (\<lambda>(k, v). k \<noteq> ''pages'') input) of
                        None \<Rightarrow> raw
                      | Some sanitized \<Rightarrow> sanitized)))"

definition query_text :: "json_codec \<Rightarrow> ResponsesOutput \<Rightarrow> string" where
  "query_text J item =
     [CHR 0x7B, CHR 0x22] @ ''query'' @ [CHR 0x22, CHR 0x3A]
     @ json_string J (case ro_action item of None \<Rightarrow> [] | Some a \<Rightarrow> wa_query a) @ [CHR 0x7D]"

section \<open>Whole responses\<close>

definition fromResponsesCallID :: "string \<Rightarrow> string" where
  "fromResponsesCallID i =
     (if has_prefix i ''fc_''
      then (let after = drop 3 i
            in if has_prefix after ''toolu_'' \<or> has_prefix after ''call_'' then after else i)
      else i)"

definition summary_of :: "ResponsesOutput \<Rightarrow> string" where
  "summary_of item = concat (map (\<lambda>s. if rs_type s = ''summary_text'' \<and> rs_text s \<noteq> [] then rs_text s else []) (ro_summary item))"

definition server_tool_block :: "json_codec \<Rightarrow> ResponsesOutput \<Rightarrow> AnthropicContentBlock" where
  "server_tool_block J item = zero_block\<lparr>ab_type := ''server_tool_use'', ab_id := ''srvtoolu_'' @ ro_id item,
     ab_name := ''web_search'', ab_input := query_text J item\<rparr>"

definition search_result_block :: "ResponsesOutput \<Rightarrow> AnthropicContentBlock" where
  "search_result_block item = zero_block\<lparr>ab_type := ''web_search_tool_result'',
     ab_tool_use_id := ''srvtoolu_'' @ ro_id item, ab_content := ''[]''\<rparr>"

definition item_blocks :: "json_codec \<Rightarrow> ResponsesOutput \<Rightarrow> AnthropicContentBlock list" where
  "item_blocks J item =
     (if ro_type item = ''reasoning'' then
        (if summary_of item \<noteq> [] \<or> trim_space (ro_encrypted item) \<noteq> []
         then [zero_block\<lparr>ab_type := ''thinking'', ab_thinking := summary_of item, ab_signature := ro_encrypted item\<rparr>]
         else [])
      else if ro_type item = ''message'' then
        map (\<lambda>part. zero_block\<lparr>ab_type := ''text'', ab_text := rp_text part\<rparr>)
          (filter (\<lambda>part. rp_type part = ''output_text'' \<and> rp_text part \<noteq> []) (ro_content item))
      else if ro_type item = ''function_call'' then
        [zero_block\<lparr>ab_type := ''tool_use'', ab_id := fromResponsesCallID (ro_call_id item), ab_name := ro_name item,
           ab_input := sanitizeAnthropicToolUseInput J (ro_name item) (ro_arguments item)\<rparr>]
      else if ro_type item = ''web_search_call'' then [server_tool_block J item, search_result_block item]
      else [])"

definition containsAnthropicToolUseBlock :: "AnthropicContentBlock list \<Rightarrow> bool" where
  "containsAnthropicToolUseBlock blocks = list_ex (\<lambda>b. ab_type b = ''tool_use'') blocks"

definition responsesStatusToAnthropicStopReason :: "string \<Rightarrow> string option \<Rightarrow> AnthropicContentBlock list \<Rightarrow> string" where
  "responsesStatusToAnthropicStopReason status details blocks =
     (if status = ''incomplete'' then (if details = Some ''max_output_tokens'' then ''max_tokens'' else ''end_turn'')
      else if status = ''completed'' then (if containsAnthropicToolUseBlock blocks then ''tool_use'' else ''end_turn'')
      else ''end_turn'')"

definition anthropicUsageFromResponsesUsage :: "ResponsesUsage option \<Rightarrow> AnthropicUsage" where
  "anthropicUsageFromResponsesUsage usage =
     (case usage of
        None \<Rightarrow> no_usage
      | Some u \<Rightarrow>
          let cachedTokens = (case ru_cached u of None \<Rightarrow> 0 | Some n \<Rightarrow> n);
              inputTokens = ru_input u - cachedTokens - ru_cache_creation u
          in \<lparr>au_input = (if inputTokens < 0 then 0 else inputTokens), au_output = ru_output u,
              au_cache_creation = ru_cache_creation u, au_cache_read = cachedTokens\<rparr>)"

definition ResponsesToAnthropic :: "json_codec \<Rightarrow> ResponsesResponse \<Rightarrow> string \<Rightarrow> AnthropicResponse" where
  "ResponsesToAnthropic J resp model =
     (let blocks = concat (map (item_blocks J) (rr_output resp));
          blocks = (if blocks = [] then [zero_block\<lparr>ab_type := ''text''\<rparr>] else blocks)
      in \<lparr>ar_id = rr_id resp, ar_content = blocks, ar_model = model,
          ar_stop_reason = Some (responsesStatusToAnthropicStopReason (rr_status resp) (rr_incomplete resp) blocks),
          ar_usage = anthropicUsageFromResponsesUsage (rr_usage resp)\<rparr>)"

section \<open>The state of the stream converter\<close>

record ResponsesEventToAnthropicState =
  MessageStartSent :: bool
  MessageStopSent :: bool
  ContentBlockIndex :: int
  ContentBlockOpen :: bool
  CurrentBlockType :: string
  CurrentToolName :: string
  CurrentToolArgs :: string
  CurrentToolHadDelta :: bool
  PendingThinkingSignature :: string
  HasToolCall :: bool
  OutputIndexToBlockIdx :: "int \<rightharpoonup> int"
  StreamUsage :: AnthropicUsage
  StreamResponseID :: string
  StreamModel :: string

type_synonym bconv = ResponsesEventToAnthropicState
type_synonym sent = "bconv \<times> AnthropicStreamEvent list"

definition NewResponsesEventToAnthropicState :: bconv where
  "NewResponsesEventToAnthropicState = \<lparr>MessageStartSent = False, MessageStopSent = False, ContentBlockIndex = 0,
     ContentBlockOpen = False, CurrentBlockType = [], CurrentToolName = [], CurrentToolArgs = [],
     CurrentToolHadDelta = False, PendingThinkingSignature = [], HasToolCall = False,
     OutputIndexToBlockIdx = Map.empty, StreamUsage = no_usage, StreamResponseID = [], StreamModel = []\<rparr>"

section \<open>Events\<close>

definition block_start :: "int \<Rightarrow> AnthropicContentBlock \<Rightarrow> AnthropicStreamEvent" where
  "block_start idx block = (stream_event ''content_block_start'')\<lparr>ae_index := Some idx, ae_block := Some block\<rparr>"

definition block_delta :: "int \<Rightarrow> AnthropicDelta \<Rightarrow> AnthropicStreamEvent" where
  "block_delta idx d = (stream_event ''content_block_delta'')\<lparr>ae_index := Some idx, ae_delta := Some d\<rparr>"

definition block_stop :: "int \<Rightarrow> AnthropicStreamEvent" where
  "block_stop idx = (stream_event ''content_block_stop'')\<lparr>ae_index := Some idx\<rparr>"

definition args_delta :: "string \<Rightarrow> AnthropicDelta" where
  "args_delta raw = zero_delta\<lparr>ad_type := ''input_json_delta'', ad_partial_json := raw\<rparr>"

definition closeCurrentBlock :: "bconv \<Rightarrow> sent" where
  "closeCurrentBlock st =
     (if \<not> ContentBlockOpen st then (st, [])
      else (let idx = ContentBlockIndex st;
                sig = trim_space (PendingThinkingSignature st);
                thinking = (CurrentBlockType st = ''thinking'');
                events = (if thinking \<and> sig \<noteq> []
                  then [block_delta idx (zero_delta\<lparr>ad_type := ''signature_delta'', ad_signature := sig\<rparr>)] else []);
                st = (if thinking then st\<lparr>PendingThinkingSignature := []\<rparr> else st)
            in (st\<lparr>ContentBlockOpen := False, ContentBlockIndex := ContentBlockIndex st + 1, CurrentToolName := [],
                  CurrentToolArgs := [], CurrentToolHadDelta := False\<rparr>, events @ [block_stop idx])))"

text \<open>The end of a stream, as the terminal handler and the finalizer share it.\<close>

definition finish_message :: "string \<Rightarrow> bconv \<Rightarrow> AnthropicStreamEvent list \<Rightarrow> sent" where
  "finish_message stopReason st events =
     (st\<lparr>MessageStopSent := True\<rparr>,
      events @ [(stream_event ''message_delta'')\<lparr>ae_delta := Some (zero_delta\<lparr>ad_stop_reason := stopReason\<rparr>),
                  ae_usage := Some (StreamUsage st)\<rparr>,
                stream_event ''message_stop''])"

definition FinalizeResponsesAnthropicStream :: "bconv \<Rightarrow> sent" where
  "FinalizeResponsesAnthropicStream st =
     (if \<not> MessageStartSent st \<or> MessageStopSent st then (st, [])
      else (let (st, events) = closeCurrentBlock st
            in finish_message (if HasToolCall st then ''tool_use'' else ''end_turn'') st events))"

section \<open>The handlers\<close>

definition resToAnthHandleCreated :: "ResponsesStreamEvent \<Rightarrow> bconv \<Rightarrow> sent" where
  "resToAnthHandleCreated evt st =
     (let st = (case re_response evt of
            None \<Rightarrow> st
          | Some r \<Rightarrow> st\<lparr>StreamResponseID := rr_id r, StreamModel := (if StreamModel st = [] then rr_model r else StreamModel st)\<rparr>)
      in if MessageStartSent st then (st, [])
         else (st\<lparr>MessageStartSent := True\<rparr>,
               [(stream_event ''message_start'')\<lparr>ae_message := Some \<lparr>ar_id = StreamResponseID st, ar_content = [],
                  ar_model = StreamModel st, ar_stop_reason = None, ar_usage = no_usage\<rparr>\<rparr>]))"

definition resToAnthHandleOutputItemAdded :: "ResponsesStreamEvent \<Rightarrow> bconv \<Rightarrow> sent" where
  "resToAnthHandleOutputItemAdded evt st =
     (case re_item evt of
        None \<Rightarrow> (st, [])
      | Some item \<Rightarrow>
          if ro_type item = ''function_call'' \<or> ro_type item = ''custom_tool_call'' then
            (let (st, events) = closeCurrentBlock st; idx = ContentBlockIndex st
             in (st\<lparr>OutputIndexToBlockIdx := (OutputIndexToBlockIdx st)(re_output_index evt \<mapsto> idx), ContentBlockOpen := True,
                   CurrentBlockType := ''tool_use'', CurrentToolName := ro_name item, CurrentToolArgs := [],
                   CurrentToolHadDelta := False, HasToolCall := True\<rparr>,
                 events @ [block_start idx (zero_block\<lparr>ab_type := ''tool_use'', ab_id := fromResponsesCallID (ro_call_id item),
                   ab_name := ro_name item, ab_input := ''{}''\<rparr>)]))
          else if ro_type item = ''reasoning'' then
            (let (st, events) = closeCurrentBlock st; idx = ContentBlockIndex st
             in (st\<lparr>OutputIndexToBlockIdx := (OutputIndexToBlockIdx st)(re_output_index evt \<mapsto> idx), ContentBlockOpen := True,
                   CurrentBlockType := ''thinking'', PendingThinkingSignature := trim_space (ro_encrypted item)\<rparr>,
                 events @ [block_start idx (zero_block\<lparr>ab_type := ''thinking''\<rparr>)]))
          else (st, []))"

definition resToAnthHandleTextDelta :: "ResponsesStreamEvent \<Rightarrow> bconv \<Rightarrow> sent" where
  "resToAnthHandleTextDelta evt st =
     (if re_delta evt = [] then (st, [])
      else (let (st, events) =
                (if \<not> ContentBlockOpen st \<or> CurrentBlockType st \<noteq> ''text''
                 then (let (st, events) = closeCurrentBlock st
                       in (st\<lparr>ContentBlockOpen := True, CurrentBlockType := ''text''\<rparr>,
                           events @ [block_start (ContentBlockIndex st) (zero_block\<lparr>ab_type := ''text''\<rparr>)]))
                 else (st, []))
            in (st, events @ [block_delta (ContentBlockIndex st) (zero_delta\<lparr>ad_type := ''text_delta'', ad_text := re_delta evt\<rparr>)])))"

definition resToAnthHandleFuncArgsDelta :: "json_codec \<Rightarrow> ResponsesStreamEvent \<Rightarrow> bconv \<Rightarrow> sent" where
  "resToAnthHandleFuncArgsDelta J evt st =
     (if re_delta evt = [] then (st, [])
      else if CurrentBlockType st = ''tool_use'' \<and> CurrentToolName st = ''Read'' then
        (let st = st\<lparr>CurrentToolArgs := CurrentToolArgs st @ re_delta evt\<rparr>
         in if CurrentToolHadDelta st \<or> \<not> json_valid J (CurrentToolArgs st) then (st, [])
            else (case OutputIndexToBlockIdx st (re_output_index evt) of
                    None \<Rightarrow> (st, [])
                  | Some blockIdx \<Rightarrow>
                      (st\<lparr>CurrentToolHadDelta := True\<rparr>,
                       [block_delta blockIdx (args_delta
                          (sanitizeAnthropicToolUseInput J (CurrentToolName st) (CurrentToolArgs st)))])))
      else
        (let st = (if CurrentBlockType st = ''tool_use'' then st\<lparr>CurrentToolHadDelta := True\<rparr> else st)
         in (case OutputIndexToBlockIdx st (re_output_index evt) of
               None \<Rightarrow> (st, [])
             | Some blockIdx \<Rightarrow> (st, [block_delta blockIdx (args_delta (re_delta evt))]))))"

definition resToAnthHandleBlockDone :: "bconv \<Rightarrow> sent" where
  "resToAnthHandleBlockDone st = (if \<not> ContentBlockOpen st then (st, []) else closeCurrentBlock st)"

definition resToAnthHandleFuncArgsDone :: "json_codec \<Rightarrow> ResponsesStreamEvent \<Rightarrow> bconv \<Rightarrow> sent" where
  "resToAnthHandleFuncArgsDone J evt st =
     (if \<not> ContentBlockOpen st then (st, [])
      else if CurrentBlockType st \<noteq> ''tool_use'' then resToAnthHandleBlockDone st
      else (let raw = (if re_arguments evt = [] then CurrentToolArgs st else re_arguments evt)
            in if raw = [] \<or> CurrentToolHadDelta st then closeCurrentBlock st
               else (let sanitized = (if CurrentToolName st = ''Read''
                         then sanitizeAnthropicToolUseInput J (CurrentToolName st) raw else raw);
                         blockIdx = (case OutputIndexToBlockIdx st (re_output_index evt) of
                           None \<Rightarrow> ContentBlockIndex st | Some i \<Rightarrow> i)
                     in if CurrentToolName st = ''Read'' \<and> sanitized = [] then closeCurrentBlock st
                        else if \<not> ContentBlockOpen st \<or> blockIdx \<noteq> ContentBlockIndex st then (st, [])
                        else (let (st, events) = closeCurrentBlock st
                              in (st, block_delta blockIdx (args_delta sanitized) # events)))))"

definition resToAnthHandleReasoningDelta :: "ResponsesStreamEvent \<Rightarrow> bconv \<Rightarrow> sent" where
  "resToAnthHandleReasoningDelta evt st =
     (if re_delta evt = [] then (st, [])
      else (case OutputIndexToBlockIdx st (re_output_index evt) of
              None \<Rightarrow> (st, [])
            | Some blockIdx \<Rightarrow>
                (st, [block_delta blockIdx (zero_delta\<lparr>ad_type := ''thinking_delta'', ad_thinking := re_delta evt\<rparr>)])))"

definition resToAnthHandleWebSearchDone :: "json_codec \<Rightarrow> ResponsesOutput \<Rightarrow> bconv \<Rightarrow> sent" where
  "resToAnthHandleWebSearchDone J item st =
     (let (st, events) = closeCurrentBlock st; idx1 = ContentBlockIndex st; idx2 = idx1 + 1
      in (st\<lparr>ContentBlockIndex := idx2 + 1\<rparr>,
          events @ [block_start idx1 (server_tool_block J item), block_stop idx1,
                    block_start idx2 (search_result_block item), block_stop idx2]))"

definition resToAnthHandleOutputItemDone :: "json_codec \<Rightarrow> ResponsesStreamEvent \<Rightarrow> bconv \<Rightarrow> sent" where
  "resToAnthHandleOutputItemDone J evt st =
     (case re_item evt of
        None \<Rightarrow> (st, [])
      | Some item \<Rightarrow>
          if ro_type item = ''web_search_call'' \<and> ro_status item = ''completed'' then resToAnthHandleWebSearchDone J item st
          else (let sig = trim_space (ro_encrypted item);
                    st = (if ro_type item = ''reasoning'' \<and> sig \<noteq> [] then st\<lparr>PendingThinkingSignature := sig\<rparr> else st)
                in if ContentBlockOpen st then closeCurrentBlock st else (st, [])))"

definition resToAnthHandleCompleted :: "ResponsesStreamEvent \<Rightarrow> bconv \<Rightarrow> sent" where
  "resToAnthHandleCompleted evt st =
     (if MessageStopSent st then (st, [])
      else (let (st, events) = closeCurrentBlock st;
                st = (if re_usage evt = None then st else st\<lparr>StreamUsage := anthropicUsageFromResponsesUsage (re_usage evt)\<rparr>)
            in (case re_response evt of
                  None \<Rightarrow> finish_message ''end_turn'' st events
                | Some r \<Rightarrow>
                    (let st = (if rr_usage r = None then st
                           else st\<lparr>StreamUsage := anthropicUsageFromResponsesUsage (rr_usage r)\<rparr>)
                     in finish_message
                          (if rr_status r = ''incomplete'' then
                             (if rr_incomplete r = Some ''max_output_tokens'' then ''max_tokens'' else ''end_turn'')
                           else if rr_status r = ''completed'' \<and> HasToolCall st then ''tool_use''
                           else ''end_turn'') st events))))"

definition ResponsesEventToAnthropicEvents :: "json_codec \<Rightarrow> ResponsesStreamEvent \<Rightarrow> bconv \<Rightarrow> sent" where
  "ResponsesEventToAnthropicEvents J evt st =
     (let ty = re_type evt
      in if ty = ''response.created'' then resToAnthHandleCreated evt st
         else if ty = ''response.output_item.added'' then resToAnthHandleOutputItemAdded evt st
         else if ty = ''response.output_text.delta'' then resToAnthHandleTextDelta evt st
         else if ty = ''response.output_text.done'' then resToAnthHandleBlockDone st
         else if ty = ''response.function_call_arguments.delta'' \<or> ty = ''response.custom_tool_call_input.delta''
         then resToAnthHandleFuncArgsDelta J evt st
         else if ty = ''response.function_call_arguments.done'' then resToAnthHandleFuncArgsDone J evt st
         else if ty = ''response.output_item.done'' then resToAnthHandleOutputItemDone J evt st
         else if ty = ''response.reasoning_summary_text.delta'' \<or> ty = ''response.reasoning_text.delta''
         then resToAnthHandleReasoningDelta evt st
         else if ty = ''response.reasoning_summary_text.done'' then (st, [])
         else if ty \<in> {''response.completed'', ''response.done'', ''response.incomplete'', ''response.failed''}
         then resToAnthHandleCompleted evt st
         else (st, []))"

text \<open>The loop of the handlers that relay a stream.\<close>

fun convert_back :: "json_codec \<Rightarrow> ResponsesStreamEvent list \<Rightarrow> bconv \<Rightarrow> sent" where
  "convert_back J [] st = (st, [])"
| "convert_back J (evt # evts) st =
     (let (st1, out1) = ResponsesEventToAnthropicEvents J evt st;
          (st2, out2) = convert_back J evts st1
      in (st2, out1 @ out2))"


section \<open>The block protocol\<close>

text \<open>
  The protocol of an Anthropic stream as far as blocks go: the index of the next block and
  whether it is open. Blocks are numbered from 0, one is open at a time, a delta belongs to a
  block that has been started, and the message ends with no block open.
\<close>

definition protocol_step :: "AnthropicStreamEvent \<Rightarrow> int \<times> bool \<Rightarrow> (int \<times> bool) option" where
  "protocol_step e p =
     (let (n, opened) = p; ty = ae_type e
      in if ty = ''content_block_start'' then (if \<not> opened \<and> ae_index e = Some n then Some (n, True) else None)
         else if ty = ''content_block_stop'' then (if opened \<and> ae_index e = Some n then Some (n + 1, False) else None)
         else if ty = ''content_block_delta'' then
           (case ae_index e of
              None \<Rightarrow> None
            | Some i \<Rightarrow> if 0 \<le> i \<and> (i < n \<or> opened \<and> i = n) then Some (n, opened) else None)
         else if ty = ''message_delta'' \<or> ty = ''message_stop'' then (if opened then None else Some (n, opened))
         else Some (n, opened))"

definition place :: "bconv \<Rightarrow> int \<times> bool" where
  "place st = (ContentBlockIndex st, ContentBlockOpen st)"

definition known_blocks :: "bconv \<Rightarrow> bool" where
  "known_blocks st \<longleftrightarrow> 0 \<le> ContentBlockIndex st
     \<and> (\<forall>oi i. OutputIndexToBlockIdx st oi = Some i \<longrightarrow>
          0 \<le> i \<and> (i < ContentBlockIndex st \<or> ContentBlockOpen st \<and> i = ContentBlockIndex st))"

definition is_start :: "AnthropicStreamEvent \<Rightarrow> bool" where
  "is_start e \<longleftrightarrow> ae_type e = ''message_start''"

definition is_stop :: "AnthropicStreamEvent \<Rightarrow> bool" where
  "is_stop e \<longleftrightarrow> ae_type e = ''message_stop''"

text \<open>What a handler keeps: the events continue the protocol, and the marks count the message events.\<close>

definition obeys :: "bconv \<Rightarrow> sent \<Rightarrow> bool" where
  "obeys st s \<longleftrightarrow> checked_run protocol_step (snd s) (place st) = Some (place (fst s)) \<and> known_blocks (fst s)
     \<and> of_bool (MessageStartSent (fst s)) = of_bool (MessageStartSent st) + length (filter is_start (snd s))
     \<and> of_bool (MessageStopSent (fst s)) = of_bool (MessageStopSent st) + length (filter is_stop (snd s))"

lemmas sending = block_start_def block_delta_def block_stop_def stream_event_def

lemmas protocol = obeys_def place_def protocol_step_def known_blocks_def is_start_def is_stop_def checked_run_append

lemma obeys_quiet: "known_blocks st \<Longrightarrow> obeys st (st, [])"
  by (simp add: obeys_def)

lemma obeys_then:
  assumes "obeys st (st1, a)" and "obeys st1 (st2, b)"
  shows "obeys st (st2, a @ b)"
  using assms by (simp add: obeys_def checked_run_append)

lemma obeys_close: "known_blocks st \<Longrightarrow> obeys st (closeCurrentBlock st)"
  unfolding closeCurrentBlock_def Let_def by (fastforce simp: protocol sending)

lemma closed: "closeCurrentBlock st = (st', es) \<Longrightarrow> \<not> ContentBlockOpen st'"
  by (auto simp: closeCurrentBlock_def Let_def split: if_splits)

lemma close_keeps:
  assumes "closeCurrentBlock st = (st', es)"
  shows "OutputIndexToBlockIdx st' = OutputIndexToBlockIdx st" "HasToolCall st' = HasToolCall st"
    "MessageStartSent st' = MessageStartSent st" "MessageStopSent st' = MessageStopSent st" "StreamUsage st' = StreamUsage st"
  using assms by (auto simp: closeCurrentBlock_def Let_def split: if_splits)

lemma close_run:
  assumes "known_blocks st"
  obtains st1 es where "closeCurrentBlock st = (st1, es)" "obeys st (st1, es)" "known_blocks st1" "\<not> ContentBlockOpen st1"
    "HasToolCall st1 = HasToolCall st" "MessageStopSent st1 = MessageStopSent st"
proof -
  obtain st1 es where "closeCurrentBlock st = (st1, es)" by force
  then show thesis using that obeys_close[OF assms] closed close_keeps by (simp add: obeys_def)
qed

lemma obeys_finish:
  assumes "obeys st (st1, es)" "\<not> ContentBlockOpen st1" "\<not> MessageStopSent st1"
  shows "obeys st (finish_message r (st1\<lparr>StreamUsage := u\<rparr>) es)" and "obeys st (finish_message r st1 es)"
  using assms by (auto simp: protocol finish_message_def stream_event_def)

text \<open>One more event: a block is started, or a started block gets a delta.\<close>

lemma obeys_start:
  assumes "obeys st (st1, es)" "\<not> ContentBlockOpen st1"
    and "place st2 = (ContentBlockIndex st1, True)" "MessageStartSent st2 = MessageStartSent st1" "MessageStopSent st2 = MessageStopSent st1"
    and "OutputIndexToBlockIdx st2 = OutputIndexToBlockIdx st1
      \<or> (\<exists>oi. OutputIndexToBlockIdx st2 = (OutputIndexToBlockIdx st1)(oi \<mapsto> ContentBlockIndex st1))"
  shows "obeys st (st2, es @ [block_start (ContentBlockIndex st1) b])"
proof -
  have "known_blocks st1" using assms(1) by (simp add: obeys_def)
  then have "known_blocks st2" using assms(2,3,6) by (auto simp: known_blocks_def place_def split: if_splits)
  then have "obeys st1 (st2, [block_start (ContentBlockIndex st1) b])"
    using assms(2-5) by (simp add: obeys_def place_def protocol_step_def sending is_start_def is_stop_def)
  then show ?thesis using obeys_then[OF assms(1)] by blast
qed

definition same_books :: "bconv \<Rightarrow> bconv \<Rightarrow> bool" where
  "same_books st st' \<longleftrightarrow> place st' = place st \<and> OutputIndexToBlockIdx st' = OutputIndexToBlockIdx st
     \<and> MessageStartSent st' = MessageStartSent st \<and> MessageStopSent st' = MessageStopSent st"

lemma obeys_same: "known_blocks st \<Longrightarrow> same_books st st' \<Longrightarrow> obeys st (st', [])"
  by (auto simp: obeys_def same_books_def known_blocks_def place_def)

lemma obeys_delta:
  assumes "obeys st (st1, es)" "same_books st1 st2"
    and "OutputIndexToBlockIdx st1 oi = Some i \<or> ContentBlockOpen st1 \<and> i = ContentBlockIndex st1"
  shows "obeys st (st2, es @ [block_delta i d])"
proof -
  have k: "known_blocks st1" using assms(1) by (simp add: obeys_def)
  have "known_blocks st2" using obeys_same[OF k assms(2)] by (simp add: obeys_def)
  moreover have "0 \<le> i \<and> (i < ContentBlockIndex st1 \<or> ContentBlockOpen st1 \<and> i = ContentBlockIndex st1)"
    using k assms(3) by (auto simp: known_blocks_def)
  ultimately have "obeys st1 (st2, [block_delta i d])"
    using assms(2) by (auto simp: obeys_def same_books_def place_def protocol_step_def sending is_start_def is_stop_def)
  then show ?thesis using obeys_then[OF assms(1)] by blast
qed

lemma obeys_added: "known_blocks st \<Longrightarrow> obeys st (resToAnthHandleOutputItemAdded evt st)"
proof (rule close_run[of st])
  fix st1 es
  assume "known_blocks st" "closeCurrentBlock st = (st1, es)" "obeys st (st1, es)" "\<not> ContentBlockOpen st1"
  then show ?thesis
    by (auto simp: resToAnthHandleOutputItemAdded_def Let_def obeys_quiet place_def intro!: obeys_start split: option.split)
qed

lemma obeys_text: "known_blocks st \<Longrightarrow> obeys st (resToAnthHandleTextDelta evt st)"
proof (rule close_run[of st])
  fix st1 es
  assume known: "known_blocks st" and c: "closeCurrentBlock st = (st1, es)" "obeys st (st1, es)" "\<not> ContentBlockOpen st1"
  let ?st2 = "st1\<lparr>ContentBlockOpen := True, CurrentBlockType := ''text''\<rparr>"
  have "obeys st (?st2, es @ [block_start (ContentBlockIndex st1) b])" for b
    using c by (auto simp: place_def intro!: obeys_start)
  then have "obeys st (?st2, (es @ [block_start (ContentBlockIndex st1) b]) @ [block_delta (ContentBlockIndex st1) d])" for b d
    by (rule obeys_delta) (simp_all add: same_books_def)
  moreover have "obeys st (st, [] @ [block_delta (ContentBlockIndex st) d])" if "ContentBlockOpen st" for d
    using obeys_delta[OF obeys_quiet[OF known], of st _ "ContentBlockIndex st" d] that by (simp add: same_books_def)
  ultimately show ?thesis
    using c obeys_quiet[OF known] by (simp add: resToAnthHandleTextDelta_def Let_def)
qed

lemma obeys_args: "known_blocks st \<Longrightarrow> obeys st (resToAnthHandleFuncArgsDelta J evt st)"
proof -
  assume known: "known_blocks st"
  have "obeys st (st', [block_delta i d])" if "same_books st st'" "OutputIndexToBlockIdx st (re_output_index evt) = Some i" for st' i d
    using obeys_delta[OF obeys_quiet[OF known] that(1), of "re_output_index evt" i d] that(2) by simp
  then show ?thesis
    using obeys_same[OF known] known
    by (simp add: resToAnthHandleFuncArgsDelta_def Let_def obeys_quiet same_books_def place_def split: option.split)
qed

lemma obeys_args_done: "known_blocks st \<Longrightarrow> obeys st (resToAnthHandleFuncArgsDone J evt st)"
proof (rule close_run[of st])
  fix st1 es
  assume "known_blocks st" and c: "closeCurrentBlock st = (st1, es)" "obeys st (st1, es)"
  then have "obeys st (st1, block_delta (ContentBlockIndex st) d # es)" if "ContentBlockOpen st" for d
    using that by (simp add: protocol sending)
  then show ?thesis
    using c \<open>known_blocks st\<close> by (simp add: resToAnthHandleFuncArgsDone_def resToAnthHandleBlockDone_def Let_def obeys_quiet)
qed

lemma obeys_reasoning: "known_blocks st \<Longrightarrow> obeys st (resToAnthHandleReasoningDelta evt st)"
  using obeys_delta[OF obeys_quiet, of st st]
  by (auto simp: resToAnthHandleReasoningDelta_def obeys_quiet same_books_def split: option.split)

lemma obeys_item_done: "known_blocks st \<Longrightarrow> obeys st (resToAnthHandleOutputItemDone J evt st)"
proof (cases "re_item evt")
  case (Some item)
  assume known: "known_blocks st"
  have search: "obeys st (resToAnthHandleWebSearchDone J item st)"
  proof (rule close_run[OF known])
    fix st1 es
    assume c: "closeCurrentBlock st = (st1, es)" "obeys st (st1, es)" "known_blocks st1" "\<not> ContentBlockOpen st1"
    let ?i = "ContentBlockIndex st1"
    have "obeys st1 (st1\<lparr>ContentBlockIndex := ?i + 2\<rparr>, [block_start ?i b1, block_stop ?i, block_start (?i + 1) b2, block_stop (?i + 1)])" for b1 b2
      using c(3,4) by (fastforce simp: protocol sending)
    then show ?thesis using obeys_then[OF c(2)] c(1) by (simp add: resToAnthHandleWebSearchDone_def Let_def add.assoc)
  qed
  have "obeys (st\<lparr>PendingThinkingSignature := s\<rparr>) (closeCurrentBlock (st\<lparr>PendingThinkingSignature := s\<rparr>))" for s
    using known by (intro obeys_close) (simp add: known_blocks_def)
  then have "obeys st (closeCurrentBlock (st\<lparr>PendingThinkingSignature := s\<rparr>))" "obeys st (st\<lparr>PendingThinkingSignature := s\<rparr>, [])" for s
    using known by (simp_all add: protocol)
  then show ?thesis
    using known search obeys_close[OF known] by (simp add: resToAnthHandleOutputItemDone_def Some Let_def obeys_quiet)
qed (simp add: resToAnthHandleOutputItemDone_def obeys_quiet)

lemma obeys_completed: "known_blocks st \<Longrightarrow> obeys st (resToAnthHandleCompleted evt st)"
  by (rule close_run[of st])
    (auto simp: resToAnthHandleCompleted_def Let_def obeys_quiet obeys_finish split: option.split)

lemma obeys_handle: "known_blocks st \<Longrightarrow> obeys st (ResponsesEventToAnthropicEvents J evt st)"
proof -
  assume known: "known_blocks st"
  have "obeys st (resToAnthHandleCreated evt st)"
    using known by (auto simp: resToAnthHandleCreated_def Let_def protocol stream_event_def split: option.split)
  moreover have "obeys st (resToAnthHandleBlockDone st)"
    using obeys_close[OF known] obeys_quiet[OF known] by (simp add: resToAnthHandleBlockDone_def)
  ultimately show ?thesis
    using known by (simp add: ResponsesEventToAnthropicEvents_def Let_def obeys_quiet obeys_added obeys_text obeys_args
        obeys_args_done obeys_reasoning obeys_item_done obeys_completed)
qed

lemma obeys_finalize: "known_blocks st \<Longrightarrow> obeys st (FinalizeResponsesAnthropicStream st)"
  by (rule close_run[of st]) (auto simp: FinalizeResponsesAnthropicStream_def Let_def obeys_quiet obeys_finish)

lemma obeys_known: "obeys st (st', es) \<Longrightarrow> known_blocks st'"
  by (simp add: obeys_def)

lemma obeys_run: "known_blocks st \<Longrightarrow> obeys st (convert_back J evts st)"
proof (induction evts arbitrary: st)
  case (Cons evt evts)
  obtain st1 a where 1: "ResponsesEventToAnthropicEvents J evt st = (st1, a)" by force
  obtain st2 b where 2: "convert_back J evts st1 = (st2, b)" by force
  show ?case
    using obeys_then[of st st1 a st2 b] obeys_handle[OF Cons.prems, of J evt] Cons.IH[of st1] obeys_known 1 2 by simp
qed (simp add: obeys_quiet)

text \<open>
  C9: Whatever events arrive, in whatever order, the Anthropic stream keeps the block protocol:
  the blocks are numbered 0, 1, 2 and so on, each is stopped before the next starts, every delta
  carries the index of a block that was started, no block is open at the end of the message, and
  message_start and message_stop are each sent at most once, the finalizer's events included.
\<close>
theorem block_protocol_kept:
  "(let (st1, out1) = convert_back J evts NewResponsesEventToAnthropicState;
        (st2, out2) = FinalizeResponsesAnthropicStream st1;
        out = out1 @ out2
    in checked_run protocol_step out (0, False) = Some (ContentBlockIndex st2, ContentBlockOpen st2)
     \<and> length (filter is_start out) \<le> 1 \<and> length (filter is_stop out) \<le> 1)"
proof -
  let ?new = NewResponsesEventToAnthropicState
  obtain st1 out1 where 1: "convert_back J evts ?new = (st1, out1)" by force
  obtain st2 out2 where 2: "FinalizeResponsesAnthropicStream st1 = (st2, out2)" by force
  have "known_blocks ?new" by (simp add: known_blocks_def NewResponsesEventToAnthropicState_def)
  then have "obeys ?new (st1, out1)" using obeys_run[of ?new J evts] 1 by simp
  then have "obeys ?new (st2, out1 @ out2)"
    using obeys_then[of ?new st1 out1 st2 out2] obeys_finalize[of st1] obeys_known 2 by simp
  moreover have "(of_bool b :: nat) \<le> 1" for b by (cases b) auto
  ultimately show ?thesis
    unfolding 1 2 by (auto simp: obeys_def place_def NewResponsesEventToAnthropicState_def 2) (metis One_nat_def)+
qed

end
