(* ===== verification/Compat_Roundtrip.thy ===== *)
theory Compat_Roundtrip
  imports Responses_Client Responses_Anthropic
begin

text \<open>
  The two stream converters one after the other: an Anthropic stream is converted to the
  Responses API and back, and an abstract Anthropic client reads the result. It must find the
  message that was sent.
\<close>

section \<open>Reading an Anthropic stream\<close>

text \<open>A message as a client accumulates it: each block with the pieces of its input JSON.\<close>

record reading =
  read_id :: string
  read_model :: string
  read_content :: "(AnthropicContentBlock \<times> string) list"
  read_stop :: string
  read_usage :: AnthropicUsage

definition apply_delta :: "AnthropicDelta \<Rightarrow> AnthropicContentBlock \<times> string \<Rightarrow> (AnthropicContentBlock \<times> string) option" where
  "apply_delta d p =
     (let (b, json) = p
      in if ad_type d = ''text_delta'' \<and> ab_type b = ''text'' then Some (b\<lparr>ab_text := ab_text b @ ad_text d\<rparr>, json)
         else if ad_type d = ''thinking_delta'' \<and> ab_type b = ''thinking''
         then Some (b\<lparr>ab_thinking := ab_thinking b @ ad_thinking d\<rparr>, json)
         else if ad_type d = ''signature_delta'' \<and> ab_type b = ''thinking'' then Some (b\<lparr>ab_signature := ad_signature d\<rparr>, json)
         else if ad_type d = ''input_json_delta'' \<and> ab_type b = ''tool_use'' then Some (b, json @ ad_partial_json d)
         else None)"

definition read_step :: "AnthropicStreamEvent \<Rightarrow> reading option \<Rightarrow> reading option option" where
  "read_step e r =
     (case r of
        None \<Rightarrow>
          (case ae_message e of
             Some m \<Rightarrow> if ae_type e = ''message_start''
               then Some (Some \<lparr>read_id = ar_id m, read_model = ar_model m, read_content = [], read_stop = [], read_usage = ar_usage m\<rparr>)
               else None
           | None \<Rightarrow> None)
      | Some rd \<Rightarrow>
          let ty = ae_type e; n = length (read_content rd);
              i = (case ae_index e of None \<Rightarrow> n | Some k \<Rightarrow> if 0 \<le> k then nat k else n)
          in if ty = ''content_block_start'' then
               (case ae_block e of
                  Some b \<Rightarrow> if ae_index e = Some (int n) then Some (Some (rd\<lparr>read_content := read_content rd @ [(b, [])]\<rparr>)) else None
                | None \<Rightarrow> None)
             else if ty = ''content_block_delta'' then
               (case ae_delta e of
                  Some d \<Rightarrow> if i < n
                    then map_option (\<lambda>p. Some (rd\<lparr>read_content := (read_content rd)[i := p]\<rparr>)) (apply_delta d (read_content rd ! i))
                    else None
                | None \<Rightarrow> None)
             else if ty = ''content_block_stop'' then (if i < n then Some r else None)
             else if ty = ''message_delta'' then
               (case (ae_delta e, ae_usage e) of
                  (Some d, Some u) \<Rightarrow> Some (Some (rd\<lparr>read_stop := ad_stop_reason d, read_usage := u\<rparr>))
                | _ \<Rightarrow> None)
             else if ty = ''message_stop'' then Some r
             else None)"

definition read_message :: "AnthropicStreamEvent list \<Rightarrow> reading option" where
  "read_message es = Option.bind (checked_run read_step es None) (\<lambda>r. r)"

section \<open>What arrives\<close>

definition thinking_block :: "string \<Rightarrow> AnthropicContentBlock" where
  "thinking_block t = zero_block\<lparr>ab_type := ''thinking'', ab_thinking := t\<rparr>"

definition text_block :: "string \<Rightarrow> AnthropicContentBlock" where
  "text_block t = zero_block\<lparr>ab_type := ''text'', ab_text := t\<rparr>"

definition tool_block :: "string \<Rightarrow> string \<Rightarrow> AnthropicContentBlock" where
  "tool_block cid nm = zero_block\<lparr>ab_type := ''tool_use'', ab_id := fromResponsesCallID cid, ab_name := nm, ab_input := ''{}''\<rparr>"

definition arriving :: "json_codec \<Rightarrow> block \<Rightarrow> (AnthropicContentBlock \<times> string) list" where
  "arriving J b = (case b of
     Thinking ds \<Rightarrow> [(thinking_block (concat ds), [])]
   | Text ds \<Rightarrow> if concat ds = [] then [] else [(text_block (concat ds), [])]
   | Tool cid nm ds \<Rightarrow> [(tool_block cid nm, sanitizeAnthropicToolUseInput J nm (concat ds))])"

definition is_tool :: "block \<Rightarrow> bool" where
  "is_tool b = (case b of Tool _ _ _ \<Rightarrow> True | _ \<Rightarrow> False)"

text \<open>The pieces of a JSON text: nothing comes after a piece that completes it.\<close>

fun completes_last :: "json_codec \<Rightarrow> string \<Rightarrow> string list \<Rightarrow> bool" where
  "completes_last J a [] = True"
| "completes_last J a (d # ds) = ((d = [] \<or> a = [] \<or> \<not> json_valid J a) \<and> completes_last J (a @ d) ds)"

definition well_cut :: "json_codec \<Rightarrow> block \<Rightarrow> bool" where
  "well_cut J b = (case b of Tool _ nm ds \<Rightarrow> nm \<noteq> ''Read'' \<or> completes_last J [] ds | _ \<Rightarrow> True)"

section \<open>Both converters and the client\<close>

type_synonym situation = "conv \<Rightarrow> bconv \<Rightarrow> reading option \<Rightarrow> bool"

definition relays :: "json_codec \<Rightarrow> (nat \<Rightarrow> string) \<Rightarrow> situation \<Rightarrow> AnthropicStreamEvent list \<Rightarrow> situation \<Rightarrow> bool" where
  "relays J gen P evts Q \<longleftrightarrow> (\<forall>st b rd. P st b rd \<longrightarrow>
     (let (st', mid) = convert_stream gen evts st; (b', out) = convert_back J mid b
      in \<exists>rd'. checked_run read_step out rd = Some rd' \<and> Q st' b' rd'))"

lemma convert_back_append:
  "convert_back J (x @ y) b =
     (fst (convert_back J y (fst (convert_back J x b))),
      snd (convert_back J x b) @ snd (convert_back J y (fst (convert_back J x b))))"
  by (induction x arbitrary: b) (auto simp: case_prod_unfold Let_def)

lemma relays_seq: "relays J gen P x Q \<Longrightarrow> relays J gen Q y R \<Longrightarrow> relays J gen P (x @ y) R"
  unfolding relays_def case_prod_unfold Let_def convert_stream_append convert_back_append fst_conv snd_conv checked_run_append
  by fastforce

lemma relays_Nil: "relays J gen P [] P"
  by (simp add: relays_def)

lemma relays_one:
  assumes "\<And>st b rd. P st b rd \<Longrightarrow>
    \<exists>rd'. checked_run read_step (snd (convert_back J (snd (AnthropicEventToResponsesEvents gen evt st)) b)) rd = Some rd'
      \<and> Q (fst (AnthropicEventToResponsesEvents gen evt st)) (fst (convert_back J (snd (AnthropicEventToResponsesEvents gen evt st)) b)) rd'"
  shows "relays J gen P [evt] Q"
  using assms by (auto simp: relays_def case_prod_unfold Let_def)

lemma relays_deltas:
  assumes "\<And>s d. relays J gen (P s) [delta_of (f d)] (P (s @ d))"
  shows "relays J gen (P s) (map delta_of (map f ds)) (P (s @ concat ds))"
proof (induction ds arbitrary: s)
  case (Cons d ds)
  then show ?case using relays_seq[OF assms[of s d] Cons[of "s @ d"]] by simp
qed (simp add: relays_Nil)

text \<open>The counts and the stop reason that the first converter keeps.\<close>

definition counts :: "conv \<Rightarrow> int \<times> int \<times> int \<times> int \<times> string" where
  "counts st = (InputTokens st, OutputTokens st, CacheReadInputTokens st, CacheCreationInputTokens st, StopReason st)"

definition ready :: "bconv \<Rightarrow> nat \<Rightarrow> bool \<Rightarrow> bool \<Rightarrow> bool" where
  "ready b n opened h \<longleftrightarrow> MessageStartSent b \<and> \<not> MessageStopSent b \<and> ContentBlockOpen b = opened
     \<and> ContentBlockIndex b = int n \<and> HasToolCall b = h"

definition between :: "reading \<Rightarrow> (AnthropicContentBlock \<times> string) list \<Rightarrow> bool \<Rightarrow> int \<times> int \<times> int \<times> int \<times> string \<Rightarrow> situation" where
  "between r c h T st b rd \<longleftrightarrow> \<not> CompletedSent st \<and> counts st = T \<and> (CurrentItemType st = [] \<or> CurrentItemType st = ''message'')
     \<and> ready b (length c) False h \<and> rd = Some (r\<lparr>read_content := c\<rparr>)"

definition in_thinking :: "reading \<Rightarrow> (AnthropicContentBlock \<times> string) list \<Rightarrow> bool \<Rightarrow> int \<times> int \<times> int \<times> int \<times> string \<Rightarrow> string \<Rightarrow> situation" where
  "in_thinking r c h T s st b rd \<longleftrightarrow> \<not> CompletedSent st \<and> counts st = T \<and> CurrentItemType st = ''reasoning''
     \<and> ready b (length c) True h \<and> CurrentBlockType b = ''thinking'' \<and> PendingThinkingSignature b = []
     \<and> OutputIndexToBlockIdx b (OutputIndex st) = Some (int (length c))
     \<and> rd = Some (r\<lparr>read_content := c @ [(thinking_block s, [])]\<rparr>)"

definition in_text :: "reading \<Rightarrow> (AnthropicContentBlock \<times> string) list \<Rightarrow> bool \<Rightarrow> int \<times> int \<times> int \<times> int \<times> string \<Rightarrow> string \<Rightarrow> situation" where
  "in_text r c h T s st b rd \<longleftrightarrow> \<not> CompletedSent st \<and> counts st = T \<and> CurrentItemType st = ''message''
     \<and> ready b (length c) (s \<noteq> []) h \<and> (s \<noteq> [] \<longrightarrow> CurrentBlockType b = ''text'')
     \<and> rd = Some (r\<lparr>read_content := (if s = [] then c else c @ [(text_block s, [])])\<rparr>)"

definition in_tool :: "json_codec \<Rightarrow> string \<Rightarrow> string \<Rightarrow> reading \<Rightarrow> (AnthropicContentBlock \<times> string) list \<Rightarrow> int \<times> int \<times> int \<times> int \<times> string
    \<Rightarrow> string \<Rightarrow> situation" where
  "in_tool J cid nm r c T a st b rd \<longleftrightarrow> \<not> CompletedSent st \<and> counts st = T \<and> CurrentItemType st = ''function_call''
     \<and> ready b (length c) True True \<and> CurrentBlockType b = ''tool_use'' \<and> CurrentToolName b = nm
     \<and> OutputIndexToBlockIdx b (OutputIndex st) = Some (int (length c))
     \<and> (if nm = ''Read'' then CurrentToolArgs b = a \<and> CurrentToolHadDelta b = (a \<noteq> [] \<and> json_valid J a)
        else CurrentToolArgs b = [] \<and> CurrentToolHadDelta b = (a \<noteq> []))
     \<and> rd = Some (r\<lparr>read_content := c @ [(tool_block cid nm,
         if nm = ''Read'' \<and> \<not> json_valid J a then [] else sanitizeAnthropicToolUseInput J nm a)]\<rparr>)"

lemmas situations = between_def in_thinking_def in_text_def in_tool_def ready_def counts_def

lemmas converting = AnthropicEventToResponsesEvents_def zero_values emit_def makeResponsesEvent_def Let_def
  ResponsesEventToAnthropicEvents_def block_start_def block_delta_def block_stop_def

lemmas reading_rules = read_step_def apply_delta_def nth_append list_update_append thinking_block_def text_block_def tool_block_def

lemma relay_thinking_start:
  "relays J gen (between r c h T) [start_of (Thinking ds)] (in_thinking r c h T [])"
  by (rule relays_one) (auto simp: converting situations reading_rules start_of_def block_header_def
      anthToResHandleContentBlockStart_def open_item_def resToAnthHandleOutputItemAdded_def closeCurrentBlock_def)

lemma relay_thinking_delta:
  "relays J gen (in_thinking r c h T s) [delta_of (thinking_delta d)] (in_thinking r c h T (s @ d))"
  by (rule relays_one) (auto simp: converting situations reading_rules delta_of_def thinking_delta_def
      anthToResHandleContentBlockDelta_def resToAnthHandleReasoningDelta_def)


lemmas closing = anthToResHandleContentBlockStop_def closeCurrentResponsesItem_def close_state_def current_item_def
  resToAnthHandleOutputItemDone_def closeCurrentBlock_def

lemma relay_thinking_stop:
  "relays J gen (in_thinking r c h T s) [stream_event ''content_block_stop''] (between r (c @ [(thinking_block s, [])]) h T)"
  by (rule relays_one) (auto simp: converting situations reading_rules closing)

lemma relay_text_start: "relays J gen (between r c h T) [start_of (Text ds)] (in_text r c h T [])"
  by (rule relays_one) (auto simp: converting situations reading_rules start_of_def block_header_def
      anthToResHandleContentBlockStart_def open_item_def resToAnthHandleOutputItemAdded_def)

lemma relay_text_delta: "relays J gen (in_text r c h T s) [delta_of (text_delta d)] (in_text r c h T (s @ d))"
  by (rule relays_one) (auto simp: converting situations reading_rules delta_of_def text_delta_def
      anthToResHandleContentBlockDelta_def resToAnthHandleTextDelta_def closeCurrentBlock_def)

lemma relay_text_stop:
  "relays J gen (in_text r c h T s) [stream_event ''content_block_stop'']
     (between r (if s = [] then c else c @ [(text_block s, [])]) h T)"
  by (rule relays_one) (auto simp: converting situations reading_rules anthToResHandleContentBlockStop_def
      resToAnthHandleBlockDone_def closeCurrentBlock_def)

lemma sanitize_Nil [simp]: "sanitizeAnthropicToolUseInput J nm [] = []"
  by (simp add: sanitizeAnthropicToolUseInput_def)

lemma sanitize_other: "nm \<noteq> ''Read'' \<Longrightarrow> sanitizeAnthropicToolUseInput J nm a = a"
  by (simp add: sanitizeAnthropicToolUseInput_def)

lemma relay_tool_start:
  "relays J gen (between r c h T) [start_of (Tool cid nm ds)] (in_tool J cid nm r c T [])"
  by (rule relays_one) (auto simp: converting situations reading_rules start_of_def block_header_def closing
      anthToResHandleContentBlockStart_def open_item_def resToAnthHandleOutputItemAdded_def toResponsesCallID_def)

lemma relay_tool_delta:
  assumes "nm \<noteq> ''Read'' \<or> d = [] \<or> a = [] \<or> \<not> json_valid J a"
  shows "relays J gen (in_tool J cid nm r c T a) [delta_of (json_delta d)] (in_tool J cid nm r c T (a @ d))"
  using assms by (intro relays_one) (auto simp: converting situations reading_rules delta_of_def json_delta_def sanitize_other
      anthToResHandleContentBlockDelta_def resToAnthHandleFuncArgsDelta_def args_delta_def)

lemma relay_tool_deltas:
  "nm \<noteq> ''Read'' \<or> completes_last J a ds \<Longrightarrow>
   relays J gen (in_tool J cid nm r c T a) (map delta_of (map json_delta ds)) (in_tool J cid nm r c T (a @ concat ds))"
proof (induction ds arbitrary: a)
  case (Cons d ds)
  have "relays J gen (in_tool J cid nm r c T a) [delta_of (json_delta d)] (in_tool J cid nm r c T (a @ d))"
    by (rule relay_tool_delta) (use Cons.prems in auto)
  moreover have "relays J gen (in_tool J cid nm r c T (a @ d)) (map delta_of (map json_delta ds)) (in_tool J cid nm r c T (a @ d @ concat ds))"
    using Cons.IH[of "a @ d"] Cons.prems by auto
  ultimately show ?case using relays_seq by fastforce
qed (simp add: relays_Nil)

lemma relay_tool_stop:
  "relays J gen (in_tool J cid nm r c T a) [stream_event ''content_block_stop'']
     (between r (c @ [(tool_block cid nm, sanitizeAnthropicToolUseInput J nm a)]) True T)"
  by (rule relays_one) (auto simp: converting situations reading_rules closing resToAnthHandleFuncArgsDone_def args_delta_def sanitize_other)

section \<open>Messages\<close>

lemma relay_block:
  assumes "well_cut J b"
  shows "relays J gen (between r c h T) (block_stream b) (between r (c @ arriving J b) (h \<or> is_tool b) T)"
proof (cases b)
  case (Thinking ds)
  show ?thesis
    using relays_seq[OF relay_thinking_start[where ds = ds] relays_seq[OF relays_deltas[where P = "in_thinking r c h T" and f = thinking_delta
          and s = "[]" and ds = ds, OF relay_thinking_delta] relay_thinking_stop]]
    by (simp add: Thinking block_stream_def arriving_def is_tool_def)
next
  case (Text ds)
  have "c @ arriving J b = (if [] @ concat ds = [] then c else c @ [(text_block ([] @ concat ds), [])])"
    by (simp add: arriving_def Text)
  then show ?thesis
    using relays_seq[OF relay_text_start[where ds = ds] relays_seq[OF relays_deltas[where P = "in_text r c h T" and f = text_delta
          and s = "[]" and ds = ds, OF relay_text_delta] relay_text_stop]]
    by (simp only: Text block_stream_def is_tool_def block.case deltas_of.simps append.simps simp_thms)
next
  case (Tool cid nm ds)
  then have "nm \<noteq> ''Read'' \<or> completes_last J [] ds" using assms by (simp add: well_cut_def)
  from relays_seq[OF relay_tool_start[where ds = ds] relays_seq[OF relay_tool_deltas[OF this] relay_tool_stop]]
  show ?thesis by (simp add: Tool block_stream_def arriving_def is_tool_def)
qed

lemma relay_blocks:
  "list_all (well_cut J) bs \<Longrightarrow> relays J gen (between r c h T) (concat (map block_stream bs))
     (between r (c @ concat (map (arriving J) bs)) (h \<or> list_ex is_tool bs) T)"
proof (induction bs arbitrary: c h)
  case (Cons b bs)
  then have "relays J gen (between r (c @ arriving J b) (h \<or> is_tool b) T) (concat (map block_stream bs))
      (between r ((c @ arriving J b) @ concat (map (arriving J) bs)) ((h \<or> is_tool b) \<or> list_ex is_tool bs) T)" by (intro Cons.IH) simp
  then show ?case using relays_seq[OF relay_block] Cons.prems by (simp add: disj_assoc)
qed (simp add: relays_Nil)

text \<open>The usage that the client must end with: what the stream reported last.\<close>

definition reported_usage :: "AnthropicResponse \<Rightarrow> AnthropicUsage \<Rightarrow> AnthropicUsage" where
  "reported_usage m u =
     (let v = ar_usage m
      in \<lparr>au_input = keep_positive (au_input u) (keep_positive (au_input v) 0), au_output = au_output u,
          au_cache_creation = keep_positive (au_cache_creation u) (keep_positive (au_cache_creation v) 0),
          au_cache_read = keep_positive (au_cache_read u) (keep_positive (au_cache_read v) 0)\<rparr>)"

definition first_counts :: "AnthropicUsage \<Rightarrow> int \<times> int \<times> int \<times> int \<times> string" where
  "first_counts v = (keep_positive (au_input v) 0, 0, keep_positive (au_cache_read v) 0, keep_positive (au_cache_creation v) 0, [])"

lemma relay_start:
  "relays J gen (\<lambda>st b rd. st = NewAnthropicEventToResponsesState \<and> b = NewResponsesEventToAnthropicState \<and> rd = None)
     [(stream_event ''message_start'')\<lparr>ae_message := Some m\<rparr>]
     (between \<lparr>read_id = ar_id m, read_model = ar_model m, read_content = [], read_stop = [], read_usage = no_usage\<rparr> [] False
       (first_counts (ar_usage m)))"
  by (rule relays_one) (simp add: converting situations reading_rules anthToResHandleMessageStart_def makeResponsesCreatedEvent_def
      NewAnthropicEventToResponsesState_def NewResponsesEventToAnthropicState_def resToAnthHandleCreated_def first_counts_def)

definition read_to_end :: "reading \<Rightarrow> situation" where
  "read_to_end r st b rd \<longleftrightarrow> rd = Some r"

lemma usage_back:
  assumes "0 \<le> i" "0 \<le> r"
  shows "anthropicUsageFromResponsesUsage (Some (responses_usage i n r c))
    = \<lparr>au_input = i, au_output = n, au_cache_creation = c, au_cache_read = r\<rparr>"
  using assms by (auto simp: anthropicUsageFromResponsesUsage_def responses_usage_def Let_def)

lemma completed_back:
  assumes "\<not> MessageStopSent b" "\<not> ContentBlockOpen b" "0 \<le> i" "0 \<le> r"
    and "anthropicResponsesStreamTerminalState reason = (status, details)"
    and "re_usage e = None" "re_response e = Some x" "rr_status x = status" "rr_incomplete x = details"
    "rr_usage x = Some (responses_usage i n r c)"
  shows "resToAnthHandleCompleted e b
    = finish_message (if reason = ''max_tokens'' then ''max_tokens'' else if HasToolCall b then ''tool_use'' else ''end_turn'')
        (b\<lparr>StreamUsage := \<lparr>au_input = i, au_output = n, au_cache_creation = c, au_cache_read = r\<rparr>\<rparr>) []"
  using assms by (auto simp: resToAnthHandleCompleted_def closeCurrentBlock_def usage_back anthropicResponsesStreamTerminalState_def
      Let_def split: if_splits)

lemma relay_message_stop:
  assumes "0 \<le> i" "0 \<le> r"
  shows "relays J gen (between rd c h (i, n, r, k, reason)) [stream_event ''message_stop'']
     (read_to_end (rd\<lparr>read_content := c, read_usage := \<lparr>au_input = i, au_output = n, au_cache_creation = k, au_cache_read = r\<rparr>,
        read_stop := (if reason = ''max_tokens'' then ''max_tokens'' else if h then ''tool_use'' else ''end_turn'')\<rparr>))"
proof (rule relays_one)
  fix st b rd'
  assume P: "between rd c h (i, n, r, k, reason) st b rd'"
  obtain status details where t: "anthropicResponsesStreamTerminalState reason = (status, details)" by force
  let ?ty = "if status = ''incomplete'' then ''response.incomplete'' else ''response.completed''"
  let ?fin = "\<lambda>q outs. zero_event\<lparr>re_type := ?ty, re_sequence := q, re_response := Some \<lparr>rr_id = ResponseID st, rr_object = ''response'',
    rr_model = Model st, rr_status = status, rr_output = outs, rr_usage = Some (responses_usage i n r k), rr_incomplete = details\<rparr>\<rparr>"
  have turned: "convert_back J (snd (AnthropicEventToResponsesEvents gen (stream_event ''message_stop'') st)) b
    = finish_message (if reason = ''max_tokens'' then ''max_tokens'' else if h then ''tool_use'' else ''end_turn'')
        (b\<lparr>StreamUsage := \<lparr>au_input = i, au_output = n, au_cache_creation = k, au_cache_read = r\<rparr>\<rparr>) []"
  proof -
    have "ResponsesEventToAnthropicEvents J (?fin q outs) b
      = finish_message (if reason = ''max_tokens'' then ''max_tokens'' else if h then ''tool_use'' else ''end_turn'')
        (b\<lparr>StreamUsage := \<lparr>au_input = i, au_output = n, au_cache_creation = k, au_cache_read = r\<rparr>\<rparr>) []" for q outs
    proof -
      have "ResponsesEventToAnthropicEvents J (?fin q outs) b = resToAnthHandleCompleted (?fin q outs) b"
        by (simp add: ResponsesEventToAnthropicEvents_def)
      also have "\<dots> = finish_message (if reason = ''max_tokens'' then ''max_tokens'' else if HasToolCall b then ''tool_use'' else ''end_turn'')
        (b\<lparr>StreamUsage := \<lparr>au_input = i, au_output = n, au_cache_creation = k, au_cache_read = r\<rparr>\<rparr>) []"
        by (rule completed_back[OF _ _ assms t, where x = "\<lparr>rr_id = ResponseID st, rr_object = ''response'', rr_model = Model st,
            rr_status = status, rr_output = outs, rr_usage = Some (responses_usage i n r k), rr_incomplete = details\<rparr>"]) (use P in \<open>simp_all add: between_def ready_def zero_event_def\<close>)
      finally show ?thesis using P by (simp only: between_def ready_def)
    qed
    obtain st1 pre where close: "closeCurrentResponsesItem (st, []) = (st1, pre)" by force
    have kept: "counts st1 = counts st" "ResponseID st1 = ResponseID st" "Model st1 = Model st"
      using close by (auto simp: closeCurrentResponsesItem_def emit_def makeResponsesEvent_def close_state_def counts_def Let_def
          split: if_splits)
    have "convert_back J pre b = (b, [])"
      using close P by (auto simp: closeCurrentResponsesItem_def emit_def makeResponsesEvent_def Let_def between_def ready_def
          ResponsesEventToAnthropicEvents_def resToAnthHandleOutputItemDone_def current_item_def zero_output_def split: if_splits)
    moreover have "snd (AnthropicEventToResponsesEvents gen (stream_event ''message_stop'') st)
      = pre @ [?fin (SequenceNumber st1) (Outputs st1)]"
      using P t kept by (simp add: between_def counts_def AnthropicEventToResponsesEvents_def stream_event_def anthToResHandleMessageStop_def
          terminate_stream_def makeResponsesCompletedEvent_def close split del: if_split)
    ultimately show ?thesis
      using \<open>\<And>q outs. ResponsesEventToAnthropicEvents J (?fin q outs) b = _\<close> by (simp add: convert_back_append case_prod_unfold split del: if_split)
  qed
  show "\<exists>rd''. checked_run read_step (snd (convert_back J (snd (AnthropicEventToResponsesEvents gen (stream_event ''message_stop'') st)) b)) rd' = Some rd''
    \<and> read_to_end (rd\<lparr>read_content := c, read_usage := \<lparr>au_input = i, au_output = n, au_cache_creation = k, au_cache_read = r\<rparr>,
        read_stop := (if reason = ''max_tokens'' then ''max_tokens'' else if h then ''tool_use'' else ''end_turn'')\<rparr>)
      (fst (AnthropicEventToResponsesEvents gen (stream_event ''message_stop'') st))
      (fst (convert_back J (snd (AnthropicEventToResponsesEvents gen (stream_event ''message_stop'') st)) b)) rd''"
    using P unfolding turned by (simp add: finish_message_def between_def read_step_def stream_event_def read_to_end_def zero_delta_def)
qed

lemma relay_end:
  "relays J gen (between r c h (first_counts (ar_usage m)))
     [(stream_event ''message_delta'')\<lparr>ae_usage := Some u, ae_delta := Some (zero_delta\<lparr>ad_stop_reason := reason\<rparr>)\<rparr>,
      stream_event ''message_stop'']
     (read_to_end (r\<lparr>read_content := c, read_usage := reported_usage m u,
        read_stop := (if reason = ''max_tokens'' then ''max_tokens'' else if h then ''tool_use'' else ''end_turn'')\<rparr>))"
proof -
  let ?v = "ar_usage m" and ?k = keep_positive
  let ?T = "(?k (au_input u) (?k (au_input ?v) 0), au_output u, ?k (au_cache_read u) (?k (au_cache_read ?v) 0),
    ?k (au_cache_creation u) (?k (au_cache_creation ?v) 0), reason)"
  have nonneg: "0 \<le> ?k a (?k b 0)" for a b by (simp add: keep_positive_def)
  have "relays J gen (between r c h (first_counts ?v))
      [(stream_event ''message_delta'')\<lparr>ae_usage := Some u, ae_delta := Some (zero_delta\<lparr>ad_stop_reason := reason\<rparr>)\<rparr>] (between r c h ?T)"
    by (rule relays_one) (simp add: converting situations reading_rules first_counts_def anthToResHandleMessageDelta_def)
  from relays_seq[OF this relay_message_stop[OF nonneg nonneg]]
  show ?thesis by (simp add: reported_usage_def Let_def)
qed

text \<open>
  C3: A streamed message, converted to the Responses API and back, is read with the same identifier
  and model and its blocks in order: the thoughts, the texts that are not empty, and the calls with
  their names and inputs (the id loses a leading fc_ before toolu_ or call_, and the input of a Read call is the
  sanitized one). The stop reason is recomputed: max_tokens is kept, otherwise it is tool_use if
  there is a call and end_turn if there is none. The usage is that of the last report, with the
  first report's count where the last has no positive one; the output count is that of the last.
  The fragments of a Read call's input must be cut so that nothing follows a beginning that is
  valid JSON already (well_cut).
\<close>
theorem stream_roundtrip:
  assumes "list_all (well_cut J) bs"
  shows "let out = snd (convert_back J (snd (convert_stream gen (message_stream m bs u reason) NewAnthropicEventToResponsesState))
             NewResponsesEventToAnthropicState)
         in read_message out = Some \<lparr>read_id = ar_id m, read_model = ar_model m, read_content = concat (map (arriving J) bs),
              read_stop = (if reason = ''max_tokens'' then ''max_tokens'' else if list_ex is_tool bs then ''tool_use'' else ''end_turn''),
              read_usage = reported_usage m u\<rparr>"
proof -
  let ?r = "\<lparr>read_id = ar_id m, read_model = ar_model m, read_content = [], read_stop = [], read_usage = no_usage\<rparr>"
  from relays_seq[OF relay_start relays_seq[OF relay_blocks[OF assms, of gen ?r "[]" False "first_counts (ar_usage m)"]
      relay_end[where r = ?r and m = m and u = u and reason = reason]]]
  show ?thesis
    by (auto simp: relays_def message_stream_def read_message_def read_to_end_def case_prod_unfold Let_def)
qed


text \<open>A JSON library for the one text that the example needs: an object with an empty pages member.\<close>

definition empty_pages :: string where
  "empty_pages = ''{'' @ [CHR 0x22] @ ''pages'' @ [CHR 0x22] @ '':'' @ [CHR 0x22, CHR 0x22] @ ''}''"

definition demo_codec :: json_codec where
  "demo_codec = \<lparr>json_valid = (\<lambda>s. s = empty_pages \<or> s = ''{}''),
     json_members = (\<lambda>s. if s = empty_pages then Some [(''pages'', [CHR 0x22, CHR 0x22])] else if s = ''{}'' then Some [] else None),
     json_object = (\<lambda>m. if m = [] then Some ''{}'' else None), json_string = (\<lambda>s. [CHR 0x22] @ s @ [CHR 0x22])\<rparr>"

definition demo_sent :: "block list" where
  "demo_sent = demo_blocks @ [Text [[]], Text [''ok'']] @ [Tool ''fc_toolu_9'' ''Read'' [take 3 empty_pages, drop 3 empty_pages]]"

lemma demo_sent_cut: "list_all (well_cut demo_codec) demo_sent"
  by (simp add: demo_sent_def demo_blocks_def well_cut_def demo_codec_def empty_pages_def)

lemma demo_arriving:
  "concat (map (arriving demo_codec) demo_sent) =
     [(thinking_block ''ab'', []), (text_block ''Let me look.'', []), (tool_block ''t1'' ''read'', ''{\"p\":1}''),
      (tool_block ''t2'' ''list'', []), (text_block ''ok'', []), (tool_block ''toolu_9'' ''Read'', ''{}'')]"
  by (simp add: demo_sent_def demo_blocks_def arriving_def sanitizeAnthropicToolUseInput_def demo_codec_def empty_pages_def
      tool_block_def fromResponsesCallID_def has_prefix_def Let_def)

theorem stream_roundtrip_witness:
  "(let out = snd (convert_back demo_codec (snd (convert_stream demo_gen (message_stream demo_message demo_sent no_usage ''end_turn'')
          NewAnthropicEventToResponsesState)) NewResponsesEventToAnthropicState)
    in read_message out = Some \<lparr>read_id = ''msg_1'', read_model = ''m'', read_content =
         [(thinking_block ''ab'', []), (text_block ''Let me look.'', []), (tool_block ''t1'' ''read'', ''{\"p\":1}''),
          (tool_block ''t2'' ''list'', []), (text_block ''ok'', []), (tool_block ''toolu_9'' ''Read'', ''{}'')],
       read_stop = ''tool_use'', read_usage = no_usage\<rparr>)"
proof -
  have "reported_usage demo_message no_usage = no_usage"
    by (simp add: reported_usage_def demo_message_def no_usage_def keep_positive_def)
  moreover have "list_ex is_tool demo_sent" "ar_id demo_message = ''msg_1''" "ar_model demo_message = ''m''"
    by (simp_all add: demo_sent_def demo_blocks_def is_tool_def demo_message_def)
  ultimately show ?thesis
    using stream_roundtrip[OF demo_sent_cut, of demo_gen demo_message no_usage "''end_turn''"] unfolding demo_arriving by simp
qed

end
