(* ===== verification/Redis_Store.thy ===== *)
theory Redis_Store
  imports Gateway_Prelude "HOL-Library.List_Lexorder" "HOL-Library.Char_ord" "HOL-Library.Product_Lexorder"
begin

text \<open>
  The part of Redis that the caches under internal/repository use: sorted sets with integer
  scores and counters, each under a key with an optional expiry. It holds the documented
  behaviour of the commands, no code of the repository:

  \<^item> Times are milliseconds; TIME answers in whole seconds and EXPIRE counts in seconds.
  \<^item> A key is gone from the moment its expiry is reached, and a sorted set that becomes empty
    is deleted.
  \<^item> Sorted sets and counters are kept apart: the keys of the two kinds are different.
  \<^item> A script or a pipeline is one step at one time.
\<close>

type_synonym zset = "(string \<times> int) list"

record redis =
  sets :: "string \<Rightarrow> (zset \<times> int option) option"
  counts :: "string \<Rightarrow> (int \<times> int option) option"

definition empty_redis :: redis where
  "empty_redis = \<lparr>sets = (\<lambda>_. None), counts = (\<lambda>_. None)\<rparr>"

definition alive :: "int \<Rightarrow> ('v \<times> int option) option \<Rightarrow> ('v \<times> int option) option" where
  "alive t e = (case e of
     None \<Rightarrow> None
   | Some (v, x) \<Rightarrow> if x = None \<or> t < the x then e else None)"

section \<open>Sorted sets\<close>

definition members :: "int \<Rightarrow> string \<Rightarrow> redis \<Rightarrow> zset" where
  "members t k db = (case alive t (sets db k) of None \<Rightarrow> [] | Some (z, _) \<Rightarrow> z)"

definition put_members :: "int \<Rightarrow> string \<Rightarrow> zset \<Rightarrow> redis \<Rightarrow> redis" where
  "put_members t k z db = db\<lparr>sets := (sets db)(k :=
     (if z = [] then None else Some (z, Option.bind (alive t (sets db k)) snd)))\<rparr>"

definition TIME :: "int \<Rightarrow> int" where
  "TIME t = t div 1000"

definition ZADD :: "int \<Rightarrow> string \<Rightarrow> int \<Rightarrow> string \<Rightarrow> redis \<Rightarrow> redis" where
  "ZADD t k score m db = put_members t k (aput m score (members t k db)) db"

definition ZREM :: "int \<Rightarrow> string \<Rightarrow> string \<Rightarrow> redis \<Rightarrow> redis" where
  "ZREM t k m db = put_members t k (filter (\<lambda>p. fst p \<noteq> m) (members t k db)) db"

text \<open>ZREMRANGEBYSCORE from minus infinity.\<close>

definition ZREMRANGEBYSCORE :: "int \<Rightarrow> string \<Rightarrow> int \<Rightarrow> redis \<Rightarrow> redis" where
  "ZREMRANGEBYSCORE t k highest db = put_members t k (filter (\<lambda>p. highest < snd p) (members t k db)) db"

definition ZCARD :: "int \<Rightarrow> string \<Rightarrow> redis \<Rightarrow> int" where
  "ZCARD t k db = int (length (members t k db))"

definition ZSCORE :: "int \<Rightarrow> string \<Rightarrow> string \<Rightarrow> redis \<Rightarrow> int option" where
  "ZSCORE t k m db = aget (members t k db) m"

definition ZRANGE :: "int \<Rightarrow> string \<Rightarrow> redis \<Rightarrow> string list" where
  "ZRANGE t k db = map fst (sort_key (\<lambda>p. (snd p, fst p)) (members t k db))"

definition ZRANGEBYSCORE :: "int \<Rightarrow> string \<Rightarrow> int \<Rightarrow> nat \<Rightarrow> redis \<Rightarrow> string list" where
  "ZRANGEBYSCORE t k highest count db =
     take count (map fst (sort_key (\<lambda>p. (snd p, fst p)) (filter (\<lambda>p. snd p \<le> highest) (members t k db))))"

definition EXPIRE :: "int \<Rightarrow> string \<Rightarrow> int \<Rightarrow> redis \<Rightarrow> redis" where
  "EXPIRE t k ttl db = db\<lparr>sets := (sets db)(k :=
     (case alive t (sets db k) of
        None \<Rightarrow> None
      | Some (z, _) \<Rightarrow> if ttl \<le> 0 then None else Some (z, Some (t + 1000 * ttl))))\<rparr>"

definition DEL :: "string \<Rightarrow> redis \<Rightarrow> redis" where
  "DEL k db = db\<lparr>sets := (sets db)(k := None), counts := (counts db)(k := None)\<rparr>"

section \<open>Counters\<close>

definition GET :: "int \<Rightarrow> string \<Rightarrow> redis \<Rightarrow> int option" where
  "GET t k db = map_option fst (alive t (counts db k))"

definition INCRBY :: "int \<Rightarrow> string \<Rightarrow> int \<Rightarrow> redis \<Rightarrow> redis" where
  "INCRBY t k n db = db\<lparr>counts := (counts db)(k :=
     (case alive t (counts db k) of None \<Rightarrow> Some (n, None) | Some (v, x) \<Rightarrow> Some (v + n, x)))\<rparr>"

definition EXPIRE_counter :: "int \<Rightarrow> string \<Rightarrow> int \<Rightarrow> redis \<Rightarrow> redis" where
  "EXPIRE_counter t k ttl db = db\<lparr>counts := (counts db)(k :=
     (case alive t (counts db k) of
        None \<Rightarrow> None
      | Some (v, _) \<Rightarrow> if ttl \<le> 0 then None else Some (v, Some (t + 1000 * ttl))))\<rparr>"

definition SET :: "string \<Rightarrow> int \<Rightarrow> redis \<Rightarrow> redis" where
  "SET k v db = db\<lparr>counts := (counts db)(k \<mapsto> (v, None))\<rparr>"

text \<open>Deletes every key with a prefix: a SCAN of the pattern to its end, deleting what it finds.\<close>

definition DEL_prefix :: "string \<Rightarrow> redis \<Rightarrow> redis" where
  "DEL_prefix p db = db\<lparr>sets := (\<lambda>k. if has_prefix k p then None else sets db k),
     counts := (\<lambda>k. if has_prefix k p then None else counts db k)\<rparr>"

section \<open>Round trips\<close>

text \<open>A round trip happens at a time and may fail.\<close>

type_synonym moment = "int \<times> fault"

definition at :: "moment \<Rightarrow> (int \<Rightarrow> redis \<Rightarrow> redis \<times> 'r) \<Rightarrow> redis \<Rightarrow> redis \<times> 'r option" where
  "at m f db = call (snd m) (f (fst m)) db"

definition quietly :: "(int \<Rightarrow> redis \<Rightarrow> redis) \<Rightarrow> int \<Rightarrow> redis \<Rightarrow> redis \<times> unit" where
  "quietly f t db = (f t db, ())"


section \<open>Sets whose members expire\<close>

text \<open>
  The caches use a sorted set as a lease table: a member scored with its second \<open>s\<close> counts until
  \<open>s + T\<close>, and each write sets the key's expiry to \<open>T\<close> seconds. \<open>lease_key\<close> says that such a
  key never vanishes before its members are over; \<open>leases\<close> are the members that count.
\<close>

definition lease_key :: "int \<Rightarrow> int \<Rightarrow> string \<Rightarrow> redis \<Rightarrow> bool" where
  "lease_key T t k db \<longleftrightarrow> (case sets db k of
     None \<Rightarrow> True
   | Some (z, x) \<Rightarrow> adistinct z \<and> (\<exists>e. x = Some e \<and> (\<forall>p\<in>set z. 1000 * snd p \<le> t \<and> 1000 * (snd p + T) \<le> e)))"

definition leases :: "int \<Rightarrow> int \<Rightarrow> string \<Rightarrow> redis \<Rightarrow> string \<Rightarrow> int option" where
  "leases T t k db r = (case sets db k of
     None \<Rightarrow> None
   | Some (z, _) \<Rightarrow> (case aget z r of None \<Rightarrow> None | Some s \<Rightarrow> if TIME t < s + T then Some s else None))"

lemma sets_other [simp]:
  "k' \<noteq> k \<Longrightarrow> sets (ZADD t k s m db) k' = sets db k'" "k' \<noteq> k \<Longrightarrow> sets (ZREM t k m db) k' = sets db k'"
  "k' \<noteq> k \<Longrightarrow> sets (ZREMRANGEBYSCORE t k h db) k' = sets db k'" "k' \<noteq> k \<Longrightarrow> sets (EXPIRE t k n db) k' = sets db k'"
  "k' \<noteq> k \<Longrightarrow> sets (DEL k db) k' = sets db k'" "sets (INCRBY t k n db) k' = sets db k'"
  "sets (EXPIRE_counter t k n db) k' = sets db k'" "sets (SET k v db) k' = sets db k'"
  by (simp_all add: ZADD_def ZREM_def ZREMRANGEBYSCORE_def EXPIRE_def put_members_def DEL_def INCRBY_def EXPIRE_counter_def SET_def)

lemma counts_kept [simp]:
  "counts (ZADD t k s m db) = counts db" "counts (ZREM t k m db) = counts db"
  "counts (ZREMRANGEBYSCORE t k h db) = counts db" "counts (EXPIRE t k n db) = counts db"
  by (simp_all add: ZADD_def ZREM_def ZREMRANGEBYSCORE_def EXPIRE_def put_members_def)

lemma sets_same:
  assumes "sets db' k = sets db k"
  shows "lease_key T t k db' = lease_key T t k db" "leases T t k db' = leases T t k db" "members t k db' = members t k db"
  using assms by (simp_all add: lease_key_def leases_def members_def fun_eq_iff)

lemma lease_key_later: "lease_key T t k db \<Longrightarrow> t \<le> t' \<Longrightarrow> lease_key T t' k db"
  unfolding lease_key_def by (fastforce split: option.splits)

lemma TIME_mono: "t \<le> t' \<Longrightarrow> TIME t \<le> TIME t'"
  by (simp add: TIME_def zdiv_mono1)

lemma leases_later:
  "t \<le> t' \<Longrightarrow> leases T t' k db = (\<lambda>r. case leases T t k db r of None \<Rightarrow> None | Some s \<Rightarrow> if TIME t' < s + T then Some s else None)"
  using TIME_mono[of t t'] by (fastforce simp: leases_def fun_eq_iff split: option.splits)

lemma leases_fresh: "leases T t k db r = Some s \<Longrightarrow> TIME t < s + T"
  by (auto simp: leases_def split: option.splits if_splits)

text \<open>On a lease key the members that have not been removed are the leases and members that are over.\<close>

lemma members_leases:
  assumes "lease_key T t k db"
  shows "leases T t k db r = (case aget (members t k db) r of None \<Rightarrow> None | Some s \<Rightarrow> if TIME t < s + T then Some s else None)"
proof (cases "sets db k")
  case (Some e)
  obtain z x where e: "e = (z, x)" by force
  with Some assms obtain d where x: "x = Some d" and d: "\<And>p. p \<in> set z \<Longrightarrow> 1000 * (snd p + T) \<le> d"
    by (auto simp: lease_key_def)
  show ?thesis
  proof (cases "t < d")
    case True
    then show ?thesis using Some e x by (simp add: leases_def members_def alive_def)
  next
    case False
    then have "\<not> TIME t < s + T" if "aget z r = Some s" for s
      using that d[of "(r, s)"] map_of_SomeD[of z r s] by (auto simp: TIME_def)
    then show ?thesis using Some e x False by (auto simp: leases_def members_def alive_def split: option.split)
  qed
qed (simp add: leases_def members_def alive_def)

lemma adistinct_members: "lease_key T t k db \<Longrightarrow> adistinct (members t k db)"
  by (auto simp: lease_key_def members_def alive_def split: option.splits)

lemma lease_key_put:
  assumes "lease_key T t k db" and "adistinct z" and "set z \<subseteq> set (members t k db)"
  shows "lease_key T t k (put_members t k z db)"
    and "leases T t k (put_members t k z db) = (\<lambda>r. case aget z r of None \<Rightarrow> None | Some s \<Rightarrow> if TIME t < s + T then Some s else None)"
  using assms by (auto simp: lease_key_def put_members_def members_def leases_def fun_eq_iff alive_def split: option.splits if_splits)
    (metis snd_conv subsetD)+

lemma aget_filter_key: "aget (filter (\<lambda>p. fst p \<noteq> m) z) r = (if r = m then None else aget z r)"
  by (induction z) auto

lemma lease_prune:
  assumes "lease_key T t k db" "h \<le> TIME t - T"
  shows "lease_key T t k (ZREMRANGEBYSCORE t k h db)" "leases T t k (ZREMRANGEBYSCORE t k h db) = leases T t k db"
proof -
  let ?z = "filter (\<lambda>p. h < snd p) (members t k db)"
  have z: "adistinct ?z" "set ?z \<subseteq> set (members t k db)"
    using adistinct_filter[OF adistinct_members[OF assms(1)]] by auto
  show "lease_key T t k (ZREMRANGEBYSCORE t k h db)"
    using lease_key_put(1)[OF assms(1) z] by (simp add: ZREMRANGEBYSCORE_def)
  show "leases T t k (ZREMRANGEBYSCORE t k h db) = leases T t k db"
    using assms(2) aget_filter[OF adistinct_members[OF assms(1)], of "\<lambda>p. h < snd p"]
    by (auto simp: ZREMRANGEBYSCORE_def lease_key_put(2)[OF assms(1) z] members_leases[OF assms(1)] fun_eq_iff split: option.split)
qed

lemma lease_remove:
  assumes "lease_key T t k db"
  shows "lease_key T t k (ZREM t k m db)" "leases T t k (ZREM t k m db) = (leases T t k db)(m := None)"
proof -
  let ?z = "filter (\<lambda>p. fst p \<noteq> m) (members t k db)"
  have z: "adistinct ?z" "set ?z \<subseteq> set (members t k db)"
    using adistinct_filter[OF adistinct_members[OF assms(1)]] by auto
  show "lease_key T t k (ZREM t k m db)" using lease_key_put(1)[OF assms z] by (simp add: ZREM_def)
  show "leases T t k (ZREM t k m db) = (leases T t k db)(m := None)"
    by (auto simp: ZREM_def lease_key_put(2)[OF assms z] members_leases[OF assms] fun_eq_iff aget_filter_key)
qed

lemma lease_grant_for:
  assumes "lease_key T t k db" "0 < T" "T \<le> n"
  shows "lease_key T t k (EXPIRE t k n (ZADD t k (TIME t) m db))"
    and "leases T t k (EXPIRE t k n (ZADD t k (TIME t) m db)) = (leases T t k db)(m \<mapsto> TIME t)"
proof -
  let ?z = "aput m (TIME t) (members t k db)"
  have "?z \<noteq> []" by (cases "members t k db") auto
  then have new: "sets (EXPIRE t k n (ZADD t k (TIME t) m db)) k = Some (?z, Some (t + 1000 * n))"
    using assms(2,3) by (auto simp: EXPIRE_def ZADD_def put_members_def alive_def split: option.split)
  have now: "1000 * TIME t \<le> t" by (simp add: TIME_def)
  have old: "1000 * snd p \<le> t" if "p \<in> set (members t k db)" for p
    using assms(1) that by (auto simp: lease_key_def members_def alive_def split: option.splits if_splits)
  have "1000 * snd p \<le> t" if "p \<in> set ?z" for p
    using set_aput[OF that] old now by (cases p) auto
  then show "lease_key T t k (EXPIRE t k n (ZADD t k (TIME t) m db))"
    using new adistinct_members[OF assms(1)] assms(3) by (fastforce simp: lease_key_def adistinct_aput distrib_left)
  show "leases T t k (EXPIRE t k n (ZADD t k (TIME t) m db)) = (leases T t k db)(m \<mapsto> TIME t)"
  proof
    fix r
    have "leases T t k (EXPIRE t k n (ZADD t k (TIME t) m db)) r = (case aget ?z r of None \<Rightarrow> None | Some s \<Rightarrow> if TIME t < s + T then Some s else None)"
      using new by (simp add: leases_def)
    then show "leases T t k (EXPIRE t k n (ZADD t k (TIME t) m db)) r = ((leases T t k db)(m \<mapsto> TIME t)) r"
      using assms(2) by (simp add: members_leases[OF assms(1)] aget_aput)
  qed
qed

lemmas lease_grant = lease_grant_for[OF _ _ order_refl]

text \<open>After a pruning, the cardinality is the number of leases.\<close>

lemma lease_card:
  assumes "lease_key T t k db" "h = TIME t - T"
  shows "ZCARD t k (ZREMRANGEBYSCORE t k h db) = int (card (dom (leases T t k db)))"
    and "ZSCORE t k m (ZREMRANGEBYSCORE t k h db) = leases T t k db m"
proof -
  let ?db = "ZREMRANGEBYSCORE t k h db"
  let ?z = "filter (\<lambda>p. h < snd p) (members t k db)"
  have "members t k ?db = ?z"
    by (auto simp: members_def ZREMRANGEBYSCORE_def put_members_def alive_def split: option.splits)
  moreover have leases: "leases T t k db = aget ?z"
    using aget_filter[OF adistinct_members[OF assms(1)], of "\<lambda>p. h < snd p"] assms(2)
    by (auto simp: members_leases[OF assms(1)] fun_eq_iff split: option.split)
  moreover have "adistinct ?z" using adistinct_filter[OF adistinct_members[OF assms(1)]] .
  ultimately show "ZCARD t k ?db = int (card (dom (leases T t k db)))" "ZSCORE t k m ?db = leases T t k db m"
    by (simp_all add: ZCARD_def ZSCORE_def card_dom_aget)
qed

lemma finite_leases [simp]: "finite (dom (leases T t k db))"
proof (cases "sets db k")
  case (Some e)
  then have "dom (leases T t k db) \<subseteq> dom (aget (fst e))"
    by (auto simp: leases_def split: option.splits prod.splits if_splits)
  then show ?thesis using finite_dom_map_of finite_subset by blast
qed (simp add: leases_def dom_def)


text \<open>Writing one key leaves the leases of the others alone.\<close>

lemma lease_other [simp]:
  assumes "k' \<noteq> k"
  shows "lease_key T t k' (ZADD t0 k s m db) = lease_key T t k' db" "leases T t k' (ZADD t0 k s m db) = leases T t k' db"
    "lease_key T t k' (ZREM t0 k m db) = lease_key T t k' db" "leases T t k' (ZREM t0 k m db) = leases T t k' db"
    "lease_key T t k' (ZREMRANGEBYSCORE t0 k h db) = lease_key T t k' db" "leases T t k' (ZREMRANGEBYSCORE t0 k h db) = leases T t k' db"
    "lease_key T t k' (EXPIRE t0 k n db) = lease_key T t k' db" "leases T t k' (EXPIRE t0 k n db) = leases T t k' db"
    "lease_key T t k' (DEL k db) = lease_key T t k' db" "leases T t k' (DEL k db) = leases T t k' db"
  using assms by (simp_all add: sets_same[OF sets_other(1)] sets_same[OF sets_other(2)] sets_same[OF sets_other(3)]
      sets_same[OF sets_other(4)] sets_same[OF sets_other(5)])

lemma ZCARD_other [simp]: "k' \<noteq> k \<Longrightarrow> ZCARD t k' (ZREMRANGEBYSCORE t k h db) = ZCARD t k' db"
  by (simp add: ZCARD_def sets_same(3)[OF sets_other(3)])

lemma ZSCORE_other [simp]: "k' \<noteq> k \<Longrightarrow> ZSCORE t k' r (ZREMRANGEBYSCORE t k h db) = ZSCORE t k' r db"
  by (simp add: ZSCORE_def sets_same(3)[OF sets_other(3)])

text \<open>Without a pruning the cardinality counts members that are over as well.\<close>

lemma lease_card_le: "lease_key T t k db \<Longrightarrow> int (card (dom (leases T t k db))) \<le> ZCARD t k db"
proof -
  assume k: "lease_key T t k db"
  then have "dom (leases T t k db) \<subseteq> dom (aget (members t k db))"
    by (auto simp: members_leases split: option.splits)
  then have "card (dom (leases T t k db)) \<le> card (dom (aget (members t k db)))"
    by (intro card_mono) (auto intro: finite_dom_map_of)
  also have "\<dots> = length (members t k db)" using card_dom_aget[OF adistinct_members[OF k]] .
  finally show ?thesis by (simp add: ZCARD_def)
qed

lemma leases_cases:
  "sets db k = None \<Longrightarrow> leases T t k db = (\<lambda>_. None)"
  "sets db k = Some (z, x) \<Longrightarrow> leases T t k db = (\<lambda>r. case aget z r of None \<Rightarrow> None | Some s \<Rightarrow> if TIME t < s + T then Some s else None)"
  "lease_key T t k db \<Longrightarrow> members t k db = [] \<Longrightarrow> leases T t k db = (\<lambda>_. None)"
proof -
  show "lease_key T t k db \<Longrightarrow> members t k db = [] \<Longrightarrow> leases T t k db = (\<lambda>_. None)"
    by (rule ext) (simp add: members_leases)
qed (simp_all add: leases_def fun_eq_iff)

text \<open>Removing what is not a lease, and setting the expiry again.\<close>

lemma lease_expire:
  assumes "lease_key T t k db" "0 < T"
  shows "lease_key T t k (EXPIRE t k T db)" "leases T t k (EXPIRE t k T db) = leases T t k db"
proof -
  have e: "sets (EXPIRE t k T db) k = (if members t k db = [] then sets (EXPIRE t k T db) k else Some (members t k db, Some (t + 1000 * T)))"
    using assms(2) by (auto simp: EXPIRE_def members_def split: option.splits)
  have old: "1000 * snd p \<le> t" if "p \<in> set (members t k db)" for p
    using assms(1) that by (auto simp: lease_key_def members_def alive_def split: option.splits if_splits)
  have empty: "members t k db = [] \<Longrightarrow> sets (EXPIRE t k T db) k = None \<or> (\<exists>x. sets (EXPIRE t k T db) k = Some ([], Some x))"
    using assms(2) by (auto simp: EXPIRE_def members_def split: option.splits)
  show "lease_key T t k (EXPIRE t k T db)"
    using e empty old adistinct_members[OF assms(1)] by (cases "members t k db = []") (auto simp: lease_key_def distrib_left)
  show "leases T t k (EXPIRE t k T db) = leases T t k db"
    using e empty leases_cases(3)[OF assms(1)] by (cases "members t k db = []")
      (auto simp: leases_cases(1,2) fun_eq_iff members_leases[OF assms(1)])
qed

lemma lease_del:
  assumes "ZCARD t k db = 0" "lease_key T t k db"
  shows "lease_key T t k (DEL k db)" "leases T t k (DEL k db) = leases T t k db"
  using assms(1) leases_cases(3)[OF assms(2)] leases_cases(1)[of "DEL k db" k T t] by (auto simp: lease_key_def DEL_def ZCARD_def)

lemma EXPIRE_ZADD:
  assumes "k \<noteq> k'"
  shows "EXPIRE t k n (ZADD t k' s m db) = ZADD t k' s m (EXPIRE t k n db)"
proof -
  have "sets (EXPIRE t k n (ZADD t k' s m db)) = sets (ZADD t k' s m (EXPIRE t k n db))"
    using assms by (simp add: EXPIRE_def ZADD_def put_members_def members_def fun_upd_twist)
  moreover have "counts (EXPIRE t k n (ZADD t k' s m db)) = counts (ZADD t k' s m (EXPIRE t k n db))" by simp
  ultimately show ?thesis by (simp add: redis.equality)
qed

end
