(* ===== verification/Concurrency_Cache.thy ===== *)
theory Concurrency_Cache
  imports Redis_Store
begin

text \<open>
  The concurrency slots in Redis (repository/concurrency_cache.go): every Lua script and every
  operation of the cache, the guards and the failures of each round trip included.

  \<^item> A slot is a member of a sorted set, scored with the second in which it was taken.
  \<^item> An operation takes the moments of its round trips, in the order of the code.
  \<^item> An operation answers None where the code returns an error; log lines are left out.
\<close>

section \<open>Keys\<close>

definition accountSlotKey :: "int \<Rightarrow> string" where "accountSlotKey i = ''concurrency:account:'' @ decimal i"
definition userSlotKey :: "int \<Rightarrow> string" where "userSlotKey i = ''concurrency:user:'' @ decimal i"
definition apiKeySlotKey :: "int \<Rightarrow> string" where "apiKeySlotKey i = ''concurrency:api_key:'' @ decimal i"
definition liveAccountSlotKey :: "int \<Rightarrow> string" where "liveAccountSlotKey i = ''concurrency:live:account:'' @ decimal i"
definition liveUserSlotKey :: "int \<Rightarrow> string" where "liveUserSlotKey i = ''concurrency:live:user:'' @ decimal i"
definition liveAPIKeySlotKey :: "int \<Rightarrow> string" where "liveAPIKeySlotKey i = ''concurrency:live:api_key:'' @ decimal i"
definition openAIWSIngressLeaseKey :: "int \<Rightarrow> string" where
  "openAIWSIngressLeaseKey i = ''concurrency:openai_ws_ingress:api_key:'' @ decimal i"
definition waitQueueKey :: "int \<Rightarrow> string" where "waitQueueKey i = ''concurrency:wait:'' @ decimal i"
definition accountWaitKey :: "int \<Rightarrow> string" where "accountWaitKey i = ''wait:account:'' @ decimal i"
definition accountActiveIndexKey :: string where "accountActiveIndexKey = ''concurrency:account:active_index''"
definition userActiveIndexKey :: string where "userActiveIndexKey = ''concurrency:user:active_index''"
definition legacyWaitSweepMarkerKey :: string where
  "legacyWaitSweepMarkerKey = ''concurrency:startup:legacy_wait_sweep:v1''"

definition openAIWSIngressLeaseTTLSeconds :: int where "openAIWSIngressLeaseTTLSeconds = 60"
definition liveLeaseTTLSeconds :: int where "liveLeaseTTLSeconds = 60"
definition activeIndexCleanupBatchSize :: nat where "activeIndexCleanupBatchSize = 1000"
definition activeIndexPipelineChunkSize :: nat where "activeIndexPipelineChunkSize = 500"

section \<open>The scripts\<close>

definition acquireScript :: "string \<Rightarrow> string \<Rightarrow> int \<Rightarrow> int \<Rightarrow> string \<Rightarrow> int \<Rightarrow> redis \<Rightarrow> redis \<times> int \<times> int" where
  "acquireScript key liveKey maxConcurrency ttl requestID t db =
     (let now = TIME t;
          db = ZREMRANGEBYSCORE t key (now - ttl) db;
          db = ZREMRANGEBYSCORE t liveKey (now - 60) db;
          granted = EXPIRE t key ttl (ZADD t key now requestID db)
      in if ZSCORE t key requestID db \<noteq> None then (granted, 1, now)
         else if ZCARD t key db + ZCARD t liveKey db < maxConcurrency then (granted, 1, now)
         else (db, 0, now))"

definition getCountScript :: "string \<Rightarrow> string \<Rightarrow> int \<Rightarrow> int \<Rightarrow> redis \<Rightarrow> redis \<times> int" where
  "getCountScript key liveKey ttl t db =
     (let now = TIME t;
          db = ZREMRANGEBYSCORE t key (now - ttl) db;
          db = ZREMRANGEBYSCORE t liveKey (now - 60) db
      in (db, ZCARD t key db + ZCARD t liveKey db))"

definition acquireLiveLeaseScript :: "string \<Rightarrow> string \<Rightarrow> string \<Rightarrow> string \<Rightarrow> string \<Rightarrow> int \<Rightarrow> int \<Rightarrow> int \<Rightarrow> string \<Rightarrow> int
    \<Rightarrow> int \<Rightarrow> redis \<Rightarrow> redis \<times> int" where
  "acquireLiveLeaseScript accountRegular accountLive userRegular userLive apiLive accountMax userMax ttl leaseID replacing t db =
     (let now = TIME t;
          db = ZREMRANGEBYSCORE t accountLive (now - ttl) db;
          db = ZREMRANGEBYSCORE t userLive (now - ttl) db;
          db = ZREMRANGEBYSCORE t apiLive (now - ttl) db
      in if ZSCORE t accountLive leaseID db \<noteq> None then (db, 1)
         else (let accountCount = ZCARD t accountRegular db + ZCARD t accountLive db;
                   userCount = ZCARD t userRegular db + ZCARD t userLive db;
                   allowance = (if replacing = 1 then 1 else 0)
               in if 0 < accountMax \<and> accountMax + allowance \<le> accountCount then (db, 0)
                  else if 0 < userMax \<and> userMax + allowance \<le> userCount then (db, 0)
                  else (let db = ZADD t apiLive now leaseID (ZADD t userLive now leaseID (ZADD t accountLive now leaseID db))
                        in (EXPIRE t apiLive ttl (EXPIRE t userLive ttl (EXPIRE t accountLive ttl db)), 1))))"

text \<open>The first loop of the refresh script: None when the lease is missing from a key.\<close>

fun refresh_check :: "int \<Rightarrow> int \<Rightarrow> string \<Rightarrow> string list \<Rightarrow> redis \<Rightarrow> redis \<times> bool" where
  "refresh_check t expireBefore leaseID [] db = (db, True)"
| "refresh_check t expireBefore leaseID (key # ks) db =
     (let db = ZREMRANGEBYSCORE t key expireBefore db
      in if ZSCORE t key leaseID db = None then (db, False) else refresh_check t expireBefore leaseID ks db)"

definition refreshLiveLeaseScript :: "string list \<Rightarrow> int \<Rightarrow> string \<Rightarrow> int \<Rightarrow> redis \<Rightarrow> redis \<times> int" where
  "refreshLiveLeaseScript ks ttl leaseID t db =
     (let now = TIME t; (db, present) = refresh_check t (now - ttl) leaseID ks db
      in if \<not> present then (db, 0)
         else (fold (\<lambda>key db. EXPIRE t key ttl (ZADD t key now leaseID db)) ks db, 1))"

definition trackSlotScript :: "string \<Rightarrow> int \<Rightarrow> string \<Rightarrow> int \<Rightarrow> redis \<Rightarrow> redis \<times> int" where
  "trackSlotScript key ttl requestID t db =
     (let now = TIME t
      in (EXPIRE t key ttl (ZADD t key now requestID (ZREMRANGEBYSCORE t key (now - ttl) db)), 1))"

definition acquireOpenAIWSIngressLeaseScript :: "string \<Rightarrow> int \<Rightarrow> int \<Rightarrow> string \<Rightarrow> int \<Rightarrow> redis \<Rightarrow> redis \<times> int" where
  "acquireOpenAIWSIngressLeaseScript key maxConnections ttl leaseID t db =
     (let now = TIME t;
          db = ZREMRANGEBYSCORE t key (now - ttl) db;
          granted = EXPIRE t key ttl (ZADD t key now leaseID db)
      in if ZSCORE t key leaseID db \<noteq> None then (granted, 1)
         else if ZCARD t key db < maxConnections then (granted, 1)
         else (db, 0))"

definition refreshOpenAIWSIngressLeaseScript :: "string \<Rightarrow> int \<Rightarrow> string \<Rightarrow> int \<Rightarrow> redis \<Rightarrow> redis \<times> int" where
  "refreshOpenAIWSIngressLeaseScript key ttl leaseID t db =
     (let now = TIME t; db = ZREMRANGEBYSCORE t key (now - ttl) db
      in if ZSCORE t key leaseID db = None then (db, 0)
         else (EXPIRE t key ttl (ZADD t key now leaseID db), 1))"

text \<open>The scripts for the wait queues of users and accounts have the same text.\<close>

definition incrementWaitScript :: "string \<Rightarrow> int \<Rightarrow> int \<Rightarrow> int \<Rightarrow> redis \<Rightarrow> redis \<times> int \<times> int" where
  "incrementWaitScript key maxWait ttl t db =
     (let current = (case GET t key db of None \<Rightarrow> 0 | Some n \<Rightarrow> n); now = TIME t
      in if maxWait \<le> current then (db, 0, now)
         else (EXPIRE_counter t key ttl (INCRBY t key 1 db), 1, now))"

definition decrementWaitScript :: "string \<Rightarrow> int \<Rightarrow> redis \<Rightarrow> redis \<times> int" where
  "decrementWaitScript key t db =
     ((case GET t key db of None \<Rightarrow> db | Some n \<Rightarrow> if 0 < n then INCRBY t key (- 1) db else db), 1)"

definition cleanupExpiredSlotsScript :: "string \<Rightarrow> int \<Rightarrow> int \<Rightarrow> redis \<Rightarrow> redis \<times> int" where
  "cleanupExpiredSlotsScript key ttl t db =
     (let db = ZREMRANGEBYSCORE t key (TIME t - ttl) db
      in (if ZCARD t key db = 0 then DEL key db else EXPIRE t key ttl db, 1))"

definition startupCleanupSlotScript :: "string \<Rightarrow> string \<Rightarrow> int \<Rightarrow> int \<Rightarrow> redis \<Rightarrow> redis \<times> int \<times> int" where
  "startupCleanupSlotScript key activePrefix slotTTL t db =
     (let strangers = filter (\<lambda>m. \<not> has_prefix m activePrefix) (ZRANGE t key db);
          db = fold (\<lambda>m. ZREM t key m) strangers db;
          remaining = ZCARD t key db
      in (if remaining = 0 then DEL key db else EXPIRE t key slotTTL db, int (length strangers), remaining))"

section \<open>The cache and its active indexes\<close>

record concurrencyCache =
  slotTTLSeconds :: int
  waitQueueTTLSeconds :: int

definition NewConcurrencyCache :: "int \<Rightarrow> int \<Rightarrow> concurrencyCache" where
  "NewConcurrencyCache slotTTLMinutes waitTTL =
     (let minutes = (if slotTTLMinutes \<le> 0 then 15 else slotTTLMinutes)
      in \<lparr>slotTTLSeconds = minutes * 60, waitQueueTTLSeconds = (if waitTTL \<le> 0 then minutes * 60 else waitTTL)\<rparr>)"

record slotIndexSpec =
  indexKey :: string
  slotKey :: "int \<Rightarrow> string"
  waitKey :: "int \<Rightarrow> string"

definition accountSlotIndex :: slotIndexSpec where
  "accountSlotIndex = \<lparr>indexKey = accountActiveIndexKey, slotKey = accountSlotKey, waitKey = accountWaitKey\<rparr>"

definition userSlotIndex :: slotIndexSpec where
  "userSlotIndex = \<lparr>indexKey = userActiveIndexKey, slotKey = userSlotKey, waitKey = waitQueueKey\<rparr>"

definition touchActiveIndexAt :: "string \<Rightarrow> int \<Rightarrow> int \<Rightarrow> moment \<Rightarrow> redis \<Rightarrow> redis" where
  "touchActiveIndexAt ik i expireAt m db =
     (if i \<le> 0 \<or> expireAt \<le> 0 then db else fst (at m (quietly (\<lambda>t. ZADD t ik expireAt (decimal i))) db))"

definition removeActiveIndexMembers :: "string \<Rightarrow> string list \<Rightarrow> moment \<Rightarrow> redis \<Rightarrow> redis" where
  "removeActiveIndexMembers ik ms m db =
     (if ms = [] then db else fst (at m (quietly (\<lambda>t. fold (ZREM t ik) ms)) db))"

definition activeIndexTTL :: "concurrencyCache \<Rightarrow> int \<Rightarrow> int \<Rightarrow> int" where
  "activeIndexTTL c slotCount waitCount =
     (let ttl = (if 0 < slotCount then slotTTLSeconds c else 0)
      in if 0 < waitCount \<and> ttl < waitQueueTTLSeconds c then waitQueueTTLSeconds c else ttl)"

text \<open>The load of one id: its slots that have not expired, and its waiters.\<close>

definition read_load :: "int \<Rightarrow> string \<Rightarrow> string \<Rightarrow> int \<Rightarrow> redis \<Rightarrow> redis \<times> int \<times> int" where
  "read_load cutoff sk wk t db =
     (let db = ZREMRANGEBYSCORE t sk cutoff db
      in (db, ZCARD t sk db, (case GET t wk db of None \<Rightarrow> 0 | Some n \<Rightarrow> if 0 < n then n else 0)))"

definition readActiveLoadForKey :: "concurrencyCache \<Rightarrow> string \<Rightarrow> string \<Rightarrow> int \<Rightarrow> moment \<Rightarrow> redis \<Rightarrow> redis \<times> (int \<times> int) option" where
  "readActiveLoadForKey c sk wk now m db = at m (read_load (now - slotTTLSeconds c) sk wk) db"

text \<open>What is written to the index for a load that was read.\<close>

definition write_index :: "concurrencyCache \<Rightarrow> string \<Rightarrow> int \<Rightarrow> int \<Rightarrow> int \<times> int \<Rightarrow> moment \<Rightarrow> redis \<Rightarrow> redis" where
  "write_index c ik i now load m db =
     (let (slotCount, waitCount) = load
      in if slotCount = 0 \<and> waitCount \<le> 0 then fst (at m (quietly (\<lambda>t. ZREM t ik (decimal i))) db)
         else (let ttl = activeIndexTTL c slotCount waitCount
               in if ttl \<le> 0 then db else touchActiveIndexAt ik i (now + ttl) m db))"

definition refreshActiveIndex :: "concurrencyCache \<Rightarrow> string \<Rightarrow> int \<Rightarrow> string \<Rightarrow> string \<Rightarrow> moment \<Rightarrow> moment \<Rightarrow> moment \<Rightarrow> redis \<Rightarrow> redis" where
  "refreshActiveIndex c ik i sk wk m1 m2 m3 db =
     (if i \<le> 0 then db
      else (case at m1 (\<lambda>t db. (db, TIME t)) db of
              (db, None) \<Rightarrow> db
            | (db, Some now) \<Rightarrow>
                (case readActiveLoadForKey c sk wk now m2 db of
                   (db, None) \<Rightarrow> db
                 | (db, Some load) \<Rightarrow> write_index c ik i now load m3 db)))"

definition refreshAccountActiveIndex :: "concurrencyCache \<Rightarrow> int \<Rightarrow> moment \<Rightarrow> moment \<Rightarrow> moment \<Rightarrow> redis \<Rightarrow> redis" where
  "refreshAccountActiveIndex c i = refreshActiveIndex c accountActiveIndexKey i (accountSlotKey i) (accountWaitKey i)"

definition refreshUserActiveIndex :: "concurrencyCache \<Rightarrow> int \<Rightarrow> moment \<Rightarrow> moment \<Rightarrow> moment \<Rightarrow> redis \<Rightarrow> redis" where
  "refreshUserActiveIndex c i = refreshActiveIndex c userActiveIndexKey i (userSlotKey i) (waitQueueKey i)"

section \<open>Slots of accounts and users\<close>

text \<open>The parts that the operations for accounts and for users share.\<close>

definition acquire_slot :: "concurrencyCache \<Rightarrow> string \<Rightarrow> string \<Rightarrow> string \<Rightarrow> int \<Rightarrow> int \<Rightarrow> string \<Rightarrow> moment \<Rightarrow> moment
    \<Rightarrow> redis \<Rightarrow> redis \<times> bool option" where
  "acquire_slot c ik key liveKey i maxConcurrency requestID m1 m2 db =
     (case at m1 (acquireScript key liveKey maxConcurrency (slotTTLSeconds c) requestID) db of
        (db, None) \<Rightarrow> (db, None)
      | (db, Some (result, now)) \<Rightarrow>
          (if result = 1 then touchActiveIndexAt ik i (now + slotTTLSeconds c) m2 db else db, Some (result = 1)))"

definition AcquireAccountSlot :: "concurrencyCache \<Rightarrow> int \<Rightarrow> int \<Rightarrow> string \<Rightarrow> moment \<Rightarrow> moment \<Rightarrow> redis \<Rightarrow> redis \<times> bool option" where
  "AcquireAccountSlot c i = acquire_slot c accountActiveIndexKey (accountSlotKey i) (liveAccountSlotKey i) i"

definition AcquireUserSlot :: "concurrencyCache \<Rightarrow> int \<Rightarrow> int \<Rightarrow> string \<Rightarrow> moment \<Rightarrow> moment \<Rightarrow> redis \<Rightarrow> redis \<times> bool option" where
  "AcquireUserSlot c i = acquire_slot c userActiveIndexKey (userSlotKey i) (liveUserSlotKey i) i"

definition release_slot :: "(moment \<Rightarrow> moment \<Rightarrow> moment \<Rightarrow> redis \<Rightarrow> redis) \<Rightarrow> string \<Rightarrow> string \<Rightarrow> moment \<Rightarrow> moment \<Rightarrow> moment \<Rightarrow> moment
    \<Rightarrow> redis \<Rightarrow> redis \<times> unit option" where
  "release_slot refresh key requestID m1 m2 m3 m4 db =
     (case at m1 (quietly (\<lambda>t. ZREM t key requestID)) db of
        (db, None) \<Rightarrow> (db, None)
      | (db, Some _) \<Rightarrow> (refresh m2 m3 m4 db, Some ()))"

definition ReleaseAccountSlot :: "concurrencyCache \<Rightarrow> int \<Rightarrow> string \<Rightarrow> moment \<Rightarrow> moment \<Rightarrow> moment \<Rightarrow> moment \<Rightarrow> redis \<Rightarrow> redis \<times> unit option" where
  "ReleaseAccountSlot c i = release_slot (refreshAccountActiveIndex c i) (accountSlotKey i)"

definition ReleaseUserSlot :: "concurrencyCache \<Rightarrow> int \<Rightarrow> string \<Rightarrow> moment \<Rightarrow> moment \<Rightarrow> moment \<Rightarrow> moment \<Rightarrow> redis \<Rightarrow> redis \<times> unit option" where
  "ReleaseUserSlot c i = release_slot (refreshUserActiveIndex c i) (userSlotKey i)"

definition GetAccountConcurrency :: "concurrencyCache \<Rightarrow> int \<Rightarrow> moment \<Rightarrow> redis \<Rightarrow> redis \<times> int option" where
  "GetAccountConcurrency c i m = at m (getCountScript (accountSlotKey i) (liveAccountSlotKey i) (slotTTLSeconds c))"

definition GetUserConcurrency :: "concurrencyCache \<Rightarrow> int \<Rightarrow> moment \<Rightarrow> redis \<Rightarrow> redis \<times> int option" where
  "GetUserConcurrency c i m = at m (getCountScript (userSlotKey i) (liveUserSlotKey i) (slotTTLSeconds c))"

text \<open>A batch of counts in one pipeline, after the time was read.\<close>

fun count_all :: "(int \<Rightarrow> string) \<Rightarrow> (int \<Rightarrow> string) \<Rightarrow> int \<Rightarrow> int \<Rightarrow> int list \<Rightarrow> int \<Rightarrow> redis \<Rightarrow> redis \<times> (int \<times> int) list" where
  "count_all sk lk cutoff now [] t db = (db, [])"
| "count_all sk lk cutoff now (i # is) t db =
     (let db = ZREMRANGEBYSCORE t (sk i) cutoff db;
          db = ZREMRANGEBYSCORE t (lk i) (now - liveLeaseTTLSeconds) db;
          n = ZCARD t (sk i) db + ZCARD t (lk i) db;
          (db, rest) = count_all sk lk cutoff now is t db
      in (db, (i, n) # rest))"

definition concurrency_batch :: "concurrencyCache \<Rightarrow> (int \<Rightarrow> string) \<Rightarrow> (int \<Rightarrow> string) \<Rightarrow> int list \<Rightarrow> moment \<Rightarrow> moment
    \<Rightarrow> redis \<Rightarrow> redis \<times> (int \<times> int) list option" where
  "concurrency_batch c sk lk is m1 m2 db =
     (if is = [] then (db, Some [])
      else (case at m1 (\<lambda>t db. (db, TIME t)) db of
              (db, None) \<Rightarrow> (db, None)
            | (db, Some now) \<Rightarrow> at m2 (count_all sk lk (now - slotTTLSeconds c) now is) db))"

definition GetAccountConcurrencyBatch :: "concurrencyCache \<Rightarrow> int list \<Rightarrow> moment \<Rightarrow> moment \<Rightarrow> redis \<Rightarrow> redis \<times> (int \<times> int) list option" where
  "GetAccountConcurrencyBatch c = concurrency_batch c accountSlotKey liveAccountSlotKey"

definition GetAPIKeyConcurrencyBatch :: "concurrencyCache \<Rightarrow> int list \<Rightarrow> moment \<Rightarrow> moment \<Rightarrow> redis \<Rightarrow> redis \<times> (int \<times> int) list option" where
  "GetAPIKeyConcurrencyBatch c = concurrency_batch c apiKeySlotKey liveAPIKeySlotKey"

definition TrackAPIKeySlot :: "concurrencyCache \<Rightarrow> int \<Rightarrow> string \<Rightarrow> moment \<Rightarrow> redis \<Rightarrow> redis \<times> unit option" where
  "TrackAPIKeySlot c i requestID m db =
     (let (db, r) = at m (trackSlotScript (apiKeySlotKey i) (slotTTLSeconds c) requestID) db in (db, map_option (\<lambda>_. ()) r))"

definition ReleaseAPIKeySlot :: "int \<Rightarrow> string \<Rightarrow> moment \<Rightarrow> redis \<Rightarrow> redis \<times> unit option" where
  "ReleaseAPIKeySlot i requestID m = at m (quietly (\<lambda>t. ZREM t (apiKeySlotKey i) requestID))"


section \<open>Leases of live sessions\<close>

definition AcquireOpenAIWSIngressLease :: "int \<Rightarrow> int \<Rightarrow> string \<Rightarrow> moment \<Rightarrow> redis \<Rightarrow> redis \<times> bool option" where
  "AcquireOpenAIWSIngressLease i maxConnections leaseID m db =
     (if i \<le> 0 \<or> maxConnections \<le> 0 \<or> leaseID = [] then (db, Some False)
      else (let (db, r) = at m (acquireOpenAIWSIngressLeaseScript (openAIWSIngressLeaseKey i) maxConnections
                                  openAIWSIngressLeaseTTLSeconds leaseID) db
            in (db, map_option (\<lambda>n. n = 1) r)))"

definition RefreshOpenAIWSIngressLease :: "int \<Rightarrow> string \<Rightarrow> moment \<Rightarrow> redis \<Rightarrow> redis \<times> bool option" where
  "RefreshOpenAIWSIngressLease i leaseID m db =
     (if i \<le> 0 \<or> leaseID = [] then (db, Some False)
      else (let (db, r) = at m (refreshOpenAIWSIngressLeaseScript (openAIWSIngressLeaseKey i)
                                  openAIWSIngressLeaseTTLSeconds leaseID) db
            in (db, map_option (\<lambda>n. n = 1) r)))"

definition ReleaseOpenAIWSIngressLease :: "int \<Rightarrow> string \<Rightarrow> moment \<Rightarrow> redis \<Rightarrow> redis \<times> unit option" where
  "ReleaseOpenAIWSIngressLease i leaseID m db =
     (if i \<le> 0 \<or> leaseID = [] then (db, Some ())
      else at m (quietly (\<lambda>t. ZREM t (openAIWSIngressLeaseKey i) leaseID)) db)"

definition AcquireLiveLease :: "int \<Rightarrow> int \<Rightarrow> int \<Rightarrow> int \<Rightarrow> int \<Rightarrow> string \<Rightarrow> bool \<Rightarrow> moment \<Rightarrow> redis \<Rightarrow> redis \<times> bool option" where
  "AcquireLiveLease accountID accountMax userID userMax apiKeyID leaseID replacingRegularSlots m db =
     (if accountID \<le> 0 \<or> userID \<le> 0 \<or> apiKeyID \<le> 0 \<or> leaseID = [] then (db, Some False)
      else (let replacing = (if replacingRegularSlots then 1 else 0);
                (db, r) = at m (acquireLiveLeaseScript (accountSlotKey accountID) (liveAccountSlotKey accountID)
                  (userSlotKey userID) (liveUserSlotKey userID) (liveAPIKeySlotKey apiKeyID)
                  accountMax userMax liveLeaseTTLSeconds leaseID replacing) db
            in (db, map_option (\<lambda>n. n = 1) r)))"

definition RefreshLiveLease :: "int \<Rightarrow> int \<Rightarrow> int \<Rightarrow> string \<Rightarrow> moment \<Rightarrow> redis \<Rightarrow> redis \<times> bool option" where
  "RefreshLiveLease accountID userID apiKeyID leaseID m db =
     (if leaseID = [] then (db, Some False)
      else (let (db, r) = at m (refreshLiveLeaseScript
                  [liveAccountSlotKey accountID, liveUserSlotKey userID, liveAPIKeySlotKey apiKeyID] liveLeaseTTLSeconds leaseID) db
            in (db, map_option (\<lambda>n. n = 1) r)))"

definition ReleaseLiveLease :: "int \<Rightarrow> int \<Rightarrow> int \<Rightarrow> string \<Rightarrow> moment \<Rightarrow> redis \<Rightarrow> redis \<times> unit option" where
  "ReleaseLiveLease accountID userID apiKeyID leaseID m db =
     (if leaseID = [] then (db, Some ())
      else at m (quietly (\<lambda>t db. ZREM t (liveAPIKeySlotKey apiKeyID) leaseID
             (ZREM t (liveUserSlotKey userID) leaseID (ZREM t (liveAccountSlotKey accountID) leaseID db)))) db)"

section \<open>Wait queues\<close>

definition increment_wait :: "concurrencyCache \<Rightarrow> string \<Rightarrow> string \<Rightarrow> int \<Rightarrow> int \<Rightarrow> moment \<Rightarrow> moment \<Rightarrow> redis \<Rightarrow> redis \<times> bool option" where
  "increment_wait c ik key i maxWait m1 m2 db =
     (case at m1 (incrementWaitScript key maxWait (waitQueueTTLSeconds c)) db of
        (db, None) \<Rightarrow> (db, None)
      | (db, Some (result, now)) \<Rightarrow>
          (if result = 1 then touchActiveIndexAt ik i (now + waitQueueTTLSeconds c) m2 db else db, Some (result = 1)))"

definition IncrementWaitCount :: "concurrencyCache \<Rightarrow> int \<Rightarrow> int \<Rightarrow> moment \<Rightarrow> moment \<Rightarrow> redis \<Rightarrow> redis \<times> bool option" where
  "IncrementWaitCount c i = increment_wait c userActiveIndexKey (waitQueueKey i) i"

definition IncrementAccountWaitCount :: "concurrencyCache \<Rightarrow> int \<Rightarrow> int \<Rightarrow> moment \<Rightarrow> moment \<Rightarrow> redis \<Rightarrow> redis \<times> bool option" where
  "IncrementAccountWaitCount c i = increment_wait c accountActiveIndexKey (accountWaitKey i) i"

definition decrement_wait :: "(moment \<Rightarrow> moment \<Rightarrow> moment \<Rightarrow> redis \<Rightarrow> redis) \<Rightarrow> string \<Rightarrow> moment \<Rightarrow> moment \<Rightarrow> moment \<Rightarrow> moment
    \<Rightarrow> redis \<Rightarrow> redis \<times> unit option" where
  "decrement_wait refresh key m1 m2 m3 m4 db =
     (case at m1 (decrementWaitScript key) db of
        (db, None) \<Rightarrow> (db, None)
      | (db, Some _) \<Rightarrow> (refresh m2 m3 m4 db, Some ()))"

definition DecrementWaitCount :: "concurrencyCache \<Rightarrow> int \<Rightarrow> moment \<Rightarrow> moment \<Rightarrow> moment \<Rightarrow> moment \<Rightarrow> redis \<Rightarrow> redis \<times> unit option" where
  "DecrementWaitCount c i = decrement_wait (refreshUserActiveIndex c i) (waitQueueKey i)"

definition DecrementAccountWaitCount :: "concurrencyCache \<Rightarrow> int \<Rightarrow> moment \<Rightarrow> moment \<Rightarrow> moment \<Rightarrow> moment \<Rightarrow> redis \<Rightarrow> redis \<times> unit option" where
  "DecrementAccountWaitCount c i = decrement_wait (refreshAccountActiveIndex c i) (accountWaitKey i)"

definition GetAccountWaitingCount :: "int \<Rightarrow> moment \<Rightarrow> redis \<Rightarrow> redis \<times> int option" where
  "GetAccountWaitingCount i m =
     at m (\<lambda>t db. (db, case GET t (accountWaitKey i) db of None \<Rightarrow> 0 | Some n \<Rightarrow> n))"

section \<open>Load of accounts and users\<close>

record AccountWithConcurrency =
  wc_id :: int
  wc_max :: int

record AccountLoadInfo =
  li_id :: int
  li_current :: int
  li_waiting :: int
  li_rate :: int

definition load_info :: "AccountWithConcurrency \<Rightarrow> int \<Rightarrow> int \<Rightarrow> AccountLoadInfo" where
  "load_info a current waiting = \<lparr>li_id = wc_id a, li_current = current, li_waiting = waiting,
     li_rate = (if 0 < wc_max a then (current + waiting) * 100 div wc_max a else 0)\<rparr>"

fun load_all :: "slotIndexSpec \<Rightarrow> (int \<Rightarrow> string) \<Rightarrow> int \<Rightarrow> int \<Rightarrow> AccountWithConcurrency list \<Rightarrow> int \<Rightarrow> redis
    \<Rightarrow> redis \<times> (int \<times> AccountLoadInfo) list" where
  "load_all spec lk cutoff now [] t db = (db, [])"
| "load_all spec lk cutoff now (a # as) t db =
     (let i = wc_id a;
          db = ZREMRANGEBYSCORE t (slotKey spec i) cutoff db;
          db = ZREMRANGEBYSCORE t (lk i) (now - liveLeaseTTLSeconds) db;
          current = ZCARD t (slotKey spec i) db + ZCARD t (lk i) db;
          waiting = (case GET t (waitKey spec i) db of None \<Rightarrow> 0 | Some n \<Rightarrow> n);
          (db, rest) = load_all spec lk cutoff now as t db
      in (db, (i, load_info a current waiting) # rest))"

definition load_batch :: "concurrencyCache \<Rightarrow> slotIndexSpec \<Rightarrow> (int \<Rightarrow> string) \<Rightarrow> AccountWithConcurrency list \<Rightarrow> moment \<Rightarrow> moment
    \<Rightarrow> redis \<Rightarrow> redis \<times> (int \<times> AccountLoadInfo) list option" where
  "load_batch c spec lk as m1 m2 db =
     (if as = [] then (db, Some [])
      else (case at m1 (\<lambda>t db. (db, TIME t)) db of
              (db, None) \<Rightarrow> (db, None)
            | (db, Some now) \<Rightarrow> at m2 (load_all spec lk (now - slotTTLSeconds c) now as) db))"

definition GetAccountsLoadBatch :: "concurrencyCache \<Rightarrow> AccountWithConcurrency list \<Rightarrow> moment \<Rightarrow> moment \<Rightarrow> redis
    \<Rightarrow> redis \<times> (int \<times> AccountLoadInfo) list option" where
  "GetAccountsLoadBatch c = load_batch c accountSlotIndex liveAccountSlotKey"

definition GetUsersLoadBatch :: "concurrencyCache \<Rightarrow> AccountWithConcurrency list \<Rightarrow> moment \<Rightarrow> moment \<Rightarrow> redis
    \<Rightarrow> redis \<times> (int \<times> AccountLoadInfo) list option" where
  "GetUsersLoadBatch c = load_batch c userSlotIndex liveUserSlotKey"

section \<open>Cleaning up\<close>

definition CleanupExpiredAccountSlots :: "concurrencyCache \<Rightarrow> int \<Rightarrow> moment \<Rightarrow> moment \<Rightarrow> moment \<Rightarrow> moment \<Rightarrow> redis \<Rightarrow> redis \<times> unit option" where
  "CleanupExpiredAccountSlots c i m1 m2 m3 m4 db =
     (case at m1 (cleanupExpiredSlotsScript (accountSlotKey i) (slotTTLSeconds c)) db of
        (db, None) \<Rightarrow> (db, None)
      | (db, Some _) \<Rightarrow> (refreshAccountActiveIndex c i m2 m3 m4 db, Some ()))"

text \<open>The members of an index that are ids, and the others.\<close>

definition index_id :: "string \<Rightarrow> int option" where
  "index_id m = (case parse_int64 m of None \<Rightarrow> None | Some i \<Rightarrow> if i \<le> 0 then None else Some i)"

fun load_chunk :: "slotIndexSpec \<Rightarrow> int \<Rightarrow> string list \<Rightarrow> int \<Rightarrow> redis \<Rightarrow> redis \<times> (string \<times> int \<times> int) list" where
  "load_chunk spec cutoff [] t db = (db, [])"
| "load_chunk spec cutoff (m # ms) t db =
     (let i = the (index_id m);
          (db, load) = read_load cutoff (slotKey spec i) (waitKey spec i) t db;
          (db, rest) = load_chunk spec cutoff ms t db
      in (db, (m, load) # rest))"

text \<open>The loads of all candidates, one pipeline for each chunk; the \<open>n\<close>th pipeline runs at \<open>M n\<close>.\<close>

function read_chunks :: "slotIndexSpec \<Rightarrow> int \<Rightarrow> (nat \<Rightarrow> moment) \<Rightarrow> nat \<Rightarrow> string list \<Rightarrow> redis
    \<Rightarrow> redis \<times> (string \<times> int \<times> int) list option" where
  "read_chunks spec cutoff M n ms db =
     (if ms = [] then (db, Some [])
      else (case at (M n) (load_chunk spec cutoff (take activeIndexPipelineChunkSize ms)) db of
              (db, None) \<Rightarrow> (db, None)
            | (db, Some loads) \<Rightarrow>
                (case read_chunks spec cutoff M (n + 1) (drop activeIndexPipelineChunkSize ms) db of
                   (db, None) \<Rightarrow> (db, None)
                 | (db, Some rest) \<Rightarrow> (db, Some (loads @ rest)))))"
  by pat_completeness auto
termination
  by (relation "measure (\<lambda>(spec, cutoff, M, n, ms, db). length ms)") (auto simp: activeIndexPipelineChunkSize_def)

declare read_chunks.simps [simp del]

definition readIndexLoads :: "concurrencyCache \<Rightarrow> slotIndexSpec \<Rightarrow> string list \<Rightarrow> int \<Rightarrow> (nat \<Rightarrow> moment) \<Rightarrow> redis
    \<Rightarrow> redis \<times> ((string \<times> int \<times> int) list \<times> string list) option" where
  "readIndexLoads c spec ms now M db =
     (let (db, r) = read_chunks spec (now - slotTTLSeconds c) M 0 (filter (\<lambda>m. index_id m \<noteq> None) ms) db
      in (db, map_option (\<lambda>loads. (loads, filter (\<lambda>m. index_id m = None) ms)) r))"

definition add_all :: "int \<Rightarrow> string \<Rightarrow> (string \<times> int) list \<Rightarrow> redis \<Rightarrow> redis" where
  "add_all t ik ps db = fold (\<lambda>(m, score). ZADD t ik score m) ps db"

text \<open>The end of both clean-ups: the scores of members still in use, then the members to remove.\<close>

definition write_back :: "string \<Rightarrow> (string \<times> int) list \<Rightarrow> string list \<Rightarrow> moment \<Rightarrow> moment \<Rightarrow> redis \<Rightarrow> redis" where
  "write_back ik refreshed stale m1 m2 db =
     removeActiveIndexMembers ik stale m2
       (if refreshed = [] then db else fst (at m1 (quietly (\<lambda>t. add_all t ik refreshed)) db))"

text \<open>
  The round trips are: the time, the index, the two that write the index back, and then the
  pipelines of the chunks.
\<close>

definition reconcileExpiredIndexCandidates :: "concurrencyCache \<Rightarrow> slotIndexSpec \<Rightarrow> (nat \<Rightarrow> moment) \<Rightarrow> redis \<Rightarrow> redis \<times> unit option" where
  "reconcileExpiredIndexCandidates c spec M db =
     (case at (M 0) (\<lambda>t db. (db, TIME t)) db of
        (db, None) \<Rightarrow> (db, None)
      | (db, Some now) \<Rightarrow>
          (case at (M 1) (\<lambda>t db. (db, ZRANGEBYSCORE t (indexKey spec) now activeIndexCleanupBatchSize db)) db of
             (db, None) \<Rightarrow> (db, None)
           | (db, Some ms) \<Rightarrow>
               (case readIndexLoads c spec ms now (\<lambda>n. M (n + 4)) db of
                  (db, None) \<Rightarrow> (db, None)
                | (db, Some (loads, strange)) \<Rightarrow>
                    let idle = (\<lambda>(m, s, w). s = 0 \<and> w \<le> 0);
                        refreshed = map (\<lambda>(m, s, w). (m, now + activeIndexTTL c s w)) (filter (\<lambda>l. \<not> idle l) loads);
                        stale = strange @ map fst (filter idle loads)
                    in (write_back (indexKey spec) refreshed stale (M 2) (M 3) db, Some ()))))"

definition CleanupExpiredAccountSlotKeys :: "concurrencyCache \<Rightarrow> (nat \<Rightarrow> moment) \<Rightarrow> (nat \<Rightarrow> moment) \<Rightarrow> redis \<Rightarrow> redis \<times> unit option" where
  "CleanupExpiredAccountSlotKeys c M1 M2 db =
     (case reconcileExpiredIndexCandidates c accountSlotIndex M1 db of
        (db, None) \<Rightarrow> (db, None)
      | (db, Some _) \<Rightarrow> reconcileExpiredIndexCandidates c userSlotIndex M2 db)"

definition sweepLegacyWaitKeysOnce :: "moment \<Rightarrow> moment \<Rightarrow> moment \<Rightarrow> moment \<Rightarrow> redis \<Rightarrow> redis \<times> unit option" where
  "sweepLegacyWaitKeysOnce m1 m2 m3 m4 db =
     (case at m1 (\<lambda>t db. (db, GET t legacyWaitSweepMarkerKey db \<noteq> None)) db of
        (db, None) \<Rightarrow> (db, None)
      | (db, Some True) \<Rightarrow> (db, Some ())
      | (db, Some False) \<Rightarrow>
          (case at m2 (quietly (\<lambda>t. DEL_prefix ''wait:account:'')) db of
             (db, None) \<Rightarrow> (db, None)
           | (db, Some _) \<Rightarrow>
               (case at m3 (quietly (\<lambda>t. DEL_prefix ''concurrency:wait:'')) db of
                  (db, None) \<Rightarrow> (db, None)
                | (db, Some _) \<Rightarrow> at m4 (quietly (\<lambda>t. SET legacyWaitSweepMarkerKey 1)) db)))"

text \<open>
  The loop over the members of an index: the members still in use and the stale ones, or None
  after the first failure. The \<open>n\<close>th member uses the moments \<open>M (2 * n)\<close> and \<open>M (2 * n + 1)\<close>.
\<close>

fun startup_members :: "concurrencyCache \<Rightarrow> slotIndexSpec \<Rightarrow> string \<Rightarrow> (nat \<Rightarrow> moment) \<Rightarrow> nat \<Rightarrow> string list \<Rightarrow> redis
    \<Rightarrow> redis \<times> (string list \<times> string list) option" where
  "startup_members c spec activePrefix M n [] db = (db, Some ([], []))"
| "startup_members c spec activePrefix M n (m # ms) db =
     (case index_id m of
        None \<Rightarrow>
          let (db, r) = startup_members c spec activePrefix M (n + 1) ms db
          in (db, map_option (\<lambda>(used, stale). (used, m # stale)) r)
      | Some i \<Rightarrow>
          (case at (M (2 * n)) (startupCleanupSlotScript (slotKey spec i) activePrefix (slotTTLSeconds c)) db of
             (db, None) \<Rightarrow> (db, None)
           | (db, Some (_, remaining)) \<Rightarrow>
               (case at (M (2 * n + 1)) (quietly (\<lambda>t. DEL (waitKey spec i))) db of
                  (db, None) \<Rightarrow> (db, None)
                | (db, Some _) \<Rightarrow>
                    let (db, r) = startup_members c spec activePrefix M (n + 1) ms db
                    in (db, map_option (\<lambda>(used, stale). if 0 < remaining then (m # used, stale) else (used, m # stale)) r))))"

definition cleanupStaleProcessSlotsForIndex :: "concurrencyCache \<Rightarrow> slotIndexSpec \<Rightarrow> string list \<Rightarrow> string \<Rightarrow> int \<Rightarrow> (nat \<Rightarrow> moment)
    \<Rightarrow> moment \<Rightarrow> moment \<Rightarrow> redis \<Rightarrow> redis \<times> unit option" where
  "cleanupStaleProcessSlotsForIndex c spec ms activePrefix now M m1 m2 db =
     (case startup_members c spec activePrefix M 0 ms db of
        (db, None) \<Rightarrow> (db, None)
      | (db, Some (used, stale)) \<Rightarrow>
          (write_back (indexKey spec) (map (\<lambda>m. (m, now + slotTTLSeconds c)) used) stale m1 m2 db, Some ()))"

record startup_moments =
  sm_sweep :: "nat \<Rightarrow> moment"
  sm_time :: moment
  sm_index :: "nat \<Rightarrow> moment"
  sm_members :: "nat \<Rightarrow> nat \<Rightarrow> moment"
  sm_write :: "nat \<Rightarrow> moment"

definition startup_index :: "concurrencyCache \<Rightarrow> slotIndexSpec \<Rightarrow> string \<Rightarrow> int \<Rightarrow> moment \<Rightarrow> (nat \<Rightarrow> moment) \<Rightarrow> moment \<Rightarrow> moment
    \<Rightarrow> redis \<Rightarrow> redis \<times> unit option" where
  "startup_index c spec activePrefix now m M m1 m2 db =
     (case at m (\<lambda>t db. (db, ZRANGE t (indexKey spec) db)) db of
        (db, None) \<Rightarrow> (db, None)
      | (db, Some ms) \<Rightarrow> cleanupStaleProcessSlotsForIndex c spec ms activePrefix now M m1 m2 db)"

definition CleanupStaleProcessSlots :: "concurrencyCache \<Rightarrow> string \<Rightarrow> startup_moments \<Rightarrow> redis \<Rightarrow> redis \<times> unit option" where
  "CleanupStaleProcessSlots c activePrefix S db =
     (if activePrefix = [] then (db, Some ())
      else (case sweepLegacyWaitKeysOnce (sm_sweep S 0) (sm_sweep S 1) (sm_sweep S 2) (sm_sweep S 3) db of
              (db, None) \<Rightarrow> (db, None)
            | (db, Some _) \<Rightarrow>
                (case at (sm_time S) (\<lambda>t db. (db, TIME t)) db of
                   (db, None) \<Rightarrow> (db, None)
                 | (db, Some now) \<Rightarrow>
                     (case startup_index c accountSlotIndex activePrefix now (sm_index S 0) (sm_members S 0) (sm_write S 0) (sm_write S 1) db of
                        (db, None) \<Rightarrow> (db, None)
                      | (db, Some _) \<Rightarrow>
                          startup_index c userSlotIndex activePrefix now (sm_index S 1) (sm_members S 1) (sm_write S 2) (sm_write S 3) db))))"

end
