(* ===== verification/Concurrency_Limit.thy ===== *)
theory Concurrency_Limit
  imports Concurrency_Cache
begin

text \<open>
  What the concurrency slots guarantee when the round trips of many processes interleave in any
  order: a limit on the slots that count, and no slot is lost before its time.

  A \<open>trip\<close> is one round trip to Redis of an operation of the cache: a script, a pipeline or a
  command. The operations run the trips named here (\<open>trip_effect\<close> is the same script).
\<close>

section \<open>Keys are different\<close>

datatype holder = Account int | User int

fun slot_key :: "holder \<Rightarrow> string" where
  "slot_key (Account i) = accountSlotKey i"
| "slot_key (User i) = userSlotKey i"

fun live_key :: "holder \<Rightarrow> string" where
  "live_key (Account i) = liveAccountSlotKey i"
| "live_key (User i) = liveUserSlotKey i"

fun wait_key :: "holder \<Rightarrow> string" where
  "wait_key (Account i) = accountWaitKey i"
| "wait_key (User i) = waitQueueKey i"

fun index_key :: "holder \<Rightarrow> string" where
  "index_key (Account i) = accountActiveIndexKey"
| "index_key (User i) = userActiveIndexKey"

lemma digits_inj: "decimal a = decimal b \<longleftrightarrow> a = b"
proof
  assume eq: "decimal a = decimal b"
  have inj: "m = n" if "decimal_nat m = decimal_nat n" for m n
  proof -
    have "Some (int m) = digits_value 0 (decimal_nat m)" by (rule decimal_nat_value[symmetric])
    also have "\<dots> = Some (int n)" unfolding that by (rule decimal_nat_value)
    finally show ?thesis by simp
  qed
  have no_sign: "decimal_nat n \<noteq> CHR ''-'' # s" for n s
  proof
    assume "decimal_nat n = CHR ''-'' # s"
    then have "byte_in 48 57 (CHR ''-'')" using decimal_nat_digits[of n] by simp
    then show False by (simp add: byte_in_def)
  qed
  show "a = b"
  proof (cases "a < 0")
    case True
    then have "b < 0" using eq no_sign[of "nat b", symmetric] by (auto simp: decimal_def split: if_splits)
    with True show ?thesis using eq inj[of "nat (- a)" "nat (- b)"] by (simp add: decimal_def)
  next
    case False
    then have "\<not> b < 0" using eq no_sign[of "nat a"] no_sign[of "nat a", symmetric] by (auto simp: decimal_def split: if_splits)
    with False show ?thesis using eq inj[of "nat a" "nat b"] by (simp add: decimal_def)
  qed
qed simp

lemma decimal_not_name: "decimal a \<noteq> CHR ''a'' # s"
proof
  assume eq: "decimal a = CHR ''a'' # s"
  then have "decimal_nat (nat a) = CHR ''a'' # s" by (auto simp: decimal_def split: if_splits)
  then have "byte_in 48 57 (CHR ''a'')" using decimal_nat_digits[of "nat a"] by simp
  then show False by (simp add: byte_in_def)
qed

lemmas key_defs = accountSlotKey_def userSlotKey_def apiKeySlotKey_def liveAccountSlotKey_def liveUserSlotKey_def
  liveAPIKeySlotKey_def openAIWSIngressLeaseKey_def waitQueueKey_def accountWaitKey_def accountActiveIndexKey_def
  userActiveIndexKey_def

lemma slot_key_eq [simp]: "slot_key w = slot_key v \<longleftrightarrow> w = v"
  by (cases w; cases v) (simp_all add: key_defs digits_inj)
lemma live_key_eq [simp]: "live_key w = live_key v \<longleftrightarrow> w = v"
  by (cases w; cases v) (simp_all add: key_defs digits_inj)
lemma wait_key_eq [simp]: "wait_key w = wait_key v \<longleftrightarrow> w = v"
  by (cases w; cases v) (simp_all add: key_defs digits_inj)

lemma keys_differ [simp]:
  "slot_key w \<noteq> live_key v" "live_key w \<noteq> slot_key v" "slot_key w \<noteq> index_key v" "index_key w \<noteq> slot_key v"
  "live_key w \<noteq> index_key v" "index_key w \<noteq> live_key v"
  "slot_key w \<noteq> apiKeySlotKey i" "apiKeySlotKey i \<noteq> slot_key w" "live_key w \<noteq> apiKeySlotKey i" "apiKeySlotKey i \<noteq> live_key w"
  "slot_key w \<noteq> liveAPIKeySlotKey i" "liveAPIKeySlotKey i \<noteq> slot_key w" "live_key w \<noteq> liveAPIKeySlotKey i" "liveAPIKeySlotKey i \<noteq> live_key w"
  "slot_key w \<noteq> openAIWSIngressLeaseKey i" "openAIWSIngressLeaseKey i \<noteq> slot_key w"
  "live_key w \<noteq> openAIWSIngressLeaseKey i" "openAIWSIngressLeaseKey i \<noteq> live_key w"
  "slot_key w \<noteq> wait_key v" "wait_key v \<noteq> slot_key w" "live_key w \<noteq> wait_key v" "wait_key v \<noteq> live_key w"
  by (cases w; cases v; simp add: key_defs decimal_not_name not_sym[OF decimal_not_name])+


lemmas holder_keys = slot_key.simps live_key.simps wait_key.simps index_key.simps
declare holder_keys [simp del]

section \<open>Round trips\<close>

datatype trip =
    Acquire holder int string
  | Release holder string
  | Count holder
  | LiveAcquire int int int int int string bool
  | LiveRefresh int int int string
  | LiveRelease int int int string
  | TrackKey int string
  | ReleaseKey int string
  | CountKey int int
  | Ingress int int string
  | IngressRefresh int string
  | IngressRelease int string
  | Load holder int
  | ReadLoad holder int
  | CleanUp holder
  | Startup holder string
  | Wait holder int
  | Unwait holder
  | DropWait holder
  | AddIndex holder string int
  | DropIndex holder string
  | Sweep

fun trip_effect :: "concurrencyCache \<Rightarrow> trip \<Rightarrow> int \<Rightarrow> redis \<Rightarrow> redis" where
  "trip_effect c (Acquire w m r) t db = fst (acquireScript (slot_key w) (live_key w) m (slotTTLSeconds c) r t db)"
| "trip_effect c (Release w r) t db = ZREM t (slot_key w) r db"
| "trip_effect c (Count w) t db = fst (getCountScript (slot_key w) (live_key w) (slotTTLSeconds c) t db)"
| "trip_effect c (LiveAcquire a am u um k l rep) t db =
     fst (acquireLiveLeaseScript (slot_key (Account a)) (live_key (Account a)) (slot_key (User u)) (live_key (User u))
       (liveAPIKeySlotKey k) am um liveLeaseTTLSeconds l (if rep then 1 else 0) t db)"
| "trip_effect c (LiveRefresh a u k l) t db =
     fst (refreshLiveLeaseScript [live_key (Account a), live_key (User u), liveAPIKeySlotKey k] liveLeaseTTLSeconds l t db)"
| "trip_effect c (LiveRelease a u k l) t db =
     ZREM t (liveAPIKeySlotKey k) l (ZREM t (live_key (User u)) l (ZREM t (live_key (Account a)) l db))"
| "trip_effect c (TrackKey k r) t db = fst (trackSlotScript (apiKeySlotKey k) (slotTTLSeconds c) r t db)"
| "trip_effect c (ReleaseKey k r) t db = ZREM t (apiKeySlotKey k) r db"
| "trip_effect c (CountKey k now) t db =
     ZREMRANGEBYSCORE t (liveAPIKeySlotKey k) (now - liveLeaseTTLSeconds) (ZREMRANGEBYSCORE t (apiKeySlotKey k) (now - slotTTLSeconds c) db)"
| "trip_effect c (Ingress k m l) t db =
     fst (acquireOpenAIWSIngressLeaseScript (openAIWSIngressLeaseKey k) m openAIWSIngressLeaseTTLSeconds l t db)"
| "trip_effect c (IngressRefresh k l) t db =
     fst (refreshOpenAIWSIngressLeaseScript (openAIWSIngressLeaseKey k) openAIWSIngressLeaseTTLSeconds l t db)"
| "trip_effect c (IngressRelease k l) t db = ZREM t (openAIWSIngressLeaseKey k) l db"
| "trip_effect c (Load w now) t db =
     ZREMRANGEBYSCORE t (live_key w) (now - liveLeaseTTLSeconds) (ZREMRANGEBYSCORE t (slot_key w) (now - slotTTLSeconds c) db)"
| "trip_effect c (ReadLoad w now) t db = fst (read_load (now - slotTTLSeconds c) (slot_key w) (wait_key w) t db)"
| "trip_effect c (CleanUp w) t db = fst (cleanupExpiredSlotsScript (slot_key w) (slotTTLSeconds c) t db)"
| "trip_effect c (Startup w p) t db = fst (startupCleanupSlotScript (slot_key w) p (slotTTLSeconds c) t db)"
| "trip_effect c (Wait w m) t db = fst (incrementWaitScript (wait_key w) m (waitQueueTTLSeconds c) t db)"
| "trip_effect c (Unwait w) t db = fst (decrementWaitScript (wait_key w) t db)"
| "trip_effect c (DropWait w) t db = DEL (wait_key w) db"
| "trip_effect c (AddIndex w m s) t db = ZADD t (index_key w) s m db"
| "trip_effect c (DropIndex w m) t db = ZREM t (index_key w) m db"
| "trip_effect c Sweep t db = SET legacyWaitSweepMarkerKey 1 (DEL_prefix ''concurrency:wait:'' (DEL_prefix ''wait:account:'' db))"

text \<open>The operations run exactly these trips; the moments of the index trips follow.\<close>

definition acquired :: "concurrencyCache \<Rightarrow> holder \<Rightarrow> int \<Rightarrow> string \<Rightarrow> int \<Rightarrow> redis \<Rightarrow> bool" where
  "acquired c w m r t db = (fst (snd (acquireScript (slot_key w) (live_key w) m (slotTTLSeconds c) r t db)) = 1)"

lemma operations_run_trips:
  "AcquireAccountSlot c i m r (t, Fine) (t2, Lost) db = (trip_effect c (Acquire (Account i) m r) t db, Some (acquired c (Account i) m r t db))"
  "AcquireUserSlot c i m r (t, Fine) (t2, Lost) db = (trip_effect c (Acquire (User i) m r) t db, Some (acquired c (User i) m r t db))"
  "AcquireAccountSlot c i m r (t, LostAfter) (t2, ft) db = (trip_effect c (Acquire (Account i) m r) t db, None)"
  "GetAccountConcurrency c i (t, Fine) db = (trip_effect c (Count (Account i)) t db, Some (snd (getCountScript (accountSlotKey i) (liveAccountSlotKey i) (slotTTLSeconds c) t db)))"
  "snd (at (t, Fine) (quietly (\<lambda>t. ZREM t (accountSlotKey i) r)) db) = Some ()"
  "fst (at (t, Fine) (quietly (\<lambda>t. ZREM t (accountSlotKey i) r)) db) = trip_effect c (Release (Account i) r) t db"
  by (simp_all add: AcquireAccountSlot_def AcquireUserSlot_def acquire_slot_def at_def acquired_def GetAccountConcurrency_def
      getCountScript_def touchActiveIndexAt_def quietly_def case_prod_unfold Let_def holder_keys)

text \<open>Trips in the order of time; a pipeline uses a time that was read before.\<close>

fun on_time :: "int \<Rightarrow> trip \<Rightarrow> bool" where
  "on_time t (Load w now) = (now \<le> TIME t)"
| "on_time t (ReadLoad w now) = (now \<le> TIME t)"
| "on_time t _ = True"

fun timed :: "int \<Rightarrow> (int \<times> trip) list \<Rightarrow> bool" where
  "timed t0 [] = True"
| "timed t0 ((t, x) # es) = (t0 \<le> t \<and> on_time t x \<and> timed t es)"

fun run_trips :: "concurrencyCache \<Rightarrow> (int \<times> trip) list \<Rightarrow> redis \<Rightarrow> redis" where
  "run_trips c [] db = db"
| "run_trips c ((t, x) # es) db = run_trips c es (trip_effect c x t db)"

section \<open>Slots through a trip\<close>

definition slots :: "concurrencyCache \<Rightarrow> int \<Rightarrow> holder \<Rightarrow> redis \<Rightarrow> string \<Rightarrow> int option" where
  "slots c t w db = leases (slotTTLSeconds c) t (slot_key w) db"

definition lives :: "int \<Rightarrow> holder \<Rightarrow> redis \<Rightarrow> string \<Rightarrow> int option" where
  "lives t w db = leases 60 t (live_key w) db"

definition slot_keys :: "concurrencyCache \<Rightarrow> int \<Rightarrow> redis \<Rightarrow> bool" where
  "slot_keys c t db \<longleftrightarrow> (\<forall>w. lease_key (slotTTLSeconds c) t (slot_key w) db \<and> lease_key 60 t (live_key w) db)"

text \<open>What a trip does to the slots that count.\<close>

fun new_slots :: "concurrencyCache \<Rightarrow> trip \<Rightarrow> int \<Rightarrow> redis \<Rightarrow> holder \<Rightarrow> (string \<Rightarrow> int option) \<Rightarrow> string \<Rightarrow> int option" where
  "new_slots c (Acquire v m r) t db w s = (if v = w \<and> acquired c v m r t db then s(r \<mapsto> TIME t) else s)"
| "new_slots c (Release v r) t db w s = (if v = w then s(r := None) else s)"
| "new_slots c (Startup v p) t db w s = (if v = w then (\<lambda>r. if has_prefix r p then s r else None) else s)"
| "new_slots c _ t db w s = s"


lemma slot_keysD: "slot_keys c t db \<Longrightarrow> lease_key (slotTTLSeconds c) t (slot_key w) db" "slot_keys c t db \<Longrightarrow> lease_key 60 t (live_key w) db"
  by (simp_all add: slot_keys_def)

text \<open>Pruning both sets of a holder first, as the scripts do.\<close>

lemma pruned_pair:
  fixes db :: redis
  assumes "lease_key T t key db" "lease_key 60 t live db" "key \<noteq> live"
  defines "p \<equiv> ZREMRANGEBYSCORE t live (TIME t - 60) (ZREMRANGEBYSCORE t key (TIME t - T) db)"
  shows "lease_key T t key p" "leases T t key p = leases T t key db" "lease_key 60 t live p" "leases 60 t live p = leases 60 t live db"
    "ZCARD t key p + ZCARD t live p = int (card (dom (leases T t key db)) + card (dom (leases 60 t live db)))"
    "ZSCORE t key r p = leases T t key db r"
  using assms lease_prune[OF assms(1)] lease_card[OF assms(1)] lease_prune[of 60 t live "ZREMRANGEBYSCORE t key (TIME t - T) db"]
    lease_card[of 60 t live "ZREMRANGEBYSCORE t key (TIME t - T) db"]
  by (simp_all add: p_def)

lemma acquire_effect:
  assumes "lease_key T t key db" "lease_key 60 t live db" "key \<noteq> live" "0 < T"
  shows "fst (snd (acquireScript key live m T r t db)) = 1 \<longleftrightarrow>
      leases T t key db r \<noteq> None \<or> int (card (dom (leases T t key db)) + card (dom (leases 60 t live db))) < m"
    and "lease_key T t key (fst (acquireScript key live m T r t db))"
    and "lease_key 60 t live (fst (acquireScript key live m T r t db))"
    and "leases 60 t live (fst (acquireScript key live m T r t db)) = leases 60 t live db"
    and "leases T t key (fst (acquireScript key live m T r t db)) =
      (if fst (snd (acquireScript key live m T r t db)) = 1 then (leases T t key db)(r \<mapsto> TIME t) else leases T t key db)"
    and "k \<noteq> key \<Longrightarrow> k \<noteq> live \<Longrightarrow> sets (fst (acquireScript key live m T r t db)) k = sets db k"
  using assms pruned_pair[OF assms(1-3)] pruned_pair(6)[OF assms(1-3), where r = r] lease_grant[OF pruned_pair(1)[OF assms(1-3)] assms(4), where m = r]
  by (auto simp: acquireScript_def Let_def)


text \<open>Granting a lease in several keys, one after the other.\<close>

abbreviation grant_lease :: "int \<Rightarrow> string \<Rightarrow> string \<Rightarrow> redis \<Rightarrow> redis" where
  "grant_lease t l key db \<equiv> EXPIRE t key 60 (ZADD t key (TIME t) l db)"

lemma grant_all:
  assumes "distinct ks" "k \<in> set ks \<Longrightarrow> lease_key 60 t k db"
  shows "(k \<in> set ks \<longrightarrow> lease_key 60 t k (fold (grant_lease t l) ks db)
        \<and> leases 60 t k (fold (grant_lease t l) ks db) = (leases 60 t k db)(l \<mapsto> TIME t))
    \<and> (k \<notin> set ks \<longrightarrow> sets (fold (grant_lease t l) ks db) k = sets db k)"
  using assms
proof (induction ks arbitrary: db)
  case (Cons key ks)
  let ?g = "grant_lease t l key db"
  have IH: "(k \<in> set ks \<Longrightarrow> lease_key 60 t k ?g) \<Longrightarrow> (k \<in> set ks \<longrightarrow> lease_key 60 t k (fold (grant_lease t l) ks ?g)
        \<and> leases 60 t k (fold (grant_lease t l) ks ?g) = (leases 60 t k ?g)(l \<mapsto> TIME t))
    \<and> (k \<notin> set ks \<longrightarrow> sets (fold (grant_lease t l) ks ?g) k = sets ?g k)"
    using Cons.IH[of ?g] Cons.prems(1) by (simp add: fun_upd_def)
  show ?case
  proof (cases "k = key")
    case True
    then have "k \<notin> set ks" using Cons.prems(1) by simp
    then have same: "sets (fold (grant_lease t l) ks ?g) k = sets ?g k" using IH by simp
    have key: "lease_key 60 t key db" using Cons.prems(2) True by simp
    have "lease_key 60 t k (fold (grant_lease t l) ks ?g)" "leases 60 t k (fold (grant_lease t l) ks ?g) = (leases 60 t key db)(l \<mapsto> TIME t)"
      unfolding sets_same(1,2)[OF same] using lease_grant[OF key, of l] True by simp_all
    then show ?thesis using True by simp
  next
    case False
    have k: "k \<in> set ks \<Longrightarrow> lease_key 60 t k ?g" using Cons.prems(2) False by simp
    show ?thesis using IH[OF k] False by simp
  qed
qed simp

lemma check_all:
  assumes "distinct ks" "k \<in> set ks \<Longrightarrow> lease_key 60 t k db"
  shows "(k \<in> set ks \<longrightarrow> lease_key 60 t k (fst (refresh_check t (TIME t - 60) l ks db))
        \<and> leases 60 t k (fst (refresh_check t (TIME t - 60) l ks db)) = leases 60 t k db
        \<and> (snd (refresh_check t (TIME t - 60) l ks db) \<longrightarrow> leases 60 t k db l \<noteq> None))
    \<and> (k \<notin> set ks \<longrightarrow> sets (fst (refresh_check t (TIME t - 60) l ks db)) k = sets db k)"
  using assms
proof (induction ks arbitrary: db)
  case (Cons key ks)
  let ?p = "ZREMRANGEBYSCORE t key (TIME t - 60) db"
  let ?r = "refresh_check t (TIME t - 60) l ks ?p"
  have IH: "(k \<in> set ks \<Longrightarrow> lease_key 60 t k ?p) \<Longrightarrow> (k \<in> set ks \<longrightarrow> lease_key 60 t k (fst ?r) \<and> leases 60 t k (fst ?r) = leases 60 t k ?p
        \<and> (snd ?r \<longrightarrow> leases 60 t k ?p l \<noteq> None)) \<and> (k \<notin> set ks \<longrightarrow> sets (fst ?r) k = sets ?p k)"
    using Cons.IH[of ?p] Cons.prems(1) by simp
  show ?case
  proof (cases "k = key")
    case True
    then have "k \<notin> set ks" using Cons.prems(1) by simp
    then have same: "sets (fst ?r) k = sets ?p k" using IH by simp
    have key: "lease_key 60 t k db" using Cons.prems(2) True by simp
    have p: "lease_key 60 t k ?p" "leases 60 t k ?p = leases 60 t k db" "ZSCORE t k l ?p = leases 60 t k db l"
      using lease_prune[OF key, of "TIME t - 60"] lease_card(2)[OF key, of "TIME t - 60" l] True by simp_all
    show ?thesis using p True sets_same(1,2)[OF same, of 60 t] by (cases "leases 60 t k db l") (simp_all add: Let_def)
  next
    case False
    have k: "k \<in> set ks \<Longrightarrow> lease_key 60 t k ?p" using Cons.prems(2) False by simp
    have other: "k \<in> set ks \<Longrightarrow> lease_key 60 t k db" using Cons.prems(2) by simp
    show ?thesis using IH[OF k] other False by (cases "ZSCORE t key l ?p") (simp_all add: Let_def)
  qed
qed simp

lemma refresh_effect:
  fixes l :: string and db :: redis
  assumes "distinct ks" "k \<in> set ks \<Longrightarrow> lease_key 60 t k db"
  defines "db' \<equiv> fst (refreshLiveLeaseScript ks 60 l t db)"
  shows "k \<in> set ks \<Longrightarrow> lease_key 60 t k db' \<and> dom (leases 60 t k db') = dom (leases 60 t k db)"
    and "k \<notin> set ks \<Longrightarrow> sets db' k = sets db k"
proof -
  let ?c = "refresh_check t (TIME t - 60) l ks db"
  have c: "(k \<in> set ks \<longrightarrow> lease_key 60 t k (fst ?c) \<and> leases 60 t k (fst ?c) = leases 60 t k db \<and> (snd ?c \<longrightarrow> leases 60 t k db l \<noteq> None))
    \<and> (k \<notin> set ks \<longrightarrow> sets (fst ?c) k = sets db k)"
    by (rule check_all[OF assms(1,2)])
  have k: "k \<in> set ks \<Longrightarrow> lease_key 60 t k (fst ?c)" using c by simp
  note g = grant_all[OF assms(1) k, where l = l]
  have db': "db' = (if snd ?c then fold (grant_lease t l) ks (fst ?c) else fst ?c)"
    by (simp add: db'_def refreshLiveLeaseScript_def Let_def case_prod_unfold)
  show "k \<in> set ks \<Longrightarrow> lease_key 60 t k db' \<and> dom (leases 60 t k db') = dom (leases 60 t k db)"
    using c g by (auto simp: db' dom_def)
  show "k \<notin> set ks \<Longrightarrow> sets db' k = sets db k"
    using c g by (simp add: db')
qed

lemma live_effect:
  fixes l :: string and am um rep :: int and db :: redis
  assumes "lease_key 60 t aL db" "lease_key 60 t uL db" "distinct [aR, uR, aL, uL, api]"
  defines "db' \<equiv> fst (acquireLiveLeaseScript aR aL uR uL api am um 60 l rep t db)"
  shows "k \<notin> {aL, uL, api} \<Longrightarrow> sets db' k = sets db k"
    and "lease_key 60 t aL db'" and "lease_key 60 t uL db'"
    and "leases 60 t aL db' = leases 60 t aL db \<and> leases 60 t uL db' = leases 60 t uL db
      \<or> leases 60 t aL db' = (leases 60 t aL db)(l \<mapsto> TIME t) \<and> leases 60 t uL db' = (leases 60 t uL db)(l \<mapsto> TIME t)
        \<and> (0 < am \<longrightarrow> ZCARD t aR db + int (card (dom (leases 60 t aL db))) < am + (if rep = 1 then 1 else 0))
        \<and> (0 < um \<longrightarrow> ZCARD t uR db + int (card (dom (leases 60 t uL db))) < um + (if rep = 1 then 1 else 0))"
proof -
  let ?h = "TIME t - 60"
  let ?p = "ZREMRANGEBYSCORE t api ?h (ZREMRANGEBYSCORE t uL ?h (ZREMRANGEBYSCORE t aL ?h db))"
  have p: "lease_key 60 t aL ?p" "lease_key 60 t uL ?p"
    "leases 60 t aL ?p = leases 60 t aL db" "leases 60 t uL ?p = leases 60 t uL db"
    "ZCARD t aL ?p = int (card (dom (leases 60 t aL db)))" "ZCARD t uL ?p = int (card (dom (leases 60 t uL db)))"
    "ZSCORE t aL l ?p = leases 60 t aL db l" "ZCARD t aR ?p = ZCARD t aR db" "ZCARD t uR ?p = ZCARD t uR db"
    using assms(1-3) lease_prune[of 60 t] lease_card[of 60 t aL db] lease_card[of 60 t uL "ZREMRANGEBYSCORE t aL ?h db"] by auto
  have d: "distinct [aL, uL, api]" using assms(3) by auto
  let ?g = "fold (grant_lease t l) [aL, uL, api] ?p"
  note g = grant_all[OF d, of aL t ?p l] grant_all[OF d, of uL t ?p l] grant_all[OF d, of k t ?p l]
  have fold: "EXPIRE t api 60 (EXPIRE t uL 60 (EXPIRE t aL 60 (ZADD t api (TIME t) l (ZADD t uL (TIME t) l (ZADD t aL (TIME t) l ?p))))) = ?g"
    using d by (simp add: EXPIRE_ZADD)
  have db': "db' = ?p \<or> db' = ?g \<and> (0 < am \<longrightarrow> ZCARD t aR db + int (card (dom (leases 60 t aL db))) < am + (if rep = 1 then 1 else 0))
        \<and> (0 < um \<longrightarrow> ZCARD t uR db + int (card (dom (leases 60 t uL db))) < um + (if rep = 1 then 1 else 0))"
    unfolding db'_def acquireLiveLeaseScript_def Let_def fold p(5-9) by auto
  have gA: "lease_key 60 t aL ?g" "leases 60 t aL ?g = (leases 60 t aL db)(l \<mapsto> TIME t)"
    and gU: "lease_key 60 t uL ?g" "leases 60 t uL ?g = (leases 60 t uL db)(l \<mapsto> TIME t)"
    using g(1,2) p(1-4) by simp_all
  show "k \<notin> {aL, uL, api} \<Longrightarrow> sets db' k = sets db k"
    using db' g(3) by auto
  show "lease_key 60 t aL db'" "lease_key 60 t uL db'"
    using db' gA(1) gU(1) p(1,2) by auto
  show "leases 60 t aL db' = leases 60 t aL db \<and> leases 60 t uL db' = leases 60 t uL db
      \<or> leases 60 t aL db' = (leases 60 t aL db)(l \<mapsto> TIME t) \<and> leases 60 t uL db' = (leases 60 t uL db)(l \<mapsto> TIME t)
        \<and> (0 < am \<longrightarrow> ZCARD t aR db + int (card (dom (leases 60 t aL db))) < am + (if rep = 1 then 1 else 0))
        \<and> (0 < um \<longrightarrow> ZCARD t uR db + int (card (dom (leases 60 t uL db))) < um + (if rep = 1 then 1 else 0))"
    using db' gA(2) gU(2) p(3,4) by auto
qed


text \<open>Trips that write other keys, and what the others do to one holder's two keys.\<close>

fun elsewhere :: "trip \<Rightarrow> bool" where
  "elsewhere (TrackKey k r) = True" | "elsewhere (ReleaseKey k r) = True" | "elsewhere (CountKey k n) = True"
| "elsewhere (Ingress k m l) = True" | "elsewhere (IngressRefresh k l) = True" | "elsewhere (IngressRelease k l) = True"
| "elsewhere (Wait w m) = True" | "elsewhere (Unwait w) = True" | "elsewhere (DropWait w) = True"
| "elsewhere (AddIndex w m s) = True" | "elsewhere (DropIndex w m) = True" | "elsewhere Sweep = True"
| "elsewhere _ = False"

lemma slot_key_prefix: "\<not> has_prefix (slot_key w) ''wait:account:''" "\<not> has_prefix (slot_key w) ''concurrency:wait:''"
  "\<not> has_prefix (live_key w) ''wait:account:''" "\<not> has_prefix (live_key w) ''concurrency:wait:''"
  by (cases w; simp add: holder_keys key_defs has_prefix_def)+

lemma elsewhere_keys:
  assumes "elsewhere x"
  shows "sets (trip_effect c x t db) (slot_key w) = sets db (slot_key w)" "sets (trip_effect c x t db) (live_key w) = sets db (live_key w)"
  using assms slot_key_prefix[of w]
  by (cases x; simp add: trackSlotScript_def acquireOpenAIWSIngressLeaseScript_def refreshOpenAIWSIngressLeaseScript_def
      incrementWaitScript_def decrementWaitScript_def Let_def DEL_prefix_def split: option.split)+

lemma startup_fold:
  assumes "lease_key T t key db"
  shows "lease_key T t key (fold (\<lambda>m. ZREM t key m) ms db)
      \<and> leases T t key (fold (\<lambda>m. ZREM t key m) ms db) = (\<lambda>r. if r \<in> set ms then None else leases T t key db r)
      \<and> (\<forall>k. k \<noteq> key \<longrightarrow> sets (fold (\<lambda>m. ZREM t key m) ms db) k = sets db k)"
  using assms
proof (induction ms arbitrary: db)
  case (Cons m ms)
  then show ?case using Cons.IH[of "ZREM t key m db"] lease_remove[OF Cons.prems] by (auto simp: fun_eq_iff)
qed simp

lemma startup_effect:
  fixes p :: string and db :: redis
  assumes "lease_key T t key db" "0 < T"
  defines "db' \<equiv> fst (startupCleanupSlotScript key p T t db)"
  shows "lease_key T t key db'" "leases T t key db' = (\<lambda>r. if has_prefix r p then leases T t key db r else None)"
    "k \<noteq> key \<Longrightarrow> sets db' k = sets db k"
proof -
  let ?ms = "filter (\<lambda>m. \<not> has_prefix m p) (ZRANGE t key db)"
  let ?d = "fold (\<lambda>m. ZREM t key m) ?ms db"
  note f = startup_fold[OF assms(1), of ?ms]
  have db': "db' = (if ZCARD t key ?d = 0 then DEL key ?d else EXPIRE t key T ?d)"
    by (simp add: db'_def startupCleanupSlotScript_def Let_def)
  have "leases T t key db r = None" if "r \<notin> set (ZRANGE t key db)" for r
    using that by (force simp: members_leases[OF assms(1)] ZRANGE_def split: option.split dest: map_of_SomeD)
  then have new: "leases T t key ?d = (\<lambda>r. if has_prefix r p then leases T t key db r else None)"
    using f by (auto simp: fun_eq_iff)
  show "lease_key T t key db'" "leases T t key db' = (\<lambda>r. if has_prefix r p then leases T t key db r else None)"
    using f new lease_del[of t key ?d T] lease_expire[of T t key ?d] assms(2) by (simp_all add: db')
  show "k \<noteq> key \<Longrightarrow> sets db' k = sets db k" using f by (simp add: db')
qed

lemma cleanup_effect:
  assumes "lease_key T t key db" "0 < T"
  defines "db' \<equiv> fst (cleanupExpiredSlotsScript key T t db)"
  shows "lease_key T t key db'" "leases T t key db' = leases T t key db" "k \<noteq> key \<Longrightarrow> sets db' k = sets db k"
proof -
  let ?p = "ZREMRANGEBYSCORE t key (TIME t - T) db"
  have p: "lease_key T t key ?p" "leases T t key ?p = leases T t key db" using lease_prune[OF assms(1)] by simp_all
  show "lease_key T t key db'" "leases T t key db' = leases T t key db"
    using p lease_del[of t key ?p T] lease_expire[OF p(1) assms(2)] by (simp_all add: db'_def cleanupExpiredSlotsScript_def Let_def)
  show "k \<noteq> key \<Longrightarrow> sets db' k = sets db k" by (simp add: db'_def cleanupExpiredSlotsScript_def Let_def)
qed


text \<open>What a trip may do to the live leases: only a live acquisition adds one, and only below its limits.\<close>

definition load :: "concurrencyCache \<Rightarrow> int \<Rightarrow> holder \<Rightarrow> redis \<Rightarrow> int" where
  "load c t w db = int (card (dom (slots c t w db)) + card (dom (lives t w db)))"

definition live_limit :: "trip \<Rightarrow> holder \<Rightarrow> int option" where
  "live_limit x w = (case x of
     LiveAcquire a am u um k l rep \<Rightarrow>
       if w = Account a then Some (am + (if rep then 1 else 0)) else if w = User u then Some (um + (if rep then 1 else 0)) else None
   | _ \<Rightarrow> None)"

definition unlimited :: "trip \<Rightarrow> holder \<Rightarrow> bool" where
  "unlimited x w = (case x of
     LiveAcquire a am u um k l rep \<Rightarrow> w = Account a \<and> am \<le> 0 \<or> w = User u \<and> um \<le> 0
   | _ \<Rightarrow> False)"

definition live_change :: "concurrencyCache \<Rightarrow> trip \<Rightarrow> int \<Rightarrow> redis \<Rightarrow> redis \<Rightarrow> holder \<Rightarrow> bool" where
  "live_change c x t db db' w \<longleftrightarrow> dom (lives t w db') \<subseteq> dom (lives t w db)
     \<or> (\<exists>l m. dom (lives t w db') = insert l (dom (lives t w db)) \<and> live_limit x w = Some m \<and> (unlimited x w \<or> load c t w db < m))"

definition goes :: "concurrencyCache \<Rightarrow> trip \<Rightarrow> int \<Rightarrow> redis \<Rightarrow> bool" where
  "goes c x t db \<longleftrightarrow> (let db' = trip_effect c x t db
     in slot_keys c t db' \<and> (\<forall>w. slots c t w db' = new_slots c x t db w (slots c t w db) \<and> live_change c x t db db' w))"

lemma goes_elsewhere: "elsewhere x \<Longrightarrow> slot_keys c t db \<Longrightarrow> goes c x t db"
  using sets_same[OF elsewhere_keys(1)] sets_same[OF elsewhere_keys(2)]
  by (cases x) (simp_all add: goes_def slot_keys_def slots_def lives_def live_change_def Let_def del: trip_effect.simps)

text \<open>Trips that only touch the two keys of one holder.\<close>

lemma goes_local:
  assumes "slot_keys c t db"
    and "\<And>k. k \<noteq> slot_key v \<Longrightarrow> k \<noteq> live_key v \<Longrightarrow> sets (trip_effect c x t db) k = sets db k"
    and "lease_key (slotTTLSeconds c) t (slot_key v) (trip_effect c x t db)" "lease_key 60 t (live_key v) (trip_effect c x t db)"
    and "slots c t v (trip_effect c x t db) = new_slots c x t db v (slots c t v db)"
    and "dom (lives t v (trip_effect c x t db)) \<subseteq> dom (lives t v db)"
    and "\<And>w s. w \<noteq> v \<Longrightarrow> new_slots c x t db w s = s"
  shows "goes c x t db"
proof -
  have keep: "sets (trip_effect c x t db) (slot_key w) = sets db (slot_key w)" "sets (trip_effect c x t db) (live_key w) = sets db (live_key w)"
    if "w \<noteq> v" for w using assms(2) that by simp_all
  have "lease_key (slotTTLSeconds c) t (slot_key w) (trip_effect c x t db) \<and> lease_key 60 t (live_key w) (trip_effect c x t db)
      \<and> slots c t w (trip_effect c x t db) = new_slots c x t db w (slots c t w db)
      \<and> dom (lives t w (trip_effect c x t db)) \<subseteq> dom (lives t w db)" for w
  proof (cases "w = v")
    case False
    note keep = sets_same[OF keep(1)[OF False]] sets_same[OF keep(2)[OF False]]
    show ?thesis using slot_keysD[OF assms(1), of w] by (simp only: slots_def lives_def keep assms(7)[OF False]) simp
  qed (use assms in simp)
  then show ?thesis by (simp add: goes_def slot_keys_def live_change_def)
qed

lemma goes_acquire:
  assumes "slot_keys c t db" "0 < slotTTLSeconds c"
  shows "goes c (Acquire v m r) t db"
proof -
  note a = acquire_effect[OF slot_keysD(1)[OF assms(1), of v] slot_keysD(2)[OF assms(1), of v] keys_differ(1) assms(2), where m = m and r = r]
  show ?thesis
    using a(2-6) by (intro goes_local[OF assms(1), of v]) (simp_all add: slots_def lives_def acquired_def)
qed

lemma goes_count:
  assumes "slot_keys c t db" "now \<le> TIME t"
  shows "goes c (Count v) t db" "goes c (Load v now) t db" "goes c (ReadLoad v now) t db"
proof -
  let ?k = "slot_key v" and ?T = "slotTTLSeconds c"
  note k = slot_keysD[OF assms(1), of v]
  show "goes c (Count v) t db"
    using pruned_pair[OF k keys_differ(1)]
    by (intro goes_local[OF assms(1), of v]) (simp_all add: getCountScript_def Let_def slots_def lives_def)
  have p: "lease_key ?T t ?k (ZREMRANGEBYSCORE t ?k (now - ?T) db)" "leases ?T t ?k (ZREMRANGEBYSCORE t ?k (now - ?T) db) = leases ?T t ?k db"
    using lease_prune[OF k(1)] assms(2) by simp_all
  show "goes c (ReadLoad v now) t db"
    using p k by (intro goes_local[OF assms(1), of v]) (simp_all add: read_load_def Let_def slots_def lives_def)
  show "goes c (Load v now) t db"
    using p k lease_prune[of 60 t "live_key v" "ZREMRANGEBYSCORE t ?k (now - ?T) db" "now - 60"] assms(2)
    by (intro goes_local[OF assms(1), of v]) (simp_all add: slots_def lives_def liveLeaseTTLSeconds_def)
qed

lemma goes_release:
  assumes "slot_keys c t db" "0 < slotTTLSeconds c"
  shows "goes c (Release v r) t db" "goes c (CleanUp v) t db" "goes c (Startup v p) t db"
proof -
  note k = slot_keysD[OF assms(1), of v]
  show "goes c (Release v r) t db"
    using lease_remove[OF k(1)] k by (intro goes_local[OF assms(1), of v]) (simp_all add: slots_def lives_def)
  show "goes c (CleanUp v) t db"
    using cleanup_effect[OF k(1) assms(2)] k
    by (intro goes_local[OF assms(1), of v]) (simp_all add: slots_def lives_def sets_same[OF cleanup_effect(3)[OF k(1) assms(2)]])
  show "goes c (Startup v p) t db"
    using startup_effect[OF k(1) assms(2), where p = p] k
    by (intro goes_local[OF assms(1), of v]) (simp_all add: slots_def lives_def sets_same[OF startup_effect(3)[OF k(1) assms(2), where p = p]])
qed


lemma goes_live:
  assumes "slot_keys c t db"
  shows "goes c (LiveRefresh a u k l) t db" "goes c (LiveRelease a u k l) t db"
proof -
  note K = slot_keysD[OF assms]
  let ?ks = "[live_key (Account a), live_key (User u), liveAPIKeySlotKey k]"
  let ?r = "trip_effect c (LiveRefresh a u k l) t db" and ?d = "trip_effect c (LiveRelease a u k l) t db"
  have r: "sets ?r (slot_key w) = sets db (slot_key w)" "lease_key 60 t (live_key w) ?r" "dom (lives t w ?r) = dom (lives t w db)" for w
  proof -
    have live: "live_key w \<in> set ?ks \<longrightarrow> lease_key 60 t (live_key w) ?r \<and> dom (lives t w ?r) = dom (lives t w db)"
      "live_key w \<notin> set ?ks \<longrightarrow> sets ?r (live_key w) = sets db (live_key w)"
      using refresh_effect[of ?ks "live_key w" t db l] K(2)[of w] by (simp_all add: lives_def liveLeaseTTLSeconds_def)
    show "sets ?r (slot_key w) = sets db (slot_key w)"
      using refresh_effect(2)[of ?ks "slot_key w" t db l] by (simp add: liveLeaseTTLSeconds_def)
    show "lease_key 60 t (live_key w) ?r" "dom (lives t w ?r) = dom (lives t w db)"
      using live K(2)[of w] sets_same(1,2)[of ?r "live_key w" db 60 t] by (auto simp: lives_def simp del: trip_effect.simps)
  qed
  show "goes c (LiveRefresh a u k l) t db"
    unfolding goes_def Let_def slot_keys_def live_change_def slots_def
    using r(2,3) K(1) by (simp add: sets_same[OF r(1)] del: trip_effect.simps)
  have d: "sets ?d (slot_key w) = sets db (slot_key w)" "lease_key 60 t (live_key w) ?d" "dom (lives t w ?d) \<subseteq> dom (lives t w db)" for w
  proof -
    have rem: "lease_key 60 t (live_key w) (ZREM t j l e)" "dom (leases 60 t (live_key w) (ZREM t j l e)) \<subseteq> dom (leases 60 t (live_key w) e)"
      if "lease_key 60 t (live_key w) e" for j e
      using lease_remove[OF that, of l] that by (cases "j = live_key w"; auto)+
    note one = K(2)[of w] and two = rem(1)[OF K(2)[of w], of "live_key (Account a)"]
    show "sets ?d (slot_key w) = sets db (slot_key w)" by simp
    show "lease_key 60 t (live_key w) ?d" by (simp add: rem(1) K(2))
    show "dom (lives t w ?d) \<subseteq> dom (lives t w db)"
      unfolding lives_def trip_effect.simps
      by (rule subset_trans[OF rem(2)[OF rem(1)[OF two]] subset_trans[OF rem(2)[OF two] rem(2)[OF one]]])
  qed
  show "goes c (LiveRelease a u k l) t db"
    unfolding goes_def Let_def slot_keys_def live_change_def slots_def
    using d(2,3) K(1) by (simp add: sets_same[OF d(1)] del: trip_effect.simps)
qed

lemma goes_live_acquire:
  assumes "slot_keys c t db"
  shows "goes c (LiveAcquire a am u um k l rep) t db"
proof -
  let ?x = "LiveAcquire a am u um k l rep" and ?A = "Account a" and ?U = "User u"
  let ?d = "trip_effect c ?x t db"
  let ?more = "if rep then 1 else 0 :: int"
  note K = slot_keysD[OF assms]
  have effect: "?d = fst (acquireLiveLeaseScript (slot_key ?A) (live_key ?A) (slot_key ?U) (live_key ?U) (liveAPIKeySlotKey k) am um 60 l ?more t db)"
    by (simp add: liveLeaseTTLSeconds_def)
  note e = live_effect[OF K(2)[of ?A] K(2)[of ?U], of "slot_key ?A" "slot_key ?U" "liveAPIKeySlotKey k", where am = am and um = um and rep = ?more and l = l,
      folded effect]
  have regular: "sets ?d (slot_key w) = sets db (slot_key w)" for w using e(1)[of "slot_key w"] by simp
  have other: "sets ?d (live_key w) = sets db (live_key w)" if "w \<noteq> ?A" "w \<noteq> ?U" for w
    using e(1)[of "live_key w"] that by simp
  have keys: "lease_key 60 t (live_key w) ?d" for w
    using e(2,3) K(2)[of w] sets_same(1)[OF other[of w], of 60 t] by (cases "w = ?A \<or> w = ?U") auto
  have count: "int (card (dom (slots c t w db))) \<le> ZCARD t (slot_key w) db" for w
    unfolding slots_def by (rule lease_card_le[OF K(1)])
  have live: "live_change c ?x t db ?d w" for w
  proof (cases "w = ?A \<or> w = ?U")
    case True
    then show ?thesis
      using e(4) count[of ?A] count[of ?U]
      by (elim disjE) (auto simp: live_change_def lives_def live_limit_def unlimited_def load_def simp del: trip_effect.simps)
  next
    case False
    then have "lives t w ?d = lives t w db" using sets_same(2)[OF other[of w]] by (simp add: lives_def del: trip_effect.simps)
    then show ?thesis by (simp add: live_change_def del: trip_effect.simps)
  qed
  show ?thesis
    unfolding goes_def Let_def slot_keys_def slots_def
    using keys live K(1) by (simp add: sets_same[OF regular] del: trip_effect.simps)
qed

theorem goes_trip:
  assumes "slot_keys c t db" "0 < slotTTLSeconds c" "on_time t x"
  shows "goes c x t db"
proof (cases "elsewhere x")
  case False
  then show ?thesis
    using assms goes_acquire goes_count goes_count(1)[OF _ order_refl] goes_release goes_live goes_live_acquire by (cases x) simp_all
qed (simp add: goes_elsewhere assms)


section \<open>The limit\<close>

text \<open>The slots that were granted and not given back, with the second of the grant: what the callers believe to hold.\<close>

fun held :: "concurrencyCache \<Rightarrow> holder \<Rightarrow> (int \<times> trip) list \<Rightarrow> redis \<Rightarrow> (string \<Rightarrow> int option) \<Rightarrow> string \<Rightarrow> int option" where
  "held c w [] db h = h"
| "held c w ((t, x) # es) db h = held c w es (trip_effect c x t db)
     (case x of
        Acquire v m r \<Rightarrow> if v = w \<and> acquired c v m r t db then h(r \<mapsto> TIME t) else h
      | Release v r \<Rightarrow> if v = w then h(r := None) else h
      | _ \<Rightarrow> h)"

text \<open>The holdings whose time is not over.\<close>

definition unexpired :: "concurrencyCache \<Rightarrow> int \<Rightarrow> (string \<Rightarrow> int option) \<Rightarrow> string \<Rightarrow> int option" where
  "unexpired c t h r = (case h r of None \<Rightarrow> None | Some s \<Rightarrow> if TIME t < s + slotTTLSeconds c then Some s else None)"

text \<open>All requests and all startup cleanups come from one process, and no request asks for more than the limit.\<close>

fun one_process :: "string \<Rightarrow> trip \<Rightarrow> bool" where
  "one_process p (Acquire v m r) = has_prefix r p"
| "one_process p (Startup v q) = (q = p)"
| "one_process p _ = True"

fun within :: "holder \<Rightarrow> int \<Rightarrow> trip \<Rightarrow> bool" where
  "within w m (Acquire v n r) = (v = w \<longrightarrow> n \<le> m)"
| "within w m (LiveAcquire a am u um k l rep) =
     ((w = Account a \<longrightarrow> 0 < am \<and> am + (if rep then 1 else 0) \<le> m) \<and> (w = User u \<longrightarrow> 0 < um \<and> um + (if rep then 1 else 0) \<le> m))"
| "within w m _ = True"

definition sound :: "concurrencyCache \<Rightarrow> string \<Rightarrow> holder \<Rightarrow> int \<Rightarrow> redis \<Rightarrow> (string \<Rightarrow> int option) \<Rightarrow> bool" where
  "sound c p w t db h \<longleftrightarrow> slot_keys c t db \<and> slots c t w db = unexpired c t h \<and> (\<forall>r. h r \<noteq> None \<longrightarrow> has_prefix r p)"

lemma unexpired_later: "t \<le> t' \<Longrightarrow> unexpired c t' h = (\<lambda>r. case unexpired c t h r of None \<Rightarrow> None | Some s \<Rightarrow> if TIME t' < s + slotTTLSeconds c then Some s else None)"
  using TIME_mono[of t t'] by (auto simp: unexpired_def fun_eq_iff split: option.split)

lemma slot_keys_later: "slot_keys c t db \<Longrightarrow> t \<le> t' \<Longrightarrow> slot_keys c t' db"
  unfolding slot_keys_def using lease_key_later by blast

lemma sound_later: "sound c p w t db h \<Longrightarrow> t \<le> t' \<Longrightarrow> sound c p w t' db h"
  using slot_keys_later[of c t db t'] by (simp add: sound_def slots_def leases_later[of t t'] unexpired_later[of t t'])

lemma finite_slots [simp]: "finite (dom (slots c t w db))" "finite (dom (lives t w db))"
  by (simp_all add: slots_def lives_def)

lemma load_later: "t \<le> t' \<Longrightarrow> load c t' w db \<le> load c t w db"
proof -
  assume t: "t \<le> t'"
  have "dom (slots c t' w db) \<subseteq> dom (slots c t w db)" "dom (lives t' w db) \<subseteq> dom (lives t w db)"
    by (auto simp: slots_def lives_def leases_later[OF t] split: option.splits)
  then show ?thesis using card_mono[OF finite_slots(1)] card_mono[OF finite_slots(2)] unfolding load_def by (meson add_mono of_nat_le_iff)
qed

lemma sound_trip:
  assumes "sound c p w t db h" "0 < slotTTLSeconds c" "on_time t x" "one_process p x"
  shows "sound c p w t (trip_effect c x t db) (held c w [(t, x)] db h)"
proof -
  have g: "goes c x t db" using goes_trip assms unfolding sound_def by blast
  have s: "slots c t w (trip_effect c x t db) = new_slots c x t db w (unexpired c t h)"
    using g assms(1) by (simp add: goes_def Let_def sound_def)
  have keys: "slot_keys c t (trip_effect c x t db)" using g by (simp add: goes_def Let_def)
  have own: "h r \<noteq> None \<Longrightarrow> has_prefix r p" for r using assms(1) by (simp add: sound_def)
  have "new_slots c x t db w (unexpired c t h) = unexpired c t (held c w [(t, x)] db h)"
    using assms(2,4) own by (cases x) (auto simp: unexpired_def fun_eq_iff split: option.split)
  moreover have "held c w [(t, x)] db h r \<noteq> None \<Longrightarrow> has_prefix r p" for r
    using assms(4) own by (cases x) (auto split: if_splits)
  ultimately show ?thesis using s keys by (simp add: sound_def)
qed

lemma load_trip:
  assumes "slot_keys c t db" "0 < slotTTLSeconds c" "on_time t x" "within w m x" "load c t w db \<le> m"
  shows "load c t w (trip_effect c x t db) \<le> m"
proof -
  let ?d = "trip_effect c x t db"
  have g: "slots c t w ?d = new_slots c x t db w (slots c t w db)" "live_change c x t db ?d w"
    using goes_trip[OF assms(1-3)] by (simp_all add: goes_def Let_def)
  show ?thesis
  proof (cases "\<exists>k r. x = Acquire w k r")
    case True
    then obtain k r where x: "x = Acquire w k r" by blast
    have live: "card (dom (lives t w ?d)) \<le> card (dom (lives t w db))"
      using g(2) by (auto simp: x live_change_def live_limit_def intro: card_mono)
    note a = acquire_effect(1)[OF slot_keysD[OF assms(1), of w] keys_differ(1) assms(2), where m = k and r = r]
    show ?thesis
    proof (cases "acquired c w k r t db \<and> slots c t w db r = None")
      case True
      then have "load c t w db < k"
        using a[THEN iffD1] by (simp add: acquired_def load_def slots_def lives_def)
      moreover have "card (dom (slots c t w ?d)) = card (dom (slots c t w db)) + 1"
        using True unfolding g(1) by (simp add: x domIff card_insert_if)
      ultimately show ?thesis using live assms(4) by (simp add: x load_def del: trip_effect.simps)
    next
      case False
      then have "dom (slots c t w ?d) = dom (slots c t w db)"
        unfolding g(1) by (auto simp: x insert_absorb domIff)
      then show ?thesis using live assms(5) by (simp add: load_def del: trip_effect.simps)
    qed
  next
    case False
    then have "dom (slots c t w ?d) \<subseteq> dom (slots c t w db)"
      unfolding g(1) by (cases x) (auto split: if_splits)
    then have regular: "card (dom (slots c t w ?d)) \<le> card (dom (slots c t w db))" by (intro card_mono) simp_all
    show ?thesis
    proof (cases "dom (lives t w ?d) \<subseteq> dom (lives t w db)")
      case True
      then have "card (dom (lives t w ?d)) \<le> card (dom (lives t w db))" by (intro card_mono) simp_all
      then show ?thesis using regular assms(5) by (simp add: load_def del: trip_effect.simps)
    next
      case False
      then obtain l n where l: "dom (lives t w ?d) = insert l (dom (lives t w db))" "live_limit x w = Some n" "unlimited x w \<or> load c t w db < n"
        using g(2) by (auto simp: live_change_def)
      have "\<not> unlimited x w" "n \<le> m"
        using assms(4) l(2) by (cases x; auto simp: live_limit_def unlimited_def split: if_splits)+
      then have "load c t w db < m" using l(3) by simp
      moreover have "card (dom (lives t w ?d)) \<le> card (dom (lives t w db)) + 1"
        unfolding l(1) by (simp add: card_insert_if)
      ultimately show ?thesis using regular by (simp add: load_def del: trip_effect.simps)
    qed
  qed
qed

lemma held_step: "held c w ((t, x) # es) db h = held c w es (trip_effect c x t db) (held c w [(t, x)] db h)"
  by simp

lemma sound_run:
  assumes "sound c p w t0 db h" "0 < slotTTLSeconds c" "timed t0 es" "list_all (\<lambda>e. one_process p (snd e)) es"
    "\<forall>e\<in>set es. fst e \<le> t" "t0 \<le> t"
  shows "sound c p w t (run_trips c es db) (held c w es db h)"
  using assms(1,3-6)
proof (induction es arbitrary: t0 db h)
  case (Cons e es)
  obtain t1 x where e: "e = (t1, x)" by force
  have "sound c p w t1 db h" using sound_later Cons.prems(1,2) e by simp
  then have "sound c p w t1 (trip_effect c x t1 db) (held c w [(t1, x)] db h)"
    using sound_trip assms(2) Cons.prems(2,3) e by simp
  then show ?case
    using Cons.IH[of t1 "trip_effect c x t1 db" "held c w [(t1, x)] db h"] Cons.prems(2-4)
    unfolding e held_step[of c w t1 x es] by (simp del: held.simps(2))
qed (simp add: sound_later)

lemma load_run:
  assumes "slot_keys c t0 db" "load c t0 w db \<le> m" "0 < slotTTLSeconds c" "timed t0 es" "list_all (\<lambda>e. within w m (snd e)) es"
    "\<forall>e\<in>set es. fst e \<le> t" "t0 \<le> t"
  shows "load c t w (run_trips c es db) \<le> m"
  using assms(1,2,4-7)
proof (induction es arbitrary: t0 db)
  case (Cons e es)
  obtain t1 x where e: "e = (t1, x)" by force
  have k: "slot_keys c t1 db" "load c t1 w db \<le> m"
    using Cons.prems(1-3) load_later[of t0 t1 c w db] using slot_keys_later[of c t0 db t1] by (simp_all add: e)
  have "slot_keys c t1 (trip_effect c x t1 db)" "load c t1 w (trip_effect c x t1 db) \<le> m"
    using goes_trip[OF k(1) assms(3)] load_trip[OF k(1) assms(3) _ _ k(2)] Cons.prems(3,4) by (simp_all add: e goes_def Let_def)
  then show ?case using Cons.IH[of t1 "trip_effect c x t1 db"] Cons.prems(3-5) by (simp add: e)
next
  case Nil
  then show ?case using load_later[of t0 t c w db] by simp
qed


lemma slot_keys_empty [simp]: "slot_keys c t empty_redis"
  by (simp add: slot_keys_def lease_key_def empty_redis_def)

lemma slots_empty [simp]: "slots c t w empty_redis = (\<lambda>_. None)" "lives t w empty_redis = (\<lambda>_. None)"
  by (simp_all add: slots_def lives_def leases_def empty_redis_def fun_eq_iff)

lemma sound_from_empty:
  assumes "0 < slotTTLSeconds c" "timed 0 es" "list_all (\<lambda>e. one_process p (snd e)) es" "list_all (\<lambda>e. fst e \<le> t) es" "0 \<le> t"
  shows "sound c p w t (run_trips c es empty_redis) (held c w es empty_redis (\<lambda>_. None))"
  using sound_run[of c p w 0 empty_redis "\<lambda>_. None" es t] assms
  by (simp add: sound_def list_all_iff unexpired_def fun_eq_iff)

text \<open>
  C2: The concurrency limit holds (repository/concurrency_cache.go). Whatever round trips
  are sent to an empty Redis, in whatever interleaving in the order of time, the unexpired slots that
  callers hold and the live leases together stay within the limit, provided that all slot ids and
  startup clean-ups are those of one process (with a second one the limit is broken, see below) and that no acquisition
  asks for more than the limit: a live lease asks for a positive limit, at most this one, counting
  one more when it replaces a slot.
\<close>
theorem concurrency_limit_kept:
  assumes "0 < slotTTLSeconds c" "timed 0 es" "list_all (\<lambda>e. fst e \<le> t) es" "0 \<le> t" "0 \<le> m"
    "list_all (\<lambda>e. one_process p (snd e)) es" "list_all (\<lambda>e. within w m (snd e)) es"
  shows "int (card (dom (unexpired c t (held c w es empty_redis (\<lambda>_. None))))
      + card (dom (lives t w (run_trips c es empty_redis)))) \<le> m"
proof -
  have "slots c t w (run_trips c es empty_redis) = unexpired c t (held c w es empty_redis (\<lambda>_. None))"
    using sound_from_empty[OF assms(1,2,6,3,4)] by (simp add: sound_def)
  moreover have "load c t w (run_trips c es empty_redis) \<le> m"
    using load_run[of c 0 empty_redis w m es t] assms by (simp add: load_def list_all_iff)
  ultimately show ?thesis by (simp add: load_def)
qed

definition busy_trace :: "(int \<times> trip) list" where
  "busy_trace = [(0, Acquire (Account 1) 2 ''p-1''), (500, Acquire (Account 1) 2 ''p-2''), (900, LiveAcquire 1 2 7 5 3 ''p-3'' False),
     (1000, Release (Account 1) ''p-1''), (1500, LiveAcquire 1 2 7 5 3 ''p-3'' False), (2000, Acquire (Account 1) 2 ''p-4'')]"

theorem concurrency_limit_kept_witness:
  "int (card (dom (unexpired (NewConcurrencyCache 15 0) 2000 (held (NewConcurrencyCache 15 0) (Account 1) busy_trace empty_redis (\<lambda>_. None))))
      + card (dom (lives 2000 (Account 1) (run_trips (NewConcurrencyCache 15 0) busy_trace empty_redis)))) \<le> 2"
  by (rule concurrency_limit_kept[where p = "''p-''"]) (simp_all add: NewConcurrencyCache_def busy_trace_def has_prefix_def)

text \<open>
  C10: No slot is lost and none is left over, for the slots and startup clean-ups of one process
  (one prefix of ids) and round trips in the order of time: the slots that count in Redis are exactly
  the slots that were granted, not released and younger than the slot's lifetime.
\<close>
theorem slots_are_the_holdings:
  assumes "0 < slotTTLSeconds c" "timed 0 es" "list_all (\<lambda>e. fst e \<le> t) es" "0 \<le> t" "list_all (\<lambda>e. one_process p (snd e)) es"
  shows "slots c t w (run_trips c es empty_redis) = unexpired c t (held c w es empty_redis (\<lambda>_. None))"
  using sound_from_empty[OF assms(1,2,5,3,4)] by (simp add: sound_def)

theorem slots_are_the_holdings_witness:
  "slots (NewConcurrencyCache 15 0) 900400 (Account 1) (run_trips (NewConcurrencyCache 15 0) busy_trace empty_redis) =
    unexpired (NewConcurrencyCache 15 0) 900400 (held (NewConcurrencyCache 15 0) (Account 1) busy_trace empty_redis (\<lambda>_. None))"
  by (rule slots_are_the_holdings[where p = "''p-''"]) (simp_all add: NewConcurrencyCache_def busy_trace_def has_prefix_def)

text \<open>With two processes the limit does not hold: each frees the slots of the other when it starts.\<close>

text \<open>
  C37: The startup cleanup of a second process frees the slots that a running process holds: the
  next request gets the only slot of the account or user while the first request still runs.
\<close>
theorem second_process_breaks_limit:
  assumes "0 < slotTTLSeconds c" "0 \<le> t" "t \<le> t'" "t' \<le> t''" "TIME t'' < TIME t + slotTTLSeconds c" "r \<noteq> r'" "\<not> has_prefix r p"
  shows "dom (unexpired c t'' (held c w [(t, Acquire w 1 r), (t', Startup w p), (t'', Acquire w 1 r')] empty_redis (\<lambda>_. None))) = {r, r'}"
proof -
  let ?a = "trip_effect c (Acquire w 1 r) t empty_redis"
  let ?b = "trip_effect c (Startup w p) t' ?a"
  have free: "acquired c w 1 q s db" if "slot_keys c s db" "slots c s w db = (\<lambda>_. None)" "lives s w db = (\<lambda>_. None)" for q s db
    using acquire_effect(1)[OF slot_keysD[OF that(1), of w] keys_differ(1) assms(1), where m = 1 and r = q] that(2,3)
    by (simp add: acquired_def slots_def lives_def)
  have one: "acquired c w 1 r t empty_redis" by (rule free) simp_all
  have a: "slot_keys c t' ?a" "dom (lives t w ?a) = {}" "dom (slots c t w ?a) = {r}"
    using goes_trip[of c t empty_redis "Acquire w 1 r"] assms(1,3) one slot_keys_later[of c t ?a t']
    by (auto simp: goes_def Let_def live_change_def live_limit_def simp del: trip_effect.simps)
  have later: "lives s' w db = (\<lambda>_. None)" if "dom (lives s w db) = {}" "s \<le> s'" for s s' db
    using that by (simp add: lives_def leases_later[of s s'])
  have a': "dom (lives t' w ?a) = {}" "dom (slots c t' w ?a) \<subseteq> {r}"
    using later[OF a(2) assms(3)] a(3) by (auto simp: slots_def leases_later[OF assms(3)] split: option.splits)
  have b: "slot_keys c t' ?b" "dom (lives t' w ?b) \<subseteq> dom (lives t' w ?a)" "slots c t' w ?b = (\<lambda>q. if has_prefix q p then slots c t' w ?a q else None)"
    using goes_trip[OF a(1) assms(1), of "Startup w p"]
    by (simp_all add: goes_def Let_def live_change_def live_limit_def del: trip_effect.simps)
  then have lb: "dom (lives t' w ?b) = {}" using a'(1) by blast
  have "slots c t' w ?b = (\<lambda>_. None)"
    using a'(2) assms(7) unfolding b(3) by (auto simp: fun_eq_iff)
  then have "slots c t'' w ?b = (\<lambda>_. None)" by (simp add: slots_def leases_later[OF assms(4)])
  then have two: "acquired c w 1 r' t'' ?b"
    using free[of t'' ?b r'] slot_keys_later[OF b(1) assms(4)] later[OF lb assms(4)] by blast
  then show ?thesis
    using one assms(1,5,6) by (auto simp: unexpired_def dom_def simp del: trip_effect.simps split: if_splits)
qed

theorem second_process_breaks_limit_witness:
  "dom (unexpired (NewConcurrencyCache 15 0) 2000 (held (NewConcurrencyCache 15 0) (User 4) [(0, Acquire (User 4) 1 ''ra-1''),
      (1000, Startup (User 4) ''rb''), (2000, Acquire (User 4) 1 ''rb-1'')] empty_redis (\<lambda>_. None))) = {''ra-1'', ''rb-1''}"
  by (rule second_process_breaks_limit) (simp_all add: NewConcurrencyCache_def TIME_def has_prefix_def)

end
