(* ===== verification/Concurrency_Waiting.thy ===== *)
theory Concurrency_Waiting
  imports Concurrency_Limit
begin

text \<open>
  The wait counters, the cleanup at startup and the active indexes of the concurrency cache
  (repository/concurrency_cache.go): bounds of the counters under any interleaving, what a startup
  cleanup leaves of other processes, and a race on the index.
\<close>

section \<open>The wait counters\<close>

definition waiting :: "int \<Rightarrow> holder \<Rightarrow> redis \<Rightarrow> int" where
  "waiting t w db = (case GET t (wait_key w) db of None \<Rightarrow> 0 | Some n \<Rightarrow> n)"

definition counter_within :: "int \<Rightarrow> string \<Rightarrow> redis \<Rightarrow> bool" where
  "counter_within m k db = (case counts db k of None \<Rightarrow> True | Some (n, _) \<Rightarrow> 0 \<le> n \<and> n \<le> m)"

lemma counts_refresh [simp]:
  "counts (fst (refresh_check t h l ks db)) = counts db" "counts (fold (grant_lease t l) ks db) = counts db"
  "counts (fold (\<lambda>m. ZREM t key m) ms db) = counts db"
proof -
  show "counts (fst (refresh_check t h l ks db)) = counts db" by (induction ks arbitrary: db) (simp_all add: Let_def)
  show "counts (fold (grant_lease t l) ks db) = counts db" by (induction ks arbitrary: db) simp_all
  show "counts (fold (\<lambda>m. ZREM t key m) ms db) = counts db" by (induction ms arbitrary: db) simp_all
qed

lemma counts_other [simp]:
  "k' \<noteq> k \<Longrightarrow> counts (DEL k db) k' = counts db k'" "k' \<noteq> k \<Longrightarrow> counts (INCRBY t k n db) k' = counts db k'"
  "k' \<noteq> k \<Longrightarrow> counts (EXPIRE_counter t k n db) k' = counts db k'" "k' \<noteq> k \<Longrightarrow> counts (SET k n db) k' = counts db k'"
  by (simp_all add: DEL_def INCRBY_def EXPIRE_counter_def SET_def)

lemma marker_not_wait [simp]: "wait_key w \<noteq> legacyWaitSweepMarkerKey"
  by (cases w) (simp_all add: holder_keys key_defs legacyWaitSweepMarkerKey_def)

fun waits_within :: "holder \<Rightarrow> int \<Rightarrow> trip \<Rightarrow> bool" where
  "waits_within w m (Wait v n) = (v = w \<longrightarrow> n \<le> m)"
| "waits_within w m _ = True"

lemma counter_wait:
  assumes "counter_within m k db" "n \<le> m"
  shows "counter_within m k (fst (incrementWaitScript k n ttl t db))" "counter_within m k (fst (decrementWaitScript k t db))"
  using assms
  by (auto simp: counter_within_def incrementWaitScript_def decrementWaitScript_def GET_def INCRBY_def EXPIRE_counter_def alive_def Let_def
      split: option.splits)

lemma counter_trip:
  assumes "counter_within m (wait_key w) db" "waits_within w m x"
  shows "counter_within m (wait_key w) (trip_effect c x t db)"
proof -
  have same: "counter_within m (wait_key w) db'" if "counts db' (wait_key w) = counts db (wait_key w)" for db'
    using assms(1) that by (simp add: counter_within_def)
  show ?thesis
  proof (cases x)
    case (Wait v n)
    then show ?thesis using counter_wait(1)[OF assms(1), of n] assms(2) same[of "trip_effect c x t db"]
      by (cases "v = w") (simp_all add: incrementWaitScript_def Let_def)
  next
    case (Unwait v)
    then show ?thesis using counter_wait(2)[OF assms(1) order_refl] same[of "trip_effect c x t db"]
      by (cases "v = w") (simp_all add: decrementWaitScript_def split: option.split)
  next
    case (DropWait v)
    then show ?thesis using same[of "trip_effect c x t db"] by (cases "v = w") (simp_all add: counter_within_def DEL_def)
  next
    case Sweep
    then show ?thesis using assms(1) by (simp add: counter_within_def DEL_prefix_def)
  qed (rule same; simp add: acquireScript_def getCountScript_def acquireLiveLeaseScript_def refreshLiveLeaseScript_def trackSlotScript_def
      acquireOpenAIWSIngressLeaseScript_def refreshOpenAIWSIngressLeaseScript_def read_load_def cleanupExpiredSlotsScript_def
      startupCleanupSlotScript_def case_prod_unfold Let_def)+
qed

text \<open>
  C23: The number of waiting requests of an account or user (repository/concurrency_cache.go) never
  falls below zero and never passes the queue limit, whatever round trips come in whatever order and
  whichever counters expire in between.
\<close>
theorem wait_count_bounded:
  assumes "list_all (\<lambda>e. waits_within w m (snd e)) es" "0 \<le> m"
  shows "0 \<le> waiting t w (run_trips c es empty_redis) \<and> waiting t w (run_trips c es empty_redis) \<le> m"
proof -
  have "counter_within m (wait_key w) (run_trips c es db)" if "counter_within m (wait_key w) db" for db
    using that assms(1) by (induction c es db rule: run_trips.induct) (simp_all add: counter_trip del: trip_effect.simps)
  then have "counter_within m (wait_key w) (run_trips c es empty_redis)" by (simp add: counter_within_def empty_redis_def)
  then show ?thesis
    using assms(2) by (auto simp: counter_within_def waiting_def GET_def alive_def split: option.splits)
qed


theorem wait_count_bounded_witness:
  "0 \<le> waiting 5000 (User 3) (run_trips (NewConcurrencyCache 15 0) [(0, Wait (User 3) 1), (10, Wait (User 3) 1), (20, Unwait (User 3)),
      (30, Unwait (User 3)), (40, Wait (User 3) 1)] empty_redis)
   \<and> waiting 5000 (User 3) (run_trips (NewConcurrencyCache 15 0) [(0, Wait (User 3) 1), (10, Wait (User 3) 1), (20, Unwait (User 3)),
      (30, Unwait (User 3)), (40, Wait (User 3) 1)] empty_redis) \<le> 1"
  by (rule wait_count_bounded) simp_all

section \<open>The cleanup at startup\<close>

definition only_from :: "string \<Rightarrow> string \<Rightarrow> redis \<Rightarrow> bool" where
  "only_from p k db = (case sets db k of None \<Rightarrow> True | Some (z, _) \<Rightarrow> list_all (\<lambda>e. has_prefix (fst e) p) z)"

text \<open>The slots and the waiters of an id of an index come from the process with the prefix.\<close>

definition cleaned :: "slotIndexSpec \<Rightarrow> string \<Rightarrow> int \<Rightarrow> redis \<Rightarrow> bool" where
  "cleaned spec p i db \<longleftrightarrow> only_from p (slotKey spec i) db \<and> counts db (waitKey spec i) = None"

lemma members_ZREM: "members t k (ZREM t k m db) = filter (\<lambda>e. fst e \<noteq> m) (members t k db)"
  by (auto simp: members_def ZREM_def put_members_def alive_def split: option.splits)

lemma members_fold_ZREM: "members t k (fold (\<lambda>m. ZREM t k m) ms db) = filter (\<lambda>e. fst e \<notin> set ms) (members t k db)"
  by (induction ms arbitrary: db) (auto simp: members_ZREM intro: filter_cong)

lemma sets_fold_ZREM: "k' \<noteq> k \<Longrightarrow> sets (fold (\<lambda>m. ZREM t k m) ms db) k' = sets db k'"
  by (induction ms arbitrary: db) simp_all

lemma startup_script:
  fixes p :: string
  defines "run \<equiv> \<lambda>key ttl t db. fst (startupCleanupSlotScript key p ttl t db)"
  shows "only_from p key (run key ttl t db)"
    and "k \<noteq> key \<Longrightarrow> sets (run key ttl t db) k = sets db k"
    and "counts db k = None \<Longrightarrow> counts (run key ttl t db) k = None"
proof -
  let ?d = "fold (\<lambda>m. ZREM t key m) (filter (\<lambda>m. \<not> has_prefix m p) (ZRANGE t key db)) db"
  have run: "run key ttl t db = (if members t key ?d = [] then DEL key ?d else EXPIRE t key ttl ?d)"
    by (simp add: run_def startupCleanupSlotScript_def Let_def ZCARD_def)
  have "list_all (\<lambda>e. has_prefix (fst e) p) (members t key ?d)"
    by (auto simp: members_fold_ZREM ZRANGE_def list_all_iff)
  moreover have "sets (EXPIRE t key ttl ?d) key = None \<or> (\<exists>x. sets (EXPIRE t key ttl ?d) key = Some (members t key ?d, x))"
    by (auto simp: EXPIRE_def members_def split: option.split)
  ultimately show "only_from p key (run key ttl t db)"
    by (auto simp: run only_from_def DEL_def)
  show "k \<noteq> key \<Longrightarrow> sets (run key ttl t db) k = sets db k" by (simp add: run sets_fold_ZREM)
  show "counts db k = None \<Longrightarrow> counts (run key ttl t db) k = None" by (simp add: run DEL_def)
qed

text \<open>A step of a phase keeps what is clean, and touches only the keys of its index.\<close>

definition phase_keys :: "slotIndexSpec \<Rightarrow> string set" where
  "phase_keys spec = insert (indexKey spec) (range (slotKey spec) \<union> range (waitKey spec))"

definition distinct_spec :: "slotIndexSpec \<Rightarrow> bool" where
  "distinct_spec spec \<longleftrightarrow> (\<forall>i j. slotKey spec i \<noteq> waitKey spec j \<and> (slotKey spec i = slotKey spec j \<longrightarrow> i = j)
     \<and> slotKey spec i \<noteq> indexKey spec)"

lemma only_from_same: "sets db' k = sets db k \<Longrightarrow> only_from p k db' = only_from p k db"
  by (simp add: only_from_def)

lemma cleaned_DEL: "distinct_spec spec \<Longrightarrow> cleaned spec p i db \<Longrightarrow> cleaned spec p i (DEL (waitKey spec j) db)"
  by (simp add: cleaned_def distinct_spec_def only_from_def DEL_def)

lemma cleaned_script:
  assumes "distinct_spec spec" "cleaned spec p i db"
  shows "cleaned spec p i (fst (startupCleanupSlotScript (slotKey spec j) p ttl t db))"
proof (cases "i = j")
  case True
  then show ?thesis using assms(2) startup_script(1)[where p = p] startup_script(3)[where p = p] by (simp add: cleaned_def)
next
  case False
  then have "slotKey spec i \<noteq> slotKey spec j" using assms(1) unfolding distinct_spec_def by blast
  then show ?thesis using assms(2) only_from_same[OF startup_script(2)] startup_script(3)[of db] by (simp add: cleaned_def)
qed

lemma at_Some: "at m f db = (db', Some r) \<Longrightarrow> db' = fst (f (fst m) db) \<and> r = snd (f (fst m) db)"
  by (cases m; cases "snd m") (auto simp: at_def split: prod.splits)

lemma startup_members_Cons:
  assumes "startup_members c spec p M n (m # ms) db = (db', Some r)"
  obtains db1 r1 where "startup_members c spec p M (n + 1) ms db1 = (db', Some r1)"
    and "index_id m = None \<and> db1 = db \<or> (\<exists>i. index_id m = Some i \<and>
      db1 = DEL (waitKey spec i) (fst (startupCleanupSlotScript (slotKey spec i) p (slotTTLSeconds c) (fst (M (2 * n))) db)))"
proof (cases "index_id m")
  case None
  with assms obtain r1 where "startup_members c spec p M (n + 1) ms db = (db', Some r1)"
    by (auto simp: Let_def split: prod.splits)
  then show thesis using that None by blast
next
  case (Some i)
  obtain dbs a where s: "at (M (2 * n)) (startupCleanupSlotScript (slotKey spec i) p (slotTTLSeconds c)) db = (dbs, a)" by fastforce
  with assms Some obtain x rem where a: "a = Some (x, rem)" by (cases a) (auto split: option.splits)
  obtain dbd b where d: "at (M (2 * n + 1)) (quietly (\<lambda>t. DEL (waitKey spec i))) dbs = (dbd, b)" by fastforce
  with assms Some s a have b: "b = Some ()" by (cases b) auto
  with assms Some s a d obtain r1 where "startup_members c spec p M (n + 1) ms dbd = (db', Some r1)"
    by (auto simp: Let_def split: prod.splits)
  moreover have "dbd = DEL (waitKey spec i) (fst (startupCleanupSlotScript (slotKey spec i) p (slotTTLSeconds c) (fst (M (2 * n))) db))"
    using at_Some[OF s[unfolded a]] at_Some[OF d[unfolded b]] by (simp add: quietly_def)
  ultimately show thesis using that Some by blast
qed

lemma startup_members_clean:
  assumes "distinct_spec spec" "startup_members c spec p M n ms db = (db', Some r)"
  shows "(\<forall>i. cleaned spec p i db \<longrightarrow> cleaned spec p i db')
    \<and> (\<forall>m i. m \<in> set ms \<longrightarrow> index_id m = Some i \<longrightarrow> cleaned spec p i db')
    \<and> (\<forall>k. k \<notin> phase_keys spec \<longrightarrow> sets db' k = sets db k)
    \<and> (\<forall>k. counts db k = None \<longrightarrow> counts db' k = None)"
  using assms(2)
proof (induction ms arbitrary: n db r)
  case (Cons m ms)
  from Cons.prems obtain db1 r1 where rest: "startup_members c spec p M (n + 1) ms db1 = (db', Some r1)"
    and step: "index_id m = None \<and> db1 = db \<or> (\<exists>i. index_id m = Some i \<and>
      db1 = DEL (waitKey spec i) (fst (startupCleanupSlotScript (slotKey spec i) p (slotTTLSeconds c) (fst (M (2 * n))) db)))"
    by (rule startup_members_Cons)
  have "(\<forall>i. cleaned spec p i db \<longrightarrow> cleaned spec p i db1) \<and> (\<forall>i. index_id m = Some i \<longrightarrow> cleaned spec p i db1)
      \<and> (\<forall>k. k \<notin> phase_keys spec \<longrightarrow> sets db1 k = sets db k) \<and> (\<forall>k. counts db k = None \<longrightarrow> counts db1 k = None)"
    using step
  proof (elim disjE exE conjE)
    fix i assume i: "index_id m = Some i"
      and db1: "db1 = DEL (waitKey spec i) (fst (startupCleanupSlotScript (slotKey spec i) p (slotTTLSeconds c) (fst (M (2 * n))) db))"
    have "cleaned spec p i db1"
      using assms(1) startup_script(1)[of p "slotKey spec i"] by (simp add: db1 cleaned_def distinct_spec_def only_from_def DEL_def)
    moreover have "\<forall>j. cleaned spec p j db \<longrightarrow> cleaned spec p j db1"
      unfolding db1 using cleaned_DEL[OF assms(1)] cleaned_script[OF assms(1)] by blast
    moreover have "sets db1 k = sets db k" if "k \<notin> phase_keys spec" for k
    proof -
      have "k \<noteq> slotKey spec i" "k \<noteq> waitKey spec i" using that by (auto simp: phase_keys_def)
      then show ?thesis using startup_script(2)[of k "slotKey spec i"] by (simp add: db1)
    qed
    moreover have "counts db1 k = None" if "counts db k = None" for k
      using that startup_script(3)[of db k] by (simp add: db1 DEL_def)
    ultimately show ?thesis using i by simp
  qed auto
  with Cons.IH[OF rest] show ?case by (metis set_ConsD)
qed simp


lemma write_back_keeps:
  "k \<noteq> ik \<Longrightarrow> sets (write_back ik new old m1 m2 db) k = sets db k" "counts (write_back ik new old m1 m2 db) = counts db"
proof -
  have add: "k \<noteq> ik \<Longrightarrow> sets (add_all t ik ps d) k = sets d k" "counts (add_all t ik ps d) = counts d" for t ps d
    unfolding add_all_def by (induction ps arbitrary: d) auto
  have rem: "k \<noteq> ik \<Longrightarrow> sets (fold (ZREM t ik) ms d) k = sets d k" "counts (fold (ZREM t ik) ms d) = counts d" for t ms d
    by (induction ms arbitrary: d) auto
  show "k \<noteq> ik \<Longrightarrow> sets (write_back ik new old m1 m2 db) k = sets db k" "counts (write_back ik new old m1 m2 db) = counts db"
    using add rem by (cases "snd m1"; cases "snd m2"; simp add: write_back_def removeActiveIndexMembers_def at_def quietly_def)+
qed

lemma startup_index_clean:
  assumes "distinct_spec spec" "startup_index c spec p now m0 M m1 m2 db = (db', Some u)"
  shows "(\<forall>i. cleaned spec p i db \<longrightarrow> cleaned spec p i db')
    \<and> (\<forall>m i. m \<in> set (ZRANGE (fst m0) (indexKey spec) db) \<longrightarrow> index_id m = Some i \<longrightarrow> cleaned spec p i db')
    \<and> (\<forall>k. k \<notin> phase_keys spec \<longrightarrow> sets db' k = sets db k)
    \<and> (\<forall>k. counts db k = None \<longrightarrow> counts db' k = None)"
proof -
  obtain dbi ms where i: "at m0 (\<lambda>t db. (db, ZRANGE t (indexKey spec) db)) db = (dbi, Some ms)"
    using assms(2) by (auto simp: startup_index_def split: prod.splits option.splits)
  then have dbi: "dbi = db" "ms = ZRANGE (fst m0) (indexKey spec) db" using at_Some[OF i] by simp_all
  obtain dbs used stale where s: "startup_members c spec p M 0 ms db = (dbs, Some (used, stale))"
    and db': "db' = write_back (indexKey spec) (map (\<lambda>m. (m, now + slotTTLSeconds c)) used) stale m1 m2 dbs"
    using assms(2) i dbi by (auto simp: startup_index_def cleanupStaleProcessSlotsForIndex_def split: prod.splits option.splits)
  note c = startup_members_clean[OF assms(1) s]
  have keep: "cleaned spec p i dbs \<Longrightarrow> cleaned spec p i db'" for i
    using assms(1) only_from_same[OF write_back_keeps(1)] by (simp add: cleaned_def db' distinct_spec_def write_back_keeps(2))
  have "sets db' k = sets dbs k" if "k \<notin> phase_keys spec" for k
    using that write_back_keeps(1)[of k "indexKey spec"] by (auto simp: db' phase_keys_def)
  then show ?thesis using c keep dbi by (simp add: db' write_back_keeps(2))
qed

lemma specs_distinct: "distinct_spec accountSlotIndex" "distinct_spec userSlotIndex"
  by (simp_all add: distinct_spec_def accountSlotIndex_def userSlotIndex_def key_defs digits_inj decimal_not_name)

lemma sweep_keeps:
  assumes "sweepLegacyWaitKeysOnce m1 m2 m3 m4 db = (db', Some u)"
  shows "\<not> has_prefix k ''wait:account:'' \<Longrightarrow> \<not> has_prefix k ''concurrency:wait:'' \<Longrightarrow> sets db' k = sets db k"
proof -
  assume k: "\<not> has_prefix k ''wait:account:''" "\<not> has_prefix k ''concurrency:wait:''"
  have keep: "sets (fst (at m (quietly (\<lambda>t. DEL_prefix q)) d)) k = sets d k" if "\<not> has_prefix k q" for m q d
    using that by (cases "snd m") (simp_all add: at_def quietly_def DEL_prefix_def)
  have mark: "sets (fst (at m (quietly (\<lambda>t. SET x v)) d)) k = sets d k" for m x v d
    by (cases "snd m") (simp_all add: at_def quietly_def)
  have look: "fst (at m (\<lambda>t d. (d, P t d)) d) = d" for m and P :: "int \<Rightarrow> redis \<Rightarrow> bool" and d
    by (cases "snd m") (simp_all add: at_def)
  obtain d1 o1 where s1: "at m1 (\<lambda>t db. (db, GET t legacyWaitSweepMarkerKey db \<noteq> None)) db = (d1, o1)" by fastforce
  obtain d2 o2 where s2: "at m2 (quietly (\<lambda>t. DEL_prefix ''wait:account:'')) d1 = (d2, o2)" by fastforce
  obtain d3 o3 where s3: "at m3 (quietly (\<lambda>t. DEL_prefix ''concurrency:wait:'')) d2 = (d3, o3)" by fastforce
  obtain d4 o4 where s4: "at m4 (quietly (\<lambda>t. SET legacyWaitSweepMarkerKey 1)) d3 = (d4, o4)" by fastforce
  have steps: "d1 = db" "sets d2 k = sets d1 k" "sets d3 k = sets d2 k" "sets d4 k = sets d3 k"
    using arg_cong[OF s1, of fst] look keep[OF k(1), of m2 d1] keep[OF k(2), of m3 d2] mark[of m4 legacyWaitSweepMarkerKey 1 d3] s2 s3 s4 by simp_all
  have "db' = d1 \<or> db' = d4"
    using assms s1 s2 s3 s4 by (simp add: sweepLegacyWaitKeysOnce_def split: option.splits bool.splits)
  then show "sets db' k = sets db k" using steps by auto
qed

lemma ZRANGE_same: "sets db' k = sets db k \<Longrightarrow> ZRANGE t k db' = ZRANGE t k db"
proof -
  assume "sets db' k = sets db k"
  from sets_same(3)[OF this, of t] show ?thesis by (simp add: ZRANGE_def)
qed

lemma phases_apart:
  "userActiveIndexKey \<notin> phase_keys accountSlotIndex" "accountSlotKey i \<notin> phase_keys userSlotIndex"
  by (auto simp: phase_keys_def accountSlotIndex_def userSlotIndex_def key_defs)

text \<open>
  C22: When the startup cleanup returns without an error (repository/concurrency_cache.go), every
  account and user of the active indexes has only slots of the starting process and no waiter left.
\<close>
theorem startup_cleanup_leaves_own_slots:
  assumes "CleanupStaleProcessSlots c p S db = (db', Some u)" "p \<noteq> []"
  shows "(\<forall>m i. m \<in> set (ZRANGE (fst (sm_index S 0)) accountActiveIndexKey db) \<longrightarrow> index_id m = Some i \<longrightarrow> cleaned accountSlotIndex p i db')
    \<and> (\<forall>m i. m \<in> set (ZRANGE (fst (sm_index S 1)) userActiveIndexKey db) \<longrightarrow> index_id m = Some i \<longrightarrow> cleaned userSlotIndex p i db')"
proof -
  obtain db1 u1 now dbt db2 u2 where sweep: "sweepLegacyWaitKeysOnce (sm_sweep S 0) (sm_sweep S 1) (sm_sweep S 2) (sm_sweep S 3) db = (db1, Some u1)"
    and time: "at (sm_time S) (\<lambda>t db. (db, TIME t)) db1 = (dbt, Some now)"
    and accounts: "startup_index c accountSlotIndex p now (sm_index S 0) (sm_members S 0) (sm_write S 0) (sm_write S 1) dbt = (db2, Some u2)"
    and users: "startup_index c userSlotIndex p now (sm_index S 1) (sm_members S 1) (sm_write S 2) (sm_write S 3) db2 = (db', Some u)"
    using assms by (auto simp: CleanupStaleProcessSlots_def split: prod.splits option.splits)
  have dbt: "dbt = db1" using at_Some[OF time] by simp
  note a = startup_index_clean[OF specs_distinct(1) accounts, unfolded dbt] and us = startup_index_clean[OF specs_distinct(2) users]
  have index: "sets db1 accountActiveIndexKey = sets db accountActiveIndexKey" "sets db1 userActiveIndexKey = sets db userActiveIndexKey"
    by (rule sweep_keeps[OF sweep]; simp add: key_defs has_prefix_def)+
  have ui: "sets db2 userActiveIndexKey = sets db userActiveIndexKey" using a phases_apart(1) index(2) by metis
  have keep: "cleaned accountSlotIndex p i db2 \<Longrightarrow> cleaned accountSlotIndex p i db'" for i
    using us phases_apart(2)[of i] only_from_same[of db' "accountSlotKey i" db2 p]
    by (simp add: cleaned_def accountSlotIndex_def)
  show ?thesis
    using a us keep ZRANGE_same[OF index(1)] ZRANGE_same[OF ui] by (simp add: accountSlotIndex_def[THEN arg_cong[where f = indexKey]]
        userSlotIndex_def[THEN arg_cong[where f = indexKey]])
qed


definition restart_state :: redis where
  "restart_state = \<lparr>sets = [accountSlotKey 1 \<mapsto> ([(''ra-1'', 2), (''rb-1'', 3)], Some 902000), accountActiveIndexKey \<mapsto> ([(''1'', 902)], None)],
     counts = [accountWaitKey 1 \<mapsto> (4, Some 902000)]\<rparr>"

definition restart_moments :: startup_moments where
  "restart_moments = \<lparr>sm_sweep = (\<lambda>_. (5000, Fine)), sm_time = (5000, Fine), sm_index = (\<lambda>_. (5000, Fine)),
     sm_members = (\<lambda>_ _. (5000, Fine)), sm_write = (\<lambda>_. (5000, Fine))\<rparr>"

lemma restart_returns: "snd (CleanupStaleProcessSlots (NewConcurrencyCache 15 0) ''rb-'' restart_moments restart_state) = Some ()"
  by code_simp

lemma restart_index: "ZRANGE 5000 accountActiveIndexKey restart_state = [''1'']"
  by code_simp

lemma restart_moment: "fst (sm_index restart_moments n) = 5000"
  by (simp add: restart_moments_def)

lemma restart_id: "index_id ''1'' = Some 1"
  by code_simp

theorem startup_cleanup_leaves_own_slots_witness:
  "cleaned accountSlotIndex ''rb-'' 1 (fst (CleanupStaleProcessSlots (NewConcurrencyCache 15 0) ''rb-'' restart_moments restart_state))"
proof -
  have "CleanupStaleProcessSlots (NewConcurrencyCache 15 0) ''rb-'' restart_moments restart_state =
      (fst (CleanupStaleProcessSlots (NewConcurrencyCache 15 0) ''rb-'' restart_moments restart_state), Some ())"
    using restart_returns by (metis prod.collapse)
  from startup_cleanup_leaves_own_slots[OF this] show ?thesis
    by (simp add: restart_index restart_moment restart_id)
qed


section \<open>A race on the active index\<close>

text \<open>
  One request gives back the last slot of an account and reads that it is idle; another request takes
  a slot and enters the account into the index; then the first one deletes the account's entry.
\<close>

definition release_races_acquire :: "(int \<times> trip) list" where
  "release_races_acquire = [(1000, Acquire (Account 1) 2 ''ra-1''), (1000, AddIndex (Account 1) ''1'' 901),
     (2000, Release (Account 1) ''ra-1''), (2000, ReadLoad (Account 1) 2),
     (2001, Acquire (Account 1) 2 ''ra-2''), (2002, AddIndex (Account 1) ''1'' 902), (2003, DropIndex (Account 1) ''1'')]"

text \<open>
  A busy account can drop out of the active index (refreshActiveIndex against AcquireAccountSlot
  in repository/concurrency_cache.go), and then the startup cleanup of the next process does not
  see the slot that a dead process left behind: it still counts against the account.
\<close>
theorem startup_cleanup_misses_unindexed_slot:
  "snd (CleanupStaleProcessSlots (NewConcurrencyCache 15 0) ''rb-'' restart_moments
     (run_trips (NewConcurrencyCache 15 0) release_races_acquire empty_redis)) = Some ()
   \<and> slots (NewConcurrencyCache 15 0) 5000 (Account 1) (fst (CleanupStaleProcessSlots (NewConcurrencyCache 15 0) ''rb-'' restart_moments
     (run_trips (NewConcurrencyCache 15 0) release_races_acquire empty_redis))) ''ra-2'' = Some 2"
  by code_simp

end
