(* ===== verification/Concurrency_Service.thy ===== *)
theory Concurrency_Service
  imports Concurrency_Waiting "HOL-Library.Word"
begin

text \<open>
  The concurrency service (service/concurrency_service.go): the interface it has to the cache, what it
  does with every answer of the cache, errors included, the ids of its requests, its short-lived
  cache of account loads, and the WebSocket ingress lease.

  \<^item> The cache is a record of functions, or None where the code has nil; an operation answers None
    for an error.
  \<^item> A release function is a value that says what to release.
  \<^item> The prefix of the process is a parameter; the SHA-256 digest of a load batch is a parameter.
\<close>

section \<open>The interface to the cache\<close>

record 's ConcurrencyCache =
  cc_AcquireAccountSlot :: "int \<Rightarrow> int \<Rightarrow> string \<Rightarrow> 's \<Rightarrow> 's \<times> bool option"
  cc_ReleaseAccountSlot :: "int \<Rightarrow> string \<Rightarrow> 's \<Rightarrow> 's \<times> unit option"
  cc_AcquireUserSlot :: "int \<Rightarrow> int \<Rightarrow> string \<Rightarrow> 's \<Rightarrow> 's \<times> bool option"
  cc_ReleaseUserSlot :: "int \<Rightarrow> string \<Rightarrow> 's \<Rightarrow> 's \<times> unit option"
  cc_GetAccountConcurrencyBatch :: "int list \<Rightarrow> 's \<Rightarrow> 's \<times> (int \<times> int) list option"
  cc_IncrementAccountWaitCount :: "int \<Rightarrow> int \<Rightarrow> 's \<Rightarrow> 's \<times> bool option"
  cc_DecrementAccountWaitCount :: "int \<Rightarrow> 's \<Rightarrow> 's \<times> unit option"
  cc_GetAccountWaitingCount :: "int \<Rightarrow> 's \<Rightarrow> 's \<times> int option"
  cc_IncrementWaitCount :: "int \<Rightarrow> int \<Rightarrow> 's \<Rightarrow> 's \<times> bool option"
  cc_DecrementWaitCount :: "int \<Rightarrow> 's \<Rightarrow> 's \<times> unit option"
  cc_GetAccountsLoadBatch :: "AccountWithConcurrency list \<Rightarrow> 's \<Rightarrow> 's \<times> (int \<times> AccountLoadInfo) list option"
  cc_GetUsersLoadBatch :: "AccountWithConcurrency list \<Rightarrow> 's \<Rightarrow> 's \<times> (int \<times> AccountLoadInfo) list option"
  cc_CleanupExpiredAccountSlots :: "int \<Rightarrow> 's \<Rightarrow> 's \<times> unit option"
  cc_CleanupStaleProcessSlots :: "string \<Rightarrow> 's \<Rightarrow> 's \<times> unit option"
  cc_TrackAPIKeySlot :: "int \<Rightarrow> string \<Rightarrow> 's \<Rightarrow> 's \<times> unit option"
  cc_ReleaseAPIKeySlot :: "int \<Rightarrow> string \<Rightarrow> 's \<Rightarrow> 's \<times> unit option"
  cc_GetAPIKeyConcurrencyBatch :: "int list \<Rightarrow> 's \<Rightarrow> 's \<times> (int \<times> int) list option"
  cc_AcquireOpenAIWSIngressLease :: "int \<Rightarrow> int \<Rightarrow> string \<Rightarrow> 's \<Rightarrow> 's \<times> bool option"
  cc_RefreshOpenAIWSIngressLease :: "int \<Rightarrow> string \<Rightarrow> 's \<Rightarrow> 's \<times> bool option"
  cc_ReleaseOpenAIWSIngressLease :: "int \<Rightarrow> string \<Rightarrow> 's \<Rightarrow> 's \<times> unit option"

text \<open>The process: its request counter, its cache of account loads and the state behind the cache.\<close>

type_synonym load_map = "(int, AccountLoadInfo) amap"

record cachedAccountLoadBatch =
  cb_loadMap :: load_map
  cb_expiresAt :: instant

record 's ConcurrencyService =
  requestIDCounter :: "64 word"
  accountLoadCacheTTL :: duration
  accountLoadCache :: "(string, cachedAccountLoadBatch) amap"
  behind :: 's

section \<open>Ids of requests\<close>

fun base36_digit :: "nat \<Rightarrow> char" where
  "base36_digit d = byte (if d < 10 then 48 + d else 87 + d)"

text \<open>FormatUint in base 36.\<close>

fun FormatUint36 :: "nat \<Rightarrow> string" where
  "FormatUint36 n = (if n < 36 then [base36_digit n] else FormatUint36 (n div 36) @ [base36_digit (n mod 36)])"

declare FormatUint36.simps [simp del] base36_digit.simps [simp del]

definition generateRequestID :: "string \<Rightarrow> 's ConcurrencyService \<Rightarrow> 's ConcurrencyService \<times> string" where
  "generateRequestID requestIDPrefix s =
     (let seq = requestIDCounter s + 1
      in (s\<lparr>requestIDCounter := seq\<rparr>, requestIDPrefix @ ''-'' @ FormatUint36 (unat seq)))"

text \<open>A call of the cache.\<close>

definition via :: "('s \<Rightarrow> 's \<times> 'r) \<Rightarrow> 's ConcurrencyService \<Rightarrow> 's ConcurrencyService \<times> 'r" where
  "via f s = (let (b, r) = f (behind s) in (s\<lparr>behind := b\<rparr>, r))"

section \<open>Slots\<close>

datatype ReleaseFunc = NoRelease | ReleaseAccount int string | ReleaseUser int string | ReleaseKeySlot int string

datatype AcquireResult = NotAcquired | Acquired ReleaseFunc

text \<open>An error of a release is logged and otherwise ignored.\<close>

fun run_release :: "'s ConcurrencyCache \<Rightarrow> ReleaseFunc \<Rightarrow> 's ConcurrencyService \<Rightarrow> 's ConcurrencyService" where
  "run_release cache NoRelease s = s"
| "run_release cache (ReleaseAccount i r) s = fst (via (cc_ReleaseAccountSlot cache i r) s)"
| "run_release cache (ReleaseUser i r) s = fst (via (cc_ReleaseUserSlot cache i r) s)"
| "run_release cache (ReleaseKeySlot i r) s = fst (via (cc_ReleaseAPIKeySlot cache i r) s)"

definition svc_AcquireAccountSlot :: "'s ConcurrencyCache \<Rightarrow> string \<Rightarrow> int \<Rightarrow> int \<Rightarrow> 's ConcurrencyService
    \<Rightarrow> 's ConcurrencyService \<times> AcquireResult option" where
  "svc_AcquireAccountSlot cache p accountID maxConcurrency s =
     (if maxConcurrency \<le> 0 then (s, Some (Acquired NoRelease))
      else (let (s, requestID) = generateRequestID p s;
                (s, acquired) = via (cc_AcquireAccountSlot cache accountID maxConcurrency requestID) s
            in (s, case acquired of
                     None \<Rightarrow> None
                   | Some b \<Rightarrow> Some (if b then Acquired (ReleaseAccount accountID requestID) else NotAcquired))))"

definition svc_AcquireUserSlot :: "'s ConcurrencyCache \<Rightarrow> string \<Rightarrow> int \<Rightarrow> int \<Rightarrow> 's ConcurrencyService
    \<Rightarrow> 's ConcurrencyService \<times> AcquireResult option" where
  "svc_AcquireUserSlot cache p userID maxConcurrency s =
     (if maxConcurrency \<le> 0 then (s, Some (Acquired NoRelease))
      else (let (s, requestID) = generateRequestID p s;
                (s, acquired) = via (cc_AcquireUserSlot cache userID maxConcurrency requestID) s
            in (s, case acquired of
                     None \<Rightarrow> None
                   | Some b \<Rightarrow> Some (if b then Acquired (ReleaseUser userID requestID) else NotAcquired))))"

text \<open>Slots of API keys only count requests: an error leaves the request alone.\<close>

definition svc_TrackAPIKeySlot :: "'s ConcurrencyCache option \<Rightarrow> string \<Rightarrow> int \<Rightarrow> 's ConcurrencyService
    \<Rightarrow> 's ConcurrencyService \<times> ReleaseFunc" where
  "svc_TrackAPIKeySlot cache p apiKeyID s =
     (case cache of
        None \<Rightarrow> (s, NoRelease)
      | Some cache \<Rightarrow>
          (if apiKeyID \<le> 0 then (s, NoRelease)
           else (let (s, requestID) = generateRequestID p s;
                     (s, r) = via (cc_TrackAPIKeySlot cache apiKeyID requestID) s
                 in (s, if r = None then NoRelease else ReleaseKeySlot apiKeyID requestID))))"

definition zeroAPIKeyConcurrencyMap :: "int list \<Rightarrow> (int, int) amap" where
  "zeroAPIKeyConcurrencyMap apiKeyIDs = fold (\<lambda>i. aput i 0) apiKeyIDs []"

definition svc_GetAPIKeyConcurrencyBatch :: "'s ConcurrencyCache option \<Rightarrow> int list \<Rightarrow> 's ConcurrencyService
    \<Rightarrow> 's ConcurrencyService \<times> (int, int) amap" where
  "svc_GetAPIKeyConcurrencyBatch cache apiKeyIDs s =
     (let result = zeroAPIKeyConcurrencyMap apiKeyIDs
      in case cache of
           None \<Rightarrow> (s, result)
         | Some cache \<Rightarrow>
             (if apiKeyIDs = [] then (s, result)
              else (let (s, found) = via (cc_GetAPIKeyConcurrencyBatch cache apiKeyIDs) s
                    in (s, case found of
                             None \<Rightarrow> result
                           | Some found \<Rightarrow> fold (\<lambda>i. aput i (case aget found i of None \<Rightarrow> 0 | Some n \<Rightarrow> n)) apiKeyIDs result))))"

section \<open>Wait counts\<close>

text \<open>Without a cache and on an error the request may wait.\<close>

definition svc_IncrementWaitCount :: "'s ConcurrencyCache option \<Rightarrow> int \<Rightarrow> int \<Rightarrow> 's ConcurrencyService \<Rightarrow> 's ConcurrencyService \<times> bool" where
  "svc_IncrementWaitCount cache userID maxWait s =
     (case cache of
        None \<Rightarrow> (s, True)
      | Some cache \<Rightarrow>
          (let (s, r) = via (cc_IncrementWaitCount cache userID maxWait) s
           in (s, case r of None \<Rightarrow> True | Some b \<Rightarrow> b)))"

definition svc_IncrementAccountWaitCount :: "'s ConcurrencyCache option \<Rightarrow> int \<Rightarrow> int \<Rightarrow> 's ConcurrencyService \<Rightarrow> 's ConcurrencyService \<times> bool" where
  "svc_IncrementAccountWaitCount cache accountID maxWait s =
     (case cache of
        None \<Rightarrow> (s, True)
      | Some cache \<Rightarrow>
          (let (s, r) = via (cc_IncrementAccountWaitCount cache accountID maxWait) s
           in (s, case r of None \<Rightarrow> True | Some b \<Rightarrow> b)))"

definition svc_DecrementWaitCount :: "'s ConcurrencyCache option \<Rightarrow> int \<Rightarrow> 's ConcurrencyService \<Rightarrow> 's ConcurrencyService" where
  "svc_DecrementWaitCount cache userID s =
     (case cache of None \<Rightarrow> s | Some cache \<Rightarrow> fst (via (cc_DecrementWaitCount cache userID) s))"

definition svc_DecrementAccountWaitCount :: "'s ConcurrencyCache option \<Rightarrow> int \<Rightarrow> 's ConcurrencyService \<Rightarrow> 's ConcurrencyService" where
  "svc_DecrementAccountWaitCount cache accountID s =
     (case cache of None \<Rightarrow> s | Some cache \<Rightarrow> fst (via (cc_DecrementAccountWaitCount cache accountID) s))"

definition svc_GetAccountWaitingCount :: "'s ConcurrencyCache option \<Rightarrow> int \<Rightarrow> 's ConcurrencyService \<Rightarrow> 's ConcurrencyService \<times> int option" where
  "svc_GetAccountWaitingCount cache accountID s =
     (case cache of None \<Rightarrow> (s, Some 0) | Some cache \<Rightarrow> via (cc_GetAccountWaitingCount cache accountID) s)"

definition defaultExtraWaitSlots :: int where "defaultExtraWaitSlots = 20"

definition CalculateMaxWait :: "int \<Rightarrow> int" where
  "CalculateMaxWait userConcurrency = wrap64 ((if userConcurrency \<le> 0 then 1 else userConcurrency) + defaultExtraWaitSlots)"


section \<open>Load batches\<close>

definition maxAccountLoadBatchCacheEntries :: nat where "maxAccountLoadBatchCacheEntries = 256"
definition defaultAccountLoadBatchCacheTTL :: duration where "defaultAccountLoadBatchCacheTTL = 200 * millisecond"

definition NewConcurrencyService :: "64 word \<Rightarrow> 's \<Rightarrow> 's ConcurrencyService" where
  "NewConcurrencyService counter b =
     \<lparr>requestIDCounter = counter, accountLoadCacheTTL = defaultAccountLoadBatchCacheTTL, accountLoadCache = [], behind = b\<rparr>"

definition SetAccountLoadBatchCacheTTL :: "duration \<Rightarrow> 's ConcurrencyService \<Rightarrow> 's ConcurrencyService" where
  "SetAccountLoadBatchCacheTTL ttl s =
     (let s = s\<lparr>accountLoadCacheTTL := ttl\<rparr> in if ttl \<le> 0 then s\<lparr>accountLoadCache := []\<rparr> else s)"

definition getCachedAccountLoadBatch :: "string \<Rightarrow> instant \<Rightarrow> 's ConcurrencyService \<Rightarrow> 's ConcurrencyService \<times> load_map option" where
  "getCachedAccountLoadBatch key now s =
     (case aget (accountLoadCache s) key of
        None \<Rightarrow> (s, None)
      | Some cached \<Rightarrow>
          (if \<not> now < cb_expiresAt cached then (s\<lparr>accountLoadCache := adel key (accountLoadCache s)\<rparr>, None)
           else (s, Some (cb_loadMap cached))))"

text \<open>The map loses the entries that have expired, and then any entries until there is room; \<open>now\<close> is read inside.\<close>

definition storeCachedAccountLoadBatch :: "string \<Rightarrow> load_map \<Rightarrow> instant \<Rightarrow> instant \<Rightarrow> 's ConcurrencyService \<Rightarrow> 's ConcurrencyService" where
  "storeCachedAccountLoadBatch key loadMap expiresAt now s =
     (let m = accountLoadCache s;
          m = (if maxAccountLoadBatchCacheEntries \<le> length m then
                 (let m = filter (\<lambda>e. now < cb_expiresAt (snd e)) m
                  in drop (length m + 1 - maxAccountLoadBatchCacheEntries) m)
               else m)
      in s\<lparr>accountLoadCache := aput key \<lparr>cb_loadMap = loadMap, cb_expiresAt = expiresAt\<rparr> m\<rparr>)"

text \<open>The key of a batch: its length and the digest of its ids and limits, 16 bytes each.\<close>

definition little_endian :: "int \<Rightarrow> string" where
  "little_endian x = map (\<lambda>k. byte (nat (x div 256 ^ k mod 256))) [0..<8]"

definition accountLoadBatchCacheKey :: "(string \<Rightarrow> string) \<Rightarrow> AccountWithConcurrency list \<Rightarrow> string" where
  "accountLoadBatchCacheKey hex_digest as =
     decimal (int (length as)) @ '':'' @ hex_digest (concat (map (\<lambda>a. little_endian (wc_id a) @ little_endian (wc_max a)) as))"

definition fetchAccountsLoadBatch :: "'s ConcurrencyCache option \<Rightarrow> AccountWithConcurrency list \<Rightarrow> 's ConcurrencyService
    \<Rightarrow> 's ConcurrencyService \<times> load_map option" where
  "fetchAccountsLoadBatch cache as s =
     (case cache of
        None \<Rightarrow> (s, Some [])
      | Some cache \<Rightarrow> (let (s, r) = via (cc_GetAccountsLoadBatch cache as) s in (s, map_option (\<lambda>ls. fold (\<lambda>(i, l). aput i l) ls []) r)))"

text \<open>One caller at a time: \<open>n1\<close>, \<open>n2\<close> and \<open>n3\<close> are the three readings of the clock.\<close>

definition getAccountsLoadBatch :: "(string \<Rightarrow> string) \<Rightarrow> 's ConcurrencyCache option \<Rightarrow> AccountWithConcurrency list \<Rightarrow> bool
    \<Rightarrow> instant \<Rightarrow> instant \<Rightarrow> instant \<Rightarrow> 's ConcurrencyService \<Rightarrow> 's ConcurrencyService \<times> load_map option" where
  "getAccountsLoadBatch hex_digest cache as allowCache n1 n2 n3 s =
     (if as = [] \<or> cache = None then (s, Some [])
      else (let ttl = accountLoadCacheTTL s
            in if \<not> allowCache \<or> ttl \<le> 0 then fetchAccountsLoadBatch cache as s
               else (let key = accountLoadBatchCacheKey hex_digest as
                     in case getCachedAccountLoadBatch key n1 s of
                          (s, Some cached) \<Rightarrow> (s, Some cached)
                        | (s, None) \<Rightarrow>
                            (case getCachedAccountLoadBatch key n2 s of
                               (s, Some cached) \<Rightarrow> (s, Some cached)
                             | (s, None) \<Rightarrow>
                                 (case fetchAccountsLoadBatch cache as s of
                                    (s, None) \<Rightarrow> (s, None)
                                  | (s, Some loadMap) \<Rightarrow> (storeCachedAccountLoadBatch key loadMap (n2 + ttl) n3 s, Some loadMap))))))"

section \<open>Ingress leases of WebSocket sessions\<close>

definition openAIWSIngressLeaseTTL :: duration where "openAIWSIngressLeaseTTL = 60 * second"
definition openAIWSIngressLeaseRefreshInterval :: duration where "openAIWSIngressLeaseRefreshInterval = 20 * second"

record OpenAIWSIngressLease =
  l_apiKeyID :: int
  l_leaseID :: string

text \<open>The lease, whether the session may go on, and whether there was an error.\<close>

definition svc_AcquireOpenAIWSIngressLease :: "'s ConcurrencyCache option \<Rightarrow> string \<Rightarrow> int \<Rightarrow> int \<Rightarrow> 's ConcurrencyService
    \<Rightarrow> 's ConcurrencyService \<times> OpenAIWSIngressLease option \<times> bool \<times> bool" where
  "svc_AcquireOpenAIWSIngressLease cache p apiKeyID maxConnections s =
     (if maxConnections \<le> 0 then (s, None, True, False)
      else (case cache of
              None \<Rightarrow> (s, None, False, True)
            | Some cache \<Rightarrow>
                (if apiKeyID \<le> 0 then (s, None, False, True)
                 else (let (s, leaseID) = generateRequestID p s;
                           (s, r) = via (cc_AcquireOpenAIWSIngressLease cache apiKeyID maxConnections leaseID) s
                       in (s, case r of
                                None \<Rightarrow> (None, False, True)
                              | Some b \<Rightarrow> (if b then Some \<lparr>l_apiKeyID = apiKeyID, l_leaseID = leaseID\<rparr> else None, b, False))))))"

text \<open>
  One refresh: the answer of the cache, the clock after the call, and the last confirmation before.
\<close>

definition lease_refresh :: "bool option \<Rightarrow> instant \<Rightarrow> instant \<Rightarrow> instant \<times> bool" where
  "lease_refresh answer now lastConfirmedAt =
     (if answer = Some True then (now, False)
      else if answer = Some False \<or> openAIWSIngressLeaseTTL \<le> time_sub now lastConfirmedAt then (lastConfirmedAt, True)
      else (lastConfirmedAt, False))"

text \<open>The loop over the ticks until the lease is lost: the moment it is lost, or None while it runs.\<close>

fun refreshLoop :: "instant \<Rightarrow> (bool option \<times> instant) list \<Rightarrow> instant option" where
  "refreshLoop lastConfirmedAt [] = None"
| "refreshLoop lastConfirmedAt ((answer, now) # ticks) =
     (let (lastConfirmedAt, lost) = lease_refresh answer now lastConfirmedAt
      in if lost then Some now else refreshLoop lastConfirmedAt ticks)"

definition lease_Release :: "'s ConcurrencyCache \<Rightarrow> OpenAIWSIngressLease \<Rightarrow> 's ConcurrencyService \<Rightarrow> 's ConcurrencyService" where
  "lease_Release cache l s =
     (if l_apiKeyID l \<le> 0 \<or> l_leaseID l = [] then s
      else fst (via (cc_ReleaseOpenAIWSIngressLease cache (l_apiKeyID l) (l_leaseID l)) s))"

section \<open>Ids are different\<close>

definition base36_value :: "char \<Rightarrow> nat" where
  "base36_value c = (let n = of_char c in if n < 58 then n - 48 else n - 87)"

lemma base36_digit_value: "d < 36 \<Longrightarrow> base36_value (base36_digit d) = d"
proof -
  assume "d < 36"
  then have "of_char (byte m) = m" if "m < 256" for m :: nat using that by (simp add: byte_def)
  then show ?thesis using \<open>d < 36\<close> by (simp add: base36_value_def base36_digit.simps Let_def)
qed

definition base36_number :: "string \<Rightarrow> nat" where
  "base36_number = foldl (\<lambda>n c. 36 * n + base36_value c) 0"

lemma FormatUint36_number: "base36_number (FormatUint36 n) = n"
proof (induction n rule: FormatUint36.induct)
  case (1 n)
  show ?case
  proof (cases "n < 36")
    case True
    then show ?thesis by (subst FormatUint36.simps) (simp add: base36_number_def base36_digit_value)
  next
    case False
    then show ?thesis using 1 by (subst FormatUint36.simps) (simp add: base36_number_def base36_digit_value)
  qed
qed

lemma FormatUint36_inj: "FormatUint36 m = FormatUint36 n \<longleftrightarrow> m = n"
  by (metis FormatUint36_number)

lemma generated_id:
  "snd (generateRequestID p s) = p @ ''-'' @ FormatUint36 (unat (requestIDCounter s + 1))"
  "requestIDCounter (fst (generateRequestID p s)) = requestIDCounter s + 1"
  "behind (fst (generateRequestID p s)) = behind s"
  by (simp_all add: generateRequestID_def Let_def)


section \<open>Requests admitted by one process\<close>

text \<open>Both operations for slots have one shape.\<close>

definition acquire_with :: "(int \<Rightarrow> int \<Rightarrow> string \<Rightarrow> 's \<Rightarrow> 's \<times> bool option) \<Rightarrow> (int \<Rightarrow> string \<Rightarrow> ReleaseFunc) \<Rightarrow> string \<Rightarrow> int \<Rightarrow> int
    \<Rightarrow> 's ConcurrencyService \<Rightarrow> 's ConcurrencyService \<times> AcquireResult option" where
  "acquire_with acquire mk p i m s =
     (if m \<le> 0 then (s, Some (Acquired NoRelease))
      else (let (s, r) = generateRequestID p s; (s, a) = via (acquire i m r) s
            in (s, case a of None \<Rightarrow> None | Some b \<Rightarrow> Some (if b then Acquired (mk i r) else NotAcquired))))"

lemma svc_acquire_with:
  "svc_AcquireAccountSlot cache = acquire_with (cc_AcquireAccountSlot cache) ReleaseAccount"
  "svc_AcquireUserSlot cache = acquire_with (cc_AcquireUserSlot cache) ReleaseUser"
  by (simp_all add: fun_eq_iff svc_AcquireAccountSlot_def svc_AcquireUserSlot_def acquire_with_def)

text \<open>
  Requests of one process: one asks for a slot, one that was admitted gives its slot back, or the
  state behind takes a step of another kind. The admitted requests are those with a slot to release; each is
  noted with the second of Redis in which it asked.
\<close>

datatype 'x request = Admit int int | Finish int string | Other 'x

fun serve :: "(string \<Rightarrow> int \<Rightarrow> int \<Rightarrow> 's ConcurrencyService \<Rightarrow> 's ConcurrencyService \<times> AcquireResult option)
    \<Rightarrow> (int \<Rightarrow> string \<Rightarrow> 's ConcurrencyService \<Rightarrow> 's ConcurrencyService) \<Rightarrow> ('s \<Rightarrow> int) \<Rightarrow> ('x \<Rightarrow> 's \<Rightarrow> 's) \<Rightarrow> string \<Rightarrow> 'x request
    \<Rightarrow> 's ConcurrencyService \<times> (int \<times> string \<times> int) list \<Rightarrow> 's ConcurrencyService \<times> (int \<times> string \<times> int) list" where
  "serve admit finish stamp step p (Admit i m) (s, admitted) =
     (case admit p i m s of
        (s', Some (Acquired (ReleaseAccount j r))) \<Rightarrow> (s', (j, r, stamp (behind s)) # admitted)
      | (s', _) \<Rightarrow> (s', admitted))"
| "serve admit finish stamp step p (Finish i r) (s, admitted) =
     (if list_ex (\<lambda>(j, q, t). j = i \<and> q = r) admitted
      then (finish i r s, filter (\<lambda>(j, q, t). \<not> (j = i \<and> q = r)) admitted) else (s, admitted))"
| "serve admit finish stamp step p (Other x) (s, admitted) = (s\<lparr>behind := step x (behind s)\<rparr>, admitted)"

text \<open>The ids of the process, and that every admitted request has an id of its own.\<close>

definition own_id :: "string \<Rightarrow> string \<Rightarrow> bool" where
  "own_id p r \<longleftrightarrow> has_prefix r (p @ ''-'')"

definition numbered :: "string \<Rightarrow> nat \<Rightarrow> (int \<times> string \<times> int) list \<Rightarrow> bool" where
  "numbered p n admitted \<longleftrightarrow> distinct (map (\<lambda>(i, r, t). r) admitted)
     \<and> (\<forall>r\<in>set (map (\<lambda>(i, r, t). r) admitted). \<exists>k\<le>n. r = p @ ''-'' @ FormatUint36 k)"

text \<open>
  No request asks for more than the limit of its id, and the steps of other kinds are fit. \<open>serve_all\<close> is
  None when this is not so.
\<close>

fun allowed :: "('x \<Rightarrow> 's \<Rightarrow> bool) \<Rightarrow> (int \<Rightarrow> int) \<Rightarrow> 'x request \<Rightarrow> 's \<Rightarrow> bool" where
  "allowed fit lim (Admit i m) b = (m \<le> lim i)"
| "allowed fit lim (Finish i r) b = True"
| "allowed fit lim (Other x) b = fit x b"

fun serve_all :: "('x request \<Rightarrow> 's ConcurrencyService \<times> (int \<times> string \<times> int) list \<Rightarrow> 's ConcurrencyService \<times> (int \<times> string \<times> int) list)
    \<Rightarrow> ('x request \<Rightarrow> 's \<Rightarrow> bool) \<Rightarrow> 'x request list \<Rightarrow> 's ConcurrencyService \<times> (int \<times> string \<times> int) list
    \<Rightarrow> ('s ConcurrencyService \<times> (int \<times> string \<times> int) list) option" where
  "serve_all serves good [] st = Some st"
| "serve_all serves good (q # qs) st =
     (if good q (behind (fst st)) then serve_all serves good qs (serves q st) else None)"

text \<open>
  The provider of slots: \<open>stamp b\<close> is the second of a state, \<open>granted b i r\<close> is the second in which the slot r of i was granted, if the slot counts in b.
  A slot that was granted stays until it is released or as old as the lifetime.
\<close>

locale slot_provider =
  fixes acquire :: "int \<Rightarrow> int \<Rightarrow> string \<Rightarrow> 's \<Rightarrow> 's \<times> bool option"
    and release :: "int \<Rightarrow> string \<Rightarrow> 's \<Rightarrow> 's \<times> unit option"
    and step :: "'x \<Rightarrow> 's \<Rightarrow> 's"
    and fit :: "string \<Rightarrow> (int \<Rightarrow> int) \<Rightarrow> 'x \<Rightarrow> 's \<Rightarrow> bool"
    and granted :: "'s \<Rightarrow> int \<Rightarrow> string \<Rightarrow> int option"
    and stamp :: "'s \<Rightarrow> int"
    and lifetime :: int
    and ok :: "'s \<Rightarrow> bool"
  assumes finite_granted: "finite (dom (granted b i))"
    and acquire_ok: "ok b \<Longrightarrow> ok (fst (acquire i m r b)) \<and> stamp b \<le> stamp (fst (acquire i m r b))"
    and acquire_own: "ok b \<Longrightarrow> dom (granted (fst (acquire i m r b)) i) \<subseteq> dom (granted b i)
      \<or> dom (granted (fst (acquire i m r b)) i) \<subseteq> insert r (dom (granted b i)) \<and> snd (acquire i m r b) \<noteq> Some False
        \<and> int (card (dom (granted b i))) < m"
    and acquire_other: "ok b \<Longrightarrow> j \<noteq> i \<Longrightarrow> dom (granted (fst (acquire i m r b)) j) \<subseteq> dom (granted b j)"
    and acquire_keeps: "ok b \<Longrightarrow> j \<noteq> i \<or> q \<noteq> r \<Longrightarrow> granted b j q = Some t
      \<Longrightarrow> granted (fst (acquire i m r b)) j q = Some t \<or> t + lifetime \<le> stamp (fst (acquire i m r b))"
    and acquire_granted: "ok b \<Longrightarrow> snd (acquire i m r b) = Some True
      \<Longrightarrow> granted (fst (acquire i m r b)) i r = Some (stamp b) \<or> stamp b + lifetime \<le> stamp (fst (acquire i m r b))"
    and release_ok: "ok b \<Longrightarrow> ok (fst (release i r b)) \<and> stamp b \<le> stamp (fst (release i r b))"
    and release_shrinks: "ok b \<Longrightarrow> dom (granted (fst (release i r b)) j) \<subseteq> dom (granted b j)"
    and release_keeps: "ok b \<Longrightarrow> j \<noteq> i \<or> q \<noteq> r \<Longrightarrow> granted b j q = Some t
      \<Longrightarrow> granted (fst (release i r b)) j q = Some t \<or> t + lifetime \<le> stamp (fst (release i r b))"
    and step_ok: "ok b \<Longrightarrow> fit p lim x b \<Longrightarrow> ok (step x b) \<and> stamp b \<le> stamp (step x b)"
    and step_own: "ok b \<Longrightarrow> fit p lim x b \<Longrightarrow> dom (granted (step x b) j) \<subseteq> dom (granted b j)
      \<or> (\<exists>r. dom (granted (step x b) j) \<subseteq> insert r (dom (granted b j)) \<and> int (card (dom (granted b j))) < lim j)"
    and step_keeps: "ok b \<Longrightarrow> fit p lim x b \<Longrightarrow> own_id p q \<Longrightarrow> granted b j q = Some t
      \<Longrightarrow> granted (step x b) j q = Some t \<or> t + lifetime \<le> stamp (step x b)"
begin

abbreviation serves :: "string \<Rightarrow> 'x request \<Rightarrow> 's ConcurrencyService \<times> (int \<times> string \<times> int) list
    \<Rightarrow> 's ConcurrencyService \<times> (int \<times> string \<times> int) list" where
  "serves p \<equiv> serve (acquire_with acquire ReleaseAccount) (\<lambda>i r s. fst (via (release i r) s)) stamp step p"

text \<open>The invariant: every admitted request still has its slot, or is as old as the lifetime.\<close>

definition kept :: "'s \<Rightarrow> (int \<times> string \<times> int) list \<Rightarrow> bool" where
  "kept b admitted \<longleftrightarrow> (\<forall>(i, r, t)\<in>set admitted. granted b i r = Some t \<or> t + lifetime \<le> stamp b)"

definition serving :: "string \<Rightarrow> (int \<Rightarrow> int) \<Rightarrow> 's ConcurrencyService \<times> (int \<times> string \<times> int) list \<Rightarrow> bool" where
  "serving p lim st \<longleftrightarrow> ok (behind (fst st)) \<and> (\<forall>i. int (card (dom (granted (behind (fst st)) i))) \<le> lim i)
     \<and> numbered p (unat (requestIDCounter (fst st))) (snd st) \<and> kept (behind (fst st)) (snd st)"

lemma keptD: "kept b admitted \<Longrightarrow> (i, r, t) \<in> set admitted \<Longrightarrow> granted b i r = Some t \<or> t + lifetime \<le> stamp b"
  by (auto simp: kept_def)

lemma kept_step:
  assumes "kept b admitted" "stamp b \<le> stamp b'"
    "\<And>i r t. (i, r, t) \<in> set admitted \<Longrightarrow> granted b i r = Some t \<Longrightarrow> granted b' i r = Some t \<or> t + lifetime \<le> stamp b'"
  shows "kept b' admitted"
  using assms by (fastforce simp: kept_def)

lemma card_grows:
  assumes "A \<subseteq> dom (granted b i) \<or> (\<exists>r. A \<subseteq> insert r (dom (granted b i)) \<and> int (card (dom (granted b i))) < m)"
    "int (card (dom (granted b i))) \<le> n" "m \<le> n"
  shows "int (card A) \<le> n"
  using assms(1)
proof
  assume "A \<subseteq> dom (granted b i)"
  then show ?thesis using card_mono[OF finite_granted, of A b i] assms(2) by simp
next
  assume "\<exists>r. A \<subseteq> insert r (dom (granted b i)) \<and> int (card (dom (granted b i))) < m"
  then obtain r where r: "A \<subseteq> insert r (dom (granted b i))" "int (card (dom (granted b i))) < m" by blast
  have "card A \<le> Suc (card (dom (granted b i)))"
    using card_mono[OF finite.insertI[OF finite_granted] r(1)] by (simp add: card_insert_if[OF finite_granted] split: if_splits)
  then show ?thesis using r(2) assms(3) by simp
qed

lemma numbered_more: "numbered p n admitted \<Longrightarrow> n \<le> n' \<Longrightarrow> numbered p n' admitted"
  unfolding numbered_def by (meson le_trans)

lemma numbered_new: "numbered p n admitted \<Longrightarrow> numbered p (Suc n) ((i, p @ ''-'' @ FormatUint36 (Suc n), t) # admitted)"
  by (fastforce simp: numbered_def FormatUint36_inj intro: le_SucI)

lemma numbered_id:
  assumes "numbered p n admitted" "(i, r, t) \<in> set admitted"
  shows "own_id p r" "r \<noteq> p @ ''-'' @ FormatUint36 (Suc n)"
proof -
  obtain k where k: "k \<le> n" "r = p @ ''-'' @ FormatUint36 k" using assms by (force simp: numbered_def)
  show "own_id p r" by (simp add: k(2) own_id_def has_prefix_def)
  show "r \<noteq> p @ ''-'' @ FormatUint36 (Suc n)" using k FormatUint36_inj[of k "Suc n"] by auto
qed

lemma admit_serving:
  assumes "serving p lim (s, admitted)" "m \<le> lim i" "Suc (unat (requestIDCounter s)) < 2 ^ 64"
  shows "serving p lim (serves p (Admit i m) (s, admitted))"
    and "unat (requestIDCounter (fst (serves p (Admit i m) (s, admitted)))) \<le> Suc (unat (requestIDCounter s))"
proof -
  let ?n = "unat (requestIDCounter s)"
  have n: "unat (requestIDCounter s + 1) = Suc ?n" using assms(3) by (simp add: unat_word_ariths(1))
  let ?r = "p @ ''-'' @ FormatUint36 (Suc ?n)"
  let ?b = "fst (acquire i m ?r (behind s))" and ?a = "snd (acquire i m ?r (behind s))"
  let ?admitted = "if ?a = Some True then (i, ?r, stamp (behind s)) # admitted else admitted"
  have b: "ok (behind s)" "\<And>j. int (card (dom (granted (behind s) j))) \<le> lim j" "numbered p ?n admitted" "kept (behind s) admitted"
    using assms(1) by (simp_all add: serving_def)
  have new: "serves p (Admit i m) (s, admitted) = (if m \<le> 0 then (s, admitted)
      else (s\<lparr>requestIDCounter := requestIDCounter s + 1, behind := ?b\<rparr>, ?admitted))"
    by (auto simp: acquire_with_def generateRequestID_def via_def n Let_def split: prod.split option.split)
  have "int (card (dom (granted ?b j))) \<le> lim j" for j
  proof (rule card_grows[OF _ b(2), of _ j "lim j"])
    show "dom (granted ?b j) \<subseteq> dom (granted (behind s) j)
        \<or> (\<exists>r. dom (granted ?b j) \<subseteq> insert r (dom (granted (behind s) j)) \<and> int (card (dom (granted (behind s) j))) < lim j)"
      using acquire_own[OF b(1), of i m ?r] acquire_other[OF b(1), of j i m ?r] assms(2) by (cases "j = i") auto
  qed simp
  moreover have "kept ?b admitted"
    by (rule kept_step[OF b(4)]) (use acquire_ok[OF b(1)] acquire_keeps[OF b(1)] numbered_id[OF b(3)] in blast)+
  then have "kept ?b ?admitted" using acquire_granted[OF b(1), of i m ?r] by (simp add: kept_def)
  ultimately show "serving p lim (serves p (Admit i m) (s, admitted))"
    using acquire_ok[OF b(1)] numbered_new[OF b(3)] numbered_more[OF b(3), of "Suc ?n"] assms(1)
    unfolding new by (simp add: serving_def n)
  show "unat (requestIDCounter (fst (serves p (Admit i m) (s, admitted)))) \<le> Suc ?n"
    unfolding new by (simp add: n)
qed

lemma finish_serving:
  assumes "serving p lim (s, admitted)"
  shows "serving p lim (serves p (Finish i r) (s, admitted))"
proof -
  let ?left = "filter (\<lambda>(j, q, t). \<not> (j = i \<and> q = r)) admitted" and ?b = "fst (release i r (behind s))"
  have b: "ok (behind s)" "\<And>j. int (card (dom (granted (behind s) j))) \<le> lim j"
    "numbered p (unat (requestIDCounter s)) admitted" "kept (behind s) admitted"
    using assms by (simp_all add: serving_def)
  have "numbered p (unat (requestIDCounter s)) ?left"
    using b(3) by (auto simp: numbered_def distinct_map_filter)
  moreover have "int (card (dom (granted ?b j))) \<le> lim j" for j
    using card_grows[OF disjI1[OF release_shrinks[OF b(1)]] b(2) order_refl] .
  moreover have "kept (behind s) ?left" using b(4) by (auto simp: kept_def)
  then have "kept ?b ?left"
    by (rule kept_step) (use release_ok[OF b(1)] release_keeps[OF b(1)] in auto)
  ultimately show ?thesis
    using assms release_ok[OF b(1)] by (auto simp: serving_def via_def case_prod_unfold Let_def)
qed

lemma serve_serving:
  assumes "serving p lim (s, admitted)" "allowed (fit p lim) lim q (behind s)" "Suc (unat (requestIDCounter s)) < 2 ^ 64"
  shows "serving p lim (serves p q (s, admitted))
    \<and> unat (requestIDCounter (fst (serves p q (s, admitted)))) \<le> Suc (unat (requestIDCounter s))"
proof (cases q)
  case (Admit i m)
  then show ?thesis using admit_serving[OF assms(1) _ assms(3)] assms(2) by simp
next
  case (Finish i r)
  then show ?thesis using finish_serving[OF assms(1)] by (simp add: via_def case_prod_unfold Let_def)
next
  case (Other x)
  have b: "ok (behind s)" "\<And>j. int (card (dom (granted (behind s) j))) \<le> lim j"
    "numbered p (unat (requestIDCounter s)) admitted" "kept (behind s) admitted" and fit: "fit p lim x (behind s)"
    using assms(1,2) by (simp_all add: serving_def Other)
  have "kept (step x (behind s)) admitted"
    by (rule kept_step[OF b(4)]) (use step_ok[OF b(1) fit] step_keeps[OF b(1) fit] numbered_id[OF b(3)] in blast)+
  moreover have "int (card (dom (granted (step x (behind s)) j))) \<le> lim j" for j
    using card_grows[OF step_own[OF b(1) fit] b(2) order_refl] .
  ultimately show ?thesis using b(3) step_ok[OF b(1) fit] by (simp add: Other serving_def)
qed

lemma serve_all_serving:
  assumes "serving p lim st" "serve_all (serves p) (allowed (fit p lim) lim) qs st = Some st'" "unat (requestIDCounter (fst st)) + length qs < 2 ^ 64"
  shows "serving p lim st'"
  using assms
proof (induction qs arbitrary: st)
  case (Cons q qs)
  obtain s admitted where st: "st = (s, admitted)" by force
  have "serving p lim (serves p q st) \<and> unat (requestIDCounter (fst (serves p q st))) \<le> Suc (unat (requestIDCounter s))"
    using serve_serving[of p lim s admitted q] Cons.prems by (simp add: st split: if_splits)
  then show ?case using Cons.IH[of "serves p q st"] Cons.prems by (auto simp: st split: if_splits)
qed simp

text \<open>The admitted requests that are younger than the lifetime are no more than the limit.\<close>

lemma serving_limit:
  assumes "serving p lim (s, admitted)"
  shows "int (length (filter (\<lambda>(j, r, t). j = i \<and> stamp (behind s) < t + lifetime) admitted)) \<le> lim i"
proof -
  let ?young = "filter (\<lambda>(j, r, t). j = i \<and> stamp (behind s) < t + lifetime) admitted"
  let ?id = "\<lambda>(j, r, t). r :: string"
  have d: "distinct (map ?id admitted)" and c: "int (card (dom (granted (behind s) i))) \<le> lim i" and k: "kept (behind s) admitted"
    using assms by (auto simp: serving_def numbered_def)
  have "distinct (map ?id ?young)" using d by (rule distinct_map_filter)
  then have "length ?young = card (?id ` set ?young)" using distinct_card[of "map ?id ?young"] by simp
  also have "\<dots> \<le> card (dom (granted (behind s) i))"
    by (rule card_mono[OF finite_granted]) (use keptD[OF k] in fastforce)
  finally show ?thesis using c by simp
qed

end


section \<open>The Redis cache as a provider\<close>

text \<open>
  Redis with the moments of its round trips: the next operation uses the moments from \<open>used\<close> on. The
  clean-ups, whose number of round trips varies, run at one moment here.
\<close>

record world =
  clock :: "nat \<Rightarrow> moment"
  used :: nat
  store :: redis

definition round_trips :: "nat \<Rightarrow> ((nat \<Rightarrow> moment) \<Rightarrow> redis \<Rightarrow> redis \<times> 'r) \<Rightarrow> world \<Rightarrow> world \<times> 'r" where
  "round_trips n f w = (let (db, r) = f (\<lambda>k. clock w (used w + k)) (store w) in (w\<lparr>used := used w + n, store := db\<rparr>, r))"

definition redis_cache :: "concurrencyCache \<Rightarrow> world ConcurrencyCache" where
  "redis_cache c = \<lparr>
     cc_AcquireAccountSlot = (\<lambda>i m r. round_trips 2 (\<lambda>M. AcquireAccountSlot c i m r (M 0) (M 1))),
     cc_ReleaseAccountSlot = (\<lambda>i r. round_trips 4 (\<lambda>M. ReleaseAccountSlot c i r (M 0) (M 1) (M 2) (M 3))),
     cc_AcquireUserSlot = (\<lambda>i m r. round_trips 2 (\<lambda>M. AcquireUserSlot c i m r (M 0) (M 1))),
     cc_ReleaseUserSlot = (\<lambda>i r. round_trips 4 (\<lambda>M. ReleaseUserSlot c i r (M 0) (M 1) (M 2) (M 3))),
     cc_GetAccountConcurrencyBatch = (\<lambda>is. round_trips 2 (\<lambda>M. GetAccountConcurrencyBatch c is (M 0) (M 1))),
     cc_IncrementAccountWaitCount = (\<lambda>i m. round_trips 2 (\<lambda>M. IncrementAccountWaitCount c i m (M 0) (M 1))),
     cc_DecrementAccountWaitCount = (\<lambda>i. round_trips 4 (\<lambda>M. DecrementAccountWaitCount c i (M 0) (M 1) (M 2) (M 3))),
     cc_GetAccountWaitingCount = (\<lambda>i. round_trips 1 (\<lambda>M. GetAccountWaitingCount i (M 0))),
     cc_IncrementWaitCount = (\<lambda>i m. round_trips 2 (\<lambda>M. IncrementWaitCount c i m (M 0) (M 1))),
     cc_DecrementWaitCount = (\<lambda>i. round_trips 4 (\<lambda>M. DecrementWaitCount c i (M 0) (M 1) (M 2) (M 3))),
     cc_GetAccountsLoadBatch = (\<lambda>as. round_trips 2 (\<lambda>M. GetAccountsLoadBatch c as (M 0) (M 1))),
     cc_GetUsersLoadBatch = (\<lambda>as. round_trips 2 (\<lambda>M. GetUsersLoadBatch c as (M 0) (M 1))),
     cc_CleanupExpiredAccountSlots = (\<lambda>i. round_trips 4 (\<lambda>M. CleanupExpiredAccountSlots c i (M 0) (M 1) (M 2) (M 3))),
     cc_CleanupStaleProcessSlots = (\<lambda>p. round_trips 1 (\<lambda>M. CleanupStaleProcessSlots c p
       \<lparr>sm_sweep = (\<lambda>_. M 0), sm_time = M 0, sm_index = (\<lambda>_. M 0), sm_members = (\<lambda>_ _. M 0), sm_write = (\<lambda>_. M 0)\<rparr>)),
     cc_TrackAPIKeySlot = (\<lambda>i r. round_trips 1 (\<lambda>M. TrackAPIKeySlot c i r (M 0))),
     cc_ReleaseAPIKeySlot = (\<lambda>i r. round_trips 1 (\<lambda>M. ReleaseAPIKeySlot i r (M 0))),
     cc_GetAPIKeyConcurrencyBatch = (\<lambda>is. round_trips 2 (\<lambda>M. GetAPIKeyConcurrencyBatch c is (M 0) (M 1))),
     cc_AcquireOpenAIWSIngressLease = (\<lambda>i m r. round_trips 1 (\<lambda>M. AcquireOpenAIWSIngressLease i m r (M 0))),
     cc_RefreshOpenAIWSIngressLease = (\<lambda>i r. round_trips 1 (\<lambda>M. RefreshOpenAIWSIngressLease i r (M 0))),
     cc_ReleaseOpenAIWSIngressLease = (\<lambda>i r. round_trips 1 (\<lambda>M. ReleaseOpenAIWSIngressLease i r (M 0)))\<rparr>"

definition now_of :: "world \<Rightarrow> int" where "now_of w = fst (clock w (used w))"

definition world_ok :: "concurrencyCache \<Rightarrow> world \<Rightarrow> bool" where
  "world_ok c w \<longleftrightarrow> slot_keys c (now_of w) (store w) \<and> mono (\<lambda>n. fst (clock w n))"

definition world_slots :: "concurrencyCache \<Rightarrow> (int \<Rightarrow> holder) \<Rightarrow> world \<Rightarrow> int \<Rightarrow> string \<Rightarrow> int option" where
  "world_slots c mk w i = slots c (now_of w) (mk i) (store w)"

definition world_holds :: "concurrencyCache \<Rightarrow> (int \<Rightarrow> holder) \<Rightarrow> world \<Rightarrow> int \<Rightarrow> string set" where
  "world_holds c mk w i = dom (world_slots c mk w i)"

text \<open>A round trip of another process, or another round trip of this one, at the next moment.\<close>

definition other_trip :: "concurrencyCache \<Rightarrow> trip \<Rightarrow> world \<Rightarrow> world" where
  "other_trip c x w = w\<lparr>used := Suc (used w), store := trip_effect c x (now_of w) (store w)\<rparr>"

text \<open>
  Other round trips that are fit: the slots of the ids in question are asked for within the limit, under ids of other
  processes, and only released under such ids; a startup clean-up is the one of this process. \<open>num v\<close> is the id in
  question if v is the holder of one.
\<close>

fun other_fit :: "(holder \<Rightarrow> int option) \<Rightarrow> string \<Rightarrow> (int \<Rightarrow> int) \<Rightarrow> trip \<Rightarrow> bool" where
  "other_fit num p lim (Acquire v m r) = (case num v of None \<Rightarrow> True | Some i \<Rightarrow> m \<le> lim i \<and> \<not> own_id p r)"
| "other_fit num p lim (Release v r) = (case num v of None \<Rightarrow> True | Some i \<Rightarrow> \<not> own_id p r)"
| "other_fit num p lim (Startup v q) = (num v = None \<or> q = p)"
| "other_fit num p lim x = True"

text \<open>A change at a time, or the passing of time, after which the slots that count are those that are not too old.\<close>

definition young :: "concurrencyCache \<Rightarrow> int \<Rightarrow> (string \<Rightarrow> int option) \<Rightarrow> string \<Rightarrow> int option" where
  "young c t h r = (case h r of None \<Rightarrow> None | Some s \<Rightarrow> if TIME t < s + slotTTLSeconds c then Some s else None)"

definition ages :: "concurrencyCache \<Rightarrow> int \<Rightarrow> redis \<Rightarrow> int \<Rightarrow> redis \<Rightarrow> bool" where
  "ages c t db t' db' \<longleftrightarrow> t \<le> t' \<and> (slot_keys c t db \<longrightarrow> slot_keys c t' db' \<and> (\<forall>v. slots c t' v db' = young c t' (slots c t v db)))"

lemma young_young: "t \<le> t' \<Longrightarrow> young c t' (young c t h) = young c t' h"
  using TIME_mono[of t t'] by (auto simp: young_def fun_eq_iff split: option.split)

lemma young_slots: "young c t (slots c t v db) = slots c t v db"
  using leases_fresh[of "slotTTLSeconds c" t "slot_key v" db] by (auto simp: young_def slots_def fun_eq_iff split: option.split)

lemma dom_young: "dom (young c t h) \<subseteq> dom h"
  by (auto simp: young_def split: option.splits)

lemma young_Some: "h r = Some s \<Longrightarrow> young c t h r = Some s \<or> s + slotTTLSeconds c \<le> TIME t"
  by (simp add: young_def)

lemma ages_dom: "ages c t db t' db' \<Longrightarrow> slot_keys c t db \<Longrightarrow> dom (slots c t' v db') \<subseteq> dom (slots c t v db)"
  by (simp add: ages_def dom_young)

lemma ages_trans: "ages c t1 d1 t2 d2 \<Longrightarrow> ages c t2 d2 t3 d3 \<Longrightarrow> ages c t1 d1 t3 d3"
  unfolding ages_def by (simp add: young_young)

lemma ages_later: "t \<le> t' \<Longrightarrow> ages c t db t' db"
  using slot_keys_later[of c t db t'] by (simp add: ages_def slots_def leases_later young_def[abs_def])

lemma ages_other:
  assumes "\<And>v. sets db' (slot_key v) = sets db (slot_key v)" "\<And>v. sets db' (live_key v) = sets db (live_key v)"
  shows "ages c t db t db'"
  using young_slots[of c t _ db] by (simp add: ages_def slot_keys_def slots_def sets_same[OF assms(1)] sets_same[OF assms(2)])

lemma ages_trip:
  assumes "0 < slotTTLSeconds c" "on_time t x" "\<And>v s. new_slots c x t db v s = s"
  shows "ages c t db t (trip_effect c x t db)"
  using goes_trip[OF _ assms(1,2), of db] assms(3) young_slots[of c t _ db] by (simp add: ages_def goes_def Let_def del: trip_effect.simps)

text \<open>A round trip that fails before or after it takes effect.\<close>

lemma at_cases: "fst (at m f db) = db \<or> fst (at m f db) = fst (f (fst m) db)"
  by (cases "snd m") (simp_all add: at_def)

lemma ages_at:
  assumes "ages c (fst m) db (fst m) (fst (f (fst m) db))"
  shows "ages c (fst m) db (fst m) (fst (at m f db))"
  using at_cases[of m f db] assms ages_later[of "fst m" "fst m" c db] by auto

lemma ages_index: "ages c t db t (ZADD t (index_key v) s m db)" "ages c t db t (ZREM t (index_key v) m db)"
  by (rule ages_other; simp)+

lemma ages_write:
  "ages c (fst m) db (fst m) (touchActiveIndexAt (index_key v) i e m db)"
  "ages c (fst m) db (fst m) (write_index c (index_key v) i n ld m db)"
proof -
  show touch: "ages c (fst m) db (fst m) (touchActiveIndexAt (index_key v) i e m db)" for e
    using ages_at[of c m db "quietly (\<lambda>t. ZADD t (index_key v) e (decimal i))"] ages_index(1) ages_later[of "fst m" "fst m" c db]
    by (simp add: touchActiveIndexAt_def quietly_def)
  show "ages c (fst m) db (fst m) (write_index c (index_key v) i n ld m db)"
    using ages_at[of c m db "quietly (\<lambda>t. ZREM t (index_key v) (decimal i))"] ages_index(2) touch ages_later[of "fst m" "fst m" c db]
    by (simp add: write_index_def quietly_def Let_def split: prod.split)
qed

lemma ages_refresh:
  assumes "0 < slotTTLSeconds c" "fst m1 \<le> fst m2" "fst m2 \<le> fst m3"
  shows "ages c (fst m1) db (fst m3) (refreshActiveIndex c (index_key v) i (slot_key v) (wait_key v) m1 m2 m3 db)"
proof -
  have read: "ages c (fst m2) d (fst m2) (fst (readActiveLoadForKey c (slot_key v) (wait_key v) (TIME (fst m1)) m2 d))" for d
    using ages_at[of c m2 d "read_load (TIME (fst m1) - slotTTLSeconds c) (slot_key v) (wait_key v)"]
      ages_trip[OF assms(1), of "fst m2" "ReadLoad v (TIME (fst m1))" d] TIME_mono[OF assms(2)]
    by (simp add: readActiveLoadForKey_def)
  have time: "at m1 (\<lambda>t db. (db, TIME t)) db = (db, None) \<or> at m1 (\<lambda>t db. (db, TIME t)) db = (db, Some (TIME (fst m1)))"
    by (cases "snd m1") (simp_all add: at_def)
  note l12 = ages_later[OF assms(2), of c db] and l23 = ages_later[OF assms(3), of c]
  have load: "ages c (fst m1) db (fst m3) (case readActiveLoadForKey c (slot_key v) (wait_key v) (TIME (fst m1)) m2 db of
      (db, None) \<Rightarrow> db | (db, Some ld) \<Rightarrow> write_index c (index_key v) i (TIME (fst m1)) ld m3 db)"
    using ages_trans[OF l12 ages_trans[OF read l23]] ages_write(2)[of c m3] ages_trans
    by (auto split: prod.split option.split)
  show ?thesis
    using time load ages_trans[OF l12 l23] by (auto simp: refreshActiveIndex_def)
qed


text \<open>What an acquisition does to the slots: those it answers to have granted, if any, and then the passing of time.\<close>

lemma acquire_ages:
  fixes v :: holder and i m :: int and r :: string
  assumes "0 < slotTTLSeconds c" "fst m1 \<le> fst m2" "fst m2 \<le> t'" "slot_keys c (fst m1) db"
  defines "res \<equiv> acquire_slot c (index_key v) (slot_key v) (live_key v) i m r m1 m2 db"
  obtains g where "slot_keys c t' (fst res)"
    "\<And>u. slots c t' u (fst res) = young c t' (if g \<and> v = u then (slots c (fst m1) u db)(r \<mapsto> TIME (fst m1)) else slots c (fst m1) u db)"
    "g \<Longrightarrow> slots c (fst m1) v db r \<noteq> None \<or> int (card (dom (slots c (fst m1) v db))) < m"
    "snd res = Some b \<Longrightarrow> g = b"
proof -
  let ?t = "fst m1"
  let ?a = "acquired c v m r ?t db"
  let ?e = "trip_effect c (Acquire v m r) ?t db"
  have e: "slot_keys c ?t ?e" "\<And>u. slots c ?t u ?e = (if v = u \<and> ?a then (slots c ?t u db)(r \<mapsto> TIME ?t) else slots c ?t u db)"
    using goes_acquire[OF assms(4,1), of v m r] by (simp_all add: goes_def Let_def)
  have room: "?a \<Longrightarrow> slots c ?t v db r \<noteq> None \<or> int (card (dom (slots c ?t v db))) < m"
    using acquire_effect(1)[OF slot_keysD[OF assms(4), of v] keys_differ(1) assms(1), of m r]
    by (auto simp: acquired_def slots_def)
  have le: "?t \<le> t'" using assms(2,3) by simp
  have res: "ages c ?t db t' (fst res) \<and> snd res = None \<or> ages c ?t ?e t' (fst res) \<and> (snd res = None \<or> snd res = Some ?a)"
  proof (cases "snd m1")
    case Fine
    have touch: "ages c ?t ?e t' (touchActiveIndexAt (index_key v) i x m2 ?e)" for x
      by (rule ages_trans[OF ages_later[OF assms(2)] ages_trans[OF ages_write(1) ages_later[OF assms(3)]]])
    show ?thesis
      using Fine touch ages_later[OF le] by (simp add: res_def acquire_slot_def at_def acquired_def split: prod.split)
  qed (use ages_later[OF le] in \<open>simp_all add: res_def acquire_slot_def at_def\<close>)
  then show ?thesis
  proof
    assume "ages c ?t db t' (fst res) \<and> snd res = None"
    then show ?thesis using assms(4) by (intro that[of False]) (simp_all add: ages_def)
  next
    assume "ages c ?t ?e t' (fst res) \<and> (snd res = None \<or> snd res = Some ?a)"
    then show ?thesis using e room by (intro that[of ?a]) (auto simp: ages_def simp del: trip_effect.simps)
  qed
qed

lemma release_ages:
  fixes v :: holder and i :: int and r :: string
  assumes "0 < slotTTLSeconds c" "fst m1 \<le> fst m2" "fst m2 \<le> fst m3" "fst m3 \<le> fst m4" "fst m4 \<le> t'" "slot_keys c (fst m1) db"
  defines "res \<equiv> release_slot (refreshActiveIndex c (index_key v) i (slot_key v) (wait_key v)) (slot_key v) r m1 m2 m3 m4 db"
  obtains g where "slot_keys c t' (fst res)"
    "\<And>u. slots c t' u (fst res) = young c t' (if g \<and> v = u then (slots c (fst m1) u db)(r := None) else slots c (fst m1) u db)"
    "snd res = Some () \<Longrightarrow> g"
proof -
  let ?t = "fst m1" and ?e = "trip_effect c (Release v r) (fst m1) db"
  have le: "?t \<le> t'" using assms(2-5) by linarith
  have e: "slot_keys c ?t ?e" "\<And>u. slots c ?t u ?e = (if v = u then (slots c ?t u db)(r := None) else slots c ?t u db)"
    using goes_release(1)[OF assms(6,1), of v r] by (simp_all add: goes_def Let_def)
  have rest: "ages c ?t ?e t' (refreshActiveIndex c (index_key v) i (slot_key v) (wait_key v) m2 m3 m4 ?e)"
    by (rule ages_trans[OF ages_later[OF assms(2)] ages_trans[OF ages_refresh[OF assms(1,3,4)] ages_later[OF assms(5)]]])
  have res: "ages c ?t db t' (fst res) \<and> snd res = None \<or> ages c ?t ?e t' (fst res)"
    using rest ages_later[OF le]
    by (cases "snd m1") (simp_all add: res_def release_slot_def at_def quietly_def)
  then show ?thesis
  proof
    assume "ages c ?t db t' (fst res) \<and> snd res = None"
    then show ?thesis using assms(6) by (intro that[of False]) (simp_all add: ages_def)
  next
    assume "ages c ?t ?e t' (fst res)"
    then show ?thesis using e by (intro that[of True]) (auto simp: ages_def simp del: trip_effect.simps)
  qed
qed

lemma NewConcurrencyCache_ttl: "0 < slotTTLSeconds (NewConcurrencyCache a b)"
  by (simp add: NewConcurrencyCache_def Let_def)

lemma clock_le: "world_ok c w \<Longrightarrow> j \<le> k \<Longrightarrow> fst (clock w j) \<le> fst (clock w k)"
  by (simp add: world_ok_def mono_def)

definition stamp_of :: "world \<Rightarrow> int" where "stamp_of w = TIME (now_of w)"

lemma stamp_later: "world_ok c w \<Longrightarrow> clock w' = clock w \<Longrightarrow> used w \<le> used w' \<Longrightarrow> stamp_of w \<le> stamp_of w'"
  using TIME_mono[OF clock_le[of c w "used w" "used w'"]] by (simp add: stamp_of_def now_of_def)

lemma world_young:
  assumes "world_slots c mk w' j = young c (now_of w') h" "h q = Some s"
  shows "world_slots c mk w' j q = Some s \<or> s + slotTTLSeconds c \<le> stamp_of w'"
  using young_Some[of h q s c "now_of w'"] assms by (simp add: stamp_of_def)

lemma world_acquire:
  fixes i m :: int and r :: string
  assumes "0 < slotTTLSeconds c" "world_ok c w" "\<And>i j. mk i = mk j \<longleftrightarrow> i = j"
  defines "res \<equiv> round_trips 2 (\<lambda>M. acquire_slot c (index_key (mk i)) (slot_key (mk i)) (live_key (mk i)) i m r (M 0) (M 1)) w"
  shows "world_ok c (fst res)" "j \<noteq> i \<Longrightarrow> world_holds c mk (fst res) j \<subseteq> world_holds c mk w j"
    "world_holds c mk (fst res) i \<subseteq> world_holds c mk w i
      \<or> world_holds c mk (fst res) i \<subseteq> insert r (world_holds c mk w i) \<and> snd res \<noteq> Some False \<and> int (card (world_holds c mk w i)) < m"
    "j \<noteq> i \<or> q \<noteq> r \<Longrightarrow> world_slots c mk w j q = Some s
      \<Longrightarrow> world_slots c mk (fst res) j q = Some s \<or> s + slotTTLSeconds c \<le> stamp_of (fst res)"
    "snd res = Some True \<Longrightarrow> world_slots c mk (fst res) i r = Some (stamp_of w) \<or> stamp_of w + slotTTLSeconds c \<le> stamp_of (fst res)"
    "stamp_of w \<le> stamp_of (fst res)"
proof -
  note k = clock_le[OF assms(2), of "used w" "Suc (used w)"] clock_le[OF assms(2), of "Suc (used w)" "Suc (Suc (used w))"]
  have keys: "slot_keys c (fst (clock w (used w))) (store w)" using assms(2) by (simp add: world_ok_def now_of_def)
  obtain b where b: "snd res = Some b \<or> snd res = None" by (cases "snd res") auto
  obtain g where a: "slot_keys c (now_of (fst res)) (store (fst res))"
    "\<And>u. slots c (now_of (fst res)) u (store (fst res)) = young c (now_of (fst res))
       (if g \<and> mk i = u then (slots c (now_of w) u (store w))(r \<mapsto> stamp_of w) else slots c (now_of w) u (store w))"
    "g \<Longrightarrow> slots c (now_of w) (mk i) (store w) r \<noteq> None \<or> int (card (dom (slots c (now_of w) (mk i) (store w)))) < m"
    "snd res = Some b \<Longrightarrow> g = b"
    by (rule acquire_ages[OF assms(1), where ?m1.0 = "clock w (used w)" and ?m2.0 = "clock w (Suc (used w))" and t' = "fst (clock w (Suc (Suc (used w))))"
        and db = "store w" and v = "mk i" and i = i and m = m and r = r and b = b, OF _ _ keys])
      (use k in \<open>simp_all add: res_def round_trips_def now_of_def stamp_of_def Let_def case_prod_unfold cong: if_cong\<close>)
  have same: "clock (fst res) = clock w" "used w \<le> used (fst res)" by (simp_all add: res_def round_trips_def Let_def case_prod_unfold)
  show ok: "world_ok c (fst res)" using a(1) assms(2) by (simp add: world_ok_def same(1))
  let ?h = "\<lambda>j. if g \<and> i = j then (world_slots c mk w j)(r \<mapsto> stamp_of w) else world_slots c mk w j"
  have new: "world_slots c mk (fst res) j = young c (now_of (fst res)) (?h j)" for j
    using a(2)[of "mk j"] by (simp add: world_slots_def assms(3))
  show "j \<noteq> i \<Longrightarrow> world_holds c mk (fst res) j \<subseteq> world_holds c mk w j"
    using dom_young[of c "now_of (fst res)" "?h j"] by (simp add: world_holds_def new)
  show "world_holds c mk (fst res) i \<subseteq> world_holds c mk w i
      \<or> world_holds c mk (fst res) i \<subseteq> insert r (world_holds c mk w i) \<and> snd res \<noteq> Some False \<and> int (card (world_holds c mk w i)) < m"
  proof (cases "g \<and> world_slots c mk w i r = None")
    case True
    then have "int (card (world_holds c mk w i)) < m" using a(3) by (simp add: world_holds_def world_slots_def)
    moreover have "world_holds c mk (fst res) i \<subseteq> insert r (world_holds c mk w i)"
      using dom_young[of c "now_of (fst res)" "?h i"] True by (simp add: world_holds_def new)
    moreover have "snd res \<noteq> Some False" using a(4) b True by auto
    ultimately show ?thesis by blast
  next
    case False
    then have "dom (?h i) = world_holds c mk w i" by (auto simp: world_holds_def)
    then show ?thesis using dom_young[of c "now_of (fst res)" "?h i"] by (simp add: world_holds_def new)
  qed
  show "j \<noteq> i \<or> q \<noteq> r \<Longrightarrow> world_slots c mk w j q = Some s
      \<Longrightarrow> world_slots c mk (fst res) j q = Some s \<or> s + slotTTLSeconds c \<le> stamp_of (fst res)"
    by (rule world_young[OF new]) auto
  show "snd res = Some True \<Longrightarrow> world_slots c mk (fst res) i r = Some (stamp_of w) \<or> stamp_of w + slotTTLSeconds c \<le> stamp_of (fst res)"
    by (rule world_young[OF new]) (use a(4) b in auto)
  show "stamp_of w \<le> stamp_of (fst res)" by (rule stamp_later[OF assms(2) same])
qed

lemma world_release:
  fixes i :: int and r :: string and mk :: "int \<Rightarrow> holder"
  assumes "0 < slotTTLSeconds c" "world_ok c w" "\<And>i j. mk i = mk j \<longleftrightarrow> i = j"
  defines "res \<equiv> round_trips 4 (\<lambda>M. release_slot (refreshActiveIndex c (index_key (mk i)) i (slot_key (mk i)) (wait_key (mk i)))
      (slot_key (mk i)) r (M 0) (M 1) (M 2) (M 3)) w"
  shows "world_ok c (fst res)" "world_holds c mk (fst res) j \<subseteq> world_holds c mk w j"
    "snd res = Some () \<Longrightarrow> r \<notin> world_holds c mk (fst res) i"
    "j \<noteq> i \<or> q \<noteq> r \<Longrightarrow> world_slots c mk w j q = Some s
      \<Longrightarrow> world_slots c mk (fst res) j q = Some s \<or> s + slotTTLSeconds c \<le> stamp_of (fst res)"
    "stamp_of w \<le> stamp_of (fst res)"
proof -
  have k: "fst (clock w (used w)) \<le> fst (clock w (used w + 1))" "fst (clock w (used w + 1)) \<le> fst (clock w (used w + 2))"
    "fst (clock w (used w + 2)) \<le> fst (clock w (used w + 3))" "fst (clock w (used w + 3)) \<le> fst (clock w (used w + 4))"
    by (rule clock_le[OF assms(2)]; simp)+
  have keys: "slot_keys c (fst (clock w (used w))) (store w)" using assms(2) by (simp add: world_ok_def now_of_def)
  obtain g where a: "slot_keys c (now_of (fst res)) (store (fst res))"
    "\<And>u. slots c (now_of (fst res)) u (store (fst res)) = young c (now_of (fst res))
       (if g \<and> mk i = u then (slots c (now_of w) u (store w))(r := None) else slots c (now_of w) u (store w))"
    "snd res = Some () \<Longrightarrow> g"
    by (rule release_ages[OF assms(1) k keys, where v = "mk i" and i = i and r = r])
      (simp_all add: res_def round_trips_def now_of_def Let_def case_prod_unfold cong: if_cong)
  have same: "clock (fst res) = clock w" "used w \<le> used (fst res)" by (simp_all add: res_def round_trips_def Let_def case_prod_unfold)
  show "world_ok c (fst res)" using a(1) assms(2) by (simp add: world_ok_def same(1))
  let ?h = "\<lambda>j. if g \<and> i = j then (world_slots c mk w j)(r := None) else world_slots c mk w j"
  have new: "world_slots c mk (fst res) j = young c (now_of (fst res)) (?h j)" for j
    using a(2)[of "mk j"] by (simp add: world_slots_def assms(3))
  show "world_holds c mk (fst res) j \<subseteq> world_holds c mk w j"
    using dom_young[of c "now_of (fst res)" "?h j"] by (auto simp: world_holds_def new split: if_splits)
  show "snd res = Some () \<Longrightarrow> r \<notin> world_holds c mk (fst res) i"
    using dom_young[of c "now_of (fst res)" "?h i"] a(3) by (auto simp: world_holds_def new)
  show "j \<noteq> i \<or> q \<noteq> r \<Longrightarrow> world_slots c mk w j q = Some s
      \<Longrightarrow> world_slots c mk (fst res) j q = Some s \<or> s + slotTTLSeconds c \<le> stamp_of (fst res)"
    by (rule world_young[OF new]) auto
  show "stamp_of w \<le> stamp_of (fst res)" by (rule stamp_later[OF assms(2) same])
qed

text \<open>A fit round trip of another kind.\<close>

lemma world_other:
  fixes mk :: "int \<Rightarrow> holder"
  assumes "0 < slotTTLSeconds c" "world_ok c w" "on_time (now_of w) x" "other_fit num p lim x" "\<And>v i. num v = Some i \<longleftrightarrow> v = mk i"
  shows "world_ok c (other_trip c x w)" "stamp_of w \<le> stamp_of (other_trip c x w)"
    "world_holds c mk (other_trip c x w) j \<subseteq> world_holds c mk w j
      \<or> (\<exists>r. world_holds c mk (other_trip c x w) j \<subseteq> insert r (world_holds c mk w j) \<and> int (card (world_holds c mk w j)) < lim j)"
    "own_id p q \<Longrightarrow> world_slots c mk w j q = Some s
      \<Longrightarrow> world_slots c mk (other_trip c x w) j q = Some s \<or> s + slotTTLSeconds c \<le> stamp_of (other_trip c x w)"
proof -
  let ?w = "other_trip c x w" and ?e = "trip_effect c x (now_of w) (store w)"
  have keys: "slot_keys c (now_of w) (store w)" using assms(2) by (simp add: world_ok_def)
  have le: "now_of w \<le> now_of ?w" using clock_le[OF assms(2), of "used w" "Suc (used w)"] by (simp add: other_trip_def now_of_def)
  have e: "slot_keys c (now_of w) ?e" "slots c (now_of w) (mk j) ?e = new_slots c x (now_of w) (store w) (mk j) (world_slots c mk w j)"
    using goes_trip[OF keys assms(1,3)] by (simp_all add: goes_def Let_def world_slots_def)
  let ?h = "new_slots c x (now_of w) (store w) (mk j) (world_slots c mk w j)"
  have later: "ages c (now_of w) ?e (now_of ?w) ?e" by (rule ages_later[OF le])
  have new: "world_slots c mk ?w j = young c (now_of ?w) ?h"
    using later e by (simp add: ages_def world_slots_def other_trip_def del: trip_effect.simps)
  show "world_ok c ?w" using later e(1) assms(2) by (simp add: ages_def world_ok_def other_trip_def del: trip_effect.simps)
  show "stamp_of w \<le> stamp_of ?w" by (rule stamp_later[OF assms(2)]) (simp_all add: other_trip_def)
  have h: "dom ?h \<subseteq> world_holds c mk w j \<or> (\<exists>r. dom ?h \<subseteq> insert r (world_holds c mk w j) \<and> int (card (world_holds c mk w j)) < lim j)"
  proof (cases "\<exists>m r. x = Acquire (mk j) m r \<and> acquired c (mk j) m r (now_of w) (store w) \<and> world_slots c mk w j r = None")
    case True
    then obtain m r where x: "x = Acquire (mk j) m r" "acquired c (mk j) m r (now_of w) (store w)" "world_slots c mk w j r = None" by blast
    have "m \<le> lim j" using assms(4) x(1) assms(5)[of "mk j" j] by (auto split: option.splits)
    moreover have "int (card (world_holds c mk w j)) < m"
      using acquire_effect(1)[OF slot_keysD[OF keys, of "mk j"] keys_differ(1) assms(1), of m r] x(2,3)
      by (auto simp: acquired_def slots_def world_holds_def world_slots_def)
    ultimately show ?thesis using x by (auto simp: world_holds_def)
  next
    case False
    then show ?thesis by (cases x) (auto simp: world_holds_def split: if_splits)
  qed
  then show "world_holds c mk ?w j \<subseteq> world_holds c mk w j
      \<or> (\<exists>r. world_holds c mk ?w j \<subseteq> insert r (world_holds c mk w j) \<and> int (card (world_holds c mk w j)) < lim j)"
    using dom_young[of c "now_of ?w" ?h] unfolding world_holds_def[of c mk ?w] new by blast
  assume own: "own_id p q" and s: "world_slots c mk w j q = Some s"
  have "has_prefix q p" using own by (auto simp: own_id_def has_prefix_iff elim: prefix_order.trans[rotated])
  then have "?h q = Some s" using own s assms(4) assms(5)[of "mk j" j] by (cases x) auto
  then show "world_slots c mk ?w j q = Some s \<or> s + slotTTLSeconds c \<le> stamp_of ?w" by (rule world_young[OF new])
qed

lemma cache_operations:
  "cc_AcquireAccountSlot (redis_cache c) i m r = round_trips 2 (\<lambda>M. acquire_slot c (index_key (Account i)) (slot_key (Account i)) (live_key (Account i)) i m r (M 0) (M 1))"
  "cc_AcquireUserSlot (redis_cache c) i m r = round_trips 2 (\<lambda>M. acquire_slot c (index_key (User i)) (slot_key (User i)) (live_key (User i)) i m r (M 0) (M 1))"
  "cc_ReleaseAccountSlot (redis_cache c) i r = round_trips 4 (\<lambda>M. release_slot (refreshActiveIndex c (index_key (Account i)) i (slot_key (Account i)) (wait_key (Account i)))
      (slot_key (Account i)) r (M 0) (M 1) (M 2) (M 3))"
  "cc_ReleaseUserSlot (redis_cache c) i r = round_trips 4 (\<lambda>M. release_slot (refreshActiveIndex c (index_key (User i)) i (slot_key (User i)) (wait_key (User i)))
      (slot_key (User i)) r (M 0) (M 1) (M 2) (M 3))"
  by (simp_all add: redis_cache_def holder_keys AcquireAccountSlot_def AcquireUserSlot_def ReleaseAccountSlot_def ReleaseUserSlot_def
      refreshAccountActiveIndex_def refreshUserActiveIndex_def)

lemma world_provider:
  assumes "0 < slotTTLSeconds c" "\<And>i j. mk i = mk j \<longleftrightarrow> i = j" "\<And>v i. num v = Some i \<longleftrightarrow> v = mk i"
  shows "slot_provider (\<lambda>i m r. round_trips 2 (\<lambda>M. acquire_slot c (index_key (mk i)) (slot_key (mk i)) (live_key (mk i)) i m r (M 0) (M 1)))
      (\<lambda>i r. round_trips 4 (\<lambda>M. release_slot (refreshActiveIndex c (index_key (mk i)) i (slot_key (mk i)) (wait_key (mk i))) (slot_key (mk i)) r
         (M 0) (M 1) (M 2) (M 3)))
      (other_trip c) (\<lambda>p lim x w. on_time (now_of w) x \<and> other_fit num p lim x) (world_slots c mk) stamp_of (slotTTLSeconds c) (world_ok c)"
proof (unfold_locales, goal_cases)
  case (1 b i)
  then show ?case by (simp add: world_slots_def)
next
  case (2 b i m r)
  then show ?case using world_acquire(1,6)[OF assms(1) _ assms(2)] by blast
next
  case (3 b i m r)
  then show ?case using world_acquire(3)[OF assms(1) _ assms(2), of b i m r] unfolding world_holds_def by blast
next
  case (4 b j i m r)
  then show ?case using world_acquire(2)[OF assms(1) _ assms(2)] unfolding world_holds_def by blast
next
  case (5 b j i q r t m)
  then show ?case using world_acquire(4)[OF assms(1) _ assms(2), of b] by blast
next
  case (6 b i m r)
  then show ?case using world_acquire(5)[OF assms(1) _ assms(2), of b] by blast
next
  case (7 b i r)
  then show ?case using world_release(1,5)[OF assms(1) _ assms(2)] by blast
next
  case (8 b i r j)
  then show ?case using world_release(2)[OF assms(1) _ assms(2)] unfolding world_holds_def by blast
next
  case (9 b j i q r t)
  then show ?case using world_release(4)[OF assms(1) _ assms(2), of b] by blast
next
  case (10 b p lim x)
  then show ?case using world_other(1,2)[OF assms(1) _ _ _ assms(3)] by blast
next
  case (11 b p lim x j)
  then show ?case using world_other(3)[OF assms(1) _ _ _ assms(3), of b x p lim j] unfolding world_holds_def by blast
next
  case (12 b p lim x q j t)
  then show ?case using world_other(4)[OF assms(1) _ _ _ assms(3), of b x p lim q j t] by blast
qed

text \<open>The ids of accounts, and of users.\<close>

fun account_num :: "holder \<Rightarrow> int option" where
  "account_num (Account i) = Some i"
| "account_num (User i) = None"

fun user_num :: "holder \<Rightarrow> int option" where
  "user_num (Account i) = None"
| "user_num (User i) = Some i"

lemma account_num: "account_num v = Some i \<longleftrightarrow> v = Account i" by (cases v) auto

lemma user_num: "user_num v = Some i \<longleftrightarrow> v = User i" by (cases v) auto

definition fit_trip :: "(holder \<Rightarrow> int option) \<Rightarrow> string \<Rightarrow> (int \<Rightarrow> int) \<Rightarrow> trip \<Rightarrow> world \<Rightarrow> bool" where
  "fit_trip num p lim x w \<longleftrightarrow> on_time (now_of w) x \<and> other_fit num p lim x"

interpretation accounts: slot_provider "cc_AcquireAccountSlot (redis_cache (NewConcurrencyCache a b))" "cc_ReleaseAccountSlot (redis_cache (NewConcurrencyCache a b))"
  "other_trip (NewConcurrencyCache a b)" "fit_trip account_num" "world_slots (NewConcurrencyCache a b) Account" stamp_of
  "slotTTLSeconds (NewConcurrencyCache a b)" "world_ok (NewConcurrencyCache a b)" for a b
  using world_provider[OF NewConcurrencyCache_ttl _ account_num, of a b] by (simp add: cache_operations[abs_def] fit_trip_def[abs_def])

interpretation users: slot_provider "cc_AcquireUserSlot (redis_cache (NewConcurrencyCache a b))" "cc_ReleaseUserSlot (redis_cache (NewConcurrencyCache a b))"
  "other_trip (NewConcurrencyCache a b)" "fit_trip user_num" "world_slots (NewConcurrencyCache a b) User" stamp_of
  "slotTTLSeconds (NewConcurrencyCache a b)" "world_ok (NewConcurrencyCache a b)" for a b
  using world_provider[OF NewConcurrencyCache_ttl _ user_num, of a b] by (simp add: cache_operations[abs_def] fit_trip_def[abs_def])


section \<open>What the service guarantees\<close>

text \<open>The requests for account slots of a process on Redis.\<close>

definition account_requests :: "int \<Rightarrow> int \<Rightarrow> (int \<Rightarrow> int) \<Rightarrow> string \<Rightarrow> trip request list \<Rightarrow> world ConcurrencyService \<times> (int \<times> string \<times> int) list
    \<Rightarrow> (world ConcurrencyService \<times> (int \<times> string \<times> int) list) option" where
  "account_requests a b lim p = (let c = NewConcurrencyCache a b
     in serve_all (serve (svc_AcquireAccountSlot (redis_cache c)) (\<lambda>i r. run_release (redis_cache c) (ReleaseAccount i r)) stamp_of (other_trip c) p)
          (allowed (fit_trip account_num p lim) lim))"

lemma account_requests_serves:
  "account_requests a b lim p = serve_all (accounts.serves a b p) (allowed (fit_trip account_num p lim) lim)"
proof -
  have "(\<lambda>i r. run_release (redis_cache c) (ReleaseAccount i r)) = (\<lambda>i r s. fst (via (cc_ReleaseAccountSlot (redis_cache c) i r) s))" for c
    by (simp add: fun_eq_iff)
  then show ?thesis by (simp only: account_requests_def svc_acquire_with Let_def)
qed

text \<open>
  C13: The requests that the service has admitted for an account (AcquireAccountSlot and its release
  function in service/concurrency_service.go, on the Redis cache), that have not finished and are younger
  than the lifetime of a slot are never more than the limit, whatever round trips fail and however requests
  come and go, with any round trips of this or of other processes in between, provided that nobody asks for
  more slots of an account than its limit, that other processes use and release ids of their own, and
  that none of them runs its startup clean-up.
\<close>
theorem service_admits_within_limit:
  assumes "account_requests a b lim p qs (NewConcurrencyService n w, []) = Some (s, admitted)"
    and "world_ok (NewConcurrencyCache a b) w" "\<And>j. int (card (world_holds (NewConcurrencyCache a b) Account w j)) \<le> lim j"
    and "unat n + length qs < 2 ^ 64"
  shows "int (length (filter (\<lambda>(j, r, t). j = i \<and> stamp_of (behind s) < t + slotTTLSeconds (NewConcurrencyCache a b)) admitted)) \<le> lim i"
proof -
  have "accounts.serving a b p lim (NewConcurrencyService n w, [])"
    using assms(2,3) by (simp add: accounts.serving_def NewConcurrencyService_def numbered_def accounts.kept_def world_holds_def)
  then have "accounts.serving a b p lim (s, admitted)"
    using accounts.serve_all_serving[OF _ assms(1)[unfolded account_requests_serves]] assms(4)
    by (simp add: NewConcurrencyService_def)
  then show ?thesis by (rule accounts.serving_limit)
qed

definition steady_world :: world where
  "steady_world = \<lparr>clock = (\<lambda>n. (1000 * int n, if n = 4 then LostAfter else Fine)), used = 0, store = empty_redis\<rparr>"

lemma steady_world_ok: "world_ok c steady_world"
  by (simp add: world_ok_def steady_world_def mono_def)

lemma no_holds: "world_holds c Account steady_world j = {}"
  by (simp add: world_holds_def world_slots_def steady_world_def)

lemma serve_all_returns:
  assumes "list_all (\<lambda>q. \<forall>b. good q b) qs"
  shows "\<exists>res. serve_all serves good qs x = Some res"
  using assms by (induction qs arbitrary: x) auto

definition demo_requests :: "trip request list" where
  "demo_requests = [Admit 7 2, Other (Acquire (Account 7) 2 ''r2-1''), Admit 7 1, Other (Release (Account 7) ''r2-1''), Finish 7 ''r1-1'', Admit 7 2]"

theorem service_admits_within_limit_witness:
  "\<exists>s admitted. account_requests 15 0 (\<lambda>_. 2) ''r1'' demo_requests (NewConcurrencyService 0 steady_world, []) = Some (s, admitted)
    \<and> int (length (filter (\<lambda>(j, r, t). j = 7 \<and> stamp_of (behind s) < t + slotTTLSeconds (NewConcurrencyCache 15 0)) admitted)) \<le> 2"
proof -
  have "list_all (\<lambda>q. \<forall>b. allowed (fit_trip account_num ''r1'' (\<lambda>_. 2)) (\<lambda>_. 2) q b) demo_requests"
    by (auto simp: list_all_iff demo_requests_def fit_trip_def own_id_def has_prefix_def)
  then obtain s admitted where run: "account_requests 15 0 (\<lambda>_. 2) ''r1'' demo_requests (NewConcurrencyService 0 steady_world, []) = Some (s, admitted)"
    unfolding account_requests_serves using serve_all_returns by fastforce
  from service_admits_within_limit[OF this steady_world_ok, of 7] show ?thesis
    using run by (simp add: no_holds demo_requests_def)
qed

text \<open>
  When the reply of an acquisition is lost, AcquireAccountSlot (service/concurrency_service.go)
  reports an error and gives no release function, but the slot is taken: it counts until it expires.
\<close>
theorem lost_reply_keeps_slot:
  assumes "world_ok (NewConcurrencyCache a b) (behind s)" "snd (clock (behind s) (used (behind s))) = LostAfter" "0 < m"
    "slots (NewConcurrencyCache a b) (now_of (behind s)) (Account i) (store (behind s)) = (\<lambda>_. None)"
    "lives (now_of (behind s)) (Account i) (store (behind s)) = (\<lambda>_. None)"
  shows "snd (svc_AcquireAccountSlot (redis_cache (NewConcurrencyCache a b)) p i m s) = None
    \<and> slots (NewConcurrencyCache a b) (now_of (behind s)) (Account i)
        (store (behind (fst (svc_AcquireAccountSlot (redis_cache (NewConcurrencyCache a b)) p i m s))))
      = [snd (generateRequestID p s) \<mapsto> TIME (now_of (behind s))]"
proof -
  let ?c = "NewConcurrencyCache a b" and ?t = "now_of (behind s)" and ?db = "store (behind s)" and ?r = "snd (generateRequestID p s)"
  have keys: "slot_keys ?c ?t ?db" using assms(1) by (simp add: world_ok_def)
  have "acquired ?c (Account i) m ?r ?t ?db"
    using acquire_effect(1)[OF slot_keysD[OF keys, of "Account i"] keys_differ(1) NewConcurrencyCache_ttl, of m ?r] assms(3-5)
    by (simp add: acquired_def slots_def lives_def)
  then have new: "slots ?c ?t (Account i) (trip_effect ?c (Acquire (Account i) m ?r) ?t ?db) = [?r \<mapsto> TIME ?t]"
    using goes_acquire[OF keys NewConcurrencyCache_ttl, of "Account i" m ?r] assms(4)
    by (simp add: goes_def Let_def del: trip_effect.simps)
  have "via (cc_AcquireAccountSlot (redis_cache ?c) i m ?r) (fst (generateRequestID p s)) =
      ((fst (generateRequestID p s))\<lparr>behind := (behind s)\<lparr>used := used (behind s) + 2, store := trip_effect ?c (Acquire (Account i) m ?r) ?t ?db\<rparr>\<rparr>, None)"
    using assms(2) by (simp add: via_def cache_operations round_trips_def acquire_slot_def at_def now_of_def generated_id Let_def)
  then show ?thesis using new assms(3) by (simp add: svc_AcquireAccountSlot_def case_prod_unfold Let_def del: trip_effect.simps)
qed

theorem lost_reply_keeps_slot_witness:
  "snd (svc_AcquireAccountSlot (redis_cache (NewConcurrencyCache 15 0)) ''r1'' 7 1 (NewConcurrencyService 0 (steady_world\<lparr>used := 4\<rparr>))) = None
   \<and> slots (NewConcurrencyCache 15 0) 4000 (Account 7)
       (store (behind (fst (svc_AcquireAccountSlot (redis_cache (NewConcurrencyCache 15 0)) ''r1'' 7 1 (NewConcurrencyService 0 (steady_world\<lparr>used := 4\<rparr>))))))
     = [snd (generateRequestID ''r1'' (NewConcurrencyService 0 (steady_world\<lparr>used := 4\<rparr>))) \<mapsto> 4]"
  using lost_reply_keeps_slot[of 15 0 "NewConcurrencyService 0 (steady_world\<lparr>used := 4\<rparr>)" 1 7 "''r1''"]
  by (simp add: NewConcurrencyService_def steady_world_def world_ok_def now_of_def mono_def TIME_def)


text \<open>The wait counters behind the operations on the index.\<close>

lemma counts_write:
  "counts (touchActiveIndexAt ik i e m db) = counts db" "counts (write_index c ik i n ld m db) = counts db"
proof -
  show touch: "counts (touchActiveIndexAt ik i e m db) = counts db" for e
    using at_cases[of m "quietly (\<lambda>t. ZADD t ik e (decimal i))" db] by (auto simp: touchActiveIndexAt_def quietly_def)
  show "counts (write_index c ik i n ld m db) = counts db"
    using at_cases[of m "quietly (\<lambda>t. ZREM t ik (decimal i))" db] touch
    by (auto simp: write_index_def quietly_def Let_def split: prod.split)
qed

lemma counts_refresh_index: "counts (refreshActiveIndex c ik i sk wk m1 m2 m3 db) = counts db"
proof -
  have time: "fst (at m1 (\<lambda>t db. (db, TIME t)) d) = d" for d using at_cases[of m1 "\<lambda>t db. (db, TIME t)" d] by auto
  have read: "counts (fst (readActiveLoadForKey c sk wk n m2 d)) = counts d" for n d
    using at_cases[of m2 "read_load (n - slotTTLSeconds c) sk wk" d] by (auto simp: readActiveLoadForKey_def read_load_def Let_def)
  obtain d1 o1 where s1: "at m1 (\<lambda>t db. (db, TIME t)) db = (d1, o1)" by fastforce
  have d1: "d1 = db" using time[of db] s1 by simp
  show ?thesis
  proof (cases o1)
    case (Some n)
    obtain d2 o2 where s2: "readActiveLoadForKey c sk wk n m2 d1 = (d2, o2)" by fastforce
    have "counts d2 = counts d1" using read[of n d1] s2 by simp
    then show ?thesis using s1 s2 d1 Some counts_write(2) by (auto simp: refreshActiveIndex_def split: option.split)
  qed (use s1 d1 in \<open>simp add: refreshActiveIndex_def\<close>)
qed

text \<open>
  A request whose place in the wait queue could not be recorded is let in (IncrementWaitCount in
  service/concurrency_service.go answers true on an error) and gives a place back when it leaves: it
  takes away the place of another waiting request.
\<close>
theorem unrecorded_wait_takes_place:
  assumes "snd (clock (behind s) (used (behind s))) = Lost" "snd (clock (behind s) (used (behind s) + 2)) = Fine"
    "GET (fst (clock (behind s) (used (behind s) + 2))) (wait_key (User i)) (store (behind s)) = Some n" "0 < n"
  shows "snd (svc_IncrementWaitCount (Some (redis_cache c)) i m s)
    \<and> waiting (fst (clock (behind s) (used (behind s) + 2))) (User i)
        (store (behind (svc_DecrementWaitCount (Some (redis_cache c)) i (fst (svc_IncrementWaitCount (Some (redis_cache c)) i m s))))) = n - 1"
proof -
  let ?w = "behind s"
  let ?k = "wait_key (User i)" and ?t = "fst (clock ?w (used ?w + 2))"
  have inc: "svc_IncrementWaitCount (Some (redis_cache c)) i m s = (s\<lparr>behind := ?w\<lparr>used := used ?w + 2\<rparr>\<rparr>, True)"
    using assms(1) by (simp add: svc_IncrementWaitCount_def redis_cache_def via_def round_trips_def IncrementWaitCount_def increment_wait_def at_def)
  have k: "waitQueueKey i = ?k" by (simp add: holder_keys)
  have dec: "fst (decrementWaitScript ?k ?t (store ?w)) = INCRBY ?t ?k (- 1) (store ?w)"
    using assms(3,4) by (simp add: decrementWaitScript_def)
  have "counts (store (behind (svc_DecrementWaitCount (Some (redis_cache c)) i (s\<lparr>behind := ?w\<lparr>used := used ?w + 2\<rparr>\<rparr>))))
      = counts (INCRBY ?t ?k (- 1) (store ?w))"
    using assms(2) dec by (simp add: svc_DecrementWaitCount_def redis_cache_def via_def round_trips_def DecrementWaitCount_def decrement_wait_def
        at_def refreshUserActiveIndex_def counts_refresh_index k Let_def)
  then show ?thesis
    using assms(3) by (auto simp: inc waiting_def GET_def INCRBY_def alive_def split: option.splits)
qed

theorem unrecorded_wait_takes_place_witness:
  "snd (svc_IncrementWaitCount (Some (redis_cache (NewConcurrencyCache 15 0))) 3 20 (NewConcurrencyService 0
      \<lparr>clock = (\<lambda>n. (1000 * int n, if n = 0 then Lost else Fine)), used = 0, store = INCRBY 0 (wait_key (User 3)) 1 empty_redis\<rparr>))
   \<and> waiting 2000 (User 3) (store (behind (svc_DecrementWaitCount (Some (redis_cache (NewConcurrencyCache 15 0))) 3
      (fst (svc_IncrementWaitCount (Some (redis_cache (NewConcurrencyCache 15 0))) 3 20 (NewConcurrencyService 0
        \<lparr>clock = (\<lambda>n. (1000 * int n, if n = 0 then Lost else Fine)), used = 0, store = INCRBY 0 (wait_key (User 3)) 1 empty_redis\<rparr>)))))) = 0"
  using unrecorded_wait_takes_place[of "NewConcurrencyService 0
      \<lparr>clock = (\<lambda>n. (1000 * int n, if n = 0 then Lost else Fine)), used = 0, store = INCRBY 0 (wait_key (User 3)) 1 empty_redis\<rparr>" 3 1
      "NewConcurrencyCache 15 0" 20]
  by (simp add: NewConcurrencyService_def GET_def INCRBY_def alive_def empty_redis_def)

text \<open>The last confirmation among some ticks.\<close>

fun confirmed :: "instant \<Rightarrow> (bool option \<times> instant) list \<Rightarrow> instant" where
  "confirmed since [] = since"
| "confirmed since ((answer, now) # ticks) = confirmed (if answer = Some True then now else since) ticks"

lemma lease_ttl: "openAIWSIngressLeaseTTL \<le> time_sub t u \<longleftrightarrow> openAIWSIngressLeaseTTL \<le> t - u"
  using time_sub_less[of openAIWSIngressLeaseTTL t u]
  by (simp add: openAIWSIngressLeaseTTL_def duration_units min_int64_def max_int64_def not_less[symmetric])

text \<open>
  While the refresh loop of an ingress lease runs (refreshLoop in service/concurrency_service.go), no
  refresh was answered with a missing lease, and at every tick less than a lease lifetime has passed
  since the last confirmation.
\<close>
theorem running_lease_confirmed:
  assumes "refreshLoop start (ticks @ [(answer, now)]) = None"
  shows "(Some False, t) \<notin> set (ticks @ [(answer, now)]) \<and> now - confirmed start (ticks @ [(answer, now)]) < openAIWSIngressLeaseTTL"
  using assms
proof (induction ticks arbitrary: start)
  case Nil
  moreover have "0 < openAIWSIngressLeaseTTL" by (simp add: openAIWSIngressLeaseTTL_def duration_units)
  ultimately show ?case by (auto simp: lease_refresh_def lease_ttl split: if_splits)
next
  case (Cons e ticks)
  then show ?case by (cases e) (auto simp: lease_refresh_def split: if_splits)
qed

theorem running_lease_confirmed_witness:
  "(Some False, 0) \<notin> set ([(Some True, 20 * second)] @ [(None, 40 * second)])
   \<and> 40 * second - confirmed 0 ([(Some True, 20 * second)] @ [(None, 40 * second)]) < openAIWSIngressLeaseTTL"
  by (rule running_lease_confirmed) (simp add: lease_refresh_def time_sub_def openAIWSIngressLeaseTTL_def duration_units min_int64_def max_int64_def)

text \<open>
  A lease that Redis has forgotten is given up late: with a tick every 20 seconds and a confirmation
  that took e to arrive, the session still runs at 80 seconds, when the lease of the refresh at 20
  seconds is over, and stops only at 100 seconds (refreshLoop in service/concurrency_service.go).
\<close>
theorem lost_lease_runs_on:
  assumes "0 < e" "e \<le> 2 * second"
  shows "refreshLoop 0 [(Some True, 20 * second + e), (None, 40 * second), (None, 60 * second), (None, 80 * second)] = None
    \<and> refreshLoop 0 [(Some True, 20 * second + e), (None, 40 * second), (None, 60 * second), (None, 80 * second), (None, 100 * second)]
      = Some (100 * second)"
  using assms lease_ttl by (simp add: lease_refresh_def openAIWSIngressLeaseTTL_def duration_units)

theorem lost_lease_runs_on_witness:
  "refreshLoop 0 [(Some True, 20 * second + millisecond), (None, 40 * second), (None, 60 * second), (None, 80 * second)] = None
    \<and> refreshLoop 0 [(Some True, 20 * second + millisecond), (None, 40 * second), (None, 60 * second), (None, 80 * second), (None, 100 * second)]
      = Some (100 * second)"
  by (rule lost_lease_runs_on) (simp_all add: duration_units)

text \<open>The uses of the cache of load batches.\<close>

datatype load_use = Lookup string instant | Save string load_map instant instant | Set_TTL duration

fun use_loads :: "load_use \<Rightarrow> 's ConcurrencyService \<Rightarrow> 's ConcurrencyService" where
  "use_loads (Lookup key now) s = fst (getCachedAccountLoadBatch key now s)"
| "use_loads (Save key l x now) s = storeCachedAccountLoadBatch key l x now s"
| "use_loads (Set_TTL ttl) s = SetAccountLoadBatchCacheTTL ttl s"

text \<open>
  The cache of load batches (service/concurrency_service.go) never holds more than 256 batches, each
  key once.
\<close>
theorem load_cache_bounded:
  "length (accountLoadCache (fold use_loads us (NewConcurrencyService n b))) \<le> maxAccountLoadBatchCacheEntries
    \<and> adistinct (accountLoadCache (fold use_loads us (NewConcurrencyService n b)))"
proof -
  define fits where "fits s \<longleftrightarrow> length (accountLoadCache s) \<le> maxAccountLoadBatchCacheEntries \<and> adistinct (accountLoadCache s)"
    for s :: "'a ConcurrencyService"
  have drop: "adistinct m \<Longrightarrow> adistinct (drop k m)" for k and m :: "(string, cachedAccountLoadBatch) amap"
    by (simp add: drop_map[symmetric])
  have one: "fits s \<Longrightarrow> fits (use_loads u s)" for u s
  proof (cases u)
    case (Save key l x now)
    assume s: "fits s"
    let ?m = "filter (\<lambda>e. now < cb_expiresAt (snd e)) (accountLoadCache s)"
    let ?d = "drop (length ?m + 1 - maxAccountLoadBatchCacheEntries) ?m"
    have "length ?d < maxAccountLoadBatchCacheEntries" by (auto simp: maxAccountLoadBatchCacheEntries_def)
    then show ?thesis
      using s length_aput_le[of key "\<lparr>cb_loadMap = l, cb_expiresAt = x\<rparr>" ?d] length_aput_le[of key "\<lparr>cb_loadMap = l, cb_expiresAt = x\<rparr>" "accountLoadCache s"]
      by (simp add: Save fits_def storeCachedAccountLoadBatch_def Let_def adistinct_aput drop adistinct_filter)
  next
    case (Lookup key now)
    assume "fits s"
    then show ?thesis using length_adel_le[of key "accountLoadCache s"]
      by (simp add: Lookup fits_def getCachedAccountLoadBatch_def adistinct_adel split: option.split)
  next
    case (Set_TTL ttl)
    assume "fits s"
    then show ?thesis by (simp add: Set_TTL fits_def SetAccountLoadBatchCacheTTL_def Let_def)
  qed
  have "fits s \<Longrightarrow> fits (fold use_loads us s)" for s by (induction us arbitrary: s) (simp_all add: one)
  moreover have "fits (NewConcurrencyService n b)" by (simp add: fits_def NewConcurrencyService_def)
  ultimately show ?thesis unfolding fits_def by blast
qed

end
