(* ===== verification/Suffix_Automaton.thy ===== *)
theory Suffix_Automaton
  imports Gateway_Prelude
begin

text \<open>
  Longest suffixes in a prefix-closed set of words, without any program: the words that the failure
  links of a string matching automaton stand for, and the walk along them that reads one more letter.
\<close>

section \<open>The longest suffix in a set of words\<close>

fun longest :: "'a list set \<Rightarrow> 'a list \<Rightarrow> 'a list" where
  "longest W [] = []"
| "longest W (c # cs) = (if c # cs \<in> W then c # cs else longest W cs)"

definition closed_words :: "'a list set \<Rightarrow> bool" where
  "closed_words W \<longleftrightarrow> [] \<in> W \<and> (\<forall>w c. w @ [c] \<in> W \<longrightarrow> w \<in> W)"

lemma longest_in: "[] \<in> W \<Longrightarrow> longest W w \<in> W"
  by (induction w) auto

lemma longest_suffix: "suffix (longest W w) w"
  by (induction w) (auto simp: suffix_ConsI)

lemma longest_max: "suffix v w \<Longrightarrow> v \<in> W \<Longrightarrow> suffix v (longest W w)"
  by (induction w) (auto simp: suffix_Cons)

lemma longest_self [simp]: "w \<in> W \<Longrightarrow> longest W w = w"
  by (cases w) auto

lemma longest_unique:
  assumes "[] \<in> W" "suffix u w" "u \<in> W" "\<And>v. suffix v w \<Longrightarrow> v \<in> W \<Longrightarrow> suffix v u"
  shows "longest W w = u"
  by (meson assms longest_in longest_max longest_suffix suffix_order.order_antisym)

text \<open>The failure word of a word, and the letters read on the way.\<close>

definition failure_word :: "'a list set \<Rightarrow> 'a list \<Rightarrow> 'a list" where
  "failure_word W w = longest W (tl w)"

lemma failure_shorter: "w \<noteq> [] \<Longrightarrow> length (failure_word W w) < length w"
  using suffix_length_le[OF longest_suffix, of W "tl w"] by (cases w) (auto simp: failure_word_def)

lemma failure_in: "[] \<in> W \<Longrightarrow> failure_word W w \<in> W"
  by (simp add: failure_word_def longest_in)

lemma failure_Nil [simp]: "failure_word W [] = []"
  by (simp add: failure_word_def)

function read_letter :: "'a list set \<Rightarrow> 'a list \<Rightarrow> 'a \<Rightarrow> 'a list" where
  "read_letter W u c = (if u @ [c] \<in> W then u @ [c] else if u = [] then [] else read_letter W (failure_word W u) c)"
  by pat_completeness auto
termination
  by (relation "measure (\<lambda>(W, u, c). length u)") (auto simp: failure_shorter)

declare read_letter.simps [simp del]

lemma suffix_snoc_cases: "suffix v (w @ [c]) \<Longrightarrow> v = [] \<or> (\<exists>u. v = u @ [c] \<and> suffix u w)"
  by (cases v rule: rev_cases) auto

lemma longest_snoc:
  assumes "closed_words W"
  shows "longest W (w @ [c]) = longest W (longest W w @ [c])"
proof (rule longest_unique)
  show "[] \<in> W" using assms by (simp add: closed_words_def)
  show "suffix (longest W (longest W w @ [c])) (w @ [c])"
    using longest_suffix[of W "longest W w @ [c]"] longest_suffix[of W w] suffix_order.order_trans by fastforce
  show "longest W (longest W w @ [c]) \<in> W" by (rule longest_in) (use assms in \<open>simp add: closed_words_def\<close>)
  fix v assume v: "suffix v (w @ [c])" "v \<in> W"
  show "suffix v (longest W (longest W w @ [c]))"
  proof (cases "v = []")
    case False
    then obtain u where u: "v = u @ [c]" "suffix u w" using suffix_snoc_cases[OF v(1)] by auto
    then have "u \<in> W" using v(2) assms unfolding closed_words_def by blast
    then have "suffix v (longest W w @ [c])" using u longest_max by simp
    then show ?thesis using longest_max v(2) by blast
  qed simp
qed

lemma read_letter_longest: "closed_words W \<Longrightarrow> read_letter W u c = longest W (u @ [c])"
proof (induction W u c rule: read_letter.induct)
  case (1 W u c)
  show ?case
  proof (cases "u @ [c] \<in> W \<or> u = []")
    case True
    then show ?thesis by (subst read_letter.simps) auto
  next
    case False
    then have "read_letter W u c = longest W (failure_word W u @ [c])" using 1 by (subst read_letter.simps) simp
    also have "\<dots> = longest W (tl u @ [c])" using longest_snoc[OF 1(2), of "tl u" c] by (simp add: failure_word_def)
    also have "\<dots> = longest W (u @ [c])" using False by (cases u) auto
    finally show ?thesis .
  qed
qed

lemma longest_read: "closed_words W \<Longrightarrow> longest W (w @ [c]) = read_letter W (longest W w) c"
  using longest_snoc read_letter_longest by metis

lemma failure_snoc: "closed_words W \<Longrightarrow> s \<noteq> [] \<Longrightarrow> failure_word W (s @ [c]) = read_letter W (failure_word W s) c"
  by (simp add: failure_word_def longest_read)

text \<open>The failure words of a word are its suffixes in the set.\<close>

function failure_words :: "'a list set \<Rightarrow> 'a list \<Rightarrow> 'a list list" where
  "failure_words W u = (if u = [] then [[]] else u # failure_words W (failure_word W u))"
  by pat_completeness auto
termination
  by (relation "measure (\<lambda>(W, u). length u)") (auto simp: failure_shorter)

declare failure_words.simps [simp del]

lemma suffix_tl: "suffix v u \<Longrightarrow> v = u \<or> suffix v (tl u)"
  by (cases u) (auto simp: suffix_Cons)

lemma set_failure_words: "[] \<in> W \<Longrightarrow> u \<in> W \<Longrightarrow> set (failure_words W u) = {v \<in> W. suffix v u}"
proof (induction W u rule: failure_words.induct)
  case (1 W u)
  show ?case
  proof (cases "u = []")
    case True
    then show ?thesis using 1 by (subst failure_words.simps) auto
  next
    case False
    have "{v \<in> W. suffix v u} = insert u {v \<in> W. suffix v (failure_word W u)}"
    proof (intro set_eqI iffI)
      fix v assume v: "v \<in> {v \<in> W. suffix v u}"
      then show "v \<in> insert u {v \<in> W. suffix v (failure_word W u)}"
        using suffix_tl[of v u] longest_max[of v "tl u" W] by (auto simp: failure_word_def)
    next
      fix v assume "v \<in> insert u {v \<in> W. suffix v (failure_word W u)}"
      moreover have "suffix (failure_word W u) u"
        using longest_suffix[of W "tl u"] suffix_order.order_trans[of _ "tl u" u] by (cases u) (auto simp: failure_word_def suffix_ConsI)
      ultimately show "v \<in> {v \<in> W. suffix v u}" using 1(3) suffix_order.order_trans[of v "failure_word W u" u] by auto
    qed
    then show ?thesis using False 1 failure_in[of W u] by (subst failure_words.simps) simp
  qed
qed

end
