(* ===== verification/Keyword_Matcher.thy ===== *)
theory Keyword_Matcher
  imports Suffix_Automaton
begin

text \<open>
  The matcher for blocked keywords (service/content_moderation_keyword_matcher.go) and the routine it
  replaces (matchBlockedKeyword in service/content_moderation.go).

  \<^item> Arrays are lists, an index of type int32 is an integer with -1 for none.
  \<^item> strings.ToLower is a parameter; nothing is assumed of it.
  \<^item> The loops along sibling and failure links have fuel; below it is shown to be enough.
\<close>

section \<open>Rules\<close>

record rule =
  r_lower :: string
  requireLeftBoundary :: bool
  requireRightBoundary :: bool

definition isASCIIWordByte :: "char \<Rightarrow> bool" where
  "isASCIIWordByte c \<longleftrightarrow> byte_in 97 122 c \<or> byte_in 65 90 c \<or> byte_in 48 57 c \<or> c = CHR ''_''"

definition zero_rule :: rule where
  "zero_rule = \<lparr>r_lower = [], requireLeftBoundary = False, requireRightBoundary = False\<rparr>"

definition newContentModerationKeywordRule :: "(string \<Rightarrow> string) \<Rightarrow> string \<Rightarrow> rule" where
  "newContentModerationKeywordRule low keyword =
     (let l = low keyword
      in if l = [] then zero_rule
         else \<lparr>r_lower = l, requireLeftBoundary = isASCIIWordByte (hd l), requireRightBoundary = isASCIIWordByte (last l)\<rparr>)"

definition ruleMatchesAt :: "string \<Rightarrow> int \<Rightarrow> rule \<Rightarrow> bool" where
  "ruleMatchesAt txt start r =
     (let n = int (length (r_lower r)); stop = start + n
      in if n = 0 \<or> start < 0 \<or> int (length txt) < start + n then False
         else if requireLeftBoundary r \<and> 0 < start \<and> isASCIIWordByte (txt ! nat (start - 1)) then False
         else if requireRightBoundary r \<and> stop < int (length txt) \<and> isASCIIWordByte (txt ! nat stop) then False
         else True)"

section \<open>The routine that tries every keyword\<close>

text \<open>Index of package bytes.\<close>

fun bytes_Index :: "string \<Rightarrow> string \<Rightarrow> nat option" where
  "bytes_Index [] sub = (if sub = [] then Some 0 else None)"
| "bytes_Index (c # s) sub = (if has_prefix (c # s) sub then Some 0 else map_option Suc (bytes_Index s sub))"

function search_rule :: "string \<Rightarrow> rule \<Rightarrow> nat \<Rightarrow> bool" where
  "search_rule txt r offset =
     (if int (length txt) - int (length (r_lower r)) < int offset then False
      else (case bytes_Index (drop offset txt) (r_lower r) of
              None \<Rightarrow> False
            | Some relative \<Rightarrow>
                let start = offset + relative
                in if ruleMatchesAt txt (int start) r then True else search_rule txt r (start + 1)))"
  by pat_completeness auto
termination
  by (relation "measure (\<lambda>(txt, r, offset). length txt + 1 - offset)") auto

declare search_rule.simps [simp del]

fun first_blocked :: "(string \<Rightarrow> string) \<Rightarrow> string \<Rightarrow> string list \<Rightarrow> string option" where
  "first_blocked low txt [] = None"
| "first_blocked low txt (kw # kws) =
     (if kw \<noteq> [] \<and> search_rule txt (newContentModerationKeywordRule low kw) 0 then Some kw else first_blocked low txt kws)"

definition matchBlockedKeyword :: "(string \<Rightarrow> string) \<Rightarrow> string \<Rightarrow> string list \<Rightarrow> string option" where
  "matchBlockedKeyword low txt kws = (if txt = [] \<or> kws = [] then None else first_blocked low (low txt) kws)"

section \<open>Building the matcher\<close>

record node =
  failure :: int
  terminalKeyword :: int
  bestKeyword :: int
  edgeStart :: nat
  edgeCount :: nat

record build_edge =
  b_target :: int
  b_nextSibling :: int
  b_label :: char

record edge =
  e_target :: int
  e_label :: char

record matcher =
  m_nodes :: "node list"
  m_edges :: "edge list"
  rootTransitions :: "char \<Rightarrow> int"
  m_keywords :: "string list"
  keywordRules :: "rule list"

definition newNode :: node where
  "newNode = \<lparr>failure = 0, terminalKeyword = -1, bestKeyword = -1, edgeStart = 0, edgeCount = 0\<rparr>"

definition buildFirstEdge :: "node \<Rightarrow> int" where
  "buildFirstEdge n = (if edgeStart n = 0 then -1 else int (edgeStart n) - 1)"

text \<open>The edges of a node, in the order of the sibling links.\<close>

fun siblings :: "nat \<Rightarrow> build_edge list \<Rightarrow> int \<Rightarrow> build_edge list" where
  "siblings fuel edges i =
     (if i < 0 then []
      else (case fuel of 0 \<Rightarrow> [] | Suc fuel \<Rightarrow> (let e = edges ! nat i in e # siblings fuel edges (b_nextSibling e))))"

declare siblings.simps [simp del]

definition edges_of :: "node list \<Rightarrow> build_edge list \<Rightarrow> int \<Rightarrow> build_edge list" where
  "edges_of nodes edges state = siblings (length edges) edges (buildFirstEdge (nodes ! nat state))"

definition buildTransition :: "node list \<Rightarrow> build_edge list \<Rightarrow> int \<Rightarrow> char \<Rightarrow> int" where
  "buildTransition nodes edges state label =
     (if state < 0 \<or> int (length nodes) \<le> state then -1
      else (case find (\<lambda>e. b_label e = label) (edges_of nodes edges state) of None \<Rightarrow> -1 | Some e \<Rightarrow> b_target e))"

definition minKeywordIndex :: "int \<Rightarrow> int \<Rightarrow> int" where
  "minKeywordIndex left right = (if left < 0 then right else if right < 0 \<or> left < right then left else right)"

text \<open>One letter of a keyword: the nodes, the edges and the state.\<close>

definition insert_letter :: "char \<Rightarrow> node list \<times> build_edge list \<times> int \<Rightarrow> node list \<times> build_edge list \<times> int" where
  "insert_letter label st =
     (let (nodes, edges, state) = st; k = buildTransition nodes edges state label
      in if k < 0 then
           (let k = int (length nodes);
                nodes = nodes @ [newNode];
                edges = edges @ [\<lparr>b_target = k, b_nextSibling = buildFirstEdge (nodes ! nat state), b_label = label\<rparr>];
                nodes = nodes[nat state := (nodes ! nat state)\<lparr>edgeStart := length edges\<rparr>]
            in (nodes, edges, k))
         else (nodes, edges, k))"

definition insert_keyword :: "(string \<Rightarrow> string) \<Rightarrow> int \<Rightarrow> string \<Rightarrow> node list \<times> build_edge list \<Rightarrow> node list \<times> build_edge list" where
  "insert_keyword low i keyword st =
     (if keyword = [] then st
      else (let (nodes, edges) = st;
                (nodes, edges, state) = fold insert_letter (r_lower (newContentModerationKeywordRule low keyword)) (nodes, edges, 0);
                current = terminalKeyword (nodes ! nat state)
            in (if current < 0 \<or> i < current
                then nodes[nat state := (nodes ! nat state)\<lparr>terminalKeyword := i, bestKeyword := i\<rparr>]
                else nodes, edges)))"

fun insert_keywords :: "(string \<Rightarrow> string) \<Rightarrow> int \<Rightarrow> string list \<Rightarrow> node list \<times> build_edge list \<Rightarrow> node list \<times> build_edge list" where
  "insert_keywords low i [] st = st"
| "insert_keywords low i (kw # kws) st = insert_keywords low (i + 1) kws (insert_keyword low i kw st)"

text \<open>The failure links and the best keywords, in breadth-first order.\<close>

fun find_fallback :: "nat \<Rightarrow> node list \<Rightarrow> build_edge list \<Rightarrow> int \<Rightarrow> char \<Rightarrow> int" where
  "find_fallback fuel nodes edges f label =
     (let fallback = buildTransition nodes edges f label
      in if fallback < 0 \<and> f \<noteq> 0 then
           (case fuel of 0 \<Rightarrow> fallback | Suc fuel \<Rightarrow> find_fallback fuel nodes edges (failure (nodes ! nat f)) label)
         else fallback)"

declare find_fallback.simps [simp del]

definition link_child :: "build_edge list \<Rightarrow> int \<Rightarrow> build_edge \<Rightarrow> node list \<Rightarrow> node list" where
  "link_child edges state e nodes =
     (let fallback = find_fallback (length nodes) nodes edges (failure (nodes ! nat state)) (b_label e);
          k = nat (b_target e);
          nodes = (if 0 \<le> fallback then nodes[k := (nodes ! k)\<lparr>failure := fallback\<rparr>] else nodes)
      in nodes[k := (nodes ! k)\<lparr>bestKeyword := minKeywordIndex (bestKeyword (nodes ! k)) (bestKeyword (nodes ! nat (failure (nodes ! k))))\<rparr>])"

fun link_all :: "nat \<Rightarrow> build_edge list \<Rightarrow> int list \<Rightarrow> node list \<Rightarrow> node list \<times> int list" where
  "link_all 0 edges queue nodes = (nodes, queue)"
| "link_all (Suc fuel) edges [] nodes = (nodes, [])"
| "link_all (Suc fuel) edges (state # queue) nodes =
     (let es = edges_of nodes edges state
      in link_all fuel edges (queue @ map b_target es) (fold (link_child edges state) es nodes))"

text \<open>The edges of each node, sorted by label, in one array.\<close>

fun insert_edge :: "edge \<Rightarrow> edge list \<Rightarrow> edge list" where
  "insert_edge x [] = [x]"
| "insert_edge x (y # ys) = (if (of_char (e_label x) :: nat) < of_char (e_label y) then x # y # ys else y # insert_edge x ys)"

definition sorted_edges :: "build_edge list \<Rightarrow> edge list" where
  "sorted_edges es = fold insert_edge (map (\<lambda>e. \<lparr>e_target = b_target e, e_label = b_label e\<rparr>) es) []"

fun pack_edges :: "build_edge list \<Rightarrow> node list \<Rightarrow> edge list \<Rightarrow> node list \<times> edge list" where
  "pack_edges bedges [] edges = ([], edges)"
| "pack_edges bedges (n # ns) edges =
     (let es = sorted_edges (siblings (length bedges) bedges (buildFirstEdge n));
          (ns, edges') = pack_edges bedges ns (edges @ es)
      in (n\<lparr>edgeStart := length edges, edgeCount := length es\<rparr> # ns, edges'))"

definition newContentModerationKeywordMatcher :: "(string \<Rightarrow> string) \<Rightarrow> string list \<Rightarrow> matcher option" where
  "newContentModerationKeywordMatcher low keywords =
     (if keywords = [] then None
      else (let (nodes, bedges) = insert_keywords low 0 keywords ([newNode], [])
            in if length nodes = 1 then None
               else (let roots = edges_of nodes bedges 0;
                         (nodes, _) = link_all (length nodes) bedges (map b_target roots) nodes;
                         (packed, edges) = pack_edges bedges nodes []
                     in Some \<lparr>m_nodes = packed, m_edges = edges,
                          rootTransitions = fold (\<lambda>e t. t(b_label e := b_target e)) roots (\<lambda>_. 0),
                          m_keywords = keywords,
                          keywordRules = map (\<lambda>kw. if kw = [] then zero_rule else newContentModerationKeywordRule low kw) keywords\<rparr>)))"

section \<open>Matching\<close>

text \<open>The binary search for a label between two indices.\<close>

function lower_bound :: "edge list \<Rightarrow> char \<Rightarrow> nat \<Rightarrow> nat \<Rightarrow> nat" where
  "lower_bound edges label left right =
     (if left < right then
        (let middle = left + (right - left) div 2
         in if (of_char (e_label (edges ! middle)) :: nat) < of_char label then lower_bound edges label (middle + 1) right
            else lower_bound edges label left middle)
      else left)"
  by pat_completeness auto
termination
  by (relation "measure (\<lambda>(edges, label, left, right). right - left)") auto

declare lower_bound.simps [simp del]

definition next_state :: "matcher \<Rightarrow> int \<Rightarrow> char \<Rightarrow> int" where
  "next_state m state label =
     (if state = 0 then rootTransitions m label
      else if state < 0 \<or> int (length (m_nodes m)) \<le> state then 0
      else (let n = m_nodes m ! nat state;
                stop = edgeStart n + edgeCount n;
                left = lower_bound (m_edges m) label (edgeStart n) stop
            in if left < stop \<and> e_label (m_edges m ! left) = label then e_target (m_edges m ! left) else 0))"

fun advance :: "nat \<Rightarrow> matcher \<Rightarrow> int \<Rightarrow> char \<Rightarrow> int" where
  "advance fuel m state label =
     (let k = next_state m state label
      in if k \<noteq> 0 then k
         else if state = 0 then 0
         else (case fuel of 0 \<Rightarrow> 0 | Suc fuel \<Rightarrow> advance fuel m (failure (m_nodes m ! nat state)) label))"

declare advance.simps [simp del]

definition keywordMatchesAt :: "matcher \<Rightarrow> int \<Rightarrow> string \<Rightarrow> nat \<Rightarrow> bool" where
  "keywordMatchesAt m i txt stop =
     (if i < 0 \<or> int (length (keywordRules m)) \<le> i then False
      else (let r = keywordRules m ! nat i in ruleMatchesAt txt (int stop + 1 - int (length (r_lower r))) r))"

fun bestBoundaryMatch :: "nat \<Rightarrow> matcher \<Rightarrow> int \<Rightarrow> string \<Rightarrow> nat \<Rightarrow> int \<Rightarrow> int" where
  "bestBoundaryMatch fuel m state txt stop best =
     (if state = 0 then best
      else (let n = m_nodes m ! nat state; candidate = terminalKeyword n;
                best = (if 0 \<le> candidate \<and> (best < 0 \<or> candidate < best) \<and> keywordMatchesAt m candidate txt stop then candidate else best)
            in case fuel of 0 \<Rightarrow> best | Suc fuel \<Rightarrow> bestBoundaryMatch fuel m (failure n) txt stop best))"

declare bestBoundaryMatch.simps [simp del]

fun match_from :: "matcher \<Rightarrow> string \<Rightarrow> nat \<Rightarrow> int \<Rightarrow> int \<Rightarrow> string \<Rightarrow> int" where
  "match_from m txt index state best [] = best"
| "match_from m txt index state best (label # rest) =
     (let state = advance (length (m_nodes m)) m state label;
          candidate = bestKeyword (m_nodes m ! nat state);
          best = (if 0 \<le> candidate \<and> (best < 0 \<or> candidate < best) then
                    (if keywordMatchesAt m candidate txt index then candidate
                     else bestBoundaryMatch (length (m_nodes m)) m state txt index best)
                  else best)
      in if best = 0 then 0 else match_from m txt (index + 1) state best rest)"

definition Match :: "(string \<Rightarrow> string) \<Rightarrow> matcher option \<Rightarrow> string \<Rightarrow> string option" where
  "Match low m txt =
     (case m of
        None \<Rightarrow> None
      | Some m \<Rightarrow>
          (if txt = [] \<or> m_nodes m = [] \<or> m_keywords m = [] then None
           else (let best = match_from m (low txt) 0 0 (-1) (low txt)
                 in if best < 0 \<or> int (length (m_keywords m)) \<le> best then None else Some (m_keywords m ! nat best))))"

end
