(* ===== verification/Keyword_Trie.thy ===== *)
theory Keyword_Trie
  imports Keyword_Matcher
begin

text \<open>
  The trie of the keyword matcher (service/content_moderation_keyword_matcher.go): every node of the
  arrays stands for a word, the words are the prefixes of the keywords, and a node knows the first
  keyword with its word.
\<close>

section \<open>The trie\<close>

text \<open>A node stands for a word.\<close>

definition stands :: "string list \<Rightarrow> int \<Rightarrow> string \<Rightarrow> bool" where
  "stands ws s w \<longleftrightarrow> 0 \<le> s \<and> nat s < length ws \<and> ws ! nat s = w"

definition backwards :: "build_edge list \<Rightarrow> bool" where
  "backwards edges \<longleftrightarrow> (\<forall>k<length edges. b_nextSibling (edges ! k) < int k)"

definition children_of :: "string list \<Rightarrow> string \<Rightarrow> build_edge list \<Rightarrow> bool" where
  "children_of ws w es \<longleftrightarrow> distinct (map b_label es) \<and> (\<forall>e\<in>set es. stands ws (b_target e) (w @ [b_label e]))
     \<and> (\<forall>c. w @ [c] \<in> set ws \<longrightarrow> c \<in> b_label ` set es)"

definition trie :: "string list \<Rightarrow> node list \<Rightarrow> build_edge list \<Rightarrow> bool" where
  "trie ws nodes edges \<longleftrightarrow> length nodes = length ws \<and> stands ws 0 [] \<and> distinct ws \<and> closed_words (set ws) \<and> backwards edges
     \<and> (\<forall>n\<in>set nodes. edgeStart n \<le> length edges)
     \<and> (\<forall>s<length ws. children_of ws (ws ! s) (edges_of nodes edges (int s)))"

lemma stands_same: "distinct ws \<Longrightarrow> stands ws s w \<Longrightarrow> stands ws t w \<Longrightarrow> s = t"
  by (auto simp: stands_def nth_eq_iff_index_eq)

lemma stands_in: "stands ws s w \<Longrightarrow> w \<in> set ws"
  by (auto simp: stands_def)

lemma stands_ex: "w \<in> set ws \<Longrightarrow> \<exists>s. stands ws s w"
proof -
  assume "w \<in> set ws"
  then obtain k where "k < length ws" "ws ! k = w" by (auto simp: in_set_conv_nth)
  then have "stands ws (int k) w" by (simp add: stands_def)
  then show ?thesis ..
qed

lemma stands_append: "stands ws s w \<Longrightarrow> stands (ws @ ws') s w"
  by (auto simp: stands_def nth_append)

text \<open>The fuel of the sibling loop is enough.\<close>

lemma siblings_more:
  assumes "backwards edges" "i < int (length edges)" "i < int fuel" "i < int fuel'"
  shows "siblings fuel edges i = siblings fuel' edges i"
  using assms(2-4)
proof (induction fuel arbitrary: fuel' i)
  case 0
  then show ?case by (subst (1 2) siblings.simps) simp
next
  case (Suc fuel)
  show ?case
  proof (cases "i < 0")
    case False
    then obtain f where f: "fuel' = Suc f" using Suc.prems(3) by (cases fuel') auto
    let ?k = "b_nextSibling (edges ! nat i)"
    have "?k < i" using assms(1) False Suc.prems(1) by (auto simp: backwards_def dest: spec[of _ "nat i"])
    then have "siblings fuel edges ?k = siblings f edges ?k" using Suc.IH[of ?k f] Suc.prems f by simp
    then show ?thesis using False f by (subst (1 2) siblings.simps) (simp add: Let_def)
  qed (subst (1 2) siblings.simps, simp)
qed

lemma siblings_append:
  assumes "backwards edges" "i < int (length edges)"
  shows "siblings fuel (edges @ es) i = siblings fuel edges i"
  using assms(2)
proof (induction fuel arbitrary: i)
  case (Suc fuel)
  let ?k = "b_nextSibling (edges ! nat i)"
  show ?case
  proof (cases "i < 0")
    case False
    then have "?k < i" "(edges @ es) ! nat i = edges ! nat i"
      using assms(1) Suc.prems by (auto simp: backwards_def nth_append dest: spec[of _ "nat i"])
    then show ?thesis using False Suc.IH[of ?k] Suc.prems by (subst (1 2) siblings.simps) (simp add: Let_def)
  qed (subst (1 2) siblings.simps, simp)
qed (subst (1 2) siblings.simps, simp)

lemma first_edge_less: "edgeStart n \<le> length edges \<Longrightarrow> buildFirstEdge n < int (length edges)"
  by (simp add: buildFirstEdge_def)

lemma edges_of_append:
  assumes "backwards edges" "\<forall>n\<in>set nodes. edgeStart n \<le> length edges" "nat s < length nodes"
  shows "edges_of nodes (edges @ es) s = edges_of nodes edges s"
proof -
  let ?i = "buildFirstEdge (nodes ! nat s)"
  have i: "?i < int (length edges)" by (rule first_edge_less) (use assms(2,3) in simp)
  have "siblings (length (edges @ es)) (edges @ es) ?i = siblings (length (edges @ es)) edges ?i" by (rule siblings_append[OF assms(1) i])
  also have "\<dots> = siblings (length edges) edges ?i" by (rule siblings_more[OF assms(1) i]) (use i in simp_all)
  finally show ?thesis by (simp add: edges_of_def)
qed

text \<open>A transition finds the node of the longer word.\<close>

lemma children_find:
  assumes "distinct ws" "children_of ws w es"
  shows "case find (\<lambda>e. b_label e = c) es of None \<Rightarrow> w @ [c] \<notin> set ws | Some e \<Rightarrow> stands ws (b_target e) (w @ [c])"
proof (cases "find (\<lambda>e. b_label e = c) es")
  case None
  then have "c \<notin> b_label ` set es" by (auto simp: find_None_iff)
  then show ?thesis using assms(2) None by (auto simp: children_of_def)
next
  case (Some e)
  then have "e \<in> set es" "b_label e = c" by (auto simp: find_Some_iff)
  then show ?thesis using assms(2) Some by (auto simp: children_of_def)
qed

lemma transition:
  assumes "trie ws nodes edges" "stands ws s w"
  shows "if w @ [c] \<in> set ws then stands ws (buildTransition nodes edges s c) (w @ [c]) else buildTransition nodes edges s c = -1"
proof -
  have es: "children_of ws w (edges_of nodes edges s)"
    using assms by (auto simp: trie_def stands_def dest!: spec[of _ "nat s"])
  have s: "\<not> (s < 0 \<or> int (length nodes) \<le> s)" using assms by (auto simp: stands_def trie_def)
  show ?thesis
    using children_find[OF _ es, of c] s assms(1) stands_in[of ws _ "w @ [c]"]
    by (auto simp: trie_def buildTransition_def split: option.splits)
qed

text \<open>The data of a node apart from its edges.\<close>

definition data_of :: "node \<Rightarrow> int \<times> int \<times> int" where
  "data_of n = (failure n, terminalKeyword n, bestKeyword n)"

lemma edges_of_new:
  fixes k :: int and c :: char
  assumes "backwards edges" "buildFirstEdge (nodes ! nat s) < int (length edges)" "nat s < length nodes"
    and "nodes' ! nat s = (nodes ! nat s)\<lparr>edgeStart := Suc (length edges)\<rparr>"
  defines "e \<equiv> \<lparr>b_target = k, b_nextSibling = buildFirstEdge (nodes ! nat s), b_label = c\<rparr>"
  shows "edges_of nodes' (edges @ [e]) s = e # edges_of nodes edges s"
proof -
  have "edges_of nodes' (edges @ [e]) s = e # siblings (length edges) (edges @ [e]) (buildFirstEdge (nodes ! nat s))"
    unfolding edges_of_def assms(4) by (subst siblings.simps) (simp add: buildFirstEdge_def e_def nth_append Let_def)
  then show ?thesis using siblings_append[OF assms(1,2)] by (simp add: edges_of_def)
qed

lemma children_of_mono:
  "children_of ws w es \<Longrightarrow> (\<And>c. w @ [c] \<in> set (ws @ ext) \<Longrightarrow> w @ [c] \<in> set ws) \<Longrightarrow> children_of (ws @ ext) w es"
  by (auto simp: children_of_def stands_append)

lemma insert_letter_new:
  assumes "trie ws nodes edges" "stands ws s w" "w @ [c] \<notin> set ws"
  defines "e \<equiv> \<lparr>b_target = int (length nodes), b_nextSibling = buildFirstEdge (nodes ! nat s), b_label = c\<rparr>"
    and "nodes' \<equiv> (nodes @ [newNode])[nat s := (nodes ! nat s)\<lparr>edgeStart := Suc (length edges)\<rparr>]"
  shows "trie (ws @ [w @ [c]]) nodes' (edges @ [e])"
proof -
  have t: "length nodes = length ws" "stands ws 0 []" "distinct ws" "closed_words (set ws)" "backwards edges"
    "\<forall>n\<in>set nodes. edgeStart n \<le> length edges" "\<And>t. t < length ws \<Longrightarrow> children_of ws (ws ! t) (edges_of nodes edges (int t))"
    using assms(1) by (simp_all add: trie_def)
  have s: "nat s < length ws" "ws ! nat s = w" "0 \<le> s" using assms(2) by (simp_all add: stands_def)
  have first: "buildFirstEdge (nodes ! nat s) < int (length edges)" by (rule first_edge_less) (use t s in simp)
  have bw: "backwards (edges @ [e])" using t(5) first by (auto simp: backwards_def nth_append e_def less_Suc_eq)
  have closed: "closed_words (set (ws @ [w @ [c]]))" using t(4) assms(2) stands_in[of ws s w] by (auto simp: closed_words_def)
  have start: "\<forall>n\<in>set nodes'. edgeStart n \<le> length (edges @ [e])"
    unfolding nodes'_def using t(6) by (auto dest!: set_update_subset_insert[THEN subsetD] simp: newNode_def intro: le_SucI)
  have "children_of (ws @ [w @ [c]]) ((ws @ [w @ [c]]) ! k) (edges_of nodes' (edges @ [e]) (int k))" if k: "k < length (ws @ [w @ [c]])" for k
  proof -
    consider "k = length ws" | "k = nat s" | "k < length ws" "k \<noteq> nat s" using k by fastforce
    then show ?thesis
    proof cases
      case 1
      have "edges_of nodes' (edges @ [e]) (int k) = []"
        using 1 t(1) s by (simp add: edges_of_def nodes'_def nth_append newNode_def buildFirstEdge_def siblings.simps)
      moreover have "(w @ [c]) @ [d] \<notin> set (ws @ [w @ [c]])" for d
      proof
        assume "(w @ [c]) @ [d] \<in> set (ws @ [w @ [c]])"
        then have "(w @ [c]) @ [d] \<in> set ws" by simp
        then show False using assms(3) t(4) unfolding closed_words_def by blast
      qed
      ultimately show ?thesis using 1 by (auto simp: children_of_def)
    next
      case 2
      have "edges_of nodes' (edges @ [e]) (int k) = e # edges_of nodes edges (int k)"
        unfolding e_def using edges_of_new[OF t(5) first, of nodes' "int (length nodes)" c] 2 s t(1) by (simp add: nodes'_def)
      moreover have "children_of (ws @ [w @ [c]]) w (e # es)" if "children_of ws w es" for es
      proof -
        have "c \<notin> b_label ` set es" using that assms(3) stands_in[of ws _ "w @ [c]"] by (auto simp: children_of_def)
        moreover have "stands (ws @ [w @ [c]]) (b_target e) (w @ [b_label e])" by (simp add: e_def stands_def t(1))
        ultimately show ?thesis using that stands_append by (auto simp: children_of_def e_def)
      qed
      then have "children_of (ws @ [w @ [c]]) w (e # edges_of nodes edges (int k))" using t(7)[OF s(1)] s 2 by simp
      ultimately show ?thesis using 2 s by (simp add: nth_append)
    next
      case 3
      have "edges_of nodes' (edges @ [e]) (int k) = edges_of nodes (edges @ [e]) (int k)"
        using 3 t(1) by (simp add: edges_of_def nodes'_def nth_append)
      then have "edges_of nodes' (edges @ [e]) (int k) = edges_of nodes edges (int k)"
        using edges_of_append[OF t(5,6), of "int k" "[e]"] 3 t(1) by simp
      moreover have "ws ! k \<noteq> w" using 3 s t(3) nth_eq_iff_index_eq by metis
      ultimately show ?thesis using children_of_mono[OF t(7)[OF 3(1)], of "[w @ [c]]"] 3 by (auto simp: nth_append)
    qed
  qed
  then show ?thesis
    using t(1-3) stands_append[OF t(2)] assms(3) closed bw start by (simp add: trie_def nodes'_def)
qed

lemma insert_letter_trie:
  assumes "trie ws nodes edges" "stands ws s w"
  shows "\<exists>nodes' edges' s' ext. insert_letter c (nodes, edges, s) = (nodes', edges', s') \<and> trie (ws @ ext) nodes' edges'
    \<and> stands (ws @ ext) s' (w @ [c]) \<and> set ext \<subseteq> {w @ [c]} \<and> map data_of nodes' = map data_of nodes @ replicate (length ext) (0, -1, -1)"
proof (cases "w @ [c] \<in> set ws")
  case True
  then have "stands ws (buildTransition nodes edges s c) (w @ [c])" using transition[OF assms, of c] by simp
  then show ?thesis using assms(1) by (intro exI[of _ nodes] exI[of _ edges] exI[of _ "[]"]) (auto simp: insert_letter_def stands_def Let_def)
next
  case False
  have len: "length nodes = length ws" and s: "nat s < length ws" using assms by (simp_all add: trie_def stands_def)
  have "map data_of ((nodes @ [newNode])[nat s := (nodes ! nat s)\<lparr>edgeStart := Suc (length edges)\<rparr>]) = map data_of nodes @ [(0, -1, -1)]"
    using s len by (intro nth_equalityI) (auto simp: nth_append nth_list_update data_of_def newNode_def less_Suc_eq)
  moreover have "insert_letter c (nodes, edges, s) = ((nodes @ [newNode])[nat s := (nodes ! nat s)\<lparr>edgeStart := Suc (length edges)\<rparr>],
      edges @ [\<lparr>b_target = int (length nodes), b_nextSibling = buildFirstEdge (nodes ! nat s), b_label = c\<rparr>], int (length nodes))"
    using transition[OF assms, of c] False s len by (simp add: insert_letter_def Let_def nth_append)
  moreover have "stands (ws @ [w @ [c]]) (int (length nodes)) (w @ [c])" using len by (simp add: stands_def)
  ultimately show ?thesis using insert_letter_new[OF assms False] by (intro exI[of _ "[w @ [c]]"] exI conjI) (auto simp: numeral_1_eq_Suc_0)
qed


lemma insert_word_trie:
  assumes "trie ws nodes edges" "stands ws s w"
  shows "\<exists>nodes' edges' s' ext. fold insert_letter l (nodes, edges, s) = (nodes', edges', s') \<and> trie (ws @ ext) nodes' edges'
    \<and> stands (ws @ ext) s' (w @ l) \<and> map data_of nodes' = map data_of nodes @ replicate (length ext) (0, -1, -1)"
  using assms
proof (induction l arbitrary: ws nodes edges s w)
  case Nil
  then show ?case by (intro exI[of _ nodes] exI[of _ edges] exI[of _ s] exI[of _ "[]"]) simp
next
  case (Cons c l)
  obtain nodes1 edges1 s1 ext1 where one: "insert_letter c (nodes, edges, s) = (nodes1, edges1, s1)" "trie (ws @ ext1) nodes1 edges1"
    "stands (ws @ ext1) s1 (w @ [c])" "map data_of nodes1 = map data_of nodes @ replicate (length ext1) (0, -1, -1)"
    using insert_letter_trie[OF Cons.prems, of c] by blast
  obtain nodes2 edges2 s2 ext2 where two: "fold insert_letter l (nodes1, edges1, s1) = (nodes2, edges2, s2)"
    "trie ((ws @ ext1) @ ext2) nodes2 edges2" "stands ((ws @ ext1) @ ext2) s2 ((w @ [c]) @ l)"
    "map data_of nodes2 = map data_of nodes1 @ replicate (length ext2) (0, -1, -1)"
    using Cons.IH[OF one(2,3)] by blast
  show ?case
    using one(1,4) two by (intro exI[of _ nodes2] exI[of _ edges2] exI[of _ s2] exI[of _ "ext1 @ ext2"]) (simp add: replicate_add)
qed

text \<open>The keyword of a word: the first keyword with these letters.\<close>

definition is_keyword :: "(string \<Rightarrow> string) \<Rightarrow> string list \<Rightarrow> string \<Rightarrow> nat \<Rightarrow> bool" where
  "is_keyword low kws w i \<longleftrightarrow> i < length kws \<and> kws ! i \<noteq> [] \<and> low (kws ! i) = w"

text \<open>\<open>first_of b P\<close>: b is the first index with P, or -1 when there is none.\<close>

definition first_of :: "int \<Rightarrow> (nat \<Rightarrow> bool) \<Rightarrow> bool" where
  "first_of b P \<longleftrightarrow> (if b < 0 then b = -1 \<and> (\<forall>i. \<not> P i) else P (nat b) \<and> (\<forall>i<nat b. \<not> P i))"

lemma first_of_cong: "(\<And>i. P i = Q i) \<Longrightarrow> first_of b P = first_of b Q"
  by (simp add: first_of_def)

lemma first_of_same: "first_of a P \<Longrightarrow> first_of b P \<Longrightarrow> a = b"
  by (auto simp: first_of_def split: if_splits) (metis linorder_neqE_linordered_idom nat_less_eq_zless not_le)

lemma first_of_new:
  assumes "first_of b P" "\<And>i. P i \<Longrightarrow> i < n" "\<And>i. Q i \<longleftrightarrow> P i \<or> i = n \<and> R"
  shows "first_of (if R \<and> b < 0 then int n else b) Q"
proof -
  have less: "nat b < n" if "\<not> b < 0" using assms(1) assms(2)[of "nat b"] that by (simp add: first_of_def)
  show ?thesis
  proof (cases "b < 0")
    case True
    then show ?thesis using assms by (auto simp: first_of_def)
  next
    case False
    then show ?thesis using assms(1,3) less by (auto simp: first_of_def)
  qed
qed

definition built :: "(string \<Rightarrow> string) \<Rightarrow> string list \<Rightarrow> string list \<Rightarrow> node list \<Rightarrow> build_edge list \<Rightarrow> bool" where
  "built low kws ws nodes edges \<longleftrightarrow> trie ws nodes edges
     \<and> (\<forall>k<length ws. failure (nodes ! k) = 0 \<and> bestKeyword (nodes ! k) = terminalKeyword (nodes ! k)
          \<and> first_of (terminalKeyword (nodes ! k)) (is_keyword low kws (ws ! k)))
     \<and> (\<forall>i<length kws. kws ! i \<noteq> [] \<longrightarrow> low (kws ! i) \<in> set ws)"

lemma trie_shape:
  assumes "trie ws nodes edges" "length nodes' = length nodes" "\<And>k. k < length nodes \<Longrightarrow> edgeStart (nodes' ! k) = edgeStart (nodes ! k)"
  shows "trie ws nodes' edges"
proof -
  have "edges_of nodes' edges (int k) = edges_of nodes edges (int k)" if "k < length nodes" for k
    using that assms(3) by (simp add: edges_of_def buildFirstEdge_def)
  moreover have "\<forall>n\<in>set nodes'. edgeStart n \<le> length edges"
    using assms by (simp add: trie_def all_set_conv_all_nth)
  ultimately show ?thesis using assms by (simp add: trie_def)
qed

lemma trie_data:
  assumes "trie ws nodes edges" "nat s < length nodes"
  shows "trie ws (nodes[nat s := (nodes ! nat s)\<lparr>terminalKeyword := i, bestKeyword := j\<rparr>]) edges"
proof (rule trie_shape[OF assms(1)])
  fix k assume "k < length nodes"
  then show "edgeStart (nodes[nat s := (nodes ! nat s)\<lparr>terminalKeyword := i, bestKeyword := j\<rparr>] ! k) = edgeStart (nodes ! k)"
    by (cases "k = nat s") simp_all
qed simp

lemma data_nth:
  assumes "map data_of nodes' = map data_of nodes @ replicate n (0, -1, -1)" "k < length nodes'"
  shows "data_of (nodes' ! k) = (if k < length nodes then data_of (nodes ! k) else (0, -1, -1))"
proof -
  have "length nodes' = length nodes + n" using arg_cong[OF assms(1), of length] by simp
  then show ?thesis using arg_cong[OF assms(1), of "\<lambda>l. l ! k"] assms(2) by (simp add: nth_append)
qed

lemma insert_keyword_built:
  assumes "built low kws ws nodes edges"
  shows "\<exists>nodes' edges' ext. insert_keyword low (int (length kws)) kw (nodes, edges) = (nodes', edges') \<and> built low (kws @ [kw]) (ws @ ext) nodes' edges'"
proof (cases "kw = []")
  case True
  then have "is_keyword low (kws @ [kw]) w i = is_keyword low kws w i" for w i by (auto simp: is_keyword_def nth_append)
  then have "is_keyword low (kws @ [kw]) w = is_keyword low kws w" for w by blast
  then have "built low (kws @ [kw]) ws nodes edges"
    using assms True by (simp add: built_def nth_append less_Suc_eq)
  then show ?thesis using True by (intro exI[of _ nodes] exI[of _ edges] exI[of _ "[]"]) (simp add: insert_keyword_def)
next
  case False
  let ?l = "low kw"
  have lower: "r_lower (newContentModerationKeywordRule low kw) = ?l"
    by (simp add: newContentModerationKeywordRule_def zero_rule_def Let_def)
  obtain nodes1 edges1 s ext where one: "fold insert_letter ?l (nodes, edges, 0) = (nodes1, edges1, s)" "trie (ws @ ext) nodes1 edges1"
    "stands (ws @ ext) s ?l" "map data_of nodes1 = map data_of nodes @ replicate (length ext) (0, -1, -1)"
    using insert_word_trie[of ws nodes edges 0 "[]" ?l] assms by (auto simp: built_def trie_def)
  let ?ws = "ws @ ext" and ?cur = "terminalKeyword (nodes1 ! nat s)"
  have len: "length nodes1 = length ?ws" "length nodes = length ws" "nat s < length ?ws"
    using one(2,3) assms by (simp_all add: trie_def built_def stands_def)
  have new_words: "low (kws ! i) \<noteq> ?ws ! k" if "length ws \<le> k" "k < length ?ws" "i < length kws" "kws ! i \<noteq> []" for i k
  proof
    assume eq: "low (kws ! i) = ?ws ! k"
    have "low (kws ! i) \<in> set ws" using assms that by (simp add: built_def)
    then obtain j where "j < length ws" "ws ! j = ?ws ! k" unfolding eq by (auto simp: in_set_conv_nth)
    moreover have "distinct ?ws" using one(2) by (simp add: trie_def)
    ultimately show False using that nth_eq_iff_index_eq[of ?ws j k] by (simp add: nth_append)
  qed
  have old: "failure (nodes1 ! k) = 0 \<and> bestKeyword (nodes1 ! k) = terminalKeyword (nodes1 ! k)
      \<and> first_of (terminalKeyword (nodes1 ! k)) (is_keyword low kws (?ws ! k))" if "k < length ?ws" for k
  proof (cases "k < length ws")
    case True
    then show ?thesis
      using data_nth[OF one(4), of k] that len assms by (simp add: built_def data_of_def nth_append)
  next
    case False
    then have "\<not> is_keyword low kws (?ws ! k) i" for i using new_words[of k i] that by (auto simp: is_keyword_def)
    then show ?thesis
      using data_nth[OF one(4), of k] that len False by (simp add: data_of_def first_of_def)
  qed
  let ?n = "if ?cur < 0 \<or> int (length kws) < ?cur
      then nodes1[nat s := (nodes1 ! nat s)\<lparr>terminalKeyword := int (length kws), bestKeyword := int (length kws)\<rparr>] else nodes1"
  have cur: "?cur < int (length kws)"
    using old[OF len(3)] by (auto simp: first_of_def is_keyword_def split: if_splits)
  have words: "?ws ! k = ?l \<longleftrightarrow> k = nat s" if "k < length ?ws" for k
    using that one(2,3) nth_eq_iff_index_eq[of ?ws k "nat s"] by (auto simp: stands_def trie_def)
  have keyword: "is_keyword low (kws @ [kw]) w i \<longleftrightarrow> is_keyword low kws w i \<or> i = length kws \<and> w = ?l" for w i
    using False by (auto simp: is_keyword_def nth_append)
  have "failure (?n ! k) = 0 \<and> bestKeyword (?n ! k) = terminalKeyword (?n ! k)
      \<and> first_of (terminalKeyword (?n ! k)) (is_keyword low (kws @ [kw]) (?ws ! k))" if k: "k < length ?ws" for k
  proof (cases "k = nat s")
    case True
    have "terminalKeyword (?n ! k) = (if ?ws ! k = ?l \<and> ?cur < 0 then int (length kws) else ?cur)"
      using True words[OF k] cur len k by simp
    moreover have "first_of (if ?ws ! k = ?l \<and> ?cur < 0 then int (length kws) else ?cur) (is_keyword low (kws @ [kw]) (?ws ! k))"
      by (rule first_of_new[where P = "is_keyword low kws (?ws ! k)"]) (use old[OF k] True keyword in \<open>auto simp: is_keyword_def\<close>)
    ultimately show ?thesis using old[OF k] words[OF k] cur True len k by simp
  next
    case False
    then have "?n ! k = nodes1 ! k" by simp
    then show ?thesis using old[OF k] words[OF k] False by (auto simp: first_of_def keyword)
  qed
  moreover have "trie ?ws ?n edges1" using one(2) trie_data[OF one(2)] len by simp
  moreover have "\<forall>i<length (kws @ [kw]). (kws @ [kw]) ! i \<noteq> [] \<longrightarrow> low ((kws @ [kw]) ! i) \<in> set ?ws"
    using assms stands_in[OF one(3)] by (auto simp: built_def nth_append less_Suc_eq)
  ultimately have "built low (kws @ [kw]) ?ws ?n edges1" by (simp add: built_def)
  then show ?thesis using False one(1) lower by (intro exI[of _ ?n] exI[of _ edges1] exI[of _ ext]) (simp add: insert_keyword_def Let_def)
qed

lemma insert_keywords_built:
  "built low kws ws nodes edges \<Longrightarrow> \<exists>nodes' edges' ext. insert_keywords low (int (length kws)) rest (nodes, edges) = (nodes', edges')
    \<and> built low (kws @ rest) (ws @ ext) nodes' edges'"
proof (induction rest arbitrary: kws ws nodes edges)
  case Nil
  then show ?case by (intro exI[of _ nodes] exI[of _ edges] exI[of _ "[]"]) simp
next
  case (Cons kw rest)
  obtain nodes1 edges1 ext1 where one: "insert_keyword low (int (length kws)) kw (nodes, edges) = (nodes1, edges1)"
    "built low (kws @ [kw]) (ws @ ext1) nodes1 edges1"
    using insert_keyword_built[OF Cons.prems] by blast
  show ?case using Cons.IH[OF one(2)] one(1) by (auto simp: add.commute)
qed

lemma empty_built: "built low [] [[]] [newNode] []"
  by (auto simp: built_def trie_def stands_def closed_words_def backwards_def newNode_def children_of_def first_of_def is_keyword_def
      edges_of_def buildFirstEdge_def siblings.simps)

end
