(* ===== verification/Keyword_Links.thy ===== *)
theory Keyword_Links
  imports Keyword_Trie
begin

text \<open>
  The failure links of the keyword matcher (service/content_moderation_keyword_matcher.go): the
  breadth-first pass ends, every node's failure link is the longest suffix of its word that is in the
  trie, and its best keyword is the first keyword that ends its word.
\<close>

section \<open>Best keywords\<close>

definition best_ok :: "(string \<Rightarrow> string) \<Rightarrow> string list \<Rightarrow> string set \<Rightarrow> string \<Rightarrow> int \<Rightarrow> bool" where
  "best_ok low kws W w b \<longleftrightarrow> -1 \<le> b \<and> (0 \<le> b \<longrightarrow> (\<exists>v\<in>W. suffix v w \<and> is_keyword low kws v (nat b)))
     \<and> (\<forall>v i. v \<in> W \<longrightarrow> v \<noteq> [] \<longrightarrow> suffix v w \<longrightarrow> is_keyword low kws v i \<longrightarrow> 0 \<le> b \<and> b \<le> int i)"

lemma first_of_bound: "first_of a P \<Longrightarrow> P i \<Longrightarrow> 0 \<le> a \<and> a \<le> int i"
  by (auto simp: first_of_def split: if_splits) (meson nat_le_iff not_le)

lemma suffix_failure:
  assumes "w \<noteq> []"
  shows "v \<in> W \<Longrightarrow> suffix v w \<Longrightarrow> v = w \<or> suffix v (failure_word W w)" "suffix v (failure_word W w) \<Longrightarrow> suffix v w"
proof -
  show "v \<in> W \<Longrightarrow> suffix v w \<Longrightarrow> v = w \<or> suffix v (failure_word W w)"
    using suffix_tl[of v w] longest_max[of v "tl w" W] by (auto simp: failure_word_def)
  show "suffix v (failure_word W w) \<Longrightarrow> suffix v w"
    using longest_suffix[of W "tl w"] suffix_order.order_trans[of v "failure_word W w" w] suffix_order.order_trans[of "failure_word W w" "tl w" w] assms
    by (cases w) (auto simp: failure_word_def suffix_ConsI)
qed

lemma best_ok_min:
  assumes "w \<noteq> []" "w \<in> W" "first_of a (is_keyword low kws w)" "best_ok low kws W (failure_word W w) b"
  shows "best_ok low kws W w (minKeywordIndex a b)"
proof -
  have a: "-1 \<le> a" "0 \<le> a \<Longrightarrow> is_keyword low kws w (nat a)" using assms(3) by (auto simp: first_of_def split: if_splits)
  have b: "-1 \<le> b" "0 \<le> b \<Longrightarrow> \<exists>v\<in>W. suffix v w \<and> is_keyword low kws v (nat b)"
    "\<And>v i. v \<in> W \<Longrightarrow> v \<noteq> [] \<Longrightarrow> suffix v (failure_word W w) \<Longrightarrow> is_keyword low kws v i \<Longrightarrow> 0 \<le> b \<and> b \<le> int i"
    using assms(4) suffix_failure(2)[OF assms(1)] unfolding best_ok_def by blast+
  have all: "0 \<le> a \<and> a \<le> int i \<or> 0 \<le> b \<and> b \<le> int i" if "v \<in> W" "v \<noteq> []" "suffix v w" "is_keyword low kws v i" for v i
    using suffix_failure(1)[OF assms(1) that(1,3)] b(3)[OF that(1,2) _ that(4)] first_of_bound[OF assms(3), of i] that(4) by blast
  have min: "minKeywordIndex a b = a \<or> minKeywordIndex a b = b" "0 \<le> a \<Longrightarrow> 0 \<le> minKeywordIndex a b \<and> minKeywordIndex a b \<le> a"
    "0 \<le> b \<Longrightarrow> 0 \<le> minKeywordIndex a b \<and> minKeywordIndex a b \<le> b"
    by (auto simp: minKeywordIndex_def)
  have found: "\<exists>v\<in>W. suffix v w \<and> is_keyword low kws v (nat (minKeywordIndex a b))" if "0 \<le> minKeywordIndex a b"
    using min(1) that a(2) b(2) assms(2) by (metis suffix_order.order_refl)
  have "0 \<le> minKeywordIndex a b \<and> minKeywordIndex a b \<le> int i" if "v \<in> W" "v \<noteq> []" "suffix v w" "is_keyword low kws v i" for v i
    using all[OF that] min(2,3) by linarith
  moreover have "-1 \<le> minKeywordIndex a b" using min(1) a(1) b(1) by presburger
  ultimately show ?thesis using found unfolding best_ok_def by blast
qed

lemma best_ok_short:
  assumes "first_of a (is_keyword low kws w)" "w = [] \<or> w = [c]" "w \<in> W"
  shows "best_ok low kws W w a"
proof -
  have "0 \<le> a \<and> a \<le> int i" if "v \<noteq> []" "suffix v w" "is_keyword low kws v i" for v i
    using that assms(2) first_of_bound[OF assms(1), of i] by (auto simp: suffix_Cons)
  moreover have "-1 \<le> a" "0 \<le> a \<Longrightarrow> is_keyword low kws w (nat a)" using assms(1) by (auto simp: first_of_def split: if_splits)
  ultimately show ?thesis using assms(3) unfolding best_ok_def by blast
qed

section \<open>Linking one node\<close>

definition linked :: "(string \<Rightarrow> string) \<Rightarrow> string list \<Rightarrow> string list \<Rightarrow> node list \<Rightarrow> nat \<Rightarrow> bool" where
  "linked low kws ws nodes k \<longleftrightarrow> stands ws (failure (nodes ! k)) (failure_word (set ws) (ws ! k)) \<and> best_ok low kws (set ws) (ws ! k) (bestKeyword (nodes ! k))"

lemma root_word: "trie ws nodes edges \<Longrightarrow> k < length ws \<Longrightarrow> ws ! k = [] \<longleftrightarrow> k = 0"
  using nth_eq_iff_index_eq[of ws k 0] by (auto simp: trie_def stands_def)

lemma find_fallback_reads:
  assumes "trie ws nodes edges" "stands ws f u" "length u \<le> fuel"
    and "\<And>k. k < length ws \<Longrightarrow> length (ws ! k) \<le> length u \<Longrightarrow> stands ws (failure (nodes ! k)) (failure_word (set ws) (ws ! k))"
  shows "if read_letter (set ws) u c = [] then find_fallback fuel nodes edges f c = -1
    else stands ws (find_fallback fuel nodes edges f c) (read_letter (set ws) u c)"
proof -
  have stop: "if read_letter (set ws) u c = [] then find_fallback fuel nodes edges f c = -1
      else stands ws (find_fallback fuel nodes edges f c) (read_letter (set ws) u c)"
    if "stands ws f u" "u @ [c] \<in> set ws \<or> u = []" for fuel f u
  proof -
    have "f = 0 \<longleftrightarrow> u = []" using root_word[OF assms(1), of "nat f"] that(1) by (auto simp: stands_def)
    moreover have "0 \<le> buildTransition nodes edges f c" if "u @ [c] \<in> set ws"
      using that transition[OF assms(1) \<open>stands ws f u\<close>, of c] by (simp add: stands_def)
    ultimately have "find_fallback fuel nodes edges f c = buildTransition nodes edges f c"
      using that(2) by (subst find_fallback.simps) (auto simp: Let_def)
    moreover have "read_letter (set ws) u c = (if u @ [c] \<in> set ws then u @ [c] else [])"
      using that(2) by (subst read_letter.simps) auto
    ultimately show ?thesis using transition[OF assms(1) that(1), of c] by simp
  qed
  show ?thesis
    using assms(2-4)
  proof (induction fuel arbitrary: f u)
    case 0
    then have "u = []" by simp
    then show ?case by (intro stop[OF 0(1)] disjI2)
  next
    case (Suc fuel)
    have f: "f = 0 \<longleftrightarrow> u = []" using root_word[OF assms(1), of "nat f"] Suc.prems(1) by (auto simp: stands_def)
    show ?case
    proof (cases "u @ [c] \<in> set ws \<or> u = []")
      case True
      then show ?thesis by (rule stop[OF Suc.prems(1)])
    next
      case False
      have s: "stands ws (failure (nodes ! nat f)) (failure_word (set ws) u)"
        using Suc.prems(3)[of "nat f"] Suc.prems(1) by (auto simp: stands_def)
      have len: "length (failure_word (set ws) u) < length u" using failure_shorter False by blast
      have "buildTransition nodes edges f c = -1" using transition[OF assms(1) Suc.prems(1), of c] False by simp
      then have "find_fallback (Suc fuel) nodes edges f c = find_fallback fuel nodes edges (failure (nodes ! nat f)) c"
        using False f by (subst find_fallback.simps) (simp add: Let_def)
      moreover have "read_letter (set ws) u c = read_letter (set ws) (failure_word (set ws) u) c"
        using False by (subst read_letter.simps) simp
      ultimately show ?thesis using Suc.IH[OF s] len Suc.prems(2,3) by simp
    qed
  qed
qed

lemma word_short:
  assumes "trie ws nodes edges" "k < length ws"
  shows "length (ws ! k) < length ws"
proof -
  have "take n w \<in> set ws" if "w \<in> set ws" for w n
    using that
  proof (induction w rule: rev_induct)
    case (snoc c w)
    then have "w \<in> set ws" using assms(1) unfolding trie_def closed_words_def by blast
    then show ?case using snoc by (cases "n \<le> length w") simp_all
  qed simp
  then have "(\<lambda>n. take n (ws ! k)) ` {..length (ws ! k)} \<subseteq> set ws" using assms(2) by auto
  moreover have "inj_on (\<lambda>n. take n (ws ! k)) {..length (ws ! k)}"
    by (rule inj_onI) (metis atMost_iff length_take min.absorb2)
  ultimately have "card {..length (ws ! k)} \<le> card (set ws)" by (metis card_inj_on_le finite_set)
  also have "\<dots> \<le> length ws" by (rule card_length)
  finally show ?thesis by simp
qed

text \<open>Linking a child of a node: only that child changes, and it is linked.\<close>

lemma link_child_links:
  assumes t: "trie ws nodes edges" and s: "stands ws s w" and w: "w \<noteq> []" and e: "stands ws (b_target e) (w @ [b_label e])"
    and shallow: "\<And>k. k < length ws \<Longrightarrow> length (ws ! k) \<le> length w \<Longrightarrow> linked low kws ws nodes k"
    and fresh: "failure (nodes ! nat (b_target e)) = 0" "first_of (bestKeyword (nodes ! nat (b_target e))) (is_keyword low kws (w @ [b_label e]))"
  defines "nodes' \<equiv> link_child edges s e nodes"
  shows "length nodes' = length nodes" "k \<noteq> nat (b_target e) \<Longrightarrow> nodes' ! k = nodes ! k"
    and "edgeStart (nodes' ! k) = edgeStart (nodes ! k)" "terminalKeyword (nodes' ! k) = terminalKeyword (nodes ! k)"
    and "linked low kws ws nodes' (nat (b_target e))"
proof -
  let ?W = "set ws" and ?k = "nat (b_target e)" and ?c = "b_label e"
  let ?fb = "find_fallback (length nodes) nodes edges (failure (nodes ! nat s)) ?c"
  define one where "one = (if 0 \<le> ?fb then nodes[?k := (nodes ! ?k)\<lparr>failure := ?fb\<rparr>] else nodes)"
  have len: "length nodes = length ws" and W: "closed_words ?W" "[] \<in> ?W" using t by (auto simp: trie_def closed_words_def)
  have k: "?k < length ws" "ws ! ?k = w @ [?c]" using e by (simp_all add: stands_def)
  have sk: "nat s < length ws" "ws ! nat s = w" using s by (simp_all add: stands_def)
  have nodes': "nodes' = one[?k := (one ! ?k)\<lparr>bestKeyword := minKeywordIndex (bestKeyword (one ! ?k)) (bestKeyword (one ! nat (failure (one ! ?k))))\<rparr>]"
    by (simp add: nodes'_def link_child_def one_def Let_def)
  have one: "length one = length nodes" "j \<noteq> ?k \<Longrightarrow> one ! j = nodes ! j" "edgeStart (one ! j) = edgeStart (nodes ! j)"
    "terminalKeyword (one ! j) = terminalKeyword (nodes ! j)" "bestKeyword (one ! j) = bestKeyword (nodes ! j)" for j
    using k(1) len by (cases "j = ?k"; simp add: one_def)+
  show "length nodes' = length nodes" "k \<noteq> ?k \<Longrightarrow> nodes' ! k = nodes ! k" by (simp_all add: nodes' one)
  show "edgeStart (nodes' ! k) = edgeStart (nodes ! k)" "terminalKeyword (nodes' ! k) = terminalKeyword (nodes ! k)"
    using k(1) len by (cases "k = ?k"; simp add: nodes' one)+
  have f: "stands ws (failure (nodes ! nat s)) (failure_word ?W w)" using shallow[OF sk(1)] sk(2) by (simp add: linked_def)
  have fl: "length (failure_word ?W w) < length w" by (rule failure_shorter[OF w])
  have fb: "if read_letter ?W (failure_word ?W w) ?c = [] then ?fb = -1 else stands ws ?fb (read_letter ?W (failure_word ?W w) ?c)"
    using find_fallback_reads[OF t f, of "length nodes" ?c] shallow fl word_short[OF t sk(1)] sk(2) len by (simp add: linked_def)
  have fw: "failure_word ?W (w @ [?c]) = read_letter ?W (failure_word ?W w) ?c" by (rule failure_snoc[OF W(1) w])
  have st: "stands ws (failure (one ! ?k)) (failure_word ?W (w @ [?c]))"
    using fb fresh(1) t k(1) len unfolding fw by (cases "read_letter ?W (failure_word ?W w) ?c = []") (auto simp: stands_def trie_def one_def)
  have short: "length (failure_word ?W (w @ [?c])) \<le> length w" using failure_shorter[of "w @ [?c]" ?W] by simp
  let ?f = "nat (failure (one ! ?k))"
  have other: "?f \<noteq> ?k" "?f < length ws" "ws ! ?f = failure_word ?W (w @ [?c])" using st k short by (auto simp: stands_def)
  then have "best_ok low kws ?W (failure_word ?W (w @ [?c])) (bestKeyword (one ! ?f))"
    using shallow[of ?f] short by (simp add: linked_def one)
  moreover have "bestKeyword (one ! ?k) = bestKeyword (nodes ! ?k)" by (simp add: one)
  ultimately have "best_ok low kws ?W (w @ [?c]) (minKeywordIndex (bestKeyword (one ! ?k)) (bestKeyword (one ! ?f)))"
    using best_ok_min[of "w @ [?c]" ?W "bestKeyword (one ! ?k)"] fresh(2) k by (metis append_is_Nil_conv list.discI nth_mem)
  then show "linked low kws ws nodes' ?k"
    using st k len one(1) by (simp add: linked_def nodes')
qed

lemma link_children:
  assumes t: "trie ws nodes edges" and s: "stands ws s w" and w: "w \<noteq> []"
    and es: "\<forall>e\<in>set es. stands ws (b_target e) (w @ [b_label e])" "distinct (map b_target es)"
    and shallow: "\<And>k. k < length ws \<Longrightarrow> length (ws ! k) \<le> length w \<Longrightarrow> linked low kws ws nodes k"
    and fresh: "\<forall>e\<in>set es. failure (nodes ! nat (b_target e)) = 0 \<and> first_of (bestKeyword (nodes ! nat (b_target e))) (is_keyword low kws (w @ [b_label e]))"
  shows "length (fold (link_child edges s) es nodes) = length nodes
    \<and> (\<forall>k. edgeStart (fold (link_child edges s) es nodes ! k) = edgeStart (nodes ! k) \<and> terminalKeyword (fold (link_child edges s) es nodes ! k) = terminalKeyword (nodes ! k))
    \<and> (\<forall>k. int k \<notin> b_target ` set es \<longrightarrow> fold (link_child edges s) es nodes ! k = nodes ! k)
    \<and> (\<forall>e\<in>set es. linked low kws ws (fold (link_child edges s) es nodes) (nat (b_target e)))"
  using t es shallow fresh
proof (induction es arbitrary: nodes)
  case (Cons e es)
  let ?n = "link_child edges s e nodes"
  have e: "stands ws (b_target e) (w @ [b_label e])" using Cons.prems(2) by simp
  have fr: "failure (nodes ! nat (b_target e)) = 0" "first_of (bestKeyword (nodes ! nat (b_target e))) (is_keyword low kws (w @ [b_label e]))"
    using Cons.prems(5) by simp_all
  have n: "length ?n = length nodes" "\<And>k. k \<noteq> nat (b_target e) \<Longrightarrow> ?n ! k = nodes ! k"
    "\<And>k. edgeStart (?n ! k) = edgeStart (nodes ! k)" "\<And>k. terminalKeyword (?n ! k) = terminalKeyword (nodes ! k)"
    "linked low kws ws ?n (nat (b_target e))"
    using link_child_links[OF Cons.prems(1) s w e Cons.prems(4) fr] by simp_all
  have t': "trie ws ?n edges" by (rule trie_shape[OF Cons.prems(1)]) (simp_all add: n)
  have other: "nat (b_target e') \<noteq> nat (b_target e)" if "e' \<in> set es" for e'
  proof
    assume "nat (b_target e') = nat (b_target e)"
    moreover have "0 \<le> b_target e" "0 \<le> b_target e'" using Cons.prems(2) that by (auto simp: stands_def)
    ultimately have "b_target e' = b_target e" by simp
    then show False using Cons.prems(3) that by (auto intro: rev_image_eqI)
  qed
  have keep: "linked low kws ws ?n k" if "linked low kws ws nodes k" "k \<noteq> nat (b_target e)" for k
    using that by (simp add: linked_def n(2))
  have sh: "linked low kws ws ?n k" if k: "k < length ws" "length (ws ! k) \<le> length w" for k
  proof -
    have "k \<noteq> nat (b_target e)" using k e by (auto simp: stands_def)
    then show ?thesis using keep Cons.prems(4) k by blast
  qed
  have IH: "length (fold (link_child edges s) es ?n) = length ?n
    \<and> (\<forall>k. edgeStart (fold (link_child edges s) es ?n ! k) = edgeStart (?n ! k) \<and> terminalKeyword (fold (link_child edges s) es ?n ! k) = terminalKeyword (?n ! k))
    \<and> (\<forall>k. int k \<notin> b_target ` set es \<longrightarrow> fold (link_child edges s) es ?n ! k = ?n ! k)
    \<and> (\<forall>e\<in>set es. linked low kws ws (fold (link_child edges s) es ?n) (nat (b_target e)))"
    by (rule Cons.IH[OF t' _ _ sh]) (use Cons.prems(2,3,5) other n(2) in auto)
  have "int (nat (b_target e)) \<notin> b_target ` set es" using Cons.prems(3) e by (auto simp: stands_def)
  then have "linked low kws ws (fold (link_child edges s) es ?n) (nat (b_target e))" using IH n(5) by (simp add: linked_def)
  moreover have "k \<noteq> nat (b_target e)" if "int k \<noteq> b_target e" for k using that e by (auto simp: stands_def)
  ultimately show ?case using IH n by auto
qed simp

section \<open>The breadth-first pass\<close>

definition depth :: "string list \<Rightarrow> int \<Rightarrow> nat" where
  "depth ws s = length (ws ! nat s)"

text \<open>The nodes seen so far are linked; a node is seen when its parent was visited.\<close>

definition pass :: "(string \<Rightarrow> string) \<Rightarrow> string list \<Rightarrow> string list \<Rightarrow> build_edge list \<Rightarrow> int list \<Rightarrow> int list \<Rightarrow> node list \<Rightarrow> bool" where
  "pass low kws ws edges visited queue nodes \<longleftrightarrow> trie ws nodes edges
     \<and> (\<forall>k<length ws. first_of (terminalKeyword (nodes ! k)) (is_keyword low kws (ws ! k)))
     \<and> distinct (visited @ queue) \<and> (\<forall>s\<in>set (visited @ queue). 0 < s \<and> nat s < length ws)
     \<and> (\<forall>k<length ws. if k = 0 \<or> int k \<in> set (visited @ queue) then linked low kws ws nodes k
          else failure (nodes ! k) = 0 \<and> bestKeyword (nodes ! k) = terminalKeyword (nodes ! k))
     \<and> (\<forall>k<length ws. k \<noteq> 0 \<longrightarrow> (int k \<in> set (visited @ queue) \<longleftrightarrow> (\<exists>s\<in>insert 0 (set visited). ws ! nat s = butlast (ws ! k))))
     \<and> sorted (map (depth ws) queue) \<and> (\<forall>x\<in>set visited. \<forall>y\<in>set queue. depth ws x \<le> depth ws y)"

lemma parent:
  assumes "trie ws nodes edges" "k < length ws" "k \<noteq> 0"
  obtains j where "j < length ws" "ws ! j = butlast (ws ! k)" "length (ws ! k) = Suc (length (ws ! j))"
proof -
  have "ws ! k \<noteq> []" using root_word[OF assms(1,2)] assms(3) by simp
  then have "butlast (ws ! k) @ [last (ws ! k)] \<in> set ws" using assms(2) by simp
  then have "butlast (ws ! k) \<in> set ws" using assms(1) unfolding trie_def closed_words_def by blast
  then obtain j where "j < length ws" "ws ! j = butlast (ws ! k)" by (auto simp: in_set_conv_nth)
  then show thesis using that \<open>ws ! k \<noteq> []\<close> by (simp add: Suc_pred)
qed

lemma pass_early:
  assumes "pass low kws ws edges visited (s # queue) nodes" "k < length ws" "length (ws ! k) < depth ws s"
  shows "k = 0 \<or> int k \<in> set visited"
  using assms(2,3)
proof (induction "length (ws ! k)" arbitrary: k rule: less_induct)
  case less
  show ?case
  proof (cases "k = 0")
    case False
    have t: "trie ws nodes edges" using assms(1) by (simp add: pass_def)
    obtain j where j: "j < length ws" "ws ! j = butlast (ws ! k)" "length (ws ! k) = Suc (length (ws ! j))"
      using parent[OF t less(2) False] by blast
    then have "j = 0 \<or> int j \<in> set visited" using less by simp
    then have "\<exists>s\<in>insert 0 (set visited). ws ! nat s = butlast (ws ! k)" using j(2) by force
    then have "int k \<in> set (visited @ s # queue)" using assms(1) less(2) False unfolding pass_def by blast
    moreover have "int k \<notin> set (s # queue)"
      using assms(1) less(3) by (auto simp: pass_def depth_def)
    ultimately show ?thesis by simp
  qed simp
qed

lemma pass_shallow:
  assumes "pass low kws ws edges visited (s # queue) nodes" "k < length ws" "length (ws ! k) \<le> depth ws s"
  shows "k = 0 \<or> int k \<in> set (visited @ s # queue)"
proof (cases "k = 0")
  case False
  have t: "trie ws nodes edges" using assms(1) by (simp add: pass_def)
  obtain j where j: "j < length ws" "ws ! j = butlast (ws ! k)" "length (ws ! k) = Suc (length (ws ! j))"
    using parent[OF t assms(2) False] by blast
  then have "j = 0 \<or> int j \<in> set visited" using pass_early[OF assms(1) j(1)] assms(3) by simp
  then have "\<exists>s\<in>insert 0 (set visited). ws ! nat s = butlast (ws ! k)" using j(2) by force
  then show ?thesis using assms(1,2) False unfolding pass_def by blast
qed simp


text \<open>Visiting the next node of the queue.\<close>

lemma sorted_const: "(\<And>x. x \<in> set xs \<Longrightarrow> f x = n) \<Longrightarrow> sorted (map f xs)"
  by (induction xs) auto

lemma children_nodes:
  assumes "trie ws nodes edges" "nat s < length ws" "0 \<le> s"
  defines "es \<equiv> edges_of nodes edges s"
  shows "\<forall>e\<in>set es. stands ws (b_target e) (ws ! nat s @ [b_label e])" "distinct (map b_target es)"
    and "k < length ws \<Longrightarrow> int k \<in> b_target ` set es \<longleftrightarrow> ws ! k \<noteq> [] \<and> butlast (ws ! k) = ws ! nat s"
proof -
  have c: "children_of ws (ws ! nat s) es" using assms by (auto simp: trie_def dest!: spec[of _ "nat s"])
  then show st: "\<forall>e\<in>set es. stands ws (b_target e) (ws ! nat s @ [b_label e])" by (simp add: children_of_def)
  have "inj_on b_target (set es)"
  proof (rule inj_onI)
    fix e e' assume "e \<in> set es" "e' \<in> set es" "b_target e = b_target e'"
    moreover have "ws ! nat (b_target e) = ws ! nat s @ [b_label e]" "ws ! nat (b_target e') = ws ! nat s @ [b_label e']"
      using st \<open>e \<in> set es\<close> \<open>e' \<in> set es\<close> by (simp_all add: stands_def)
    ultimately have "b_label e = b_label e'" by simp
    then show "e = e'" using c \<open>e \<in> set es\<close> \<open>e' \<in> set es\<close> by (auto simp: children_of_def distinct_map inj_on_def)
  qed
  then show "distinct (map b_target es)" using c by (simp add: children_of_def distinct_map)
  show "k < length ws \<Longrightarrow> int k \<in> b_target ` set es \<longleftrightarrow> ws ! k \<noteq> [] \<and> butlast (ws ! k) = ws ! nat s"
  proof
    assume "int k \<in> b_target ` set es"
    then obtain e where e: "e \<in> set es" "int k = b_target e" by auto
    then have "ws ! nat (b_target e) = ws ! nat s @ [b_label e]" using st by (simp add: stands_def)
    moreover have "nat (b_target e) = k" using e(2) by (metis nat_int)
    ultimately show "ws ! k \<noteq> [] \<and> butlast (ws ! k) = ws ! nat s" by simp
  next
    assume k: "k < length ws" and "ws ! k \<noteq> [] \<and> butlast (ws ! k) = ws ! nat s"
    then have w: "ws ! nat s @ [last (ws ! k)] = ws ! k" by (metis append_butlast_last_id)
    then have "last (ws ! k) \<in> b_label ` set es" using c k by (auto simp: children_of_def)
    then obtain e where e: "e \<in> set es" "b_label e = last (ws ! k)" by auto
    then have "stands ws (b_target e) (ws ! k)" using st w by metis
    moreover have "stands ws (int k) (ws ! k)" using k by (simp add: stands_def)
    ultimately have "b_target e = int k" using stands_same assms(1) unfolding trie_def by blast
    then show "int k \<in> b_target ` set es" using e(1) by (metis image_eqI)
  qed
qed

lemma pass_step:
  assumes "pass low kws ws edges visited (s # queue) nodes"
  defines "es \<equiv> edges_of nodes edges s"
  shows "pass low kws ws edges (visited @ [s]) (queue @ map b_target es) (fold (link_child edges s) es nodes)"
proof -
  let ?seen = "visited @ s # queue" and ?n = "fold (link_child edges s) es nodes"
  have t: "trie ws nodes edges" and kwf: "\<And>k. k < length ws \<Longrightarrow> first_of (terminalKeyword (nodes ! k)) (is_keyword low kws (ws ! k))"
    and dist: "distinct ?seen" and range: "\<And>x. x \<in> set ?seen \<Longrightarrow> 0 < x \<and> nat x < length ws"
    and state: "\<And>k. k < length ws \<Longrightarrow> if k = 0 \<or> int k \<in> set ?seen then linked low kws ws nodes k
      else failure (nodes ! k) = 0 \<and> bestKeyword (nodes ! k) = terminalKeyword (nodes ! k)"
    and seen: "\<And>k. k < length ws \<Longrightarrow> k \<noteq> 0 \<Longrightarrow> int k \<in> set ?seen \<longleftrightarrow> (\<exists>s\<in>insert 0 (set visited). ws ! nat s = butlast (ws ! k))"
    and order: "sorted (map (depth ws) (s # queue))" "\<And>x y. x \<in> set visited \<Longrightarrow> y \<in> set (s # queue) \<Longrightarrow> depth ws x \<le> depth ws y"
    using assms(1) unfolding pass_def by blast+
  have s: "0 < s" "nat s < length ws" using range[of s] by simp_all
  let ?w = "ws ! nat s"
  have w: "stands ws s ?w" "?w \<noteq> []" using s root_word[OF t, of "nat s"] by (simp_all add: stands_def)
  have st: "\<forall>e\<in>set es. stands ws (b_target e) (?w @ [b_label e])" and dt: "distinct (map b_target es)"
    and mem: "\<And>k. k < length ws \<Longrightarrow> int k \<in> b_target ` set es \<longleftrightarrow> ws ! k \<noteq> [] \<and> butlast (ws ! k) = ?w"
    using children_nodes[OF t s(2)] s(1) by (simp_all add: es_def)
  have unique: "x = s" if "x \<in> insert 0 (set ?seen)" "ws ! nat x = ?w" for x
  proof -
    have "stands ws x ?w" using that range[of x] t by (auto simp: stands_def trie_def)
    then show ?thesis using stands_same w(1) t unfolding trie_def by blast
  qed
  have unseen: "int k \<notin> set ?seen" if len: "k < length ws" and tg: "int k \<in> b_target ` set es" for k
  proof
    assume "int k \<in> set ?seen"
    moreover have k: "ws ! k \<noteq> []" "butlast (ws ! k) = ?w" using mem[OF len] tg by simp_all
    moreover have "k \<noteq> 0" using root_word[OF t len] k(1) by simp
    ultimately have "\<exists>x\<in>insert 0 (set visited). ws ! nat x = ?w" using seen[OF len] by metis
    then obtain x where "x \<in> insert 0 (set visited)" "ws ! nat x = ?w" by (rule bexE)
    then have "s \<in> insert 0 (set visited)" using unique[of x] by auto
    then show False using s(1) dist by auto
  qed
  have targets: "int (nat (b_target e)) = b_target e" "nat (b_target e) < length ws" "ws ! nat (b_target e) = ?w @ [b_label e]" "0 < b_target e"
    if "e \<in> set es" for e
    using st that root_word[OF t, of "nat (b_target e)"] by (auto simp: stands_def)
  have shallow: "linked low kws ws nodes k" if "k < length ws" "length (ws ! k) \<le> length ?w" for k
    using state[OF that(1)] pass_shallow[OF assms(1) that(1)] that(2) by (auto simp: depth_def split: if_splits)
  have fresh: "failure (nodes ! nat (b_target e)) = 0 \<and> first_of (bestKeyword (nodes ! nat (b_target e))) (is_keyword low kws (?w @ [b_label e]))"
    if e: "e \<in> set es" for e
  proof -
    let ?k = "nat (b_target e)"
    have "int ?k \<notin> set ?seen" by (rule unseen) (use targets[OF e] e in auto)
    then show ?thesis using state[of ?k] kwf[of ?k] targets[OF e] by auto
  qed
  have n: "length ?n = length nodes" "\<And>k. edgeStart (?n ! k) = edgeStart (nodes ! k)" "\<And>k. terminalKeyword (?n ! k) = terminalKeyword (nodes ! k)"
    "\<And>k. int k \<notin> b_target ` set es \<Longrightarrow> ?n ! k = nodes ! k" "\<And>e. e \<in> set es \<Longrightarrow> linked low kws ws ?n (nat (b_target e))"
    using link_children[OF t w st dt shallow] fresh by blast+
  have "trie ws ?n edges" by (rule trie_shape[OF t n(1,2)])
  moreover have "distinct ((visited @ [s]) @ queue @ map b_target es)"
  proof -
    have "x \<notin> b_target ` set es" if "x \<in> set ?seen" for x
      using unseen[of "nat x"] range[OF that] that by auto
    then show ?thesis using dist dt by auto
  qed
  moreover have "\<forall>x\<in>set ((visited @ [s]) @ queue @ map b_target es). 0 < x \<and> nat x < length ws"
    using range targets(2,4) by auto
  moreover have "if k = 0 \<or> int k \<in> set ((visited @ [s]) @ queue @ map b_target es) then linked low kws ws ?n k
      else failure (?n ! k) = 0 \<and> bestKeyword (?n ! k) = terminalKeyword (?n ! k)" if k: "k < length ws" for k
  proof (cases "int k \<in> b_target ` set es")
    case True
    then obtain e where "e \<in> set es" "int k = b_target e" by auto
    then have "linked low kws ws ?n k" using n(5) by (metis nat_int)
    then show ?thesis using True by auto
  next
    case False
    then show ?thesis using state[OF k] n(4)[OF False] by (auto simp: linked_def split: if_splits)
  qed
  moreover have "int k \<in> set ((visited @ [s]) @ queue @ map b_target es) \<longleftrightarrow> (\<exists>x\<in>insert 0 (set (visited @ [s])). ws ! nat x = butlast (ws ! k))"
    if k: "k < length ws" "k \<noteq> 0" for k
    using seen[OF k] mem[OF k(1)] root_word[OF t k(1)] k(2) by auto
  moreover have "sorted (map (depth ws) (queue @ map b_target es))"
  proof -
    have child: "depth ws y = Suc (depth ws s)" if "y \<in> b_target ` set es" for y
      using that targets(3) by (auto simp: depth_def)
    have "depth ws y \<le> Suc (depth ws s)" if y: "y \<in> set queue" for y
    proof -
      have r: "0 < y" "nat y < length ws" using range[of y] y by simp_all
      have "int (nat y) \<in> set ?seen" "nat y \<noteq> 0" using r(1) y by simp_all
      then have "\<exists>x\<in>insert 0 (set visited). ws ! nat x = butlast (ws ! nat y)" using seen[OF r(2)] by metis
      then obtain x where x: "x \<in> insert 0 (set visited)" "ws ! nat x = butlast (ws ! nat y)" by (rule bexE)
      have "depth ws x \<le> depth ws s" using x(1) order(2)[of x s] t by (auto simp: depth_def trie_def stands_def)
      then show ?thesis using x(2) by (simp add: depth_def)
    qed
    moreover have "sorted (map (depth ws) (map b_target es))" by (rule sorted_const) (use child in auto)
    ultimately show ?thesis using order(1) child by (auto simp: sorted_append)
  qed
  moreover have "\<forall>x\<in>set (visited @ [s]). \<forall>y\<in>set (queue @ map b_target es). depth ws x \<le> depth ws y"
    using order targets(3) by (auto simp: depth_def le_SucI)
  ultimately show ?thesis using kwf n(3) unfolding pass_def by simp
qed


text \<open>The pass ends with an empty queue: its fuel is enough, and then every node is linked.\<close>

lemma link_all_ends:
  assumes "pass low kws ws edges visited queue nodes" "length ws \<le> length visited + fuel"
  shows "\<exists>visited' nodes'. link_all fuel edges queue nodes = (nodes', []) \<and> pass low kws ws edges visited' [] nodes'"
  using assms
proof (induction fuel edges queue nodes arbitrary: visited rule: link_all.induct)
  case (1 edges queue nodes)
  have d: "distinct visited" "\<And>s. s \<in> set visited \<Longrightarrow> 0 < s \<and> nat s < length ws" and ne: "0 < length ws"
    using 1(1) by (auto simp: pass_def trie_def stands_def)
  have "inj_on nat (set visited)" 
  proof (rule inj_onI)
    fix x y assume "x \<in> set visited" "y \<in> set visited" "nat x = nat y"
    then show "x = y" using d(2)[of x] d(2)[of y] by simp
  qed
  then have "length visited = card (nat ` set visited)" using d(1) by (simp add: card_image distinct_card)
  also have "\<dots> \<le> card {1..<length ws}" by (rule card_mono) (use d(2) in fastforce)+
  finally have "length visited < length ws" using ne by (cases ws) simp_all
  then show ?case using 1(2) by simp
next
  case (2 fuel edges nodes)
  then show ?case by auto
next
  case (3 fuel edges s queue nodes)
  show ?case using 3(1)[OF refl pass_step[OF 3(2)]] 3(3) by (simp add: Let_def)
qed

lemma pass_all:
  assumes "pass low kws ws edges visited [] nodes" "k < length ws"
  shows "linked low kws ws nodes k"
proof -
  have "k = 0 \<or> int k \<in> set visited"
    using assms(2)
  proof (induction "length (ws ! k)" arbitrary: k rule: less_induct)
    case less
    show ?case
    proof (cases "k = 0")
      case False
      have t: "trie ws nodes edges" using assms(1) by (simp add: pass_def)
      obtain j where j: "j < length ws" "ws ! j = butlast (ws ! k)" "length (ws ! k) = Suc (length (ws ! j))"
        using parent[OF t less(2) False] by blast
      then have "j = 0 \<or> int j \<in> set visited" using less by simp
      then have "\<exists>s\<in>insert 0 (set visited). ws ! nat s = butlast (ws ! k)" using j(2) by force
      then have "int k \<in> set (visited @ [])" using assms(1) less(2) False unfolding pass_def by blast
      then show ?thesis by simp
    qed simp
  qed
  then show ?thesis using assms by (auto simp: pass_def split: if_splits)
qed

text \<open>The queue starts with the children of the root.\<close>

lemma first_pass:
  assumes "built low kws ws nodes edges"
  shows "pass low kws ws edges [] (map b_target (edges_of nodes edges 0)) nodes"
proof -
  let ?es = "edges_of nodes edges 0"
  have t: "trie ws nodes edges" and root: "0 < length ws" "ws ! 0 = []" using assms by (auto simp: built_def trie_def stands_def)
  have st: "\<forall>e\<in>set ?es. stands ws (b_target e) [b_label e]" and dt: "distinct (map b_target ?es)"
    and mem: "\<And>k. k < length ws \<Longrightarrow> int k \<in> b_target ` set ?es \<longleftrightarrow> ws ! k \<noteq> [] \<and> butlast (ws ! k) = []"
    using children_nodes[OF t, of 0] root by simp_all
  have node: "failure (nodes ! k) = 0" "bestKeyword (nodes ! k) = terminalKeyword (nodes ! k)"
    "first_of (terminalKeyword (nodes ! k)) (is_keyword low kws (ws ! k))" if "k < length ws" for k
    using assms that by (simp_all add: built_def)
  have "linked low kws ws nodes k" if k: "k < length ws" "ws ! k = [] \<or> ws ! k = [c]" for k c
  proof -
    have "failure_word (set ws) (ws ! k) = []" using k(2) by (auto simp: failure_word_def)
    then show ?thesis using node[OF k(1)] best_ok_short[OF node(3)[OF k(1)] k(2)] t k(1) by (simp add: linked_def trie_def)
  qed
  then have "if k = 0 \<or> int k \<in> set ([] @ map b_target ?es) then linked low kws ws nodes k
      else failure (nodes ! k) = 0 \<and> bestKeyword (nodes ! k) = terminalKeyword (nodes ! k)" if "k < length ws" for k
    using that node[OF that] mem[OF that] root by (cases "ws ! k" rule: rev_cases) auto
  moreover have "0 < x \<and> nat x < length ws" if child: "x \<in> b_target ` set ?es" for x
  proof -
    obtain e where "e \<in> set ?es" "x = b_target e" using child by auto
    then have "0 \<le> x" "nat x < length ws" "ws ! nat x = [b_label e]" using st by (auto simp: stands_def)
    then show ?thesis using root by (cases "x = 0") auto
  qed
  moreover have "int k \<in> b_target ` set ?es \<longleftrightarrow> [] = butlast (ws ! k)" if "k < length ws" "k \<noteq> 0" for k
    using mem[OF that(1)] root_word[OF t that(1)] that(2) by auto
  moreover have "sorted (map (depth ws) (map b_target ?es))"
    by (rule sorted_const[of _ _ 1]) (use st in \<open>auto simp: stands_def depth_def\<close>)
  ultimately show ?thesis using t dt node root unfolding pass_def by simp
qed

end
