(* ===== verification/Keyword_Correct.thy ===== *)
theory Keyword_Correct
  imports Keyword_Links
begin

text \<open>
  The keyword matcher (service/content_moderation_keyword_matcher.go) finds what the routine that tries
  every keyword finds (matchBlockedKeyword in service/content_moderation.go): the edges packed for the
  binary search, the walk over the text, and the boundaries of words.
\<close>

section \<open>The packed edges\<close>

abbreviation code_of :: "char \<Rightarrow> nat" where "code_of \<equiv> of_char"

abbreviation labels :: "edge list \<Rightarrow> nat list" where "labels es \<equiv> map (\<lambda>e. code_of (e_label e)) es"

lemma set_insert_edge: "set (insert_edge x es) = insert x (set es)"
  by (induction es) auto

lemma sorted_insert_edge: "sorted (labels es) \<Longrightarrow> sorted (labels (insert_edge x es))"
  by (induction es) (auto simp: set_insert_edge)

lemma sorted_edges_spec:
  "set (sorted_edges es) = (\<lambda>e. \<lparr>e_target = b_target e, e_label = b_label e\<rparr>) ` set es" "sorted (labels (sorted_edges es))"
proof -
  have "set (fold insert_edge xs ys) = set xs \<union> set ys" "sorted (labels ys) \<Longrightarrow> sorted (labels (fold insert_edge xs ys))" for xs ys
    by (induction xs arbitrary: ys) (auto simp: set_insert_edge sorted_insert_edge)
  then show "set (sorted_edges es) = (\<lambda>e. \<lparr>e_target = b_target e, e_label = b_label e\<rparr>) ` set es" "sorted (labels (sorted_edges es))"
    by (simp_all add: sorted_edges_def)
qed

lemma distinct_sorted_edges: "distinct (map b_label es) \<Longrightarrow> distinct (map e_label (sorted_edges es))"
proof -
  have one: "distinct (map e_label (insert_edge x ys)) \<longleftrightarrow> e_label x \<notin> e_label ` set ys \<and> distinct (map e_label ys)" for x ys
    by (induction ys) (auto simp: set_insert_edge)
  have "distinct (map e_label (xs @ ys)) \<Longrightarrow> distinct (map e_label (fold insert_edge xs ys))" for xs ys
    by (induction xs arbitrary: ys) (auto simp: one set_insert_edge)
  from this[of "map (\<lambda>e. \<lparr>e_target = b_target e, e_label = b_label e\<rparr>) es" "[]"]
  show "distinct (map b_label es) \<Longrightarrow> distinct (map e_label (sorted_edges es))"
    by (simp add: sorted_edges_def comp_def)
qed

text \<open>The slice of a node in the array of edges.\<close>

definition slice :: "edge list \<Rightarrow> node \<Rightarrow> edge list \<Rightarrow> bool" where
  "slice es n part \<longleftrightarrow> edgeStart n + edgeCount n \<le> length es \<and> take (edgeCount n) (drop (edgeStart n) es) = part"

lemma pack_edges_spec:
  assumes "pack_edges bedges nodes pre = (packed, es)"
  shows "length packed = length nodes \<and> prefix pre es
    \<and> (\<forall>k<length nodes. failure (packed ! k) = failure (nodes ! k) \<and> bestKeyword (packed ! k) = bestKeyword (nodes ! k)
        \<and> terminalKeyword (packed ! k) = terminalKeyword (nodes ! k) \<and> slice es (packed ! k) (sorted_edges (edges_of nodes bedges (int k))))"
  using assms
proof (induction nodes arbitrary: pre packed es)
  case (Cons n ns)
  let ?es = "sorted_edges (siblings (length bedges) bedges (buildFirstEdge n))"
  let ?n = "n\<lparr>edgeStart := length pre, edgeCount := length ?es\<rparr>"
  obtain packed' where p: "pack_edges bedges ns (pre @ ?es) = (packed', es)" "packed = ?n # packed'"
    using Cons.prems by (auto simp: Let_def split: prod.splits)
  have IH: "length packed' = length ns" "prefix (pre @ ?es) es"
    "\<And>k. k < length ns \<Longrightarrow> failure (packed' ! k) = failure (ns ! k) \<and> bestKeyword (packed' ! k) = bestKeyword (ns ! k)
        \<and> terminalKeyword (packed' ! k) = terminalKeyword (ns ! k) \<and> slice es (packed' ! k) (sorted_edges (edges_of ns bedges (int k)))"
    using Cons.IH[OF p(1)] by simp_all
  have first: "slice es ?n ?es" using IH(2) by (auto simp: slice_def prefix_def)
  have edges: "edges_of (n # ns) bedges (int (Suc k)) = edges_of ns bedges (int k)"
    "edges_of (n # ns) bedges (int 0) = siblings (length bedges) bedges (buildFirstEdge n)" for k
    by (simp_all add: edges_of_def nat_add_distrib)
  show ?case
  proof (intro conjI allI impI)
    show "length packed = length (n # ns)" using IH(1) by (simp add: p(2))
    show "prefix pre es" using IH(2) by (auto simp: prefix_def)
    fix k assume k: "k < length (n # ns)"
    show "failure (packed ! k) = failure ((n # ns) ! k)" "bestKeyword (packed ! k) = bestKeyword ((n # ns) ! k)"
      "terminalKeyword (packed ! k) = terminalKeyword ((n # ns) ! k)"
      using IH(3)[of "k - 1"] k by (cases k; simp add: p(2))+
    show "slice es (packed ! k) (sorted_edges (edges_of (n # ns) bedges (int k)))"
    proof (cases k)
      case 0
      show ?thesis unfolding 0 edges(2) p(2) using first by simp
    next
      case (Suc j)
      show ?thesis unfolding Suc edges(1) p(2) using IH(3)[of j] k Suc by simp
    qed
  qed
qed simp

definition lower_ok :: "edge list \<Rightarrow> char \<Rightarrow> nat \<Rightarrow> nat \<Rightarrow> nat \<Rightarrow> bool" where
  "lower_ok es c left right b \<longleftrightarrow> left \<le> b \<and> b \<le> right \<and> (\<forall>i. left \<le> i \<longrightarrow> i < b \<longrightarrow> code_of (e_label (es ! i)) < code_of c)
     \<and> (\<forall>i. b \<le> i \<longrightarrow> i < right \<longrightarrow> code_of c \<le> code_of (e_label (es ! i)))"

lemma lower_bound_spec:
  assumes "left \<le> right" "\<And>i j. left \<le> i \<Longrightarrow> i \<le> j \<Longrightarrow> j < right \<Longrightarrow> code_of (e_label (es ! i)) \<le> code_of (e_label (es ! j))"
  shows "lower_ok es c left right (lower_bound es c left right)"
  using assms
proof (induction es c left right rule: lower_bound.induct)
  case (1 es c left right)
  let ?mid = "left + (right - left) div 2"
  show ?case
  proof (cases "left < right")
    case less: True
    then have mid: "left \<le> ?mid" "?mid < right" by auto
    show ?thesis
    proof (cases "code_of (e_label (es ! ?mid)) < code_of c")
      case True
      have low: "code_of (e_label (es ! i)) < code_of c" if "left \<le> i" "i \<le> ?mid" for i
        using 1(4)[OF that mid(2)] True by simp
      have eq: "lower_bound es c left right = lower_bound es c (?mid + 1) right"
        using less True by (subst lower_bound.simps) (simp add: Let_def)
      have "lower_ok es c (?mid + 1) right (lower_bound es c (?mid + 1) right)"
        by (rule 1(1)[OF less refl True]) (use mid 1(4) in auto)
      then have ih: "?mid + 1 \<le> lower_bound es c left right" "lower_bound es c left right \<le> right"
        "\<And>i. ?mid + 1 \<le> i \<Longrightarrow> i < lower_bound es c left right \<Longrightarrow> code_of (e_label (es ! i)) < code_of c"
        "\<And>i. lower_bound es c left right \<le> i \<Longrightarrow> i < right \<Longrightarrow> code_of c \<le> code_of (e_label (es ! i))"
        unfolding eq lower_ok_def by blast+
      have "code_of (e_label (es ! i)) < code_of c" if "left \<le> i" "i < lower_bound es c left right" for i
        using low[of i] ih(3)[of i] that by (cases "i \<le> ?mid") simp_all
      then show ?thesis using ih(1,2,4) mid(1) unfolding lower_ok_def by simp
    next
      case False
      have high: "code_of c \<le> code_of (e_label (es ! i))" if "?mid \<le> i" "i < right" for i
        using 1(4)[OF mid(1) that] False by simp
      have eq: "lower_bound es c left right = lower_bound es c left ?mid"
        using less False by (subst lower_bound.simps) (simp add: Let_def)
      have "lower_ok es c left ?mid (lower_bound es c left ?mid)"
        by (rule 1(2)[OF less refl False]) (use mid 1(4) in auto)
      then have ih: "left \<le> lower_bound es c left right" "lower_bound es c left right \<le> ?mid"
        "\<And>i. left \<le> i \<Longrightarrow> i < lower_bound es c left right \<Longrightarrow> code_of (e_label (es ! i)) < code_of c"
        "\<And>i. lower_bound es c left right \<le> i \<Longrightarrow> i < ?mid \<Longrightarrow> code_of c \<le> code_of (e_label (es ! i))"
        unfolding eq lower_ok_def by blast+
      have "code_of c \<le> code_of (e_label (es ! i))" if "lower_bound es c left right \<le> i" "i < right" for i
        using high[of i] ih(4)[of i] that by (cases "?mid \<le> i") simp_all
      then show ?thesis using ih(1-3) mid(2) unfolding lower_ok_def by simp
    qed
  next
    case False
    then have "lower_bound es c left right = left" by (subst lower_bound.simps) simp
    then show ?thesis using 1(3) False unfolding lower_ok_def by simp
  qed
qed

section \<open>The matcher is ready\<close>

text \<open>What the nodes, the packed edges and the transitions of the root stand for.\<close>

definition ready :: "(string \<Rightarrow> string) \<Rightarrow> string list \<Rightarrow> string list \<Rightarrow> matcher \<Rightarrow> bool" where
  "ready low kws ws m \<longleftrightarrow> distinct ws \<and> closed_words (set ws) \<and> stands ws 0 [] \<and> length (m_nodes m) = length ws
     \<and> (\<forall>k<length ws. length (ws ! k) < length ws)
     \<and> (\<forall>k<length ws. linked low kws ws (m_nodes m) k \<and> first_of (terminalKeyword (m_nodes m ! k)) (is_keyword low kws (ws ! k)))
     \<and> (\<forall>k<length ws. \<exists>part. slice (m_edges m) (m_nodes m ! k) part \<and> sorted (labels part) \<and> distinct (map e_label part)
          \<and> (\<forall>e\<in>set part. stands ws (e_target e) (ws ! k @ [e_label e])) \<and> (\<forall>c. ws ! k @ [c] \<in> set ws \<longrightarrow> c \<in> e_label ` set part))
     \<and> (\<forall>c. if [c] \<in> set ws then stands ws (rootTransitions m c) [c] else rootTransitions m c = 0)
     \<and> (\<forall>i<length kws. kws ! i \<noteq> [] \<longrightarrow> low (kws ! i) \<in> set ws)
     \<and> m_keywords m = kws \<and> keywordRules m = map (\<lambda>kw. if kw = [] then zero_rule else newContentModerationKeywordRule low kw) kws"

lemma slice_nth: "slice es n part \<Longrightarrow> i < edgeCount n \<Longrightarrow> es ! (edgeStart n + i) = part ! i \<and> i < length part"
  by (auto simp: slice_def)

lemma search_slice:
  fixes c :: char
  assumes "slice es n part" "sorted (labels part)"
  defines "b \<equiv> lower_bound es c (edgeStart n) (edgeStart n + edgeCount n)"
  shows "if c \<in> e_label ` set part then b < edgeStart n + edgeCount n \<and> es ! b \<in> set part \<and> e_label (es ! b) = c
    else \<not> (b < edgeStart n + edgeCount n \<and> e_label (es ! b) = c)"
proof -
  let ?stop = "edgeStart n + edgeCount n"
  have len: "length part = edgeCount n" using assms(1) by (auto simp: slice_def)
  have at: "es ! i = part ! (i - edgeStart n) \<and> i - edgeStart n < length part" if "edgeStart n \<le> i" "i < ?stop" for i
    using slice_nth[OF assms(1), of "i - edgeStart n"] that len by auto
  have "lower_ok es c (edgeStart n) ?stop b"
    unfolding b_def
  proof (rule lower_bound_spec)
    fix i j assume ij: "edgeStart n \<le> i" "i \<le> j" "j < ?stop"
    have "labels part ! (i - edgeStart n) \<le> labels part ! (j - edgeStart n)"
      by (rule sorted_nth_mono[OF assms(2)]) (use ij len in auto)
    then show "code_of (e_label (es ! i)) \<le> code_of (e_label (es ! j))" using at[of i] at[of j] ij by simp
  qed simp
  then have b: "edgeStart n \<le> b" "b \<le> ?stop" "\<And>i. edgeStart n \<le> i \<Longrightarrow> i < b \<Longrightarrow> code_of (e_label (es ! i)) < code_of c"
    "\<And>i. b \<le> i \<Longrightarrow> i < ?stop \<Longrightarrow> code_of c \<le> code_of (e_label (es ! i))"
    unfolding lower_ok_def by blast+
  have mem: "es ! b \<in> set part" if "b < ?stop" using at[OF b(1) that] by simp
  show ?thesis
  proof (cases "c \<in> e_label ` set part")
    case True
    then obtain i where i: "i < edgeCount n" "e_label (part ! i) = c" using len by (auto simp: in_set_conv_nth)
    have e: "e_label (es ! (edgeStart n + i)) = c" using slice_nth[OF assms(1) i(1)] i(2) by simp
    have le: "b \<le> edgeStart n + i" using b(3)[of "edgeStart n + i"] e by (cases "b \<le> edgeStart n + i") simp_all
    then have less: "b < ?stop" using i(1) by simp
    have "labels part ! (b - edgeStart n) \<le> labels part ! i"
      by (rule sorted_nth_mono[OF assms(2)]) (use le i(1) len in auto)
    then have "code_of (e_label (es ! b)) \<le> code_of c" using at[OF b(1) less] i len by simp
    then have "e_label (es ! b) = c" using b(4)[of b] less by simp
    then show ?thesis using True less mem by simp
  next
    case False
    then show ?thesis using mem by auto
  qed
qed

section \<open>Reading the text\<close>

lemma root_state: "ready low kws ws m \<Longrightarrow> stands ws s w \<Longrightarrow> s = 0 \<longleftrightarrow> w = []"
  using nth_eq_iff_index_eq[of ws "nat s" 0] by (auto simp: ready_def stands_def)

lemma next_state_spec:
  assumes r: "ready low kws ws m" and s: "stands ws s w"
  shows "if w @ [c] \<in> set ws then stands ws (next_state m s c) (w @ [c]) else next_state m s c = 0"
proof (cases "s = 0")
  case True
  then show ?thesis using r root_state[OF r s] by (auto simp: ready_def next_state_def dest!: spec[of _ c])
next
  case False
  let ?n = "m_nodes m ! nat s"
  let ?b = "lower_bound (m_edges m) c (edgeStart ?n) (edgeStart ?n + edgeCount ?n)"
  have k: "nat s < length ws" "ws ! nat s = w" "\<not> s < 0" "\<not> int (length (m_nodes m)) \<le> s"
    using s r by (auto simp: stands_def ready_def)
  have "\<exists>part. slice (m_edges m) ?n part \<and> sorted (labels part) \<and> distinct (map e_label part)
      \<and> (\<forall>e\<in>set part. stands ws (e_target e) (w @ [e_label e])) \<and> (\<forall>c. w @ [c] \<in> set ws \<longrightarrow> c \<in> e_label ` set part)"
    using r k(1) unfolding ready_def k(2)[symmetric] by blast
  then obtain part where part: "slice (m_edges m) ?n part" "sorted (labels part)"
    "\<forall>e\<in>set part. stands ws (e_target e) (w @ [e_label e])" "\<And>c. w @ [c] \<in> set ws \<Longrightarrow> c \<in> e_label ` set part" by blast
  have "c \<in> e_label ` set part \<longleftrightarrow> w @ [c] \<in> set ws" using part(3,4) stands_in by fastforce
  moreover have "next_state m s c = (if ?b < edgeStart ?n + edgeCount ?n \<and> e_label (m_edges m ! ?b) = c then e_target (m_edges m ! ?b) else 0)"
    using False k(3,4) by (simp add: next_state_def Let_def)
  ultimately show ?thesis using search_slice[OF part(1,2), of c] part(3) by (auto split: if_splits)
qed

lemma advance_reads:
  assumes r: "ready low kws ws m" and s: "stands ws s u" "length u \<le> fuel"
  shows "stands ws (advance fuel m s c) (read_letter (set ws) u c)"
proof -
  have stop: "stands ws (advance fuel m s c) (read_letter (set ws) u c)" if "stands ws s u" "u @ [c] \<in> set ws \<or> u = []" for fuel s u
  proof -
    have "next_state m s c \<noteq> 0" if "u @ [c] \<in> set ws"
      using that next_state_spec[OF r \<open>stands ws s u\<close>, of c] root_state[OF r, of "next_state m s c" "u @ [c]"] by simp
    moreover have "s = 0 \<longleftrightarrow> u = []" by (rule root_state[OF r that(1)])
    ultimately have "advance fuel m s c = (if u @ [c] \<in> set ws then next_state m s c else 0)"
      using that(2) next_state_spec[OF r that(1), of c] by (subst advance.simps) (auto simp: Let_def)
    moreover have "read_letter (set ws) u c = (if u @ [c] \<in> set ws then u @ [c] else [])" using that(2) by (subst read_letter.simps) auto
    moreover have "stands ws 0 []" using r by (simp add: ready_def)
    ultimately show ?thesis using next_state_spec[OF r that(1), of c] by simp
  qed
  show ?thesis
    using s
  proof (induction fuel arbitrary: s u)
    case 0
    show ?case by (rule stop[OF 0(1)]) (use 0 in simp)
  next
    case (Suc fuel)
    show ?case
    proof (cases "u @ [c] \<in> set ws \<or> u = []")
      case True
      then show ?thesis by (rule stop[OF Suc.prems(1)])
    next
      case False
      have f: "stands ws (failure (m_nodes m ! nat s)) (failure_word (set ws) u)"
        using r Suc.prems(1) by (auto simp: ready_def linked_def stands_def)
      have "advance (Suc fuel) m s c = advance fuel m (failure (m_nodes m ! nat s)) c"
        using False next_state_spec[OF r Suc.prems(1), of c] root_state[OF r Suc.prems(1)] by (subst advance.simps) (simp add: Let_def)
      moreover have "read_letter (set ws) u c = read_letter (set ws) (failure_word (set ws) u) c"
        using False by (subst read_letter.simps) simp
      moreover have "length (failure_word (set ws) u) \<le> fuel" using failure_shorter[of u "set ws"] False Suc.prems(2) by simp
      ultimately show ?thesis using Suc.IH[OF f] by simp
    qed
  qed
qed

section \<open>The first keyword that occurs\<close>

text \<open>\<open>improves a b Q\<close>: b is a, or the first index with Q where that is lower.\<close>

definition improves :: "int \<Rightarrow> int \<Rightarrow> (nat \<Rightarrow> bool) \<Rightarrow> bool" where
  "improves a b Q \<longleftrightarrow> (b = a \<or> 0 \<le> b \<and> Q (nat b) \<and> (a < 0 \<or> b < a)) \<and> (\<forall>i. Q i \<longrightarrow> 0 \<le> b \<and> b \<le> int i)"

lemma improves_trans: "improves a b P \<Longrightarrow> improves b c Q \<Longrightarrow> improves a c (\<lambda>i. P i \<or> Q i)"
  unfolding improves_def by (smt (verit))

lemma first_of_improves: "first_of a P \<Longrightarrow> improves a b Q \<Longrightarrow> first_of b (\<lambda>i. P i \<or> Q i)"
  unfolding first_of_def improves_def by (smt (verit, ccfv_threshold) nat_0_le nat_less_iff zless_nat_eq_int_zless)

lemma improves_cong: "(\<And>i. P i = Q i) \<Longrightarrow> improves a b P \<Longrightarrow> improves a b Q"
  by (simp add: improves_def)

definition hit :: "(string \<Rightarrow> string) \<Rightarrow> string list \<Rightarrow> string \<Rightarrow> nat \<Rightarrow> nat \<Rightarrow> bool" where
  "hit low kws txt stop i \<longleftrightarrow> i < length kws \<and> kws ! i \<noteq> [] \<and> suffix (low (kws ! i)) (take stop txt)
     \<and> ruleMatchesAt txt (int stop - int (length (low (kws ! i)))) (newContentModerationKeywordRule low (kws ! i))"

lemma rule_lower: "r_lower (newContentModerationKeywordRule low kw) = low kw"
  by (simp add: newContentModerationKeywordRule_def zero_rule_def Let_def)

lemma match_rule:
  assumes "ready low kws ws m" "is_keyword low kws v i"
  shows "keywordMatchesAt m (int i) txt stop \<longleftrightarrow> ruleMatchesAt txt (int (Suc stop) - int (length v)) (newContentModerationKeywordRule low (kws ! i))"
proof -
  have k: "i < length kws" "kws ! i \<noteq> []" "low (kws ! i) = v" using assms(2) by (simp_all add: is_keyword_def)
  moreover have "keywordRules m ! i = newContentModerationKeywordRule low (kws ! i)" "length (keywordRules m) = length kws"
    using assms(1) k(1,2) by (simp_all add: ready_def)
  ultimately show ?thesis by (simp add: keywordMatchesAt_def Let_def rule_lower add.commute)
qed

text \<open>A keyword that matches and has the letters of a word, and one that matches at the words above it.\<close>

definition match_at :: "(string \<Rightarrow> string) \<Rightarrow> string list \<Rightarrow> matcher \<Rightarrow> string \<Rightarrow> nat \<Rightarrow> string \<Rightarrow> nat \<Rightarrow> bool" where
  "match_at low kws m txt stop v i \<longleftrightarrow> is_keyword low kws v i \<and> keywordMatchesAt m (int i) txt stop"

lemma empty_no_match:
  assumes "ready low kws ws m"
  shows "\<not> match_at low kws m txt stop [] i"
  using match_rule[OF assms, of "[]" i "txt" stop] by (auto simp: match_at_def ruleMatchesAt_def Let_def is_keyword_def rule_lower)

lemma bestBoundaryMatch_spec:
  assumes r: "ready low kws ws m" and "stands ws s u" "length u \<le> fuel"
  shows "improves best (bestBoundaryMatch fuel m s txt stop best) (\<lambda>i. \<exists>v. suffix v u \<and> match_at low kws m txt stop v i)"
  using assms(2-)
proof (induction fuel arbitrary: s u best)
  case 0
  then have "s = 0" "u = []" using root_state[OF r 0(1)] by simp_all
  then show ?case using empty_no_match[OF r] by (subst bestBoundaryMatch.simps) (simp add: improves_def)
next
  case (Suc fuel)
  show ?case
  proof (cases "u = []")
    case True
    then show ?thesis using root_state[OF r Suc.prems(1)] empty_no_match[OF r] by (subst bestBoundaryMatch.simps) (simp add: improves_def)
  next
    case False
    let ?n = "m_nodes m ! nat s"
    let ?c = "terminalKeyword ?n"
    let ?b = "if 0 \<le> ?c \<and> (best < 0 \<or> ?c < best) \<and> keywordMatchesAt m ?c txt stop then ?c else best"
    have k: "nat s < length ws" "ws ! nat s = u" using Suc.prems(1) by (auto simp: stands_def)
    have f: "stands ws (failure ?n) (failure_word (set ws) u)" and c: "first_of ?c (is_keyword low kws u)"
      using r k by (auto simp: ready_def linked_def)
    have same: "keywordMatchesAt m (int i) txt stop \<longleftrightarrow> keywordMatchesAt m ?c txt stop" if "is_keyword low kws u i" for i
    proof -
      have c0: "0 \<le> ?c" using first_of_bound[OF c that] by simp
      then have "is_keyword low kws u (nat ?c)" using c by (simp add: first_of_def)
      then show ?thesis using match_rule[OF r, of u i] match_rule[OF r, of u "nat ?c"] that c0
        by (simp add: newContentModerationKeywordRule_def is_keyword_def)
    qed
    have one: "improves best ?b (match_at low kws m txt stop u)"
    proof -
      have "0 \<le> ?b \<and> ?b \<le> int i" if "match_at low kws m txt stop u i" for i
        using that same[of i] first_of_bound[OF c, of i] by (auto simp: match_at_def)
      moreover have "match_at low kws m txt stop u (nat ?c)" if "0 \<le> ?c" "keywordMatchesAt m ?c txt stop"
        using that c by (simp add: match_at_def first_of_def)
      ultimately show ?thesis unfolding improves_def by auto
    qed
    have "length (failure_word (set ws) u) \<le> fuel" using failure_shorter[of u "set ws"] False Suc.prems(2) by simp
    note two = improves_trans[OF one Suc.IH[OF f this]]
    have run: "bestBoundaryMatch (Suc fuel) m s txt stop best = bestBoundaryMatch fuel m (failure ?n) txt stop ?b"
      using False root_state[OF r Suc.prems(1)] by (subst bestBoundaryMatch.simps) (simp add: Let_def)
    have "suffix v u \<and> match_at low kws m txt stop v i \<longleftrightarrow> v = u \<and> match_at low kws m txt stop u i
        \<or> suffix v (failure_word (set ws) u) \<and> match_at low kws m txt stop v i" for v i
    proof -
      have "v \<in> set ws" if "match_at low kws m txt stop v i"
        using that r by (auto simp: match_at_def is_keyword_def ready_def)
      then show ?thesis using suffix_failure[OF False, of v "set ws"] by auto
    qed
    then have "(match_at low kws m txt stop u i \<or> (\<exists>v. suffix v (failure_word (set ws) u) \<and> match_at low kws m txt stop v i))
        \<longleftrightarrow> (\<exists>v. suffix v u \<and> match_at low kws m txt stop v i)" for i by blast
    then show ?thesis unfolding run by (rule improves_cong[OF _ two])
  qed
qed

text \<open>One letter of the text: the best keyword so far and the keywords that end here.\<close>

lemma hit_iff:
  assumes r: "ready low kws ws m"
  shows "hit low kws txt (Suc stop) i \<longleftrightarrow> (\<exists>v. suffix v (longest (set ws) (take (Suc stop) txt)) \<and> match_at low kws m txt stop v i)"
proof
  assume h: "hit low kws txt (Suc stop) i"
  let ?v = "low (kws ! i)"
  have i: "is_keyword low kws ?v i" using h by (simp add: hit_def is_keyword_def)
  then have "?v \<in> set ws" using r by (simp add: is_keyword_def ready_def)
  moreover have "suffix ?v (take (Suc stop) txt)" using h by (simp add: hit_def)
  ultimately have "suffix ?v (longest (set ws) (take (Suc stop) txt))" using longest_max by blast
  moreover have "keywordMatchesAt m (int i) txt stop" using h match_rule[OF r i] by (simp add: hit_def)
  ultimately show "\<exists>v. suffix v (longest (set ws) (take (Suc stop) txt)) \<and> match_at low kws m txt stop v i"
    using i by (auto simp: match_at_def)
next
  assume "\<exists>v. suffix v (longest (set ws) (take (Suc stop) txt)) \<and> match_at low kws m txt stop v i"
  then obtain v where v: "suffix v (longest (set ws) (take (Suc stop) txt))" "is_keyword low kws v i" "keywordMatchesAt m (int i) txt stop"
    by (auto simp: match_at_def)
  have "suffix v (take (Suc stop) txt)" using v(1) longest_suffix suffix_order.order_trans by blast
  then show "hit low kws txt (Suc stop) i" using v(2,3) match_rule[OF r v(2)] by (simp add: hit_def is_keyword_def)
qed

definition best_step :: "matcher \<Rightarrow> string \<Rightarrow> nat \<Rightarrow> int \<Rightarrow> int \<Rightarrow> int" where
  "best_step m txt stop s best =
     (let candidate = bestKeyword (m_nodes m ! nat s)
      in if 0 \<le> candidate \<and> (best < 0 \<or> candidate < best) then
           (if keywordMatchesAt m candidate txt stop then candidate else bestBoundaryMatch (length (m_nodes m)) m s txt stop best)
         else best)"

lemma best_step_improves:
  assumes r: "ready low kws ws m" and s: "stands ws s (longest (set ws) (take (Suc stop) txt))"
  shows "improves best (best_step m txt stop s best) (hit low kws txt (Suc stop))"
proof -
  let ?u = "longest (set ws) (take (Suc stop) txt)" and ?c = "bestKeyword (m_nodes m ! nat s)"
  have k: "nat s < length ws" "ws ! nat s = ?u" using s by (simp_all add: stands_def)
  then have "linked low kws ws (m_nodes m) (nat s)" using r unfolding ready_def by blast
  then have c: "best_ok low kws (set ws) ?u ?c" using k(2) by (simp add: linked_def)
  have low: "0 \<le> ?c \<and> ?c \<le> int i" if h: "hit low kws txt (Suc stop) i" for i
  proof -
    obtain v where v: "suffix v ?u" "is_keyword low kws v i" "match_at low kws m txt stop v i"
      using h hit_iff[OF r] by (auto simp: match_at_def)
    then have "v \<in> set ws" "v \<noteq> []" using r empty_no_match[OF r] by (auto simp: ready_def is_keyword_def)
    then show ?thesis using c v(1,2) unfolding best_ok_def by blast
  qed
  have here: "hit low kws txt (Suc stop) (nat ?c)" if "0 \<le> ?c" "keywordMatchesAt m ?c txt stop"
    using c that hit_iff[OF r] by (fastforce simp: best_ok_def match_at_def)
  have deep: "improves best (bestBoundaryMatch (length (m_nodes m)) m s txt stop best) (hit low kws txt (Suc stop))"
  proof (rule improves_cong[OF hit_iff[OF r, symmetric] bestBoundaryMatch_spec[OF r s]])
    have "length (ws ! nat s) < length ws" using r k(1) by (simp add: ready_def)
    then show "length ?u \<le> length (m_nodes m)" using r k(2) by (simp add: ready_def)
  qed
  consider "0 \<le> ?c" "best < 0 \<or> ?c < best" "keywordMatchesAt m ?c txt stop" | "0 \<le> ?c" "best < 0 \<or> ?c < best" "\<not> keywordMatchesAt m ?c txt stop"
    | "\<not> (0 \<le> ?c \<and> (best < 0 \<or> ?c < best))" by blast
  then show ?thesis
  proof cases
    case 1
    then have "best_step m txt stop s best = ?c" by (simp add: best_step_def)
    then show ?thesis using 1 low here unfolding improves_def by auto
  next
    case 2
    then have "best_step m txt stop s best = bestBoundaryMatch (length (m_nodes m)) m s txt stop best" by (simp add: best_step_def)
    then show ?thesis using deep by simp
  next
    case 3
    then have "best_step m txt stop s best = best" by (auto simp: best_step_def Let_def)
    then show ?thesis using 3 low unfolding improves_def by (smt (verit))
  qed
qed

lemma match_from_step:
  "match_from m txt k s best (c # rest) =
     (let s = advance (length (m_nodes m)) m s c; best = best_step m txt k s best
      in if best = 0 then 0 else match_from m txt (k + 1) s best rest)"
  by (simp add: best_step_def Let_def)

declare match_from.simps(2) [simp del]

lemma hit_mono: "first_of 0 (\<lambda>i. \<exists>n\<le>k. hit low kws txt n i) \<Longrightarrow> k \<le> l \<Longrightarrow> first_of 0 (\<lambda>i. \<exists>n\<le>l. hit low kws txt n i)"
  by (auto simp: first_of_def intro: order_trans)

lemma match_from_spec:
  assumes r: "ready low kws ws m"
  shows "stands ws s (longest (set ws) (take k txt)) \<Longrightarrow> first_of best (\<lambda>i. \<exists>n\<le>k. hit low kws txt n i) \<Longrightarrow> drop k txt = rest
    \<Longrightarrow> first_of (match_from m txt k s best rest) (\<lambda>i. \<exists>n\<le>length txt. hit low kws txt n i)"
proof (induction rest arbitrary: k s best)
  case Nil
  have "(\<exists>n\<le>k. hit low kws txt n i) = (\<exists>n\<le>length txt. hit low kws txt n i)" for i
  proof
    assume "\<exists>n\<le>k. hit low kws txt n i"
    then obtain n where n: "hit low kws txt n i" by blast
    have "\<not> int (length txt) < int n"
      using n by (auto simp: hit_def ruleMatchesAt_def Let_def rule_lower)
    then show "\<exists>n\<le>length txt. hit low kws txt n i" using n by (intro exI[of _ n]) simp
  next
    assume "\<exists>n\<le>length txt. hit low kws txt n i"
    then show "\<exists>n\<le>k. hit low kws txt n i" using Nil(3) by (auto intro: order_trans)
  qed
  then show ?case using Nil(2) by simp
next
  case (Cons c rest)
  let ?u = "longest (set ws) (take k txt)" and ?s = "advance (length (m_nodes m)) m s c"
  let ?b = "best_step m txt k ?s best"
  have k: "k < length txt" using Cons.prems(3) by (cases "k < length txt") simp_all
  have t: "txt ! k = c" "drop (Suc k) txt = rest" using Cons.prems(3) Cons_nth_drop_Suc[OF k] by simp_all
  have len: "length ?u \<le> length (m_nodes m)" using Cons.prems(1) r unfolding ready_def stands_def by (metis less_imp_le)
  have W: "closed_words (set ws)" using r by (simp add: ready_def)
  have s: "stands ws ?s (longest (set ws) (take (Suc k) txt))"
    using advance_reads[OF r Cons.prems(1) len, of c] longest_read[OF W, of "take k txt" c] take_Suc_conv_app_nth[OF k] t(1) by simp
  have "first_of ?b (\<lambda>i. (\<exists>n\<le>k. hit low kws txt n i) \<or> hit low kws txt (Suc k) i)"
    by (rule first_of_improves[OF Cons.prems(2) best_step_improves[OF r s]])
  then have b: "first_of ?b (\<lambda>i. \<exists>n\<le>Suc k. hit low kws txt n i)"
    by (rule back_subst[of "first_of ?b"]) (auto simp: le_Suc_eq)
  show ?case
  proof (cases "?b = 0")
    case True
    then have "first_of 0 (\<lambda>i. \<exists>n\<le>length txt. hit low kws txt n i)" using hit_mono[of "Suc k"] b k by simp
    then show ?thesis using True by (simp add: match_from_step Let_def)
  next
    case False
    then show ?thesis using Cons.IH[OF s b t(2)] by (simp add: match_from_step Let_def)
  qed
qed

section \<open>The matcher that is built\<close>

lemma linked_data:
  assumes "linked low kws ws nodes k" "failure (nodes' ! k) = failure (nodes ! k)" "bestKeyword (nodes' ! k) = bestKeyword (nodes ! k)"
  shows "linked low kws ws nodes' k"
  using assms by (simp add: linked_def)

lemma root_table:
  shows "e \<in> set es \<Longrightarrow> distinct (map b_label es) \<Longrightarrow> fold (\<lambda>e t. t(b_label e := b_target e)) es f (b_label e) = b_target e"
    and "c \<notin> b_label ` set es \<Longrightarrow> fold (\<lambda>e t. t(b_label e := b_target e)) es f c = f c"
proof -
  show keep: "c \<notin> b_label ` set es \<Longrightarrow> fold (\<lambda>e t. t(b_label e := b_target e)) es f c = f c" for es f c
    by (induction es arbitrary: f) auto
  show "e \<in> set es \<Longrightarrow> distinct (map b_label es) \<Longrightarrow> fold (\<lambda>e t. t(b_label e := b_target e)) es f (b_label e) = b_target e"
  proof (induction es arbitrary: f)
    case (Cons x es)
    show ?case
    proof (cases "e \<in> set es")
      case False
      then have "e = x" using Cons.prems(1) by simp
      then show ?thesis using keep[of "b_label x" es "f(b_label x := b_target x)"] Cons.prems(2) by (simp del: fun_upd_apply add: fun_upd_same)
    qed (use Cons in simp)
  qed simp
qed

lemma packed_ready:
  assumes p: "pass low kws ws bedges visited [] nodes" and pack: "pack_edges bedges nodes [] = (packed, es)"
    and roots: "children_of ws [] roots" and kws: "\<forall>i<length kws. kws ! i \<noteq> [] \<longrightarrow> low (kws ! i) \<in> set ws"
  shows "ready low kws ws \<lparr>m_nodes = packed, m_edges = es, rootTransitions = fold (\<lambda>e t. t(b_label e := b_target e)) roots (\<lambda>_. 0),
      m_keywords = kws, keywordRules = map (\<lambda>kw. if kw = [] then zero_rule else newContentModerationKeywordRule low kw) kws\<rparr>"
    (is "ready low kws ws ?m")
proof -
  have t: "trie ws nodes bedges" "length nodes = length ws" using p by (simp_all add: pass_def trie_def)
  have P: "length packed = length nodes" "\<And>k. k < length nodes \<Longrightarrow> failure (packed ! k) = failure (nodes ! k) \<and> bestKeyword (packed ! k) = bestKeyword (nodes ! k)
        \<and> terminalKeyword (packed ! k) = terminalKeyword (nodes ! k) \<and> slice es (packed ! k) (sorted_edges (edges_of nodes bedges (int k)))"
    using pack_edges_spec[OF pack] by blast+
  have node: "linked low kws ws packed k \<and> first_of (terminalKeyword (packed ! k)) (is_keyword low kws (ws ! k))" if k: "k < length ws" for k
  proof -
    have "first_of (terminalKeyword (nodes ! k)) (is_keyword low kws (ws ! k))" using p k by (simp add: pass_def)
    then show ?thesis using linked_data[OF pass_all[OF p k]] P(2)[of k] k t(2) by simp
  qed
  have part: "\<exists>part. slice es (packed ! k) part \<and> sorted (labels part) \<and> distinct (map e_label part)
      \<and> (\<forall>e\<in>set part. stands ws (e_target e) (ws ! k @ [e_label e])) \<and> (\<forall>c. ws ! k @ [c] \<in> set ws \<longrightarrow> c \<in> e_label ` set part)" if k: "k < length ws" for k
  proof -
    let ?es = "edges_of nodes bedges (int k)"
    have c: "children_of ws (ws ! k) ?es" using t(1) k by (simp add: trie_def)
    have "slice es (packed ! k) (sorted_edges ?es)" using P(2)[of k] k t(2) by simp
    moreover have "\<forall>e\<in>set (sorted_edges ?es). stands ws (e_target e) (ws ! k @ [e_label e])"
      using c by (auto simp: sorted_edges_spec(1) children_of_def)
    moreover have "e_label ` set (sorted_edges ?es) = b_label ` set ?es" by (simp add: sorted_edges_spec(1) image_image)
    then have "\<forall>c. ws ! k @ [c] \<in> set ws \<longrightarrow> c \<in> e_label ` set (sorted_edges ?es)" using c by (simp add: children_of_def)
    moreover have "distinct (map e_label (sorted_edges ?es))" by (rule distinct_sorted_edges) (use c in \<open>simp add: children_of_def\<close>)
    ultimately show ?thesis using sorted_edges_spec(2) by blast
  qed
  let ?root = "fold (\<lambda>e t. t(b_label e := b_target e)) roots (\<lambda>_. 0)"
  have root: "if [c] \<in> set ws then stands ws (?root c) [c] else ?root c = 0" for c
  proof (cases "c \<in> b_label ` set roots")
    case True
    then obtain e where e: "e \<in> set roots" "b_label e = c" by auto
    then have "?root c = b_target e" using root_table(1)[OF e(1), of "\<lambda>_. 0"] roots e(2) by (simp add: children_of_def)
    moreover have "stands ws (b_target e) [c]" using roots e by (auto simp: children_of_def)
    ultimately show ?thesis using stands_in[of ws _ "[c]"] by simp
  next
    case False
    then show ?thesis using root_table(2)[OF False, of "\<lambda>_. 0"] stands_in[of ws] roots by (auto simp: children_of_def)
  qed
  show ?thesis
    using t node part allI[of "\<lambda>c. if [c] \<in> set ws then stands ws (?root c) [c] else ?root c = 0", OF root] kws P(1) word_short[OF t(1)]
    by (simp add: ready_def trie_def)
qed

lemma build_ready:
  assumes "newContentModerationKeywordMatcher low kws = Some m"
  shows "\<exists>ws. ready low kws ws m"
proof -
  obtain nodes bedges ws where i: "insert_keywords low 0 kws ([newNode], []) = (nodes, bedges)" "built low kws ws nodes bedges"
    using insert_keywords_built[OF empty_built, of low kws] by auto
  let ?roots = "edges_of nodes bedges 0"
  have len: "length nodes = length ws" "0 < length ws" "ws ! 0 = []" using i(2) by (auto simp: built_def trie_def stands_def)
  obtain visited nodes' where l: "link_all (length nodes) bedges (map b_target ?roots) nodes = (nodes', [])"
    "pass low kws ws bedges visited [] nodes'"
    using link_all_ends[OF first_pass[OF i(2)], of "length nodes"] len(1) by auto
  obtain packed es where p: "pack_edges bedges nodes' [] = (packed, es)" by (cases "pack_edges bedges nodes' []")
  have roots: "children_of ws [] ?roots" using i(2) len by (auto simp: built_def trie_def dest: spec[of _ 0])
  have "ready low kws ws m"
    using packed_ready[OF l(2) p roots] i assms l(1) p by (auto simp: newContentModerationKeywordMatcher_def built_def Let_def split: if_splits)
  then show ?thesis ..
qed

lemma build_none:
  assumes "newContentModerationKeywordMatcher low kws = None" "i < length kws" "kws ! i \<noteq> []"
  shows "low (kws ! i) = []"
proof -
  obtain nodes bedges ws where b: "insert_keywords low 0 kws ([newNode], []) = (nodes, bedges)" "built low kws ws nodes bedges"
    using insert_keywords_built[OF empty_built, of low kws] by auto
  have "length nodes = 1"
    using assms(1,2) b(1) by (auto simp: newContentModerationKeywordMatcher_def Let_def split: if_splits prod.splits)
  then have "set ws = {[]}" using b(2) by (cases ws) (auto simp: built_def trie_def stands_def)
  then show ?thesis using b(2) assms(2,3) by (auto simp: built_def)
qed

section \<open>The routine that tries every keyword\<close>

lemma bytes_Index_spec:
  "case bytes_Index s sub of None \<Rightarrow> \<forall>i\<le>length s. \<not> has_prefix (drop i s) sub
   | Some k \<Rightarrow> k \<le> length s \<and> has_prefix (drop k s) sub \<and> (\<forall>i<k. \<not> has_prefix (drop i s) sub)"
proof (induction s)
  case (Cons c s)
  have "(\<forall>i\<le>length (c # s). \<not> has_prefix (drop i (c # s)) sub) \<longleftrightarrow> \<not> has_prefix (c # s) sub \<and> (\<forall>i\<le>length s. \<not> has_prefix (drop i s) sub)"
    by (auto simp: drop_Cons split: nat.splits)
  moreover have "(\<forall>i<Suc k. \<not> has_prefix (drop i (c # s)) sub) \<longleftrightarrow> \<not> has_prefix (c # s) sub \<and> (\<forall>i<k. \<not> has_prefix (drop i s) sub)" for k
    by (auto simp: drop_Cons split: nat.splits)
  ultimately show ?case using Cons by (auto split: option.splits)
qed (auto simp: has_prefix_def)

lemma search_rule_spec:
  "search_rule txt r k \<longleftrightarrow> (\<exists>start\<ge>k. has_prefix (drop start txt) (r_lower r) \<and> ruleMatchesAt txt (int start) r)"
proof (induction "txt" r k rule: search_rule.induct)
  case (1 "txt" r k)
  have fits: "start + length (r_lower r) \<le> length txt" if "ruleMatchesAt txt (int start) r" for start
    using that by (auto simp: ruleMatchesAt_def Let_def split: if_splits)
  show ?case
  proof (cases "int (length txt) - int (length (r_lower r)) < int k")
    case True
    then have "\<not> ruleMatchesAt txt (int start) r" if "k \<le> start" for start using fits[of start] that by auto
    then show ?thesis using True by (subst search_rule.simps) auto
  next
    case False
    show ?thesis
    proof (cases "bytes_Index (drop k txt) (r_lower r)")
      case None
      have "\<not> has_prefix (drop start txt) (r_lower r)" if "k \<le> start" "ruleMatchesAt txt (int start) r" for start
        using bytes_Index_spec[of "drop k txt" "r_lower r"] None that(1) fits[OF that(2)] by (auto dest!: spec[of _ "start - k"])
      moreover have "search_rule txt r k = False" using None False by (subst search_rule.simps) simp
      ultimately show ?thesis by blast
    next
      case (Some relative)
      have at: "has_prefix (drop (k + relative) txt) (r_lower r)" "\<And>i. i < relative \<Longrightarrow> \<not> has_prefix (drop (k + i) txt) (r_lower r)"
        using bytes_Index_spec[of "drop k txt" "r_lower r"] Some by (auto simp: add.commute)
      have skip: "k + relative \<le> start" if "k \<le> start" "has_prefix (drop start txt) (r_lower r)" for start
        using at(2)[of "start - k"] that by (cases "start - k < relative") auto
      show ?thesis
      proof (cases "ruleMatchesAt txt (int (k + relative)) r")
        case True
        then have "search_rule txt r k" using Some False by (subst search_rule.simps) (simp add: Let_def)
        then show ?thesis using True at(1) by (auto intro!: exI[of _ "k + relative"])
      next
        case no: False
        have "search_rule txt r k = search_rule txt r (k + relative + 1)"
          using Some False no by (subst search_rule.simps) (simp add: Let_def)
        also have "\<dots> \<longleftrightarrow> (\<exists>start\<ge>k + relative + 1. has_prefix (drop start txt) (r_lower r) \<and> ruleMatchesAt txt (int start) r)"
          by (rule 1[OF False Some refl no])
        also have "\<dots> \<longleftrightarrow> (\<exists>start\<ge>k. has_prefix (drop start txt) (r_lower r) \<and> ruleMatchesAt txt (int start) r)"
        proof -
          have "k + relative + 1 \<le> start" if "k \<le> start" "has_prefix (drop start txt) (r_lower r)" "ruleMatchesAt txt (int start) r" for start
            using skip[OF that(1,2)] that(3) no by (cases "start = k + relative") auto
          then show ?thesis by (meson add_leE)
        qed
        finally show ?thesis .
      qed
    qed
  qed
qed

lemma suffix_take: "n \<le> length txt \<Longrightarrow> suffix l (take n txt) \<longleftrightarrow> length l \<le> n \<and> has_prefix (drop (n - length l) txt) l"
proof
  assume n: "n \<le> length txt" and "suffix l (take n txt)"
  then obtain u where u: "take n txt = u @ l" by (auto simp: suffix_def)
  have txt_eq: "txt = (u @ l) @ drop n txt" using u append_take_drop_id[of n "txt"] by simp
  have "length u + length l = n" using arg_cong[OF u, of length] n by simp
  then show "length l \<le> n \<and> has_prefix (drop (n - length l) txt) l"
    by (subst txt_eq) (auto simp: has_prefix_def)
next
  assume n: "n \<le> length txt" and p: "length l \<le> n \<and> has_prefix (drop (n - length l) txt) l"
  have "take n txt = take (n - length l + length l) txt" using p by simp
  also have "\<dots> = take (n - length l) txt @ l" using p by (simp only: take_add has_prefix_def)
  finally show "suffix l (take n txt)" by (simp add: suffix_def)
qed

lemma search_hits:
  assumes "i < length kws" "kws ! i \<noteq> []"
  shows "search_rule txt (newContentModerationKeywordRule low (kws ! i)) 0 \<longleftrightarrow> (\<exists>n\<le>length txt. hit low kws txt n i)"
proof -
  let ?r = "newContentModerationKeywordRule low (kws ! i)" and ?l = "low (kws ! i)"
  have "(\<exists>start. has_prefix (drop start txt) ?l \<and> ruleMatchesAt txt (int start) ?r) \<longleftrightarrow> (\<exists>n\<le>length txt. hit low kws txt n i)"
  proof
    assume "\<exists>start. has_prefix (drop start txt) ?l \<and> ruleMatchesAt txt (int start) ?r"
    then obtain start where s: "has_prefix (drop start txt) ?l" "ruleMatchesAt txt (int start) ?r" by blast
    then have "start + length ?l \<le> length txt" by (auto simp: ruleMatchesAt_def Let_def rule_lower split: if_splits)
    then show "\<exists>n\<le>length txt. hit low kws txt n i"
      using s assms by (intro exI[of _ "start + length ?l"]) (simp add: hit_def suffix_take)
  next
    assume "\<exists>n\<le>length txt. hit low kws txt n i"
    then obtain n where n: "n \<le> length txt" "hit low kws txt n i" by blast
    then have s: "length ?l \<le> n" "has_prefix (drop (n - length ?l) txt) ?l" using suffix_take[OF n(1)] by (simp_all add: hit_def)
    then show "\<exists>start. has_prefix (drop start txt) ?l \<and> ruleMatchesAt txt (int start) ?r"
      using n(2) by (intro exI[of _ "n - length ?l"]) (simp add: hit_def of_nat_diff)
  qed
  then show ?thesis by (simp add: search_rule_spec rule_lower)
qed

lemma first_blocked_spec:
  "first_of b (\<lambda>i. i < length kws \<and> kws ! i \<noteq> [] \<and> search_rule txt (newContentModerationKeywordRule low (kws ! i)) 0)
    \<Longrightarrow> first_blocked low txt kws = (if b < 0 then None else Some (kws ! nat b))"
proof (induction kws arbitrary: b)
  case Nil
  then show ?case by (auto simp: first_of_def split: if_splits)
next
  case (Cons kw kws)
  let ?P = "\<lambda>kws i. i < length kws \<and> kws ! i \<noteq> [] \<and> search_rule txt (newContentModerationKeywordRule low (kws ! i)) 0"
  have shift: "?P (kw # kws) (Suc i) = ?P kws i" for i by simp
  show ?case
  proof (cases "?P (kw # kws) 0")
    case True
    then have "0 \<le> b \<and> b \<le> int 0" using first_of_bound[OF Cons.prems, of 0] by blast
    then show ?thesis using True by simp
  next
    case False
    have pos: "nat b \<noteq> 0" if "\<not> b < 0"
    proof
      assume "nat b = 0"
      then have "?P (kw # kws) 0" using Cons.prems that by (simp add: first_of_def)
      then show False using False by blast
    qed
    have "first_of (if b < 0 then b else b - 1) (?P kws)"
    proof (cases "b < 0")
      case True
      then have n: "b = -1" "\<And>i. \<not> ?P (kw # kws) i" using Cons.prems unfolding first_of_def by presburger+
      have "\<not> ?P kws i" for i using n(2)[of "Suc i"] shift by blast
      then show ?thesis using n(1) True unfolding first_of_def by simp
    next
      case b: False
      have n: "nat b = Suc (nat (b - 1))" using pos[OF b] b by simp
      then have c: "?P (kw # kws) (Suc (nat (b - 1)))" "\<And>i. i < nat (b - 1) \<Longrightarrow> \<not> ?P (kw # kws) (Suc i)"
        using Cons.prems b n unfolding first_of_def by (metis, metis Suc_less_eq)
      have "?P kws (nat (b - 1))" "\<forall>i<nat (b - 1). \<not> ?P kws i" using c(1) shift c(2) by blast+
      then show ?thesis using b pos[OF b] by (simp add: first_of_def)
    qed
    then have "first_blocked low txt kws = (if b < 0 then None else Some (kws ! nat (b - 1)))"
      using Cons.IH[of "if b < 0 then b else b - 1"] pos by (auto split: if_splits)
    then show ?thesis using False pos by (auto simp: nth_Cons' nat_diff_distrib)
  qed
qed

section \<open>Equivalence\<close>

text \<open>
  C1: The keyword matcher blocks what the routine that tries every keyword blocks. For every list of
  blocked keywords, every text, and every lower-casing of strings, the matcher built from the keywords
  (a trie with failure links, its edges packed for a binary search, the words' boundaries checked along
  the failure links) returns the same keyword, the first one of the list that occurs in the text on word
  boundaries, or nothing.
\<close>

theorem matcher_finds_first_blocked:
  "Match low (newContentModerationKeywordMatcher low kws) txt = matchBlockedKeyword low txt kws"
proof (cases "txt = [] \<or> kws = []")
  case True
  moreover have "newContentModerationKeywordMatcher low [] = None" by (simp add: newContentModerationKeywordMatcher_def)
  ultimately show ?thesis by (auto simp: Match_def matchBlockedKeyword_def split: option.splits)
next
  case some: False
  let ?t = "low txt"
  let ?P = "\<lambda>i. i < length kws \<and> kws ! i \<noteq> [] \<and> search_rule ?t (newContentModerationKeywordRule low (kws ! i)) 0"
  show ?thesis
  proof (cases "newContentModerationKeywordMatcher low kws")
    case None
    have "\<not> ?P i" for i
      using build_none[OF None, of i] by (auto simp: search_rule_spec ruleMatchesAt_def Let_def rule_lower)
    then have "first_blocked low ?t kws = None" using first_blocked_spec[of "-1" kws ?t low] by (auto simp: first_of_def)
    then show ?thesis using None some by (simp add: Match_def matchBlockedKeyword_def)
  next
    case (Some m)
    then obtain ws where r: "ready low kws ws m" using build_ready by blast
    let ?b = "match_from m ?t 0 0 (-1) ?t"
    have start: "stands ws 0 (longest (set ws) (take 0 ?t))" "first_of (-1) (\<lambda>i. \<exists>n\<le>0. hit low kws ?t n i)"
      using r by (auto simp: ready_def first_of_def hit_def ruleMatchesAt_def Let_def rule_lower)
    have "first_of ?b (\<lambda>i. \<exists>n\<le>length ?t. hit low kws ?t n i)"
      by (rule match_from_spec[OF r start]) simp
    moreover have "(\<exists>n\<le>length ?t. hit low kws ?t n i) = ?P i" for i
      using search_hits[of i kws ?t low] by (auto simp: hit_def)
    ultimately have b: "first_of ?b ?P" by simp
    have "0 < length ws" "length (m_nodes m) = length ws" "m_keywords m = kws" using r by (auto simp: ready_def stands_def)
    moreover have "?b < int (length kws)" using b some by (auto simp: first_of_def split: if_splits)
    ultimately have "Match low (Some m) txt = (if ?b < 0 then None else Some (kws ! nat ?b))"
      using some by (auto simp: Match_def Let_def)
    then show ?thesis using Some some first_blocked_spec[OF b] by (simp add: matchBlockedKeyword_def)
  qed
qed

section \<open>Indices\<close>

text \<open>A matcher whose indices are all in range: no lookup of Match can fail.\<close>

definition in_range :: "matcher \<Rightarrow> bool" where
  "in_range m \<longleftrightarrow> m_nodes m \<noteq> [] \<and> length (keywordRules m) = length (m_keywords m)
     \<and> list_all (\<lambda>n. 0 \<le> failure n \<and> failure n < int (length (m_nodes m))
          \<and> - 1 \<le> terminalKeyword n \<and> terminalKeyword n < int (length (m_keywords m))
          \<and> - 1 \<le> bestKeyword n \<and> bestKeyword n < int (length (m_keywords m))
          \<and> edgeCount n \<le> 256 \<and> edgeStart n + edgeCount n \<le> length (m_edges m)
          \<and> list_all (\<lambda>e. 0 < e_target e \<and> e_target e < int (length (m_nodes m))) (take (edgeCount n) (drop (edgeStart n) (m_edges m)))) (m_nodes m)
     \<and> (\<forall>c. 0 \<le> rootTransitions m c \<and> rootTransitions m c < int (length (m_nodes m)))"

lemma distinct_chars: "distinct (l :: char list) \<Longrightarrow> length l \<le> 256"
  using card_mono[OF finite, of "set l" UNIV] by (simp add: distinct_card card_UNIV_char)

lemma ready_in_range:
  assumes r: "ready low kws ws m"
  shows "in_range m"
proof -
  have len: "length (m_nodes m) = length ws" "0 < length ws" "m_keywords m = kws" "length (keywordRules m) = length kws"
    using r by (auto simp: ready_def stands_def)
  have keyword: "b < int (length kws)" if "0 \<le> b \<longrightarrow> (\<exists>w. is_keyword low kws w (nat b))" for b
    using that by (auto simp: is_keyword_def)
  have "0 \<le> failure n \<and> failure n < int (length (m_nodes m))
      \<and> - 1 \<le> terminalKeyword n \<and> terminalKeyword n < int (length (m_keywords m))
      \<and> - 1 \<le> bestKeyword n \<and> bestKeyword n < int (length (m_keywords m))
      \<and> edgeCount n \<le> 256 \<and> edgeStart n + edgeCount n \<le> length (m_edges m)
      \<and> list_all (\<lambda>e. 0 < e_target e \<and> e_target e < int (length (m_nodes m))) (take (edgeCount n) (drop (edgeStart n) (m_edges m)))"
    if n: "n \<in> set (m_nodes m)" for n
  proof -
    obtain k where k: "k < length ws" "m_nodes m ! k = n" using n len(1) by (auto simp: in_set_conv_nth)
    have "linked low kws ws (m_nodes m) k" and t: "first_of (terminalKeyword n) (is_keyword low kws (ws ! k))"
      using r k unfolding ready_def by blast+
    then have l: "stands ws (failure n) (failure_word (set ws) (ws ! k))" "best_ok low kws (set ws) (ws ! k) (bestKeyword n)"
      using k(2) by (simp_all add: linked_def)
    have "\<exists>part. slice (m_edges m) n part \<and> distinct (map e_label part) \<and> (\<forall>e\<in>set part. stands ws (e_target e) (ws ! k @ [e_label e]))"
      using r k unfolding ready_def by blast
    then obtain part where part: "slice (m_edges m) n part" "distinct (map e_label part)" "\<forall>e\<in>set part. stands ws (e_target e) (ws ! k @ [e_label e])"
      by blast
    have "length part = edgeCount n" using part(1) by (auto simp: slice_def)
    then have "edgeCount n \<le> 256" using distinct_chars[OF part(2)] by simp
    moreover have "0 < e_target e \<and> e_target e < int (length ws)" if "e \<in> set part" for e
    proof -
      have st: "stands ws (e_target e) (ws ! k @ [e_label e])" using part(3) that by blast
      then show ?thesis using root_state[OF r st] by (auto simp: stands_def)
    qed
    moreover have "- 1 \<le> terminalKeyword n" "0 \<le> terminalKeyword n \<longrightarrow> is_keyword low kws (ws ! k) (nat (terminalKeyword n))"
      using t by (auto simp: first_of_def split: if_splits)
    moreover have "- 1 \<le> bestKeyword n" "0 \<le> bestKeyword n \<longrightarrow> (\<exists>v. is_keyword low kws v (nat (bestKeyword n)))"
      using l(2) unfolding best_ok_def by blast+
    moreover have "0 \<le> failure n \<and> failure n < int (length ws)" using l(1) by (auto simp: stands_def)
    ultimately show ?thesis using keyword[of "terminalKeyword n"] keyword[of "bestKeyword n"] part(1) len unfolding slice_def
      by (auto simp: list_all_iff)
  qed
  moreover have "0 \<le> rootTransitions m c \<and> rootTransitions m c < int (length (m_nodes m))" for c
  proof -
    have "if [c] \<in> set ws then stands ws (rootTransitions m c) [c] else rootTransitions m c = 0" using r unfolding ready_def by blast
    then show ?thesis using len(1,2) by (auto simp: stands_def split: if_splits)
  qed
  ultimately show ?thesis using len by (auto simp: in_range_def list_all_iff)
qed

text \<open>
  C35: The matcher that is built has its indices in range: failure links and targets of edges are nodes,
  the edges of a node are a slice of the array of edges and at most 256, the capacity of the buffer in
  which they are sorted, best and terminal keywords are keywords or -1, and every entry of the root's
  table is a node, so no lookup of Match is out of range.
\<close>

theorem matcher_indices_in_range:
  assumes "newContentModerationKeywordMatcher low kws = Some m"
  shows "in_range m"
  using build_ready[OF assms] ready_in_range by blast

definition demo_matcher :: matcher where
  "demo_matcher = the (newContentModerationKeywordMatcher (\<lambda>s. s) [''he'', ''she'', ''his''])"

lemma matcher_indices_in_range_witness: "length (m_nodes demo_matcher) = 8 \<and> in_range demo_matcher"
proof -
  have "length (m_nodes demo_matcher) = 8" "newContentModerationKeywordMatcher (\<lambda>s. s) [''he'', ''she'', ''his''] \<noteq> None"
    by code_simp+
  then show ?thesis using matcher_indices_in_range[of "\<lambda>s. s" "[''he'', ''she'', ''his'']" demo_matcher] by (auto simp: demo_matcher_def)
qed

end
