(* ===== verification/Account_Order.thy ===== *)
theory Account_Order
  imports Concurrency_Cache "HOL-Library.Multiset" "HOL-Library.Option_ord"
begin

text \<open>
  The order in which the gateway tries accounts (service/gateway_scheduling.go): the layered filters
  of the load-aware selection, the sorts with their shuffles, and what they come to: a lexicographic
  order of the accounts with a random choice between equals.

  \<^item> The account has the fields that the selection reads; entries of its Extra map are given as the
    numbers and flags that parseExtraInt and the type tests read from them.
  \<^item> rand.Intn is a parameter \<open>intn\<close>, rand.Shuffle a parameter \<open>sh\<close> that permutes a list.
  \<^item> sort.SliceStable is a stable insertion by the comparison that the code passes.
\<close>

section \<open>Accounts\<close>

record Account =
  ID :: int
  acc_Platform :: string
  acc_Type :: string
  Priority :: int
  Concurrency :: int
  LoadFactor :: "int option"
  acc_Status :: string
  LastUsedAt :: "instant option"
  ExpiresAt :: "instant option"
  AutoPauseOnExpired :: bool
  Schedulable :: bool
  RateLimitResetAt :: "instant option"
  OverloadUntil :: "instant option"
  TempUnschedulableUntil :: "instant option"
  SessionWindowEnd :: "instant option"
  extra_mixed_scheduling :: bool
  extra_max_sessions :: int
  extra_session_idle_timeout_minutes :: int
  extra_base_rpm :: int
  extra_rpm_sticky_exempt :: bool
  extra_rpm_sticky_buffer :: int

record accountWithLoad =
  account :: Account
  loadInfo :: AccountLoadInfo

abbreviation LoadRate :: "accountWithLoad \<Rightarrow> int" where "LoadRate a \<equiv> li_rate (loadInfo a)"

definition is_oauth :: "Account \<Rightarrow> bool" where
  "is_oauth a \<longleftrightarrow> acc_Type a = ''oauth''"

definition EffectiveLoadFactor :: "Account \<Rightarrow> int" where
  "EffectiveLoadFactor a =
     (case LoadFactor a of
        Some f \<Rightarrow> if 0 < f then f else if 0 < Concurrency a then Concurrency a else 1
      | None \<Rightarrow> if 0 < Concurrency a then Concurrency a else 1)"

section \<open>Layered filters\<close>

definition filterByMinPriority :: "accountWithLoad list \<Rightarrow> accountWithLoad list" where
  "filterByMinPriority accounts =
     (case accounts of
        [] \<Rightarrow> accounts
      | first # others \<Rightarrow>
          (let minPriority = fold (\<lambda>acc m. if Priority (account acc) < m then Priority (account acc) else m) others (Priority (account first))
           in filter (\<lambda>acc. Priority (account acc) = minPriority) accounts))"

definition filterByMinLoadRate :: "accountWithLoad list \<Rightarrow> accountWithLoad list" where
  "filterByMinLoadRate accounts =
     (case accounts of
        [] \<Rightarrow> accounts
      | first # others \<Rightarrow>
          (let minLoadRate = fold (\<lambda>acc m. if LoadRate acc < m then LoadRate acc else m) others (LoadRate first)
           in filter (\<lambda>acc. LoadRate acc = minLoadRate) accounts))"

definition active_window :: "instant \<Rightarrow> Account \<Rightarrow> instant option" where
  "active_window now a = (case SessionWindowEnd a of None \<Rightarrow> None | Some e \<Rightarrow> if now < e then Some e else None)"

definition filterBySoonestReset :: "instant \<Rightarrow> accountWithLoad list \<Rightarrow> accountWithLoad list" where
  "filterBySoonestReset now accounts =
     (if length accounts \<le> 1 then accounts
      else (let minEnd = fold (\<lambda>acc m. case active_window now (account acc) of
                    None \<Rightarrow> m
                  | Some e \<Rightarrow> (case m of None \<Rightarrow> Some e | Some x \<Rightarrow> if e < x then Some e else m)) accounts None
            in case minEnd of
                 None \<Rightarrow> accounts
               | Some x \<Rightarrow> filter (\<lambda>acc. active_window now (account acc) = Some x) accounts))"

text \<open>nil counts as the earliest use.\<close>

definition selectByLRU :: "(nat \<Rightarrow> nat) \<Rightarrow> accountWithLoad list \<Rightarrow> bool \<Rightarrow> accountWithLoad option" where
  "selectByLRU intn accounts preferOAuth =
     (case accounts of
        [] \<Rightarrow> None
      | [a] \<Rightarrow> Some a
      | _ \<Rightarrow>
          (let hasNil = list_ex (\<lambda>acc. LastUsedAt (account acc) = None) accounts;
               minTime = fold (\<lambda>acc m. case LastUsedAt (account acc) of
                   None \<Rightarrow> m
                 | Some t \<Rightarrow> (case m of None \<Rightarrow> Some t | Some x \<Rightarrow> if t < x then Some t else m)) accounts None;
               candidates = filter (\<lambda>acc. LastUsedAt (account acc) = (if hasNil then None else minTime)) accounts
           in case candidates of
                [a] \<Rightarrow> Some a
              | _ \<Rightarrow>
                  (let oauth = filter (\<lambda>acc. is_oauth (account acc)) candidates;
                       candidates = (if preferOAuth \<and> oauth \<noteq> [] then oauth else candidates)
                   in Some (candidates ! intn (length candidates)))))"

text \<open>One choice of the load-aware layer.\<close>

definition layered_choice :: "(nat \<Rightarrow> nat) \<Rightarrow> bool \<Rightarrow> instant \<Rightarrow> bool \<Rightarrow> accountWithLoad list \<Rightarrow> accountWithLoad option" where
  "layered_choice intn PreferSoonestReset now preferOAuth available =
     (let candidates = filterByMinPriority available;
          candidates = (if PreferSoonestReset then filterBySoonestReset now candidates else candidates);
          candidates = filterByMinLoadRate candidates
      in selectByLRU intn candidates preferOAuth)"

section \<open>Sorts and shuffles\<close>

fun insert_stable :: "('a \<Rightarrow> 'a \<Rightarrow> bool) \<Rightarrow> 'a \<Rightarrow> 'a list \<Rightarrow> 'a list" where
  "insert_stable lt x [] = [x]"
| "insert_stable lt x (y # ys) = (if lt x y then x # y # ys else y # insert_stable lt x ys)"

definition SliceStable :: "('a \<Rightarrow> 'a \<Rightarrow> bool) \<Rightarrow> 'a list \<Rightarrow> 'a list" where
  "SliceStable lt xs = fold (insert_stable lt) xs []"

text \<open>The runs of equal elements, each compared with the first of its run.\<close>

function group_runs :: "('a \<Rightarrow> 'a \<Rightarrow> bool) \<Rightarrow> 'a list \<Rightarrow> 'a list list" where
  "group_runs same [] = []"
| "group_runs same (x # xs) = (x # takeWhile (same x) xs) # group_runs same (dropWhile (same x) xs)"
  by pat_completeness auto
termination
  by (relation "measure (\<lambda>(same, xs). length xs)") (auto simp: le_imp_less_Suc length_dropWhile_le)

definition shuffle_run :: "('a list \<Rightarrow> 'a list) \<Rightarrow> 'a list \<Rightarrow> 'a list" where
  "shuffle_run sh run = (if 1 < length run then sh run else run)"

definition Unix :: "instant \<Rightarrow> int" where
  "Unix t = t div second"

definition sameLastUsedAt :: "instant option \<Rightarrow> instant option \<Rightarrow> bool" where
  "sameLastUsedAt a b =
     (case (a, b) of (None, None) \<Rightarrow> True | (None, Some _) \<Rightarrow> False | (Some _, None) \<Rightarrow> False | (Some s, Some t) \<Rightarrow> Unix s = Unix t)"

definition sameAccountGroup :: "Account \<Rightarrow> Account \<Rightarrow> bool" where
  "sameAccountGroup a b = (Priority a = Priority b \<and> sameLastUsedAt (LastUsedAt a) (LastUsedAt b))"

definition sameAccountWithLoadGroup :: "accountWithLoad \<Rightarrow> accountWithLoad \<Rightarrow> bool" where
  "sameAccountWithLoadGroup a b =
     (Priority (account a) = Priority (account b) \<and> LoadRate a = LoadRate b \<and> sameLastUsedAt (LastUsedAt (account a)) (LastUsedAt (account b)))"

definition shuffleWithinPriorityAndLastUsed :: "(Account list \<Rightarrow> Account list) \<Rightarrow> Account list \<Rightarrow> bool \<Rightarrow> Account list" where
  "shuffleWithinPriorityAndLastUsed sh accounts preferOAuth =
     concat (map (\<lambda>run.
         if preferOAuth then shuffle_run sh (filter is_oauth run) @ shuffle_run sh (filter (\<lambda>a. \<not> is_oauth a) run)
         else shuffle_run sh run) (group_runs sameAccountGroup accounts))"

definition last_used_less :: "bool \<Rightarrow> Account \<Rightarrow> Account \<Rightarrow> bool" where
  "last_used_less preferOAuth a b =
     (if Priority a \<noteq> Priority b then Priority a < Priority b
      else case (LastUsedAt a, LastUsedAt b) of
             (None, Some _) \<Rightarrow> True
           | (Some _, None) \<Rightarrow> False
           | (None, None) \<Rightarrow> if preferOAuth \<and> acc_Type a \<noteq> acc_Type b then is_oauth a else False
           | (Some s, Some t) \<Rightarrow> s < t)"

definition sortAccountsByPriorityAndLastUsed :: "(Account list \<Rightarrow> Account list) \<Rightarrow> Account list \<Rightarrow> bool \<Rightarrow> Account list" where
  "sortAccountsByPriorityAndLastUsed sh accounts preferOAuth =
     shuffleWithinPriorityAndLastUsed sh (SliceStable (last_used_less preferOAuth) accounts) preferOAuth"

definition priority_less :: "bool \<Rightarrow> Account \<Rightarrow> Account \<Rightarrow> bool" where
  "priority_less preferOAuth a b =
     (if Priority a \<noteq> Priority b then Priority a < Priority b
      else if preferOAuth \<and> acc_Type a \<noteq> acc_Type b then is_oauth a else False)"

definition sortAccountsByPriorityOnly :: "Account list \<Rightarrow> bool \<Rightarrow> Account list" where
  "sortAccountsByPriorityOnly accounts preferOAuth = SliceStable (priority_less preferOAuth) accounts"

definition shuffleWithinPriority :: "(Account list \<Rightarrow> Account list) \<Rightarrow> Account list \<Rightarrow> Account list" where
  "shuffleWithinPriority sh accounts = concat (map (shuffle_run sh) (group_runs (\<lambda>a b. Priority b = Priority a) accounts))"

definition sortCandidatesForFallback :: "(Account list \<Rightarrow> Account list) \<Rightarrow> Account list \<Rightarrow> bool \<Rightarrow> string \<Rightarrow> Account list" where
  "sortCandidatesForFallback sh accounts preferOAuth mode =
     (if mode = ''random'' then shuffleWithinPriority sh (sortAccountsByPriorityOnly accounts preferOAuth)
      else sortAccountsByPriorityAndLastUsed sh accounts preferOAuth)"

text \<open>The order of routed accounts.\<close>

definition routed_less :: "accountWithLoad \<Rightarrow> accountWithLoad \<Rightarrow> bool" where
  "routed_less a b =
     (if Priority (account a) \<noteq> Priority (account b) then Priority (account a) < Priority (account b)
      else if LoadRate a \<noteq> LoadRate b then LoadRate a < LoadRate b
      else case (LastUsedAt (account a), LastUsedAt (account b)) of
             (None, Some _) \<Rightarrow> True
           | (Some _, None) \<Rightarrow> False
           | (None, None) \<Rightarrow> False
           | (Some s, Some t) \<Rightarrow> s < t)"

definition sort_routed :: "(accountWithLoad list \<Rightarrow> accountWithLoad list) \<Rightarrow> accountWithLoad list \<Rightarrow> accountWithLoad list" where
  "sort_routed sh accounts = concat (map (shuffle_run sh) (group_runs sameAccountWithLoadGroup (SliceStable routed_less accounts)))"

section \<open>The best elements of a list\<close>

definition best :: "('a \<Rightarrow> 'k::linorder) \<Rightarrow> 'a list \<Rightarrow> 'a list" where
  "best f xs = filter (\<lambda>x. \<forall>y\<in>set xs. f x \<le> f y) xs"

lemma in_best: "x \<in> set (best f xs) \<longleftrightarrow> x \<in> set xs \<and> (\<forall>y\<in>set xs. f x \<le> f y)"
  by (auto simp: best_def)

lemma least_ex:
  fixes f :: "'a \<Rightarrow> 'k::linorder"
  shows "xs \<noteq> [] \<Longrightarrow> \<exists>x\<in>set xs. \<forall>y\<in>set xs. f x \<le> f y"
proof (induction xs)
  case (Cons a xs)
  show ?case
  proof (cases "xs = []")
    case False
    then obtain x where x: "x \<in> set xs" "\<forall>y\<in>set xs. f x \<le> f y" using Cons.IH by blast
    show ?thesis
    proof (cases "f a \<le> f x")
      case True
      then have "\<forall>y\<in>set (a # xs). f a \<le> f y" using x(2) order_trans by auto
      then show ?thesis by auto
    next
      case False
      then have "\<forall>y\<in>set (a # xs). f x \<le> f y" using x(2) by auto
      then show ?thesis using x(1) by auto
    qed
  qed simp
qed simp

lemma best_empty [simp]: "best f xs = [] \<longleftrightarrow> xs = []"
proof
  assume e: "best f xs = []"
  show "xs = []"
  proof (rule ccontr)
    assume "xs \<noteq> []"
    then obtain x where "x \<in> set (best f xs)" using least_ex[of xs f] in_best[of _ f xs] by blast
    then show False using e by simp
  qed
qed (simp add: best_def)

lemma best_best: "best g (best f xs) = best (\<lambda>x. (f x, g x)) xs"
proof -
  have "(\<forall>y\<in>set xs. f x \<le> f y) \<and> (\<forall>y\<in>set (best f xs). g x \<le> g y) \<longleftrightarrow> (\<forall>y\<in>set xs. (f x, g x) \<le> (f y, g y))" if x: "x \<in> set xs" for x
  proof
    assume l: "(\<forall>y\<in>set xs. f x \<le> f y) \<and> (\<forall>y\<in>set (best f xs). g x \<le> g y)"
    show "\<forall>y\<in>set xs. (f x, g x) \<le> (f y, g y)"
    proof
      fix y assume y: "y \<in> set xs"
      then have "f x \<le> f y" using l by blast
      moreover have "g x \<le> g y" if "f x = f y"
      proof -
        have "y \<in> set (best f xs)" using l y that by (simp add: in_best)
        then show ?thesis using l by blast
      qed
      ultimately show "(f x, g x) \<le> (f y, g y)" by (auto simp: less_eq_prod_def le_less)
    qed
  next
    assume r: "\<forall>y\<in>set xs. (f x, g x) \<le> (f y, g y)"
    then have f: "\<forall>y\<in>set xs. f x \<le> f y" by (auto simp: less_eq_prod_def le_less)
    moreover have "g x \<le> g y" if "y \<in> set (best f xs)" for y
    proof -
      have "f y \<le> f x" "y \<in> set xs" using that x by (simp_all add: in_best)
      then have "f x = f y" using f by (simp add: order_antisym)
      then show ?thesis using r \<open>y \<in> set xs\<close> by (force simp: less_eq_prod_def)
    qed
    ultimately show "(\<forall>y\<in>set xs. f x \<le> f y) \<and> (\<forall>y\<in>set (best f xs). g x \<le> g y)" by blast
  qed
  then have "filter (\<lambda>x. (\<forall>y\<in>set xs. f x \<le> f y) \<and> (\<forall>y\<in>set (best f xs). g x \<le> g y)) xs = filter (\<lambda>x. \<forall>y\<in>set xs. (f x, g x) \<le> (f y, g y)) xs"
    by (rule filter_cong[OF refl])
  then show ?thesis by (simp only: best_def filter_filter conj_commute)
qed

lemma fold_min:
  fixes f :: "'a \<Rightarrow> 'k::linorder"
  defines "g \<equiv> \<lambda>x m. if f x < m then f x else m"
  shows "(fold g xs m = m \<or> fold g xs m \<in> f ` set xs) \<and> fold g xs m \<le> m \<and> (\<forall>x\<in>set xs. fold g xs m \<le> f x)"
proof (induction xs arbitrary: m)
  case (Cons a xs)
  show ?case using Cons.IH[of "g a m"] unfolding fold_simps g_def by (auto simp: order_trans dest: order.trans split: if_splits) 
qed simp

lemma filter_least:
  fixes f :: "'a \<Rightarrow> 'k::linorder"
  assumes "m \<in> f ` set xs" "\<forall>x\<in>set xs. m \<le> f x"
  shows "filter (\<lambda>x. f x = m) xs = best f xs"
  unfolding best_def by (rule filter_cong[OF refl]) (use assms in \<open>auto intro: order_antisym\<close>)

lemma filterByMinPriority_best: "filterByMinPriority xs = best (\<lambda>a. Priority (account a)) xs"
proof (cases xs)
  case (Cons a as)
  let ?m = "fold (\<lambda>acc m. if Priority (account acc) < m then Priority (account acc) else m) as (Priority (account a))"
  have "?m \<in> (\<lambda>a. Priority (account a)) ` set xs" "\<forall>x\<in>set xs. ?m \<le> Priority (account x)"
    using fold_min[of "\<lambda>a. Priority (account a)" as "Priority (account a)"] Cons by auto
  then show ?thesis using filter_least[of ?m "\<lambda>a. Priority (account a)" xs] Cons by (simp add: filterByMinPriority_def Let_def)
qed (simp add: filterByMinPriority_def best_def)

lemma filterByMinLoadRate_best: "filterByMinLoadRate xs = best LoadRate xs"
proof (cases xs)
  case (Cons a as)
  let ?m = "fold (\<lambda>acc m. if LoadRate acc < m then LoadRate acc else m) as (LoadRate a)"
  have "?m \<in> LoadRate ` set xs" "\<forall>x\<in>set xs. ?m \<le> LoadRate x"
    using fold_min[of LoadRate as "LoadRate a"] Cons by auto
  then show ?thesis using filter_least[of ?m LoadRate xs] Cons by (simp add: filterByMinLoadRate_def Let_def)
qed (simp add: filterByMinLoadRate_def best_def)

text \<open>The least of the values that are there.\<close>

lemma fold_least_some:
  fixes f :: "'a \<Rightarrow> 'k::linorder option"
  defines "g \<equiv> \<lambda>x m. case f x of None \<Rightarrow> m | Some e \<Rightarrow> (case m of None \<Rightarrow> Some e | Some y \<Rightarrow> if e < y then Some e else m)"
  shows "(fold g xs m = None \<longleftrightarrow> m = None \<and> (\<forall>x\<in>set xs. f x = None))
    \<and> (\<forall>y. fold g xs m = Some y \<longrightarrow> (m = Some y \<or> Some y \<in> f ` set xs) \<and> (\<forall>z. m = Some z \<longrightarrow> y \<le> z) \<and> (\<forall>x\<in>set xs. \<forall>z. f x = Some z \<longrightarrow> y \<le> z))"
proof (induction xs arbitrary: m)
  case (Cons a xs)
  have IH: "fold g xs (g a m) = None \<longleftrightarrow> g a m = None \<and> (\<forall>x\<in>set xs. f x = None)"
    "\<And>y. fold g xs (g a m) = Some y \<Longrightarrow> (g a m = Some y \<or> Some y \<in> f ` set xs) \<and> (\<forall>z. g a m = Some z \<longrightarrow> y \<le> z) \<and> (\<forall>x\<in>set xs. \<forall>z. f x = Some z \<longrightarrow> y \<le> z)"
    using Cons.IH[of "g a m"] by blast+
  have none: "g a m = None \<longleftrightarrow> m = None \<and> f a = None" by (auto simp: g_def split: option.splits)
  have some: "(m = Some y \<or> f a = Some y) \<and> (\<forall>z. m = Some z \<longrightarrow> y \<le> z) \<and> (\<forall>z. f a = Some z \<longrightarrow> y \<le> z)" if "g a m = Some y" for y
    using that by (auto simp: g_def split: option.splits if_splits)
  have "(m = Some y \<or> Some y \<in> f ` set (a # xs)) \<and> (\<forall>z. m = Some z \<longrightarrow> y \<le> z) \<and> (\<forall>x\<in>set (a # xs). \<forall>z. f x = Some z \<longrightarrow> y \<le> z)"
    if y: "fold g xs (g a m) = Some y" for y
  proof -
    note i = IH(2)[OF y]
    have least: "y \<le> z" if "m = Some z \<or> f a = Some z" for z
    proof -
      have "g a m \<noteq> None" using that none by auto
      then obtain w where w: "g a m = Some w" by blast
      then have "w \<le> z" using some[OF w] that by blast
      then show ?thesis using i w order_trans by blast
    qed
    then show ?thesis using i some[of y] by (auto simp: image_iff)
  qed
  then show ?case using IH(1) none by auto
qed simp

text \<open>An active window comes before none; the soonest end first.\<close>

definition reset_key :: "instant \<Rightarrow> Account \<Rightarrow> bool \<times> instant" where
  "reset_key now a = (case active_window now a of None \<Rightarrow> (True, 0) | Some e \<Rightarrow> (False, e))"

lemma filterBySoonestReset_best: "filterBySoonestReset now xs = best (\<lambda>a. reset_key now (account a)) xs"
proof (cases "length xs \<le> 1")
  case True
  then show ?thesis by (cases xs) (auto simp: filterBySoonestReset_def best_def)
next
  case False
  let ?f = "\<lambda>acc. active_window now (account acc)"
  let ?m = "fold (\<lambda>acc m. case ?f acc of None \<Rightarrow> m | Some e \<Rightarrow> (case m of None \<Rightarrow> Some e | Some x \<Rightarrow> if e < x then Some e else m)) xs None"
  note m = fold_least_some[of ?f xs None]
  show ?thesis
  proof (cases ?m)
    case None
    then have "\<forall>x\<in>set xs. ?f x = None" using m by blast
    then have "best (\<lambda>a. reset_key now (account a)) xs = xs" by (auto simp: best_def reset_key_def intro: filter_True)
    then show ?thesis using None False by (simp add: filterBySoonestReset_def)
  next
    case (Some x)
    then have x: "Some x \<in> ?f ` set xs" "\<And>y z. y \<in> set xs \<Longrightarrow> ?f y = Some z \<Longrightarrow> x \<le> z" using m by blast+
    have "(False, x) \<in> (\<lambda>a. reset_key now (account a)) ` set xs"
    proof -
      obtain a where "a \<in> set xs" "?f a = Some x" using x(1) by (metis imageE)
      then show ?thesis by (intro image_eqI[of _ _ a]) (simp_all add: reset_key_def)
    qed
    moreover have "\<forall>a\<in>set xs. (False, x) \<le> reset_key now (account a)"
      using x(2) by (auto simp: reset_key_def less_eq_prod_def split: option.split)
    ultimately have eq: "best (\<lambda>a. reset_key now (account a)) xs = filter (\<lambda>a. reset_key now (account a) = (False, x)) xs"
      using filter_least[of "(False, x)" "\<lambda>a. reset_key now (account a)" xs] by simp
    have key: "reset_key now (account a) = (False, x) \<longleftrightarrow> ?f a = Some x" for a by (auto simp: reset_key_def split: option.split)
    have "filter (\<lambda>a. reset_key now (account a) = (False, x)) xs = filter (\<lambda>a. ?f a = Some x) xs" by (simp only: key)
    then show ?thesis using eq Some False by (simp add: filterBySoonestReset_def)
  qed
qed

definition oauth_key :: "bool \<Rightarrow> Account \<Rightarrow> bool" where
  "oauth_key preferOAuth a = (preferOAuth \<and> \<not> is_oauth a)"

lemma lru_candidates:
  assumes "xs \<noteq> []"
  defines "minTime \<equiv> fold (\<lambda>acc m. case LastUsedAt (account acc) of None \<Rightarrow> m
      | Some t \<Rightarrow> (case m of None \<Rightarrow> Some t | Some x \<Rightarrow> if t < x then Some t else m)) xs None"
  shows "filter (\<lambda>acc. LastUsedAt (account acc) = (if list_ex (\<lambda>acc. LastUsedAt (account acc) = None) xs then None else minTime)) xs
    = best (\<lambda>acc. LastUsedAt (account acc)) xs"
proof -
  let ?f = "\<lambda>acc. LastUsedAt (account acc)"
  note m = fold_least_some[of ?f xs None, folded minTime_def]
  show ?thesis
  proof (cases "list_ex (\<lambda>acc. ?f acc = None) xs")
    case True
    then obtain x where "x \<in> set xs" "?f x = None" by (auto simp: list_ex_iff)
    then have "None \<in> ?f ` set xs" by (metis image_eqI)
    then show ?thesis using True filter_least[of None ?f xs] by simp
  next
    case False
    then have all: "?f x \<noteq> None" if "x \<in> set xs" for x using that by (auto simp: list_ex_iff)
    then have "minTime \<noteq> None" using m assms(1) by (cases xs) auto
    then obtain y where y: "minTime = Some y" by blast
    then have "Some y \<in> ?f ` set xs" "\<forall>x\<in>set xs. Some y \<le> ?f x" using m all by fastforce+
    then show ?thesis using False y filter_least[of "Some y" ?f xs] by simp
  qed
qed

lemma oauth_candidates:
  assumes "cs \<noteq> []"
  shows "(if preferOAuth \<and> filter (\<lambda>acc. is_oauth (account acc)) cs \<noteq> [] then filter (\<lambda>acc. is_oauth (account acc)) cs else cs)
    = best (\<lambda>acc. oauth_key preferOAuth (account acc)) cs"
proof (cases "preferOAuth \<and> filter (\<lambda>acc. is_oauth (account acc)) cs \<noteq> []")
  case True
  then have "False \<in> (\<lambda>acc. oauth_key preferOAuth (account acc)) ` set cs" by (auto simp: filter_empty_conv oauth_key_def)
  then show ?thesis using True filter_least[of False "\<lambda>acc. oauth_key preferOAuth (account acc)" cs] by (simp add: oauth_key_def)
next
  case False
  then have "oauth_key preferOAuth (account x) = preferOAuth" if "x \<in> set cs" for x
    using that by (auto simp: oauth_key_def filter_empty_conv)
  then have "best (\<lambda>acc. oauth_key preferOAuth (account acc)) cs = cs" by (auto simp: best_def intro: filter_True)
  then show ?thesis using False by auto
qed

definition lru_best :: "bool \<Rightarrow> accountWithLoad list \<Rightarrow> accountWithLoad list" where
  "lru_best preferOAuth xs = best (\<lambda>acc. oauth_key preferOAuth (account acc)) (best (\<lambda>acc. LastUsedAt (account acc)) xs)"

lemma best_single: "best f [a] = [a]"
  by (simp add: best_def)

lemma selectByLRU_best:
  assumes "\<And>n. 0 < n \<Longrightarrow> intn n < n"
  shows "selectByLRU intn xs preferOAuth = (if xs = [] then None else Some (lru_best preferOAuth xs ! intn (length (lru_best preferOAuth xs))))"
proof -
  have zero: "intn (Suc 0) = 0" using assms[of 1] by simp
  consider "xs = []" | a where "xs = [a]" | a b cs where "xs = a # b # cs" by (metis list.exhaust)
  then show ?thesis
  proof cases
    case 2
    then show ?thesis using zero by (simp add: selectByLRU_def lru_best_def best_single)
  next
    case 3
    let ?c = "best (\<lambda>acc. LastUsedAt (account acc)) xs"
    have ne: "xs \<noteq> []" "?c \<noteq> []" using 3 by simp_all
    let ?nil = "list_ex (\<lambda>acc. LastUsedAt (account acc) = None) xs"
    let ?min = "fold (\<lambda>acc m. case LastUsedAt (account acc) of None \<Rightarrow> m
      | Some t \<Rightarrow> (case m of None \<Rightarrow> Some t | Some x \<Rightarrow> if t < x then Some t else m)) xs None"
    let ?cs = "filter (\<lambda>acc. LastUsedAt (account acc) = (if ?nil then None else ?min)) xs"
    let ?oauth = "if preferOAuth \<and> filter (\<lambda>acc. is_oauth (account acc)) ?cs \<noteq> [] then filter (\<lambda>acc. is_oauth (account acc)) ?cs else ?cs"
    have "selectByLRU intn xs preferOAuth = (case ?cs of [a] \<Rightarrow> Some a | _ \<Rightarrow> Some (?oauth ! intn (length ?oauth)))"
      by (simp only: selectByLRU_def 3 list.case Let_def)
    also have "\<dots> = (case ?c of [a] \<Rightarrow> Some a | _ \<Rightarrow> Some (lru_best preferOAuth xs ! intn (length (lru_best preferOAuth xs))))"
      unfolding lru_candidates[OF ne(1)] oauth_candidates[OF ne(2), of preferOAuth] lru_best_def ..
    also have "\<dots> = Some (lru_best preferOAuth xs ! intn (length (lru_best preferOAuth xs)))"
      using zero ne(2) by (auto simp: lru_best_def best_single split: list.split)
    finally show ?thesis using ne(1) by simp
  qed (simp add: selectByLRU_def)
qed

section \<open>The layered choice\<close>

text \<open>rand.Intn answers below its bound; a shuffle permutes.\<close>

definition Intn_ok :: "(nat \<Rightarrow> nat) \<Rightarrow> bool" where
  "Intn_ok intn \<longleftrightarrow> (\<forall>n>0. intn n < n)"

definition Shuffle_ok :: "('a list \<Rightarrow> 'a list) \<Rightarrow> bool" where
  "Shuffle_ok sh \<longleftrightarrow> (\<forall>l. mset (sh l) = mset l)"

text \<open>The order of the accounts: priority, soonest reset, load, last use, type.\<close>

definition choice_key :: "bool \<Rightarrow> instant \<Rightarrow> bool \<Rightarrow> accountWithLoad
    \<Rightarrow> (((int \<times> (bool \<times> instant)) \<times> int) \<times> instant option) \<times> bool" where
  "choice_key PreferSoonestReset now preferOAuth a =
     ((((Priority (account a), if PreferSoonestReset then reset_key now (account a) else (False, 0)), LoadRate a),
       LastUsedAt (account a)), oauth_key preferOAuth (account a))"

lemma best_const: "best (\<lambda>x. c) xs = xs"
  by (simp add: best_def)

lemma layered_best:
  assumes "Intn_ok intn"
  shows "layered_choice intn soon now p xs =
    (if xs = [] then None else Some (best (choice_key soon now p) xs ! intn (length (best (choice_key soon now p) xs))))"
proof -
  have "(if soon then filterBySoonestReset now (filterByMinPriority xs) else filterByMinPriority xs)
      = best (\<lambda>a. (Priority (account a), if soon then reset_key now (account a) else (False, 0))) xs"
    by (simp add: filterByMinPriority_best filterBySoonestReset_best best_best flip: best_best[of "\<lambda>_. (False, 0)" "\<lambda>a. Priority (account a)" xs, unfolded best_const])
  then have "lru_best p (filterByMinLoadRate (if soon then filterBySoonestReset now (filterByMinPriority xs) else filterByMinPriority xs))
      = best (choice_key soon now p) xs"
    by (simp add: lru_best_def filterByMinLoadRate_best best_best choice_key_def[abs_def])
  moreover have "filterByMinLoadRate (if soon then filterBySoonestReset now (filterByMinPriority xs) else filterByMinPriority xs) = [] \<longleftrightarrow> xs = []"
    by (simp add: filterByMinLoadRate_best filterByMinPriority_best filterBySoonestReset_best)
  ultimately show ?thesis
    using selectByLRU_best[of intn] assms by (simp add: layered_choice_def Let_def Intn_ok_def)
qed

text \<open>
  C12: The layered filters choose by one lexicographic order. For every list of available accounts, the
  accounts that a choice of the load-aware layer can return (over all answers of rand.Intn) are exactly
  those that no other one precedes by priority, then (if configured) by the soonest reset of the session
  window, then by load rate, then by last use, then (for Gemini) OAuth accounts first; when the list is
  not empty there is always one.
\<close>

theorem layered_choice_is_best:
  "{a. \<exists>intn. Intn_ok intn \<and> layered_choice intn soon now p xs = Some a} = set (best (choice_key soon now p) xs)
   \<and> (best (choice_key soon now p) xs = [] \<longleftrightarrow> xs = [])"
proof
  let ?b = "best (choice_key soon now p) xs"
  show "{a. \<exists>intn. Intn_ok intn \<and> layered_choice intn soon now p xs = Some a} = set ?b"
  proof (intro set_eqI iffI)
    fix a assume "a \<in> {a. \<exists>intn. Intn_ok intn \<and> layered_choice intn soon now p xs = Some a}"
    then obtain intn where i: "Intn_ok intn" "layered_choice intn soon now p xs = Some a" by blast
    then have "xs \<noteq> []" "a = ?b ! intn (length ?b)" using layered_best[OF i(1)] by (simp_all split: if_splits)
    moreover have "intn (length ?b) < length ?b" using i(1) \<open>xs \<noteq> []\<close> by (simp add: Intn_ok_def)
    ultimately show "a \<in> set ?b" by simp
  next
    fix a assume "a \<in> set ?b"
    then obtain k where k: "k < length ?b" "?b ! k = a" by (auto simp: in_set_conv_nth)
    let ?i = "\<lambda>n. if n = length ?b then k else 0"
    have "Intn_ok ?i" using k(1) by (simp add: Intn_ok_def)
    moreover have "xs \<noteq> []" using k(1) by (auto simp: best_def)
    ultimately have "layered_choice ?i soon now p xs = Some a" using layered_best[of ?i] k(2) by simp
    then show "a \<in> {a. \<exists>intn. Intn_ok intn \<and> layered_choice intn soon now p xs = Some a}" using \<open>Intn_ok ?i\<close> by blast
  qed
qed simp

section \<open>Sorted orders\<close>

lemma insert_stable_mset: "mset (insert_stable lt x ys) = add_mset x (mset ys)"
  by (induction ys) auto

lemma insert_stable_set [simp]: "set (insert_stable lt x ys) = insert x (set ys)"
  by (induction ys) auto

lemma SliceStable_sorted:
  fixes k :: "'a \<Rightarrow> 'k::linorder"
  assumes "\<And>x y. lt x y \<longleftrightarrow> k x < k y"
  shows "mset (SliceStable lt xs) = mset xs" "sorted (map k (SliceStable lt xs))"
proof -
  have one: "sorted (map k ys) \<Longrightarrow> sorted (map k (insert_stable lt x ys))" for x ys
    by (induction ys) (auto simp: assms)
  have "mset (fold (insert_stable lt) xs ys) = mset xs + mset ys" "sorted (map k ys) \<Longrightarrow> sorted (map k (fold (insert_stable lt) xs ys))" for ys
    by (induction xs arbitrary: ys) (simp_all add: insert_stable_mset one)
  then show "mset (SliceStable lt xs) = mset xs" "sorted (map k (SliceStable lt xs))"
    by (simp_all add: SliceStable_def)
qed

lemma concat_group_runs: "concat (group_runs same xs) = xs"
  by (induction same xs rule: group_runs.induct) simp_all

lemma shuffle_run_mset: "Shuffle_ok sh \<Longrightarrow> mset (shuffle_run sh r) = mset r"
  by (simp add: shuffle_run_def Shuffle_ok_def)

lemma group_runs_mset:
  assumes "\<And>r. mset (f r) = mset r"
  shows "mset (concat (map f (group_runs same xs))) = mset xs"
proof -
  have "mset (concat (map f rs)) = mset (concat rs)" for rs using assms by (induction rs) simp_all
  then show ?thesis using concat_group_runs by metis
qed

text \<open>Rearranging the runs of a sorted list keeps it sorted; inside a run, by a second key.\<close>

lemma group_runs_sorted:
  fixes k :: "'a \<Rightarrow> 'k::linorder" and k2 :: "'a \<Rightarrow> 'l::linorder"
  assumes same: "\<And>x y. same x y \<longleftrightarrow> k x = k y"
    and f: "\<And>r. mset (f r) = mset r" "\<And>r. sorted (map k2 (f r))"
  shows "sorted (map k xs) \<Longrightarrow> sorted (map (\<lambda>x. (k x, k2 x)) (concat (map f (group_runs same xs))))"
proof (induction "length xs" arbitrary: xs rule: less_induct)
  case less
  show ?case
  proof (cases xs)
  case (Cons x tail)
    let ?r = "x # takeWhile (same x) tail" and ?d = "dropWhile (same x) tail"
    have set_f: "set (f r) = set r" for r using f(1)[of r] mset_eq_setD by blast
    have run: "k y = k x" if "y \<in> set (f ?r)" for y using that set_f same by (auto dest: set_takeWhileD)
    have sorted_rest: "sorted (map k ?d)"
      using less(2) Cons by (simp add: dropWhile_eq_drop drop_map[symmetric] sorted_wrt_drop)
    have rest: "k x < k y" if y: "y \<in> set ?d" for y
    proof -
      obtain z zs where d: "?d = z # zs" using y by (cases ?d) auto
      then have z: "z \<in> set tail" "\<not> same x z" using hd_dropWhile[of "same x" tail] set_dropWhileD[of z "same x" tail] by auto
      have "k z \<le> k y" using y sorted_rest unfolding d by auto
      moreover have "k x < k z" using z less(2) Cons same by force
      ultimately show ?thesis by simp
    qed
    have "sorted (map (\<lambda>x. (k x, k2 x)) (f ?r))"
    proof -
      have "sorted_wrt (\<le>) (map (\<lambda>y. (k x, k2 y)) (f ?r))" using f(2)[of ?r] by (simp add: sorted_map sorted_wrt_map less_eq_prod_def)
      moreover have "map (\<lambda>x. (k x, k2 x)) (f ?r) = map (\<lambda>y. (k x, k2 y)) (f ?r)" by (rule map_cong[OF refl]) (use run in auto)
      ultimately show ?thesis by (simp only:)
    qed
    moreover have "sorted (map (\<lambda>x. (k x, k2 x)) (concat (map f (group_runs same ?d))))"
      by (rule less(1)[OF _ sorted_rest]) (simp add: Cons le_imp_less_Suc length_dropWhile_le)
    moreover have "set (concat (map f (group_runs same ?d))) = set ?d"
      using group_runs_mset[OF f(1), of same ?d] mset_eq_setD by blast
    ultimately show ?thesis using run rest unfolding Cons group_runs.simps by (auto simp: sorted_append less_eq_prod_def)
  qed simp
qed

text \<open>The orders of accounts, with uses compared by the second after the shuffles.\<close>

definition used_second :: "Account \<Rightarrow> int option" where
  "used_second a = map_option Unix (LastUsedAt a)"

lemma sameLastUsedAt_iff: "sameLastUsedAt s t \<longleftrightarrow> map_option Unix s = map_option Unix t"
  by (simp add: sameLastUsedAt_def split: option.split)

lemma last_used_less_key:
  "last_used_less p a b \<longleftrightarrow> ((Priority a, LastUsedAt a), LastUsedAt a = None \<and> oauth_key p a) < ((Priority b, LastUsedAt b), LastUsedAt b = None \<and> oauth_key p b)"
  by (auto simp: last_used_less_def oauth_key_def is_oauth_def less_prod_def split: option.split)

lemma priority_less_key: "priority_less p a b \<longleftrightarrow> (Priority a, oauth_key p a) < (Priority b, oauth_key p b)"
  by (auto simp: priority_less_def oauth_key_def is_oauth_def less_prod_def)

lemma routed_less_key:
  "routed_less a b \<longleftrightarrow> ((Priority (account a), LoadRate a), LastUsedAt (account a)) < ((Priority (account b), LoadRate b), LastUsedAt (account b))"
  by (auto simp: routed_less_def less_prod_def split: option.split)

lemma second_mono: "s \<le> t \<Longrightarrow> map_option Unix s \<le> map_option Unix t"
  by (cases s; cases t) (simp_all add: Unix_def zdiv_mono1 second_def)

lemma sorted_equal: "(\<And>x. x \<in> set xs \<Longrightarrow> f x = c) \<Longrightarrow> sorted (map f xs)"
  by (induction xs) auto

lemma sorted_coarser:
  assumes "sorted (map f xs)" "\<And>x y. f x \<le> f y \<Longrightarrow> g x \<le> g y"
  shows "sorted (map g xs)"
  using assms by (induction xs) auto

lemma partition_mset: "mset (filter P r) + mset (filter (\<lambda>a. \<not> P a) r) = mset r"
  by (induction r) auto

lemma pair_le_fst: "(a :: 'k::linorder, b :: 'l::linorder) \<le> (c, d) \<Longrightarrow> a \<le> c"
  by (auto simp: less_eq_prod_def dest: order_less_imp_le)

definition fallback_key :: "bool \<Rightarrow> Account \<Rightarrow> (int \<times> int option) \<times> bool" where
  "fallback_key p a = ((Priority a, used_second a), oauth_key p a)"

lemma last_used_order:
  assumes "Shuffle_ok sh"
  shows "mset (sortAccountsByPriorityAndLastUsed sh xs p) = mset xs" "sorted (map (fallback_key p) (sortAccountsByPriorityAndLastUsed sh xs p))"
proof -
  let ?f = "\<lambda>run. if p then shuffle_run sh (filter is_oauth run) @ shuffle_run sh (filter (\<lambda>a. \<not> is_oauth a) run) else shuffle_run sh run"
  let ?s = "SliceStable (last_used_less p) xs" and ?k = "\<lambda>a. (Priority a, used_second a)"
  note s = SliceStable_sorted[of "last_used_less p", OF last_used_less_key, where xs = xs]
  have f: "mset (?f r) = mset r" for r
    using shuffle_run_mset[OF assms] partition_mset[of is_oauth r] by simp
  have set_run: "set (shuffle_run sh r) = set r" for r using shuffle_run_mset[OF assms] mset_eq_setD by blast
  have oauth: "sorted (map (oauth_key p) (?f r))" for r
  proof -
    have same: "sorted (map (oauth_key p) l)" if "\<And>x y. x \<in> set l \<Longrightarrow> y \<in> set l \<Longrightarrow> oauth_key p x = oauth_key p y" for l
      using that by (induction l) auto
    have "sorted (map (oauth_key p) (shuffle_run sh (filter is_oauth r)))" "sorted (map (oauth_key p) (shuffle_run sh (filter (\<lambda>a. \<not> is_oauth a) r)))"
      "\<not> p \<Longrightarrow> sorted (map (oauth_key p) (shuffle_run sh r))"
      by (rule same; simp add: set_run oauth_key_def)+
    then show ?thesis by (auto simp: sorted_append set_run oauth_key_def)
  qed
  have k: "sorted (map ?k ?s)"
    by (rule sorted_coarser[OF s(2)], drule pair_le_fst) (auto simp: less_eq_prod_def used_second_def second_mono dest: order_less_imp_le)
  have "sorted (map (\<lambda>x. (?k x, oauth_key p x)) (concat (map ?f (group_runs sameAccountGroup ?s))))"
    by (rule group_runs_sorted[OF _ f oauth k]) (auto simp: sameAccountGroup_def sameLastUsedAt_iff used_second_def)
  then show "sorted (map (fallback_key p) (sortAccountsByPriorityAndLastUsed sh xs p))"
    by (simp add: sortAccountsByPriorityAndLastUsed_def shuffleWithinPriorityAndLastUsed_def fallback_key_def[abs_def])
  show "mset (sortAccountsByPriorityAndLastUsed sh xs p) = mset xs"
    using group_runs_mset[of ?f, OF f] s(1) by (simp add: sortAccountsByPriorityAndLastUsed_def shuffleWithinPriorityAndLastUsed_def)
qed

definition routed_key :: "accountWithLoad \<Rightarrow> (int \<times> int) \<times> int option" where
  "routed_key a = ((Priority (account a), LoadRate a), used_second (account a))"

lemma routed_order:
  assumes "Shuffle_ok sh"
  shows "mset (sort_routed sh xs) = mset xs" "sorted (map routed_key (sort_routed sh xs))"
proof -
  note s = SliceStable_sorted[OF routed_less_key, where xs = xs]
  have f: "mset (shuffle_run sh r) = mset r" for r by (rule shuffle_run_mset[OF assms])
  have k: "sorted (map routed_key (SliceStable routed_less xs))"
    by (rule sorted_coarser[OF s(2)]) (auto simp: routed_key_def less_eq_prod_def used_second_def second_mono dest: order_less_imp_le)
  have "sorted (map (\<lambda>x. (routed_key x, False)) (concat (map (shuffle_run sh) (group_runs sameAccountWithLoadGroup (SliceStable routed_less xs)))))"
  proof (rule group_runs_sorted[OF _ f _ k])
    show "sameAccountWithLoadGroup x y \<longleftrightarrow> routed_key x = routed_key y" for x y
      by (simp add: sameAccountWithLoadGroup_def sameLastUsedAt_iff used_second_def routed_key_def)
    show "sorted (map (\<lambda>x. False) (shuffle_run sh r))" for r by (rule sorted_equal[of _ _ False]) simp
  qed
  then show "sorted (map routed_key (sort_routed sh xs))"
    unfolding sort_routed_def by (rule sorted_coarser) (erule pair_le_fst)
  show "mset (sort_routed sh xs) = mset xs"
    using group_runs_mset[of "shuffle_run sh", OF f] s(1) by (simp add: sort_routed_def)
qed

text \<open>
  The orders in which accounts are tried after a sort are sorted permutations. For every shuffle
  that permutes, the fallback order holds every candidate once, sorted by priority, then by the second
  of the last use (never used first), then (for Gemini) OAuth accounts first; the order of routed
  accounts holds every one once, sorted by priority, load rate and the second of the last use. The
  shuffles only exchange accounts that these keys do not tell apart.
\<close>

theorem tried_in_order:
  assumes "Shuffle_ok sh" "Shuffle_ok sh'"
  shows "mset (sortAccountsByPriorityAndLastUsed sh xs p) = mset xs
    \<and> sorted (map (fallback_key p) (sortAccountsByPriorityAndLastUsed sh xs p))
    \<and> mset (sort_routed sh' ys) = mset ys \<and> sorted (map routed_key (sort_routed sh' ys))"
  using last_used_order[OF assms(1)] routed_order[OF assms(2)] by blast

definition demo_account :: "int \<Rightarrow> string \<Rightarrow> int \<Rightarrow> instant option \<Rightarrow> Account" where
  "demo_account i ty prio used =
     \<lparr>ID = i, acc_Platform = ''gemini'', acc_Type = ty, Priority = prio, Concurrency = 1, LoadFactor = None, acc_Status = ''active'',
      LastUsedAt = used, ExpiresAt = None, AutoPauseOnExpired = False, Schedulable = True, RateLimitResetAt = None, OverloadUntil = None,
      TempUnschedulableUntil = None, SessionWindowEnd = None, extra_mixed_scheduling = False, extra_max_sessions = 0,
      extra_session_idle_timeout_minutes = 5, extra_base_rpm = 0, extra_rpm_sticky_exempt = False, extra_rpm_sticky_buffer = 0\<rparr>"

lemma tried_in_order_witness:
  "map ID (sortAccountsByPriorityAndLastUsed rev
      [demo_account 1 ''apikey'' 1 (Some 2000000000), demo_account 2 ''apikey'' 1 None, demo_account 3 ''oauth'' 1 (Some 2500000000), demo_account 4 ''oauth'' 0 (Some 1)] True) = [4, 2, 3, 1]
   \<and> sorted (map (fallback_key True) (sortAccountsByPriorityAndLastUsed rev
      [demo_account 1 ''apikey'' 1 (Some 2000000000), demo_account 2 ''apikey'' 1 None, demo_account 3 ''oauth'' 1 (Some 2500000000), demo_account 4 ''oauth'' 0 (Some 1)] True))"
proof
  show "map ID (sortAccountsByPriorityAndLastUsed rev
      [demo_account 1 ''apikey'' 1 (Some 2000000000), demo_account 2 ''apikey'' 1 None, demo_account 3 ''oauth'' 1 (Some 2500000000), demo_account 4 ''oauth'' 0 (Some 1)] True) = [4, 2, 3, 1]"
    by code_simp
  show "sorted (map (fallback_key True) (sortAccountsByPriorityAndLastUsed rev
      [demo_account 1 ''apikey'' 1 (Some 2000000000), demo_account 2 ''apikey'' 1 None, demo_account 3 ''oauth'' 1 (Some 2500000000), demo_account 4 ''oauth'' 0 (Some 1)] True))"
    using tried_in_order[of rev rev] by (simp add: Shuffle_ok_def)
qed

text \<open>In the random mode the shuffle of a priority undoes the preference for OAuth accounts.\<close>

lemma random_mode_forgets_oauth:
  "map ID (sortCandidatesForFallback rev [demo_account 1 ''apikey'' 1 None, demo_account 2 ''oauth'' 1 None] True ''random'') = [1, 2]"
  "map ID (sortCandidatesForFallback rev [demo_account 1 ''apikey'' 1 None, demo_account 2 ''oauth'' 1 None] True ''last_used'') = [2, 1]"
  by code_simp+

end
