(* ===== verification/Account_Selection.thy ===== *)
theory Account_Selection
  imports Account_Order Concurrency_Service
begin

text \<open>
  Load-aware selection of an account (SelectAccountWithLoadAwareness in service/gateway_scheduling.go),
  from the list of the group's accounts to the answer: the gates, model routing, the sticky account,
  the load-aware layer with its legacy order, and the queue of last resort.

  \<^item> What the selection calls is a record of functions on a state: slots, wait counts and load batches
    of the concurrency service, session registration, sticky bindings, and hydration by the scheduler
    snapshot. None is an error.
  \<^item> Gates that read prices, quotas, model maps or usage are predicates of the request; the gates on
    the account's own fields are modelled.
  \<^item> \<open>intn\<close> and the shuffles are the random choices; the load-aware layer may choose anew for every
    number of accounts that are left.
\<close>

section \<open>Gates on the fields of an account\<close>

definition IsActive :: "Account \<Rightarrow> bool" where
  "IsActive a = (acc_Status a = ''active'')"

definition IsAPIKeyOrBedrock :: "Account \<Rightarrow> bool" where
  "IsAPIKeyOrBedrock a = (acc_Type a = ''apikey'' \<or> acc_Type a = ''bedrock'')"

definition is_later :: "instant \<Rightarrow> instant option \<Rightarrow> bool" where
  "is_later now x = (case x of None \<Rightarrow> False | Some e \<Rightarrow> now < e)"

definition IsSchedulable :: "(Account \<Rightarrow> bool) \<Rightarrow> instant \<Rightarrow> Account \<Rightarrow> bool" where
  "IsSchedulable quota_exceeded now a =
     (if \<not> IsActive a \<or> \<not> Schedulable a then False
      else if AutoPauseOnExpired a \<and> ExpiresAt a \<noteq> None \<and> \<not> is_later now (ExpiresAt a) then False
      else if is_later now (OverloadUntil a) then False
      else if is_later now (RateLimitResetAt a) then False
      else if is_later now (TempUnschedulableUntil a) then False
      else if IsAPIKeyOrBedrock a \<and> quota_exceeded a then False
      else True)"

definition IsMixedSchedulingEnabled :: "Account \<Rightarrow> bool" where
  "IsMixedSchedulingEnabled a = (acc_Platform a = ''antigravity'' \<and> extra_mixed_scheduling a)"

definition isAccountAllowedForPlatform :: "Account \<Rightarrow> string \<Rightarrow> bool \<Rightarrow> bool" where
  "isAccountAllowedForPlatform a platform useMixed =
     (if useMixed then
        (if acc_Platform a = platform then True else acc_Platform a = ''antigravity'' \<and> IsMixedSchedulingEnabled a)
      else acc_Platform a = platform)"

definition IsAnthropicOAuthOrSetupToken :: "Account \<Rightarrow> bool" where
  "IsAnthropicOAuthOrSetupToken a = (acc_Platform a = ''anthropic'' \<and> (acc_Type a = ''oauth'' \<or> acc_Type a = ''setup-token''))"

definition isAccountSchedulableForQuota :: "(Account \<Rightarrow> bool) \<Rightarrow> Account \<Rightarrow> bool" where
  "isAccountSchedulableForQuota quota_exceeded a = (if \<not> IsAPIKeyOrBedrock a then True else \<not> quota_exceeded a)"

datatype schedulability = WindowCostSchedulable | WindowCostStickyOnly | WindowCostNotSchedulable

definition GetBaseRPM :: "Account \<Rightarrow> int" where
  "GetBaseRPM a = (if 0 < extra_base_rpm a then extra_base_rpm a else 0)"

definition GetRPMStickyBuffer :: "Account \<Rightarrow> int" where
  "GetRPMStickyBuffer a =
     (if 0 < extra_rpm_sticky_buffer a then extra_rpm_sticky_buffer a
      else (let base = GetBaseRPM a
            in if base \<le> 0 then 0
               else (let buffer = max 0 (Concurrency a) + max 0 (extra_max_sessions a);
                         floor = (let f = base div 5 in if f < 1 then 1 else f)
                     in if buffer < floor then floor else buffer)))"

definition CheckRPMSchedulability :: "Account \<Rightarrow> int \<Rightarrow> schedulability" where
  "CheckRPMSchedulability a currentRPM =
     (let baseRPM = GetBaseRPM a
      in if baseRPM \<le> 0 then WindowCostSchedulable
         else if currentRPM < baseRPM then WindowCostSchedulable
         else if extra_rpm_sticky_exempt a then WindowCostStickyOnly
         else if currentRPM < baseRPM + GetRPMStickyBuffer a then WindowCostStickyOnly
         else WindowCostNotSchedulable)"

definition isAccountSchedulableForRPM :: "(int \<Rightarrow> int) \<Rightarrow> Account \<Rightarrow> bool \<Rightarrow> bool" where
  "isAccountSchedulableForRPM rpm a isSticky =
     (if \<not> IsAnthropicOAuthOrSetupToken a then True
      else if GetBaseRPM a \<le> 0 then True
      else (case CheckRPMSchedulability a (rpm (ID a)) of
              WindowCostSchedulable \<Rightarrow> True | WindowCostStickyOnly \<Rightarrow> isSticky | WindowCostNotSchedulable \<Rightarrow> False))"

section \<open>The request and what it calls\<close>

record GatewaySchedulingConfig =
  StickySessionMaxWaiting :: int
  StickySessionWaitTimeout :: duration
  FallbackWaitTimeout :: duration
  FallbackMaxWaiting :: int
  FallbackSelectionMode :: string
  PreferSoonestReset :: bool

record selection_request =
  sessionHash :: string
  requestedModel :: string
  excludedIDs :: "int list"
  platform :: string
  useMixed :: bool
  routingAccountIDs :: "int list"
  stickyAccountID :: int
  moment_now :: instant

record gates =
  profitEligible :: "Account \<Rightarrow> bool"
  modelSupported :: "Account \<Rightarrow> bool"
  channelRestricted :: "Account \<Rightarrow> bool"
  modelSchedulable :: "Account \<Rightarrow> bool"
  quotaExceeded :: "Account \<Rightarrow> bool"
  windowCostOK :: "Account \<Rightarrow> bool \<Rightarrow> bool"
  currentRPM :: "int \<Rightarrow> int"
  rateLimitRemaining :: "Account \<Rightarrow> duration"

record dice =
  intn :: "nat \<Rightarrow> nat \<Rightarrow> nat"
  shuffleAccounts :: "Account list \<Rightarrow> Account list"
  shuffleLoads :: "accountWithLoad list \<Rightarrow> accountWithLoad list"

record 's ports =
  gs_AcquireAccountSlot :: "int \<Rightarrow> int \<Rightarrow> 's \<Rightarrow> 's \<times> AcquireResult option"
  gs_ReleaseSlot :: "ReleaseFunc \<Rightarrow> 's \<Rightarrow> 's"
  gs_GetAccountWaitingCount :: "int \<Rightarrow> 's \<Rightarrow> 's \<times> int option"
  gs_GetAccountsLoadBatch :: "AccountWithConcurrency list \<Rightarrow> 's \<Rightarrow> 's \<times> load_map option"
  gs_RegisterSession :: "(int \<Rightarrow> string \<Rightarrow> int \<Rightarrow> duration \<Rightarrow> 's \<Rightarrow> 's \<times> bool option) option"
  gs_BindStickySession :: "int \<Rightarrow> 's \<Rightarrow> 's"
  gs_DeleteSessionAccountID :: "'s \<Rightarrow> 's"
  gs_RefreshSessionTTL :: "'s \<Rightarrow> 's"
  gs_GetAccount :: "int \<Rightarrow> Account \<Rightarrow> 's \<Rightarrow> 's \<times> Account option"

record AccountWaitPlan =
  wp_AccountID :: int
  wp_MaxConcurrency :: int
  wp_Timeout :: duration
  wp_MaxWaiting :: int

record AccountSelectionResult =
  sel_Account :: Account
  sel_Acquired :: bool
  sel_ReleaseFunc :: "ReleaseFunc option"
  sel_WaitPlan :: "AccountWaitPlan option"

datatype selection_error = ErrNoAvailableAccounts | HydrationFailed

type_synonym selection = "selection_error + AccountSelectionResult"

definition isExcluded :: "selection_request \<Rightarrow> int \<Rightarrow> bool" where
  "isExcluded rq i = (i \<in> set (excludedIDs rq))"

definition passes_gates :: "gates \<Rightarrow> selection_request \<Rightarrow> bool \<Rightarrow> Account \<Rightarrow> bool" where
  "passes_gates gt rq isSticky a =
     (IsSchedulable (quotaExceeded gt) (moment_now rq) a
      \<and> profitEligible gt a
      \<and> isAccountAllowedForPlatform a (platform rq) (useMixed rq)
      \<and> (requestedModel rq = [] \<or> modelSupported gt a)
      \<and> \<not> channelRestricted gt a
      \<and> modelSchedulable gt a
      \<and> isAccountSchedulableForQuota (quotaExceeded gt) a
      \<and> windowCostOK gt a isSticky
      \<and> isAccountSchedulableForRPM (currentRPM gt) a isSticky)"

definition shouldClearStickySession :: "gates \<Rightarrow> selection_request \<Rightarrow> Account \<Rightarrow> bool" where
  "shouldClearStickySession gt rq a = (if \<not> IsSchedulable (quotaExceeded gt) (moment_now rq) a then True else 0 < rateLimitRemaining gt a)"

section \<open>One account\<close>

text \<open>An error of the session cache lets the request pass.\<close>

definition checkAndRegisterSession :: "'s ports \<Rightarrow> string \<Rightarrow> Account \<Rightarrow> 's \<Rightarrow> 's \<times> bool" where
  "checkAndRegisterSession g sessionID a s =
     (if \<not> IsAnthropicOAuthOrSetupToken a then (s, True)
      else if extra_max_sessions a \<le> 0 \<or> sessionID = [] then (s, True)
      else (case gs_RegisterSession g of
              None \<Rightarrow> (s, True)
            | Some register \<Rightarrow>
                (let minutes = (if 0 < extra_session_idle_timeout_minutes a then extra_session_idle_timeout_minutes a else 5);
                     (s, r) = register (ID a) sessionID (extra_max_sessions a) (minutes * minute) s
                 in (s, case r of None \<Rightarrow> True | Some b \<Rightarrow> b))))"

definition newSelectionResult :: "'s ports \<Rightarrow> Account \<Rightarrow> bool \<Rightarrow> ReleaseFunc option \<Rightarrow> AccountWaitPlan option \<Rightarrow> 's \<Rightarrow> 's \<times> selection" where
  "newSelectionResult g a got release plan s =
     (case gs_GetAccount g (ID a) a s of
        (s, None) \<Rightarrow> (s, Inl HydrationFailed)
      | (s, Some h) \<Rightarrow> (s, Inr \<lparr>sel_Account = h, sel_Acquired = got, sel_ReleaseFunc = release, sel_WaitPlan = plan\<rparr>))"

text \<open>A slot for an account; \<open>bind\<close> is what the layer does with the binding of the session. The flag says that the slot was taken and the session refused.\<close>

definition try_account :: "'s ports \<Rightarrow> (int \<Rightarrow> 's \<Rightarrow> 's) \<Rightarrow> string \<Rightarrow> Account \<Rightarrow> 's \<Rightarrow> 's \<times> selection option \<times> bool" where
  "try_account g bind hash a s =
     (case gs_AcquireAccountSlot g (ID a) (Concurrency a) s of
        (s, Some (Acquired release)) \<Rightarrow>
          (case checkAndRegisterSession g hash a s of
             (s, False) \<Rightarrow> (gs_ReleaseSlot g release s, None, True)
           | (s, True) \<Rightarrow>
               (let (s, r) = newSelectionResult g a True (Some release) None (bind (ID a) s) in (s, Some r, False)))
      | (s, _) \<Rightarrow> (s, None, False))"

definition wait_plan :: "'s ports \<Rightarrow> duration \<Rightarrow> int \<Rightarrow> string \<Rightarrow> Account \<Rightarrow> 's \<Rightarrow> 's \<times> selection option" where
  "wait_plan g timeout maxWaiting hash a s =
     (case checkAndRegisterSession g hash a s of
        (s, False) \<Rightarrow> (s, None)
      | (s, True) \<Rightarrow>
          (let (s, r) = newSelectionResult g a False None
             (Some \<lparr>wp_AccountID = ID a, wp_MaxConcurrency = Concurrency a, wp_Timeout = timeout, wp_MaxWaiting = maxWaiting\<rparr>) s
           in (s, Some r)))"

fun try_each :: "'s ports \<Rightarrow> (int \<Rightarrow> 's \<Rightarrow> 's) \<Rightarrow> string \<Rightarrow> Account list \<Rightarrow> 's \<Rightarrow> 's \<times> selection option" where
  "try_each g bind hash [] s = (s, None)"
| "try_each g bind hash (a # as) s =
     (case try_account g bind hash a s of
        (s, Some r, _) \<Rightarrow> (s, Some r)
      | (s, None, _) \<Rightarrow> try_each g bind hash as s)"

fun wait_each :: "'s ports \<Rightarrow> duration \<Rightarrow> int \<Rightarrow> string \<Rightarrow> Account list \<Rightarrow> 's \<Rightarrow> 's \<times> selection option" where
  "wait_each g timeout maxWaiting hash [] s = (s, None)"
| "wait_each g timeout maxWaiting hash (a # as) s =
     (case wait_plan g timeout maxWaiting hash a s of
        (s, Some r) \<Rightarrow> (s, Some r)
      | (s, None) \<Rightarrow> wait_each g timeout maxWaiting hash as s)"

definition bind_session :: "'s ports \<Rightarrow> string \<Rightarrow> int \<Rightarrow> 's \<Rightarrow> 's" where
  "bind_session g hash i s = (if hash \<noteq> [] then gs_BindStickySession g i s else s)"

section \<open>Layers\<close>

definition accountByID :: "Account list \<Rightarrow> int \<Rightarrow> Account option" where
  "accountByID accounts i = find (\<lambda>a. ID a = i) (rev accounts)"

text \<open>The wait plan of the sticky account, when its queue has room.\<close>

definition sticky_wait :: "'s ports \<Rightarrow> GatewaySchedulingConfig \<Rightarrow> string \<Rightarrow> Account \<Rightarrow> 's \<Rightarrow> 's \<times> selection option" where
  "sticky_wait g cfg hash a s =
     (let (s, n) = gs_GetAccountWaitingCount g (ID a) s
      in if (case n of None \<Rightarrow> 0 | Some n \<Rightarrow> n) < StickySessionMaxWaiting cfg
         then wait_plan g (StickySessionWaitTimeout cfg) (StickySessionMaxWaiting cfg) hash a s
         else (s, None))"

definition routing_candidates :: "gates \<Rightarrow> selection_request \<Rightarrow> Account list \<Rightarrow> Account list" where
  "routing_candidates gt rq accounts =
     filter (passes_gates gt rq False) (List.map_filter (accountByID accounts) (filter (\<lambda>i. \<not> isExcluded rq i) (routingAccountIDs rq)))"

definition routed_sticky :: "'s ports \<Rightarrow> GatewaySchedulingConfig \<Rightarrow> gates \<Rightarrow> selection_request \<Rightarrow> Account list \<Rightarrow> 's \<Rightarrow> 's \<times> selection option" where
  "routed_sticky g cfg gt rq accounts s =
     (if sessionHash rq \<noteq> [] \<and> 0 < stickyAccountID rq \<and> stickyAccountID rq \<in> set (routingAccountIDs rq) \<and> \<not> isExcluded rq (stickyAccountID rq)
      then (case accountByID accounts (stickyAccountID rq) of
              None \<Rightarrow> (gs_DeleteSessionAccountID g s, None)
            | Some a \<Rightarrow>
                (if passes_gates gt rq True a
                 then (case try_account g (\<lambda>_ s. s) (sessionHash rq) a s of
                         (s, Some r, _) \<Rightarrow> (s, Some r)
                       | (s, None, True) \<Rightarrow> (s, None)
                       | (s, None, False) \<Rightarrow> sticky_wait g cfg (sessionHash rq) a s)
                 else (s, None)))
      else (s, None))"

definition loads_of :: "Account list \<Rightarrow> AccountWithConcurrency list" where
  "loads_of as = map (\<lambda>a. \<lparr>wc_id = ID a, wc_max = EffectiveLoadFactor a\<rparr>) as"

definition available_accounts :: "load_map \<Rightarrow> Account list \<Rightarrow> accountWithLoad list" where
  "available_accounts m as =
     filter (\<lambda>x. LoadRate x < 100)
       (map (\<lambda>a. \<lparr>account = a, loadInfo = (case aget m (ID a) of
            None \<Rightarrow> \<lparr>li_id = ID a, li_current = 0, li_waiting = 0, li_rate = 0\<rparr> | Some l \<Rightarrow> l)\<rparr>) as)"

definition layer_routing :: "'s ports \<Rightarrow> GatewaySchedulingConfig \<Rightarrow> dice \<Rightarrow> gates \<Rightarrow> selection_request \<Rightarrow> Account list \<Rightarrow> 's
    \<Rightarrow> 's \<times> selection option" where
  "layer_routing g cfg d gt rq accounts s =
     (let candidates = routing_candidates gt rq accounts
      in if candidates = [] then (s, None)
         else (case routed_sticky g cfg gt rq accounts s of
                 (s, Some r) \<Rightarrow> (s, Some r)
               | (s, None) \<Rightarrow>
                   (let (s, loads) = gs_GetAccountsLoadBatch g (loads_of candidates) s;
                        ordered = map account (sort_routed (shuffleLoads d) (available_accounts (case loads of None \<Rightarrow> [] | Some m \<Rightarrow> m) candidates))
                    in case try_each g (bind_session g (sessionHash rq)) (sessionHash rq) ordered s of
                         (s, Some r) \<Rightarrow> (s, Some r)
                       | (s, None) \<Rightarrow>
                           wait_each g (StickySessionWaitTimeout cfg) (StickySessionMaxWaiting cfg) (sessionHash rq) ordered s)))"

definition layer_sticky :: "'s ports \<Rightarrow> GatewaySchedulingConfig \<Rightarrow> gates \<Rightarrow> selection_request \<Rightarrow> Account list \<Rightarrow> 's \<Rightarrow> 's \<times> selection option" where
  "layer_sticky g cfg gt rq accounts s =
     (if routingAccountIDs rq = [] \<and> sessionHash rq \<noteq> [] \<and> 0 < stickyAccountID rq \<and> \<not> isExcluded rq (stickyAccountID rq)
      then (case accountByID accounts (stickyAccountID rq) of
              None \<Rightarrow> (s, None)
            | Some a \<Rightarrow>
                (let clearSticky = shouldClearStickySession gt rq a;
                     s = (if clearSticky then gs_DeleteSessionAccountID g s else s)
                 in if \<not> clearSticky \<and> passes_gates gt rq True a
                    then (case try_account g (\<lambda>_. gs_RefreshSessionTTL g) (sessionHash rq) a s of
                            (s, Some r, _) \<Rightarrow> (s, Some r)
                          | (s, None, _) \<Rightarrow> sticky_wait g cfg (sessionHash rq) a s)
                    else (s, None)))
      else (s, None))"

text \<open>The load-aware layer; the fuel is the number of accounts, of which every round removes one.\<close>

fun load_loop :: "nat \<Rightarrow> 's ports \<Rightarrow> GatewaySchedulingConfig \<Rightarrow> dice \<Rightarrow> bool \<Rightarrow> selection_request \<Rightarrow> accountWithLoad list \<Rightarrow> 's
    \<Rightarrow> 's \<times> selection option" where
  "load_loop 0 g cfg d preferOAuth rq available s = (s, None)"
| "load_loop (Suc fuel) g cfg d preferOAuth rq available s =
     (case layered_choice (intn d (length available)) (PreferSoonestReset cfg) (moment_now rq) preferOAuth available of
        None \<Rightarrow> (s, None)
      | Some selected \<Rightarrow>
          (case try_account g (bind_session g (sessionHash rq)) (sessionHash rq) (account selected) s of
             (s, Some r, _) \<Rightarrow> (s, Some r)
           | (s, None, _) \<Rightarrow>
               load_loop fuel g cfg d preferOAuth rq (filter (\<lambda>x. ID (account x) \<noteq> ID (account selected)) available) s))"

definition layer_load :: "'s ports \<Rightarrow> GatewaySchedulingConfig \<Rightarrow> dice \<Rightarrow> bool \<Rightarrow> selection_request \<Rightarrow> Account list \<Rightarrow> 's
    \<Rightarrow> 's \<times> selection option" where
  "layer_load g cfg d preferOAuth rq candidates s =
     (case gs_GetAccountsLoadBatch g (loads_of candidates) s of
        (s, None) \<Rightarrow>
          try_each g (bind_session g (sessionHash rq)) (sessionHash rq)
            (sortAccountsByPriorityAndLastUsed (shuffleAccounts d) candidates preferOAuth) s
      | (s, Some m) \<Rightarrow>
          (let available = available_accounts m candidates
           in load_loop (length available) g cfg d preferOAuth rq available s))"

definition SelectAccount :: "'s ports \<Rightarrow> GatewaySchedulingConfig \<Rightarrow> dice \<Rightarrow> gates \<Rightarrow> selection_request \<Rightarrow> Account list \<Rightarrow> 's
    \<Rightarrow> 's \<times> selection" where
  "SelectAccount g cfg d gt rq accounts s =
     (let preferOAuth = (platform rq = ''gemini'')
      in if accounts = [] then (s, Inl ErrNoAvailableAccounts)
         else (case (if routingAccountIDs rq \<noteq> [] then layer_routing g cfg d gt rq accounts s else (s, None)) of
                 (s, Some r) \<Rightarrow> (s, r)
               | (s, None) \<Rightarrow>
                   (case layer_sticky g cfg gt rq accounts s of
                      (s, Some r) \<Rightarrow> (s, r)
                    | (s, None) \<Rightarrow>
                        (let candidates = filter (passes_gates gt rq False) (filter (\<lambda>a. \<not> isExcluded rq (ID a)) accounts)
                         in if candidates = [] then (s, Inl ErrNoAvailableAccounts)
                            else (case layer_load g cfg d preferOAuth rq candidates s of
                                    (s, Some r) \<Rightarrow> (s, r)
                                  | (s, None) \<Rightarrow>
                                      (case wait_each g (FallbackWaitTimeout cfg) (FallbackMaxWaiting cfg) (sessionHash rq)
                                              (sortCandidatesForFallback (shuffleAccounts d) candidates preferOAuth (FallbackSelectionMode cfg)) s of
                                         (s, Some r) \<Rightarrow> (s, r)
                                       | (s, None) \<Rightarrow> (s, Inl ErrNoAvailableAccounts)))))))"


section \<open>Where a selection comes from\<close>

text \<open>
  What newSelectionResult makes of an account: the hydrated account, and either the slot that was
  taken or a plan to wait for this account.
\<close>

definition made_from :: "'s ports \<Rightarrow> Account \<Rightarrow> AccountSelectionResult \<Rightarrow> bool" where
  "made_from g a sel \<longleftrightarrow>
     (\<exists>s. snd (gs_GetAccount g (ID a) a s) = Some (sel_Account sel))
     \<and> (if sel_Acquired sel then sel_ReleaseFunc sel \<noteq> None \<and> sel_WaitPlan sel = None
        else sel_ReleaseFunc sel = None
          \<and> (\<exists>p. sel_WaitPlan sel = Some p \<and> wp_AccountID p = ID a \<and> wp_MaxConcurrency p = Concurrency a))"

definition answers_from :: "'s ports \<Rightarrow> Account set \<Rightarrow> selection \<Rightarrow> bool" where
  "answers_from g A r \<longleftrightarrow> (\<forall>sel. r = Inr sel \<longrightarrow> (\<exists>a\<in>A. made_from g a sel))"

lemma answers_from_mono: "answers_from g A r \<Longrightarrow> A \<subseteq> B \<Longrightarrow> answers_from g B r"
  by (auto simp: answers_from_def)

lemma answers_from_error [simp]: "answers_from g A (Inl e)"
  by (simp add: answers_from_def)

lemma slot_result: "newSelectionResult g a True (Some r) None s = (s', res) \<Longrightarrow> answers_from g {a} res"
  by (fastforce simp: newSelectionResult_def answers_from_def made_from_def intro: exI[of _ s] split: prod.splits option.splits)

lemma plan_result:
  "newSelectionResult g a False None (Some \<lparr>wp_AccountID = ID a, wp_MaxConcurrency = Concurrency a, wp_Timeout = x, wp_MaxWaiting = n\<rparr>) s = (s', res)
   \<Longrightarrow> answers_from g {a} res"
  by (fastforce simp: newSelectionResult_def answers_from_def made_from_def intro: exI[of _ s] split: prod.splits option.splits)

lemma try_account_from: "try_account g b h a s = (s', Some res, f) \<Longrightarrow> answers_from g {a} res"
  by (auto simp: try_account_def Let_def dest: slot_result split: prod.splits option.splits bool.splits AcquireResult.splits)

lemma wait_plan_from: "wait_plan g x n h a s = (s', Some res) \<Longrightarrow> answers_from g {a} res"
  by (auto simp: wait_plan_def Let_def dest: plan_result split: prod.splits bool.splits)

lemma try_each_from: "try_each g b h as s = (s', Some res) \<Longrightarrow> answers_from g (set as) res"
  by (induction as arbitrary: s)
    (auto split: prod.splits option.splits dest!: try_account_from intro: answers_from_mono)

lemma wait_each_from: "wait_each g x n h as s = (s', Some res) \<Longrightarrow> answers_from g (set as) res"
  by (induction as arbitrary: s)
    (auto split: prod.splits option.splits dest!: wait_plan_from intro: answers_from_mono)

lemma sticky_wait_from: "sticky_wait g cfg h a s = (s', Some res) \<Longrightarrow> answers_from g {a} res"
  by (auto simp: sticky_wait_def Let_def dest: wait_plan_from split: prod.splits if_splits)

lemma accountByID_some: "accountByID accounts i = Some a \<Longrightarrow> a \<in> set accounts \<and> ID a = i"
proof -
  have "find P xs = Some x \<Longrightarrow> x \<in> set xs \<and> P x" for P and xs :: "'z list" and x
    by (induction xs) (auto split: if_splits)
  from this[of "\<lambda>a. ID a = i" "rev accounts" a] show "accountByID accounts i = Some a \<Longrightarrow> a \<in> set accounts \<and> ID a = i"
    by (simp add: accountByID_def)
qed

text \<open>The accounts that may be selected.\<close>

definition eligible :: "gates \<Rightarrow> selection_request \<Rightarrow> Account \<Rightarrow> bool" where
  "eligible gt rq a \<longleftrightarrow> \<not> isExcluded rq (ID a)
     \<and> (passes_gates gt rq False a \<or> sessionHash rq \<noteq> [] \<and> ID a = stickyAccountID rq \<and> passes_gates gt rq True a)"


text \<open>rand.Intn and rand.Shuffle as documented.\<close>

definition dice_ok :: "dice \<Rightarrow> bool" where
  "dice_ok d \<longleftrightarrow> (\<forall>n. Intn_ok (intn d n)) \<and> Shuffle_ok (shuffleAccounts d) \<and> Shuffle_ok (shuffleLoads d)"

lemma fallback_order_mset:
  assumes "Shuffle_ok sh"
  shows "mset (sortCandidatesForFallback sh xs p mode) = mset xs"
proof -
  note s = SliceStable_sorted(1)[of "priority_less p", OF priority_less_key, where xs = xs]
  show ?thesis
    using last_used_order(1)[OF assms] s group_runs_mset[of "shuffle_run sh", OF shuffle_run_mset[OF assms]]
    by (simp add: sortCandidatesForFallback_def sortAccountsByPriorityOnly_def shuffleWithinPriority_def)
qed

lemma orders_set:
  assumes "dice_ok d"
  shows "set (sortCandidatesForFallback (shuffleAccounts d) xs p mode) = set xs"
    "set (sortAccountsByPriorityAndLastUsed (shuffleAccounts d) xs p) = set xs" "set (sort_routed (shuffleLoads d) ys) = set ys"
  using assms fallback_order_mset last_used_order(1) routed_order(1) mset_eq_setD unfolding dice_ok_def by blast+

lemma available_from: "set (map account (available_accounts m as)) \<subseteq> set as"
  by (auto simp: available_accounts_def)

lemma chosen_in: "Intn_ok i \<Longrightarrow> layered_choice i soon now p xs = Some a \<Longrightarrow> a \<in> set xs"
  using layered_choice_is_best[of soon now p xs] by (auto simp: best_def)

lemma in_map_filter: "y \<in> set (List.map_filter f xs) \<longleftrightarrow> (\<exists>x\<in>set xs. f x = Some y)"
  by (force simp: List.map_filter_def)

lemma routing_candidates_from:
  assumes "a \<in> set (routing_candidates gt rq accounts)"
  shows "a \<in> set accounts \<and> passes_gates gt rq False a \<and> \<not> isExcluded rq (ID a)"
proof -
  obtain i where "accountByID accounts i = Some a" "\<not> isExcluded rq i" "passes_gates gt rq False a"
    using assms by (auto simp: routing_candidates_def in_map_filter)
  then show ?thesis using accountByID_some by blast
qed

lemma routed_sticky_from:
  assumes "routed_sticky g cfg gt rq accounts s = (s', Some res)"
  shows "answers_from g {a \<in> set accounts. eligible gt rq a} res"
proof -
  obtain a where a: "accountByID accounts (stickyAccountID rq) = Some a" "passes_gates gt rq True a" "sessionHash rq \<noteq> []"
      "\<not> isExcluded rq (stickyAccountID rq)" and "answers_from g {a} res"
    using assms by (auto simp: routed_sticky_def split: if_splits option.splits prod.splits bool.splits
        dest!: try_account_from sticky_wait_from)
  moreover have "a \<in> set accounts" "ID a = stickyAccountID rq" using accountByID_some[OF a(1)] by simp_all
  ultimately show ?thesis by (auto simp: eligible_def intro: answers_from_mono)
qed

lemma layer_sticky_from:
  assumes "layer_sticky g cfg gt rq accounts s = (s', Some res)"
  shows "answers_from g {a \<in> set accounts. eligible gt rq a} res"
proof -
  obtain a where a: "accountByID accounts (stickyAccountID rq) = Some a" "passes_gates gt rq True a" "sessionHash rq \<noteq> []"
      "\<not> isExcluded rq (stickyAccountID rq)" and "answers_from g {a} res"
    using assms by (auto simp: layer_sticky_def Let_def split: if_splits option.splits prod.splits bool.splits
        dest!: try_account_from sticky_wait_from)
  moreover have "a \<in> set accounts" "ID a = stickyAccountID rq" using accountByID_some[OF a(1)] by simp_all
  ultimately show ?thesis by (auto simp: eligible_def intro: answers_from_mono)
qed

lemma layer_routing_from:
  assumes "layer_routing g cfg d gt rq accounts s = (s', Some res)" "dice_ok d"
  shows "answers_from g {a \<in> set accounts. eligible gt rq a} res"
proof -
  let ?c = "routing_candidates gt rq accounts"
  have c: "set ?c \<subseteq> {a \<in> set accounts. eligible gt rq a}"
    using routing_candidates_from by (fastforce simp: eligible_def)
  have o: "set (map account (sort_routed (shuffleLoads d) (available_accounts m ?c))) \<subseteq> set ?c" for m
    using available_from[of m ?c] orders_set(3)[OF assms(2)] by simp
  show ?thesis
    using assms(1) answers_from_mono[OF _ subset_trans[OF o c]]
    by (auto simp: layer_routing_def Let_def simp del: set_map split: if_splits option.splits prod.splits
        dest!: try_each_from wait_each_from routed_sticky_from)
qed

lemma load_loop_from:
  assumes "load_loop n g cfg d p rq xs s = (s', Some res)" "dice_ok d"
  shows "answers_from g (account ` set xs) res"
  using assms(1)
proof (induction n arbitrary: xs s)
  case (Suc n)
  obtain x where x: "layered_choice (intn d (length xs)) (PreferSoonestReset cfg) (moment_now rq) p xs = Some x"
    using Suc.prems by (auto split: option.splits)
  then have "x \<in> set xs" using assms(2) by (auto simp: dice_ok_def intro: chosen_in)
  then show ?case
    using Suc.prems x
    by (auto split: prod.splits option.splits dest!: try_account_from Suc.IH intro: answers_from_mono)
qed simp

lemma layer_load_from:
  assumes "layer_load g cfg d p rq as s = (s', Some res)" "dice_ok d"
  shows "answers_from g (set as) res"
proof (cases "gs_GetAccountsLoadBatch g (loads_of as) s")
  case (Pair t m)
  show ?thesis
  proof (cases m)
    case None
    then show ?thesis
      using assms(1) Pair try_each_from[of g _ _ "sortAccountsByPriorityAndLastUsed (shuffleAccounts d) as p"] orders_set(2)[OF assms(2)]
      by (simp add: layer_load_def)
  next
    case (Some l)
    then have "answers_from g (account ` set (available_accounts l as)) res"
      using assms(1) Pair load_loop_from[OF _ assms(2)] by (simp add: layer_load_def Let_def)
    then show ?thesis using available_from[of l as] answers_from_mono by (metis set_map)
  qed
qed

lemma fallback_from:
  assumes "dice_ok d" "wait_each g x n h (sortCandidatesForFallback (shuffleAccounts d) as p m) s = (s', Some res)"
  shows "answers_from g (set as) res"
  using wait_each_from[OF assms(2)] by (simp only: orders_set(1)[OF assms(1)])

text \<open>
  C14: The scheduler answers with an account that may serve the request. Whatever the slots, the load
  batch, the session limits and the random choices answer, an account that SelectAccountWithLoadAwareness
  returns is one of the group's list, not excluded by the request, hydrated, and passes every gate as an
  ordinary candidate, or is the account bound to the request's session and passes them as such; the
  answer holds either the slot that was taken for it or a plan to wait for it.
\<close>

theorem selection_is_eligible:
  assumes "dice_ok d" "SelectAccount g cfg d gt rq accounts s = (s', Inr sel)"
  shows "\<exists>a. a \<in> set accounts \<and> eligible gt rq a \<and> made_from g a sel"
proof -
  let ?A = "{a \<in> set accounts. eligible gt rq a}"
  let ?c = "filter (passes_gates gt rq False) (filter (\<lambda>a. \<not> isExcluded rq (ID a)) accounts)"
  have c: "set ?c \<subseteq> ?A" by (auto simp: eligible_def)
  have "\<forall>s s' res. layer_load g cfg d p rq ?c s = (s', Some res) \<longrightarrow> answers_from g ?A res" for p
    by (intro allI impI) (rule answers_from_mono[OF layer_load_from[OF _ assms(1)] c])
  moreover have "\<forall>s s' res. wait_each g x n h (sortCandidatesForFallback (shuffleAccounts d) ?c p m) s = (s', Some res)
      \<longrightarrow> answers_from g ?A res" for x n h p m
    by (intro allI impI) (rule answers_from_mono[OF fallback_from[OF assms(1)] c])
  moreover have "\<forall>s s' res. layer_routing g cfg d gt rq accounts s = (s', Some res) \<longrightarrow> answers_from g ?A res"
    by (intro allI impI) (rule layer_routing_from[OF _ assms(1)])
  moreover have "\<forall>s s' res. layer_sticky g cfg gt rq accounts s = (s', Some res) \<longrightarrow> answers_from g ?A res"
    by (intro allI impI) (rule layer_sticky_from)
  ultimately have "answers_from g ?A (Inr sel)"
    using assms(2) unfolding SelectAccount_def Let_def
    by (simp del: filter_filter split: if_splits prod.splits option.splits; blast)
  then show ?thesis by (auto simp: answers_from_def)
qed

end
