(* ===== verification/Selection_Slots.thy ===== *)
theory Selection_Slots
  imports Account_Selection
begin

text \<open>
  The slots that a selection takes: what the scheduler relies on in its ports, that no slot is left
  behind by an attempt that was given up, and the concurrency service on Redis as the provider of
  these ports.
\<close>

section \<open>The interface\<close>

text \<open>A step that takes no slot.\<close>

definition takes_none :: "('s \<Rightarrow> bool) \<Rightarrow> ('s \<Rightarrow> ReleaseFunc set) \<Rightarrow> ('s \<Rightarrow> 's) \<Rightarrow> bool" where
  "takes_none ok taken f \<longleftrightarrow> (\<forall>s. ok s \<longrightarrow> ok (f s) \<and> taken (f s) \<subseteq> taken s)"

lemma takes_noneD: "takes_none ok taken f \<Longrightarrow> ok s \<Longrightarrow> ok (f s) \<and> taken (f s) \<subseteq> taken s"
  by (simp add: takes_none_def)

definition token :: "ReleaseFunc \<Rightarrow> ReleaseFunc set" where
  "token r = (if r = NoRelease then {} else {r})"

text \<open>What an answer of an acquisition, and a selection, leave to be released.\<close>

definition granted :: "AcquireResult option \<Rightarrow> ReleaseFunc set" where
  "granted a = (case a of Some (Acquired r) \<Rightarrow> token r | _ \<Rightarrow> {})"

definition owed :: "selection \<Rightarrow> ReleaseFunc set" where
  "owed r = (case r of Inl _ \<Rightarrow> {} | Inr sel \<Rightarrow> (case sel_ReleaseFunc sel of None \<Rightarrow> {} | Some f \<Rightarrow> token f))"

text \<open>
  \<open>taken\<close> are the slots in a state, \<open>mine r\<close> says that r is a release function of an account slot.
\<close>

locale slot_ports =
  fixes g :: "'s ports" and taken :: "'s \<Rightarrow> ReleaseFunc set" and ok :: "'s \<Rightarrow> bool" and mine :: "ReleaseFunc \<Rightarrow> bool"
  assumes acquire_ok: "ok s \<Longrightarrow> ok (fst (gs_AcquireAccountSlot g i m s))"
    and acquire_held: "ok s \<Longrightarrow> taken (fst (gs_AcquireAccountSlot g i m s)) \<subseteq> taken s \<union> granted (snd (gs_AcquireAccountSlot g i m s))"
    and acquire_mine: "snd (gs_AcquireAccountSlot g i m s) = Some (Acquired r) \<Longrightarrow> mine r"
    and release_ok: "ok s \<Longrightarrow> mine r \<Longrightarrow> ok (gs_ReleaseSlot g r s)"
    and release_held: "ok s \<Longrightarrow> mine r \<Longrightarrow> taken (gs_ReleaseSlot g r s) \<subseteq> taken s - token r"
    and waiting_none: "takes_none ok taken (\<lambda>s. fst (gs_GetAccountWaitingCount g i s))"
    and loads_none: "takes_none ok taken (\<lambda>s. fst (gs_GetAccountsLoadBatch g as s))"
    and register_none: "gs_RegisterSession g = Some f \<Longrightarrow> takes_none ok taken (\<lambda>s. fst (f i h m t s))"
    and bind_none: "takes_none ok taken (gs_BindStickySession g i)"
    and delete_none: "takes_none ok taken (gs_DeleteSessionAccountID g)"
    and refresh_none: "takes_none ok taken (gs_RefreshSessionTTL g)"
    and account_none: "takes_none ok taken (\<lambda>s. fst (gs_GetAccount g i a s))"
begin

lemmas none_laws = waiting_none loads_none bind_none delete_none refresh_none account_none

text \<open>From s to s' nothing was taken but what the answer owes; an account that cannot be loaded is the exception.\<close>

definition settled :: "'s \<Rightarrow> 's \<Rightarrow> selection option \<Rightarrow> bool" where
  "settled s s' ro \<longleftrightarrow> ok s' \<and>
     (case ro of None \<Rightarrow> taken s' \<subseteq> taken s | Some r \<Rightarrow> r = Inl HydrationFailed \<or> taken s' \<subseteq> taken s \<union> owed r)"

lemma settled_none: "takes_none ok taken f \<Longrightarrow> ok s \<Longrightarrow> settled s (f s) None"
  by (simp add: settled_def takes_none_def)

lemma settled_refl: "ok s \<Longrightarrow> settled s s None"
  by (simp add: settled_def)

lemma settled_trans: "settled s t None \<Longrightarrow> settled t u ro \<Longrightarrow> settled s u ro"
  by (auto simp: settled_def split: option.splits)

lemma settled_ok: "settled s t ro \<Longrightarrow> ok t"
  by (simp add: settled_def)

lemma registered:
  assumes "ok s" "checkAndRegisterSession g h a s = (s', b)"
  shows "settled s s' None"
proof -
  have "ok (fst (f i h m t s)) \<and> taken (fst (f i h m t s)) \<subseteq> taken s" if "gs_RegisterSession g = Some f" for f i m t
    using takes_noneD[OF register_none[OF that] assms(1)] .
  then show ?thesis
    using assms by (simp add: checkAndRegisterSession_def settled_def Let_def case_prod_unfold split: if_splits option.splits; blast)
qed

lemma planned:
  assumes "ok s" "newSelectionResult g a False None p s = (s', r)"
  shows "settled s s' (Some r)"
  using assms(2) takes_noneD[OF account_none assms(1), of "ID a" a]
  by (fastforce simp: newSelectionResult_def settled_def owed_def split: prod.splits option.splits)

lemma slot_given:
  assumes "ok s" "newSelectionResult g a True (Some f) None s = (s', r)"
  shows "ok s' \<and> taken s' \<subseteq> taken s \<and> (r = Inl HydrationFailed \<or> owed r = token f)"
  using assms(2) takes_noneD[OF account_none assms(1), of "ID a" a]
  by (fastforce simp: newSelectionResult_def owed_def split: prod.splits option.splits)

lemma account_tried:
  assumes "ok s" "\<And>i. takes_none ok taken (b i)" "try_account g b h a s = (s', ro, flag)"
  shows "settled s s' ro"
proof -
  obtain t x where t: "gs_AcquireAccountSlot g (ID a) (Concurrency a) s = (t, x)" by force
  have ok_t: "ok t" and taken_t: "taken t \<subseteq> taken s \<union> granted x"
    using acquire_ok[OF assms(1), of "ID a" "Concurrency a"] acquire_held[OF assms(1), of "ID a" "Concurrency a"] by (simp_all add: t)
  show ?thesis
  proof (cases "\<exists>f. x = Some (Acquired f)")
    case True
    then obtain f where x: "x = Some (Acquired f)" by blast
    have f: "mine f" using acquire_mine[of "ID a" "Concurrency a" s f] by (simp add: t x)
    obtain u c where u: "checkAndRegisterSession g h a t = (u, c)" by force
    from registered[OF ok_t u] have ok_u: "ok u" and taken_u: "taken u \<subseteq> taken s \<union> token f"
      using taken_t by (auto simp: settled_def granted_def x)
    show ?thesis
    proof (cases c)
      case True
      obtain r where "newSelectionResult g a True (Some f) None (b (ID a) u) = (s', r)" "ro = Some r"
        using assms(3) by (auto simp: try_account_def t x u True Let_def split: prod.splits)
      with slot_given[of "b (ID a) u" a f s' r] takes_noneD[OF assms(2) ok_u, of "ID a"] taken_u show ?thesis
        unfolding settled_def by fastforce
    next
      case False
      then show ?thesis
        using assms(3) release_ok[OF ok_u f] release_held[OF ok_u f] taken_u
        by (auto simp: try_account_def t x u settled_def)
    qed
  next
    case False
    then have "granted x = {}" "s' = t" "ro = None"
      using assms(3) by (auto simp: try_account_def t granted_def split: option.splits AcquireResult.splits)
    then show ?thesis using ok_t taken_t by (simp add: settled_def)
  qed
qed

lemma plan_settled:
  assumes "ok s" "wait_plan g x n h a s = (s', ro)"
  shows "settled s s' ro"
proof -
  obtain t c where t: "checkAndRegisterSession g h a s = (t, c)" by force
  note reg = registered[OF assms(1) t]
  show ?thesis
  proof (cases c)
    case True
    then show ?thesis
      using assms(2) settled_trans[OF reg planned[OF settled_ok[OF reg]]]
      by (auto simp: wait_plan_def t Let_def split: prod.splits)
  next
    case False
    then show ?thesis using assms(2) reg by (auto simp: wait_plan_def t)
  qed
qed

lemma each_tried:
  assumes "\<And>i. takes_none ok taken (b i)"
  shows "ok s \<Longrightarrow> try_each g b h as s = (s', ro) \<Longrightarrow> settled s s' ro"
proof (induction as arbitrary: s)
  case (Cons a as)
  obtain t ro1 f where t: "try_account g b h a s = (t, ro1, f)" by (metis prod_cases3)
  note one = account_tried[OF Cons.prems(1) assms t]
  show ?case
  proof (cases ro1)
    case None
    then show ?thesis using Cons.prems(2) one Cons.IH[OF settled_ok[OF one]] settled_trans[of s t s' ro] by (simp add: t)
  qed (use Cons.prems(2) one in \<open>simp add: t\<close>)
qed (simp add: settled_refl)

lemma each_planned:
  "ok s \<Longrightarrow> wait_each g x n h as s = (s', ro) \<Longrightarrow> settled s s' ro"
proof (induction as arbitrary: s)
  case (Cons a as)
  obtain t ro1 where t: "wait_plan g x n h a s = (t, ro1)" by force
  note one = plan_settled[OF Cons.prems(1) t]
  show ?case
  proof (cases ro1)
    case None
    then show ?thesis using Cons.prems(2) one Cons.IH[OF settled_ok[OF one]] settled_trans[of s t s' ro] by (simp add: t)
  qed (use Cons.prems(2) one in \<open>simp add: t\<close>)
qed (simp add: settled_refl)

lemma binds_none: "takes_none ok taken (bind_session g h i)" "takes_none ok taken (\<lambda>s. s)"
  using bind_none[of i] by (simp_all add: bind_session_def takes_none_def)

lemma sticky_waited:
  assumes "ok s" "sticky_wait g cfg h a s = (s', ro)"
  shows "settled s s' ro"
proof -
  let ?t = "fst (gs_GetAccountWaitingCount g (ID a) s)"
  have t: "settled s ?t None" using settled_none[OF waiting_none assms(1)] .
  then show ?thesis
    using assms(2) settled_trans[OF t plan_settled[OF settled_ok[OF t]]]
    by (auto simp: sticky_wait_def Let_def case_prod_unfold split: if_splits)
qed

text \<open>An attempt for the sticky account, and then its queue; with routing, unless the session was refused.\<close>

lemma sticky_settled:
  assumes "ok s" "takes_none ok taken b"
  shows "(case try_account g (\<lambda>_. b) h a s of
        (s, Some r, _) \<Rightarrow> (s, Some r) | (s, None, _) \<Rightarrow> sticky_wait g cfg h a s) = (s', ro) \<Longrightarrow> settled s s' ro"
    "(case try_account g (\<lambda>_. b) h a s of
        (s, Some r, _) \<Rightarrow> (s, Some r) | (s, None, True) \<Rightarrow> (s, None) | (s, None, False) \<Rightarrow> sticky_wait g cfg h a s) = (s', ro)
      \<Longrightarrow> settled s s' ro"
proof -
  obtain t ro1 f where t: "try_account g (\<lambda>_. b) h a s = (t, ro1, f)" by (metis prod_cases3)
  note one = account_tried[OF assms(1) assms(2) t]
  have two: "ro1 = None \<Longrightarrow> sticky_wait g cfg h a t = (s', ro) \<Longrightarrow> settled s s' ro"
    using one settled_trans[of s t s' ro] sticky_waited[OF settled_ok[OF one]] by simp
  show "(case try_account g (\<lambda>_. b) h a s of
        (s, Some r, _) \<Rightarrow> (s, Some r) | (s, None, _) \<Rightarrow> sticky_wait g cfg h a s) = (s', ro) \<Longrightarrow> settled s s' ro"
    using one two by (cases ro1) (auto simp: t)
  show "(case try_account g (\<lambda>_. b) h a s of
        (s, Some r, _) \<Rightarrow> (s, Some r) | (s, None, True) \<Rightarrow> (s, None) | (s, None, False) \<Rightarrow> sticky_wait g cfg h a s) = (s', ro)
      \<Longrightarrow> settled s s' ro"
    using one two by (cases ro1; cases f) (auto simp: t)
qed

lemma routed_sticky_settled:
  assumes "ok s" "routed_sticky g cfg gt rq accounts s = (s', ro)"
  shows "settled s s' ro"
proof -
  have "settled s s None" "settled s (gs_DeleteSessionAccountID g s) None"
    using settled_refl[OF assms(1)] settled_none[OF delete_none assms(1)] .
  then show ?thesis
    using assms(2) sticky_settled(2)[OF assms(1) binds_none(2)] unfolding routed_sticky_def
    by (fastforce split: if_splits option.splits(2))
qed

lemma layer_sticky_settled:
  assumes "ok s" "layer_sticky g cfg gt rq accounts s = (s', ro)"
  shows "settled s s' ro"
proof -
  have "settled s s None" "settled s (gs_DeleteSessionAccountID g s) None"
    using settled_refl[OF assms(1)] settled_none[OF delete_none assms(1)] .
  then show ?thesis
    using assms(2) sticky_settled(1)[OF assms(1) refresh_none] unfolding layer_sticky_def Let_def
    by (fastforce split: if_splits option.splits(2))
qed

lemma loads_settled: "ok s \<Longrightarrow> gs_GetAccountsLoadBatch g as s = (t, m) \<Longrightarrow> settled s t None"
  using settled_none[OF loads_none, of s as] by simp

lemma layer_routing_settled:
  assumes "ok s" "layer_routing g cfg d gt rq accounts s = (s', ro)"
  shows "settled s s' ro"
proof (cases "routing_candidates gt rq accounts = []")
  case False
  let ?c = "routing_candidates gt rq accounts"
  obtain t ro1 where t: "routed_sticky g cfg gt rq accounts s = (t, ro1)" by force
  note one = routed_sticky_settled[OF assms(1) t]
  show ?thesis
  proof (cases ro1)
    case None
    obtain u m where u: "gs_GetAccountsLoadBatch g (loads_of ?c) t = (u, m)" by force
    let ?o = "map account (sort_routed (shuffleLoads d) (available_accounts (case m of None \<Rightarrow> [] | Some m \<Rightarrow> m) ?c))"
    obtain v ro2 where v: "try_each g (bind_session g (sessionHash rq)) (sessionHash rq) ?o u = (v, ro2)" by force
    have su: "settled s u None" using settled_trans[OF one[unfolded None] loads_settled[OF settled_ok[OF one] u]] .
    have sv: "settled s v ro2" using settled_trans[OF su each_tried[OF binds_none(1) settled_ok[OF su] v]] .
    show ?thesis
      using assms(2) False sv settled_trans[of s v s' ro] each_planned[OF settled_ok[OF sv]]
      by (cases ro2) (auto simp: layer_routing_def Let_def t None u v)
  qed (use assms(2) False one in \<open>simp add: layer_routing_def Let_def t\<close>)
qed (use assms settled_refl in \<open>simp add: layer_routing_def\<close>)

lemma load_loop_settled:
  "ok s \<Longrightarrow> load_loop n g cfg d p rq xs s = (s', ro) \<Longrightarrow> settled s s' ro"
proof (induction n arbitrary: xs s)
  case (Suc n)
  show ?case
  proof (cases "layered_choice (intn d (length xs)) (PreferSoonestReset cfg) (moment_now rq) p xs")
    case (Some x)
    obtain t ro1 f where t: "try_account g (bind_session g (sessionHash rq)) (sessionHash rq) (account x) s = (t, ro1, f)" by (metis prod_cases3)
    note one = account_tried[OF Suc.prems(1) binds_none(1) t]
    show ?thesis
      using Suc.prems(2) one settled_trans[of s t s' ro] Suc.IH[OF settled_ok[OF one]] by (cases ro1) (simp_all add: Some t)
  qed (use Suc.prems settled_refl in simp)
qed (simp add: settled_refl)

lemma layer_load_settled:
  assumes "ok s" "layer_load g cfg d p rq as s = (s', ro)"
  shows "settled s s' ro"
proof -
  obtain u m where u: "gs_GetAccountsLoadBatch g (loads_of as) s = (u, m)" by force
  note su = loads_settled[OF assms(1) u]
  show ?thesis
    using assms(2) settled_trans[OF su each_tried[OF binds_none(1) settled_ok[OF su]]] settled_trans[OF su load_loop_settled[OF settled_ok[OF su]]]
    by (cases m) (simp_all add: layer_load_def u Let_def)
qed

lemma selection_settled:
  assumes "ok s" "SelectAccount g cfg d gt rq accounts s = (s', r)"
  shows "settled s s' (Some r)"
proof (cases "accounts = []")
  case False
  let ?c = "filter (passes_gates gt rq False) (filter (\<lambda>a. \<not> isExcluded rq (ID a)) accounts)"
  have none: "settled s t None \<Longrightarrow> settled s t (Some (Inl ErrNoAvailableAccounts))" for t by (simp add: settled_def owed_def)
  obtain t ro1 where t: "(if routingAccountIDs rq \<noteq> [] then layer_routing g cfg d gt rq accounts s else (s, None)) = (t, ro1)" by force
  have st: "settled s t ro1"
    using t layer_routing_settled[OF assms(1)] settled_refl[OF assms(1)] by (simp split: if_splits)
  obtain u ro2 where u: "layer_sticky g cfg gt rq accounts t = (u, ro2)" by force
  obtain v ro3 where v: "layer_load g cfg d (platform rq = ''gemini'') rq ?c u = (v, ro3)" by force
  obtain w ro4 where w: "wait_each g (FallbackWaitTimeout cfg) (FallbackMaxWaiting cfg) (sessionHash rq)
      (sortCandidatesForFallback (shuffleAccounts d) ?c (platform rq = ''gemini'') (FallbackSelectionMode cfg)) v = (w, ro4)" by force
  have su: "ro1 = None \<Longrightarrow> settled s u ro2"
    using st settled_trans layer_sticky_settled[OF settled_ok[OF st] u] by blast
  have sv: "ro1 = None \<Longrightarrow> ro2 = None \<Longrightarrow> settled s v ro3"
    using su settled_trans layer_load_settled[OF settled_ok v] by blast
  have sw: "ro1 = None \<Longrightarrow> ro2 = None \<Longrightarrow> ro3 = None \<Longrightarrow> settled s w ro4"
    using sv settled_trans each_planned[OF settled_ok w] by blast
  have run: "SelectAccount g cfg d gt rq accounts s = (case ro1 of Some r \<Rightarrow> (t, r) | None \<Rightarrow> (case ro2 of Some r \<Rightarrow> (u, r) | None \<Rightarrow>
      (if ?c = [] then (u, Inl ErrNoAvailableAccounts) else (case ro3 of Some r \<Rightarrow> (v, r) | None \<Rightarrow>
        (case ro4 of Some r \<Rightarrow> (w, r) | None \<Rightarrow> (w, Inl ErrNoAvailableAccounts))))))"
    using False unfolding SelectAccount_def Let_def t by (simp only: u v w if_False prod.case split: option.split)
  show ?thesis
    using assms(2) st su sv sw none[of u] none[of w] unfolding run
    by (simp split: option.splits if_splits)
qed (use assms in \<open>simp add: SelectAccount_def settled_def owed_def\<close>)

end


section \<open>The concurrency service on Redis as the provider\<close>

text \<open>
  The other ports act on a state of their own: sessions, sticky bindings and the scheduler snapshot.
  \<open>readings\<close> are the readings of the clock for the cache of load batches.
\<close>

record 'x other_ports =
  o_register :: "(int \<Rightarrow> string \<Rightarrow> int \<Rightarrow> duration \<Rightarrow> 'x \<Rightarrow> 'x \<times> bool option) option"
  o_bind :: "int \<Rightarrow> 'x \<Rightarrow> 'x"
  o_delete :: "'x \<Rightarrow> 'x"
  o_refresh :: "'x \<Rightarrow> 'x"
  o_account :: "int \<Rightarrow> Account \<Rightarrow> 'x \<Rightarrow> 'x \<times> Account option"

definition on_service :: "('a \<Rightarrow> 'a \<times> 'r) \<Rightarrow> 'a \<times> 'x \<Rightarrow> ('a \<times> 'x) \<times> 'r" where
  "on_service f s = (let (a, r) = f (fst s) in ((a, snd s), r))"

definition on_others :: "('x \<Rightarrow> 'x \<times> 'r) \<Rightarrow> 'a \<times> 'x \<Rightarrow> ('a \<times> 'x) \<times> 'r" where
  "on_others f s = (let (x, r) = f (snd s) in ((fst s, x), r))"

definition service_ports :: "concurrencyCache \<Rightarrow> (string \<Rightarrow> string) \<Rightarrow> string \<Rightarrow> instant \<times> instant \<times> instant \<Rightarrow> 'x other_ports
    \<Rightarrow> (world ConcurrencyService \<times> 'x) ports" where
  "service_ports c hex_digest p readings rest =
     (let cache = redis_cache c; (n1, n2, n3) = readings
      in \<lparr>gs_AcquireAccountSlot = (\<lambda>i m. on_service (svc_AcquireAccountSlot cache p i m)),
          gs_ReleaseSlot = (\<lambda>r. apfst (run_release cache r)),
          gs_GetAccountWaitingCount = (\<lambda>i. on_service (svc_GetAccountWaitingCount (Some cache) i)),
          gs_GetAccountsLoadBatch = (\<lambda>as. on_service (getAccountsLoadBatch hex_digest (Some cache) as True n1 n2 n3)),
          gs_RegisterSession = map_option (\<lambda>f i h m t. on_others (f i h m t)) (o_register rest),
          gs_BindStickySession = (\<lambda>i. apsnd (o_bind rest i)),
          gs_DeleteSessionAccountID = apsnd (o_delete rest),
          gs_RefreshSessionTTL = apsnd (o_refresh rest),
          gs_GetAccount = (\<lambda>i a. on_others (o_account rest i a))\<rparr>)"

text \<open>Redis answers every round trip and its clock does not go back; \<open>account_slots\<close> are the slots of accounts that count.\<close>

definition redis_up :: "concurrencyCache \<Rightarrow> world ConcurrencyService \<Rightarrow> bool" where
  "redis_up c s \<longleftrightarrow> world_ok c (behind s) \<and> (\<forall>n. snd (clock (behind s) n) = Fine)"

definition account_slots :: "concurrencyCache \<Rightarrow> world ConcurrencyService \<Rightarrow> ReleaseFunc set" where
  "account_slots c s = {ReleaseAccount i r | i r. r \<in> world_holds c Account (behind s) i}"

definition account_release :: "ReleaseFunc \<Rightarrow> bool" where
  "account_release r \<longleftrightarrow> (case r of NoRelease \<Rightarrow> True | ReleaseAccount _ _ \<Rightarrow> True | _ \<Rightarrow> False)"

lemma trips_clock [simp]: "clock (fst (round_trips n f w)) = clock w"
  by (simp add: round_trips_def Let_def case_prod_unfold)

lemma at_fine: "snd m = Fine \<Longrightarrow> at m f db = (fst (f (fst m) db), Some (snd (f (fst m) db)))"
  by (simp add: at_def case_prod_unfold Let_def)

text \<open>A batch of loads frees at most what has expired.\<close>

lemma ages_loads:
  assumes "0 < slotTTLSeconds c" "n \<le> TIME t"
  shows "ages c t db t (fst (load_all accountSlotIndex liveAccountSlotKey (n - slotTTLSeconds c) n as t db))"
proof (induction as arbitrary: db)
  case (Cons a as)
  have "ages c t db t (trip_effect c (Load (Account (wc_id a)) n) t db)"
    by (rule ages_trip[OF assms(1)]) (use assms(2) in simp_all)
  from ages_trans[OF this Cons.IH] show ?case
    by (simp add: accountSlotIndex_def holder_keys Let_def case_prod_unfold)
qed (simp add: ages_later)

lemma ages_load_batch:
  assumes "0 < slotTTLSeconds c" "fst m1 \<le> fst m2" "fst m2 \<le> t'"
  shows "ages c (fst m1) db t' (fst (GetAccountsLoadBatch c as m1 m2 db))"
proof -
  have le: "ages c (fst m1) db t' db" using assms(2,3) by (simp add: ages_later)
  let ?n = "TIME (fst m1)"
  let ?f = "load_all accountSlotIndex liveAccountSlotKey (?n - slotTTLSeconds c) ?n as"
  have "ages c (fst m2) db (fst m2) (fst (at m2 ?f db))"
    by (rule ages_at) (rule ages_loads[OF assms(1) TIME_mono[OF assms(2)]])
  then have all: "ages c (fst m1) db t' (fst (at m2 ?f db))"
    using ages_trans ages_later[OF assms(2)] ages_later[OF assms(3)] by blast
  have "at m1 (\<lambda>t db. (db, TIME t)) db = (db, None) \<or> at m1 (\<lambda>t db. (db, TIME t)) db = (db, Some (TIME (fst m1)))"
    by (cases "snd m1") (simp_all add: at_def)
  then show ?thesis using le all by (auto simp: GetAccountsLoadBatch_def load_batch_def)
qed

text \<open>A step behind the service that only lets slots grow old.\<close>

lemma world_ages:
  assumes "world_ok c w" "clock w' = clock w" "used w \<le> used w'" "ages c (now_of w) (store w) (now_of w') (store w')"
  shows "world_ok c w' \<and> world_holds c mk w' i \<subseteq> world_holds c mk w i"
  using assms ages_dom[OF assms(4), of "mk i"] by (simp add: world_ok_def world_holds_def world_slots_def ages_def del: trip_effect.simps)

lemma slots_mono:
  "(\<And>i. world_holds c Account w' i \<subseteq> world_holds c Account (behind s) i) \<Longrightarrow> behind s' = w' \<Longrightarrow> account_slots c s' \<subseteq> account_slots c s"
  by (fastforce simp: account_slots_def)

lemma behind_loads:
  "behind (fst (getAccountsLoadBatch hex (Some (redis_cache c)) as al n1 n2 n3 s)) = behind s
   \<or> behind (fst (getAccountsLoadBatch hex (Some (redis_cache c)) as al n1 n2 n3 s))
     = fst (round_trips 2 (\<lambda>M. GetAccountsLoadBatch c as (M 0) (M 1)) (behind s))"
proof -
  have fetch: "behind (fst (fetchAccountsLoadBatch (Some (redis_cache c)) as u)) = fst (round_trips 2 (\<lambda>M. GetAccountsLoadBatch c as (M 0) (M 1)) (behind u))" for u
    by (simp add: fetchAccountsLoadBatch_def via_def redis_cache_def Let_def case_prod_unfold)
  have get: "behind (fst (getCachedAccountLoadBatch k n u)) = behind u" for k n u
    by (simp add: getCachedAccountLoadBatch_def split: option.split)
  have store: "behind (storeCachedAccountLoadBatch k m e n u) = behind u" for k m e n u
    by (simp add: storeCachedAccountLoadBatch_def Let_def)
  obtain u r where u: "getCachedAccountLoadBatch (accountLoadBatchCacheKey hex as) n1 s = (u, r)" by force
  obtain v q where v: "getCachedAccountLoadBatch (accountLoadBatchCacheKey hex as) n2 u = (v, q)" by force
  obtain w z where w: "fetchAccountsLoadBatch (Some (redis_cache c)) as v = (w, z)" by force
  have b: "behind u = behind s" "behind v = behind s" using get[of _ n1 s] get[of _ n2 u] u v by (metis fst_conv)+
  have "behind w = fst (round_trips 2 (\<lambda>M. GetAccountsLoadBatch c as (M 0) (M 1)) (behind s))" using fetch[of v] w b by simp
  then show ?thesis
    using fetch[of s] b by (simp add: getAccountsLoadBatch_def Let_def u v w store split: option.split)
qed


lemma acquired_slots:
  assumes "0 < slotTTLSeconds c" "redis_up c s"
  shows "redis_up c (fst (svc_AcquireAccountSlot (redis_cache c) p i m s))"
    "account_slots c (fst (svc_AcquireAccountSlot (redis_cache c) p i m s))
      \<subseteq> account_slots c s \<union> granted (snd (svc_AcquireAccountSlot (redis_cache c) p i m s))"
proof -
  let ?r = "snd (generateRequestID p s)" and ?w = "behind s"
  let ?res = "round_trips 2 (\<lambda>M. acquire_slot c (index_key (Account i)) (slot_key (Account i)) (live_key (Account i)) i m ?r (M 0) (M 1)) ?w"
  have ok: "world_ok c ?w" "snd (clock ?w (used ?w)) = Fine" "\<And>n. snd (clock ?w n) = Fine" using assms(2) by (simp_all add: redis_up_def)
  note a = world_acquire[OF assms(1) ok(1), where mk = Account and i = i and m = m and r = ?r, OF holder.inject(1)]
  have run: "svc_AcquireAccountSlot (redis_cache c) p i m s = (if m \<le> 0 then (s, Some (Acquired NoRelease)) else
      ((fst (generateRequestID p s))\<lparr>behind := fst ?res\<rparr>, map_option (\<lambda>b. if b then Acquired (ReleaseAccount i ?r) else NotAcquired) (snd ?res)))"
    by (auto simp: svc_AcquireAccountSlot_def via_def cache_operations generated_id case_prod_unfold Let_def split: option.split)
  have answer: "snd ?res \<noteq> None"
    using ok(2) by (simp add: round_trips_def acquire_slot_def at_fine case_prod_unfold Let_def)
  show "redis_up c (fst (svc_AcquireAccountSlot (redis_cache c) p i m s))"
    using assms(2) a(1) by (simp add: run redis_up_def ok(3))
  show "account_slots c (fst (svc_AcquireAccountSlot (redis_cache c) p i m s))
      \<subseteq> account_slots c s \<union> granted (snd (svc_AcquireAccountSlot (redis_cache c) p i m s))"
  proof (cases "m \<le> 0")
    case False
    have other: "world_holds c Account (fst ?res) j \<subseteq> world_holds c Account ?w j" if "j \<noteq> i" for j using a(2)[OF that] .
    have own: "world_holds c Account (fst ?res) i \<subseteq> world_holds c Account ?w i
        \<or> world_holds c Account (fst ?res) i \<subseteq> insert ?r (world_holds c Account ?w i) \<and> snd ?res = Some True"
      using a(3) answer by auto
    have "account_slots c ((fst (generateRequestID p s))\<lparr>behind := fst ?res\<rparr>)
        \<subseteq> account_slots c s \<union> (if snd ?res = Some True then {ReleaseAccount i ?r} else {})"
    proof
      fix x assume "x \<in> account_slots c ((fst (generateRequestID p s))\<lparr>behind := fst ?res\<rparr>)"
      then obtain j q where x: "x = ReleaseAccount j q" "q \<in> world_holds c Account (fst ?res) j" by (auto simp: account_slots_def)
      show "x \<in> account_slots c s \<union> (if snd ?res = Some True then {ReleaseAccount i ?r} else {})"
        using x other[of j] own by (cases "j = i") (auto simp: account_slots_def)
    qed
    then show ?thesis using False answer by (auto simp: run granted_def token_def split: if_splits)
  qed (simp add: run granted_def token_def)
qed

lemma released_slots:
  assumes "0 < slotTTLSeconds c" "redis_up c s" "account_release r"
  shows "redis_up c (run_release (redis_cache c) r s)" "account_slots c (run_release (redis_cache c) r s) \<subseteq> account_slots c s - token r"
proof -
  have "redis_up c (run_release (redis_cache c) r s) \<and> account_slots c (run_release (redis_cache c) r s) \<subseteq> account_slots c s - token r"
  proof (cases r)
    case (ReleaseAccount i q)
    let ?w = "behind s"
    let ?res = "round_trips 4 (\<lambda>M. release_slot (refreshActiveIndex c (index_key (Account i)) i (slot_key (Account i)) (wait_key (Account i)))
        (slot_key (Account i)) q (M 0) (M 1) (M 2) (M 3)) ?w"
    have ok: "world_ok c ?w" "snd (clock ?w (used ?w)) = Fine" "\<And>n. snd (clock ?w n) = Fine" using assms(2) by (simp_all add: redis_up_def)
    note a = world_release[OF assms(1) ok(1), where mk = Account and i = i and r = q, OF holder.inject(1)]
    have run: "run_release (redis_cache c) r s = s\<lparr>behind := fst ?res\<rparr>"
      by (simp add: ReleaseAccount via_def cache_operations case_prod_unfold Let_def)
    have "snd ?res = Some ()"
      using ok(2) by (simp add: round_trips_def release_slot_def at_fine case_prod_unfold Let_def)
    then have "q \<notin> world_holds c Account (fst ?res) i" by (rule a(3))
    then show ?thesis using a(1,2) ok(3) unfolding run
      by (fastforce simp: redis_up_def account_slots_def token_def ReleaseAccount)
  qed (use assms in \<open>auto simp: account_release_def token_def\<close>)
  then show "redis_up c (run_release (redis_cache c) r s)" "account_slots c (run_release (redis_cache c) r s) \<subseteq> account_slots c s - token r"
    by blast+
qed

lemma waiting_slots:
  assumes "redis_up c s"
  shows "redis_up c (fst (svc_GetAccountWaitingCount (Some (redis_cache c)) i s))
    \<and> account_slots c (fst (svc_GetAccountWaitingCount (Some (redis_cache c)) i s)) \<subseteq> account_slots c s"
proof -
  let ?w = "behind s" and ?w' = "fst (round_trips 1 (\<lambda>M. GetAccountWaitingCount i (M 0)) (behind s))"
  have run: "behind (fst (svc_GetAccountWaitingCount (Some (redis_cache c)) i s)) = ?w'"
    by (simp add: svc_GetAccountWaitingCount_def via_def redis_cache_def case_prod_unfold Let_def)
  have ok: "world_ok c ?w" "snd (clock ?w (used ?w)) = Fine" using assms by (simp_all add: redis_up_def)
  have "world_ok c ?w' \<and> world_holds c Account ?w' j \<subseteq> world_holds c Account ?w j" for j
    using clock_le[OF ok(1), of "used ?w" "Suc (used ?w)"]
    by (intro world_ages[OF ok(1)])
      (simp_all add: round_trips_def GetAccountWaitingCount_def at_fine ok(2) now_of_def ages_later Let_def case_prod_unfold)
  then show ?thesis using slots_mono[OF _ run] assms by (simp add: redis_up_def run)
qed

lemma loaded_slots:
  assumes "0 < slotTTLSeconds c" "redis_up c s"
  shows "redis_up c (fst (getAccountsLoadBatch hex (Some (redis_cache c)) as al n1 n2 n3 s))
    \<and> account_slots c (fst (getAccountsLoadBatch hex (Some (redis_cache c)) as al n1 n2 n3 s)) \<subseteq> account_slots c s"
proof -
  let ?s = "fst (getAccountsLoadBatch hex (Some (redis_cache c)) as al n1 n2 n3 s)" and ?w = "behind s"
  let ?w' = "fst (round_trips 2 (\<lambda>M. GetAccountsLoadBatch c as (M 0) (M 1)) ?w)"
  have ok: "world_ok c ?w" using assms(2) by (simp add: redis_up_def)
  have le: "fst (clock ?w (used ?w)) \<le> fst (clock ?w (used ?w + 1))" "fst (clock ?w (used ?w + 1)) \<le> fst (clock ?w (used ?w + 2))"
    by (rule clock_le[OF ok]; simp)+
  have new: "world_ok c ?w' \<and> world_holds c Account ?w' j \<subseteq> world_holds c Account ?w j" for j
    using ages_load_batch[OF assms(1) le] by (intro world_ages[OF ok]) (simp_all add: round_trips_def now_of_def Let_def case_prod_unfold)
  from behind_loads[of hex c as al n1 n2 n3 s] show ?thesis
  proof
    assume "behind ?s = ?w" then show ?thesis using assms(2) by (simp add: redis_up_def account_slots_def)
  next
    assume w: "behind ?s = ?w'"
    show ?thesis using slots_mono[OF _ w, of c s] new assms(2) by (simp add: redis_up_def w)
  qed
qed

lemma others_none: "takes_none (\<lambda>s. ok (fst s)) (\<lambda>s. t (fst s)) (\<lambda>s. fst (on_others f s))" "takes_none (\<lambda>s. ok (fst s)) (\<lambda>s. t (fst s)) (apsnd h)"
  by (simp_all add: takes_none_def on_others_def case_prod_unfold Let_def)

lemma on_service_simps: "fst (fst (on_service f s)) = fst (f (fst s))" "snd (on_service f s) = snd (f (fst s))"
  by (simp_all add: on_service_def case_prod_unfold Let_def)

interpretation redis_slots: slot_ports "service_ports (NewConcurrencyCache m w) hex_digest p readings rest"
  "\<lambda>s. account_slots (NewConcurrencyCache m w) (fst s)" "\<lambda>s. redis_up (NewConcurrencyCache m w) (fst s)" account_release
  for m w hex_digest p readings rest
proof (unfold_locales, goal_cases)
  case (1 s i m)
  then show ?case using acquired_slots(1)[OF NewConcurrencyCache_ttl] by (simp add: service_ports_def on_service_simps case_prod_unfold Let_def)
next
  case (2 s i m)
  then show ?case using acquired_slots(2)[OF NewConcurrencyCache_ttl] by (simp add: service_ports_def on_service_simps case_prod_unfold Let_def)
next
  case (3 i m s r)
  then show ?case
    by (auto simp: service_ports_def on_service_simps case_prod_unfold Let_def svc_AcquireAccountSlot_def account_release_def
        split: if_splits option.splits)
next
  case (4 s r)
  then show ?case using released_slots(1)[OF NewConcurrencyCache_ttl] by (simp add: service_ports_def case_prod_unfold Let_def)
next
  case (5 s r)
  then show ?case using released_slots(2)[OF NewConcurrencyCache_ttl] by (simp add: service_ports_def case_prod_unfold Let_def)
next
  case (6 i)
  show ?case using waiting_slots by (simp add: service_ports_def on_service_simps takes_none_def case_prod_unfold Let_def)
next
  case (7 as)
  show ?case using loaded_slots[OF NewConcurrencyCache_ttl] by (simp add: service_ports_def on_service_simps takes_none_def case_prod_unfold Let_def)
next
  case (8 f i h m t)
  then show ?case by (auto simp: service_ports_def case_prod_unfold Let_def intro: others_none)
qed (simp_all add: service_ports_def case_prod_unfold Let_def others_none)


section \<open>Properties\<close>

text \<open>
  C11: A selection leaves no slot behind. With the concurrency service on Redis (every round trip
  answered, clocks not going back), whatever accounts, limits, sessions and random choices
  SelectAccountWithLoadAwareness meets, the account slots that count afterwards are slots that counted
  before or the one whose release function the answer holds: every attempt that was given up, on any
  layer, gave its slot back. The chosen account can be loaded, that is, the answer is not
  the error of its hydration (see below for that case).
\<close>

theorem selection_leaves_no_slot:
  assumes "redis_up (NewConcurrencyCache m w) s"
    and "SelectAccount (service_ports (NewConcurrencyCache m w) hex_digest p readings rest) cfg d gt rq accounts (s, x) = ((s', x'), r)"
    and "r \<noteq> Inl HydrationFailed"
  shows "account_slots (NewConcurrencyCache m w) s' \<subseteq> account_slots (NewConcurrencyCache m w) s \<union> owed r"
  using redis_slots.selection_settled[OF _ assms(2)] assms(1,3) by (simp add: redis_slots.settled_def)

text \<open>A run on Redis: the first account refuses the session, the second takes it.\<close>

definition demo_cfg :: GatewaySchedulingConfig where
  "demo_cfg = \<lparr>StickySessionMaxWaiting = 3, StickySessionWaitTimeout = 45 * second, FallbackWaitTimeout = 30 * second, FallbackMaxWaiting = 100,
     FallbackSelectionMode = [], PreferSoonestReset = False\<rparr>"

definition demo_dice :: dice where
  "demo_dice = \<lparr>intn = (\<lambda>_ _. 0), shuffleAccounts = rev, shuffleLoads = rev\<rparr>"

definition demo_gates :: gates where
  "demo_gates = \<lparr>profitEligible = (\<lambda>_. True), modelSupported = (\<lambda>_. True), channelRestricted = (\<lambda>_. False), modelSchedulable = (\<lambda>_. True),
     quotaExceeded = (\<lambda>_. False), windowCostOK = (\<lambda>_ _. True), currentRPM = (\<lambda>_. 0), rateLimitRemaining = (\<lambda>_. 0)\<rparr>"

definition demo_request :: selection_request where
  "demo_request = \<lparr>sessionHash = ''h'', requestedModel = ''m'', excludedIDs = [], platform = ''anthropic'', useMixed = False,
     routingAccountIDs = [], stickyAccountID = 0, moment_now = 0\<rparr>"

definition demo_accounts :: "Account list" where
  "demo_accounts = map (\<lambda>i. (demo_account i ''oauth'' i None)\<lparr>acc_Platform := ''anthropic'', Concurrency := 2, extra_max_sessions := 1\<rparr>) [1, 2]"

definition demo_others :: "bool \<Rightarrow> unit other_ports" where
  "demo_others hydrates = \<lparr>o_register = Some (\<lambda>i h m t x. (x, Some (i \<noteq> 1))), o_bind = (\<lambda>i x. x), o_delete = (\<lambda>x. x), o_refresh = (\<lambda>x. x),
     o_account = (\<lambda>i a x. (x, if hydrates then Some a else None))\<rparr>"

definition still_world :: world where
  "still_world = \<lparr>clock = (\<lambda>n. (1000 * int n, Fine)), used = 0, store = empty_redis\<rparr>"

definition demo_selection :: "bool \<Rightarrow> (world ConcurrencyService \<times> unit) \<times> selection" where
  "demo_selection hydrates = SelectAccount (service_ports (NewConcurrencyCache 15 0) (\<lambda>x. x) ''r1'' (0, 0, 0) (demo_others hydrates)) demo_cfg demo_dice
     demo_gates demo_request demo_accounts (NewConcurrencyService 0 still_world, ())"

lemma demo_run: "owed (snd (demo_selection True)) = {ReleaseAccount 2 ''r1-2''}"
  by code_simp

lemma demo_up: "redis_up c (NewConcurrencyService n still_world)" "account_slots c (NewConcurrencyService n still_world) = {}"
  by (simp_all add: redis_up_def NewConcurrencyService_def still_world_def world_ok_def mono_def account_slots_def world_holds_def world_slots_def)

theorem selection_leaves_no_slot_witness:
  "account_slots (NewConcurrencyCache 15 0) (fst (fst (demo_selection True))) \<subseteq> {ReleaseAccount 2 ''r1-2''}"
proof -
  obtain s' x' r where run: "demo_selection True = ((s', x'), r)" using prod.exhaust by metis
  have r: "owed r = {ReleaseAccount 2 ''r1-2''}" using demo_run by (simp only: run snd_conv)
  have "owed (Inl HydrationFailed) \<noteq> {f}" for f by (simp add: owed_def)
  with r have "r \<noteq> Inl HydrationFailed" by metis
  from selection_leaves_no_slot[OF demo_up(1) run[unfolded demo_selection_def] this]
  show ?thesis by (simp only: run fst_conv r demo_up(2) Un_empty_left)
qed

text \<open>
  C38: An account that cannot be loaded keeps its slot. Whenever an attempt for an account with a limit (tryAcquire,
  session check and newSelectionResult, with whatever the layer does with the binding of the session) ends with the
  error that the account cannot be loaded, its slot was acquired just before and nothing has given it back: the
  state of the concurrency service is the one after the acquisition, in which the slot counts from that second on until it is as
  old as the lifetime, and the answer has no release function. (Round trips answered, the clock not going back.)
\<close>

theorem hydration_failure_keeps_slot:
  fixes c hex_digest p readings rest
  defines "g \<equiv> service_ports c hex_digest p readings rest"
  assumes "0 < slotTTLSeconds c" "redis_up c s" "0 < Concurrency a"
    and "bind = bind_session g h \<or> bind = (\<lambda>_. gs_RefreshSessionTTL g) \<or> bind = (\<lambda>_ s. s)"
    and "try_account g bind h a (s, x) = ((s', x'), Some (Inl HydrationFailed), flag)"
  shows "\<exists>r. svc_AcquireAccountSlot (redis_cache c) p (ID a) (Concurrency a) s = (s', Some (Acquired (ReleaseAccount (ID a) r)))
    \<and> (world_slots c Account (behind s') (ID a) r = Some (stamp_of (behind s))
       \<or> stamp_of (behind s) + slotTTLSeconds c \<le> stamp_of (behind s'))
    \<and> owed (Inl HydrationFailed) = {}"
proof -
  let ?r = "snd (generateRequestID p s)" and ?w = "behind s"
  let ?res = "round_trips 2 (\<lambda>M. acquire_slot c (index_key (Account (ID a))) (slot_key (Account (ID a))) (live_key (Account (ID a))) (ID a) (Concurrency a) ?r (M 0) (M 1)) ?w"
  have ok: "world_ok c ?w" using assms(3) by (simp add: redis_up_def)
  have run: "svc_AcquireAccountSlot (redis_cache c) p (ID a) (Concurrency a) s =
      ((fst (generateRequestID p s))\<lparr>behind := fst ?res\<rparr>, map_option (\<lambda>b. if b then Acquired (ReleaseAccount (ID a) ?r) else NotAcquired) (snd ?res))"
    using assms(4) by (auto simp: svc_AcquireAccountSlot_def via_def cache_operations generated_id case_prod_unfold Let_def split: option.split)
  have bound: "fst (bind i y) = fst y" for i y
    using assms(5) by (auto simp: g_def service_ports_def bind_session_def case_prod_unfold Let_def)
  have checked: "fst (fst (checkAndRegisterSession g h a y)) = fst y" for y
    by (auto simp: g_def service_ports_def checkAndRegisterSession_def on_others_def case_prod_unfold Let_def split: option.split)
  have hydrated: "fst (fst (newSelectionResult g a got f pl y)) = fst y" for got f pl y
    by (auto simp: g_def service_ports_def newSelectionResult_def on_others_def case_prod_unfold Let_def split: option.split)
  obtain t0 ans where A: "svc_AcquireAccountSlot (redis_cache c) p (ID a) (Concurrency a) s = (t0, ans)" by force
  have acq: "gs_AcquireAccountSlot g (ID a) (Concurrency a) (s, x) = ((t0, x), ans)"
    by (simp add: g_def service_ports_def on_service_def A case_prod_unfold Let_def)
  obtain u b where u: "checkAndRegisterSession g h a (t0, x) = (u, b)" by (metis surj_pair)
  have u0: "fst u = t0" using checked[of "(t0, x)"] by (simp add: u)
  obtain f where f: "ans = Some (Acquired f)" "b"
    using assms(6) unfolding try_account_def acq by (cases b) (auto simp: u split: option.splits AcquireResult.splits)
  then have "fst (newSelectionResult g a True (Some f) None (bind (ID a) u)) = (s', x')"
    using assms(6) unfolding try_account_def acq by (auto simp: u case_prod_unfold Let_def)
  then have s': "s' = t0" using hydrated[of True "Some f" None "bind (ID a) u"] bound[of "ID a" u] u0 by simp
  have "snd ?res = Some True" "f = ReleaseAccount (ID a) ?r" using A f(1) by (auto simp: run split: if_splits)
  moreover have "behind s' = fst ?res" using A by (auto simp: run s')
  moreover have "svc_AcquireAccountSlot (redis_cache c) p (ID a) (Concurrency a) s = (s', Some (Acquired f))"
    by (simp add: A f(1) s')
  ultimately show ?thesis
    using world_acquire(5)[OF assms(2) ok, where mk = Account and i = "ID a" and m = "Concurrency a" and r = ?r, OF holder.inject(1)]
    by (auto simp: owed_def)
qed

definition demo_attempt :: "(world ConcurrencyService \<times> unit) \<times> selection option \<times> bool" where
  "demo_attempt = try_account (service_ports (NewConcurrencyCache 15 0) (\<lambda>x. x) ''r1'' (0, 0, 0) (demo_others False)) (\<lambda>_ s. s) ''h''
     (hd (tl demo_accounts)) (NewConcurrencyService 0 still_world, ())"

lemma demo_attempt_fails: "fst (snd demo_attempt) = Some (Inl HydrationFailed)"
  by code_simp

lemma hydration_failure_keeps_slot_witness:
  "\<exists>s' r. svc_AcquireAccountSlot (redis_cache (NewConcurrencyCache 15 0)) ''r1'' (ID (hd (tl demo_accounts))) (Concurrency (hd (tl demo_accounts)))
      (NewConcurrencyService 0 still_world) = (s', Some (Acquired (ReleaseAccount (ID (hd (tl demo_accounts))) r)))
    \<and> fst (fst demo_attempt) = s' \<and> owed (Inl HydrationFailed) = {}"
proof -
  obtain s' x' ro b where run: "demo_attempt = ((s', x'), ro, b)" by (metis prod.exhaust)
  have ro: "ro = Some (Inl HydrationFailed)" using demo_attempt_fails by (simp add: run)
  have "0 < Concurrency (hd (tl demo_accounts))" by (simp add: demo_accounts_def)
  from hydration_failure_keeps_slot[OF NewConcurrencyCache_ttl demo_up(1) this _ run[unfolded ro demo_attempt_def]]
  show ?thesis by (auto simp: run)
qed


lemma demo_dice_ok: "dice_ok demo_dice"
  by (simp add: dice_ok_def demo_dice_def Intn_ok_def Shuffle_ok_def)

theorem selection_is_eligible_witness:
  "\<exists>sel a. snd (demo_selection True) = Inr sel \<and> a \<in> set demo_accounts \<and> eligible demo_gates demo_request a
     \<and> made_from (service_ports (NewConcurrencyCache 15 0) (\<lambda>x. x) ''r1'' (0, 0, 0) (demo_others True)) a sel"
proof -
  obtain s' r where run: "demo_selection True = (s', r)" using prod.exhaust by metis
  have r: "owed r = {ReleaseAccount 2 ''r1-2''}" using demo_run by (simp only: run snd_conv)
  have "owed (Inl e) \<noteq> {f}" for e f by (simp add: owed_def)
  with r obtain sel where sel: "r = Inr sel" by (metis sum.exhaust)
  from selection_is_eligible[OF demo_dice_ok run[unfolded sel demo_selection_def]]
  obtain a where "a \<in> set demo_accounts \<and> eligible demo_gates demo_request a
     \<and> made_from (service_ports (NewConcurrencyCache 15 0) (\<lambda>x. x) ''r1'' (0, 0, 0) (demo_others True)) a sel" by blast
  then show ?thesis unfolding run snd_conv sel by blast
qed

end
