(* ===== verification/Session_Limit.thy ===== *)
theory Session_Limit
  imports Concurrency_Limit
begin

text \<open>
  The limit of sessions per account in Redis (repository/session_limit_cache.go): its Lua scripts, its
  operations on sessions, and what they promise. The cache of window costs in the same file holds
  floating point numbers and is left out.

  \<^item> A session is a member of a sorted set, scored with the second of its last activity; it is active
    until its idle timeout is over.
  \<^item> An operation takes the moment of its round trip and answers None where the code returns an error.
\<close>

section \<open>The scripts\<close>

definition sessionLimitKey :: "int \<Rightarrow> string" where "sessionLimitKey i = ''session_limit:account:'' @ decimal i"

definition touch_session :: "string \<Rightarrow> int \<Rightarrow> string \<Rightarrow> int \<Rightarrow> redis \<Rightarrow> redis" where
  "touch_session key idleTimeout sessionUUID t db = EXPIRE t key (idleTimeout + 60) (ZADD t key (TIME t) sessionUUID db)"

definition registerSessionScript :: "string \<Rightarrow> int \<Rightarrow> int \<Rightarrow> string \<Rightarrow> int \<Rightarrow> redis \<Rightarrow> redis \<times> int" where
  "registerSessionScript key maxSessions idleTimeout sessionUUID t db =
     (let now = TIME t;
          expireBefore = now - idleTimeout;
          db = ZREMRANGEBYSCORE t key expireBefore db
      in if ZSCORE t key sessionUUID db \<noteq> None then (touch_session key idleTimeout sessionUUID t db, 1)
         else if ZCARD t key db < maxSessions then (touch_session key idleTimeout sessionUUID t db, 1)
         else (db, 0))"

definition refreshSessionScript :: "string \<Rightarrow> int \<Rightarrow> string \<Rightarrow> int \<Rightarrow> redis \<Rightarrow> redis \<times> int" where
  "refreshSessionScript key idleTimeout sessionUUID t db =
     (if ZSCORE t key sessionUUID db \<noteq> None then (touch_session key idleTimeout sessionUUID t db, 1) else (db, 1))"

definition getActiveSessionCountScript :: "string \<Rightarrow> int \<Rightarrow> int \<Rightarrow> redis \<Rightarrow> redis \<times> int" where
  "getActiveSessionCountScript key idleTimeout t db =
     (let db = ZREMRANGEBYSCORE t key (TIME t - idleTimeout) db in (db, ZCARD t key db))"

definition isSessionActiveScript :: "string \<Rightarrow> int \<Rightarrow> string \<Rightarrow> int \<Rightarrow> redis \<Rightarrow> redis \<times> int" where
  "isSessionActiveScript key idleTimeout sessionUUID t db =
     (case ZSCORE t key sessionUUID db of
        None \<Rightarrow> (db, 0)
      | Some score \<Rightarrow> if score \<le> TIME t - idleTimeout then (db, 0) else (db, 1))"

section \<open>The cache\<close>

record sessionLimitCache =
  defaultIdleTimeout :: duration

definition NewSessionLimitCache :: "int \<Rightarrow> sessionLimitCache" where
  "NewSessionLimitCache defaultIdleTimeoutMinutes =
     \<lparr>defaultIdleTimeout = (if defaultIdleTimeoutMinutes \<le> 0 then 5 else defaultIdleTimeoutMinutes) * minute\<rparr>"

text \<open>int(d.Seconds()) for a duration that is not negative; a negative one is replaced by the default in any case.\<close>

definition Seconds :: "duration \<Rightarrow> int" where "Seconds d = d div second"

definition idle_seconds :: "sessionLimitCache \<Rightarrow> duration \<Rightarrow> int" where
  "idle_seconds c idleTimeout = (if Seconds idleTimeout \<le> 0 then Seconds (defaultIdleTimeout c) else Seconds idleTimeout)"

text \<open>Whether the session is allowed, and whether there was no error: an error allows it.\<close>

definition RegisterSession :: "sessionLimitCache \<Rightarrow> int \<Rightarrow> string \<Rightarrow> int \<Rightarrow> duration \<Rightarrow> moment \<Rightarrow> redis \<Rightarrow> redis \<times> bool \<times> bool" where
  "RegisterSession c accountID sessionUUID maxSessions idleTimeout m db =
     (if sessionUUID = [] \<or> maxSessions \<le> 0 then (db, True, True)
      else (case at m (registerSessionScript (sessionLimitKey accountID) maxSessions (idle_seconds c idleTimeout) sessionUUID) db of
              (db, None) \<Rightarrow> (db, True, False)
            | (db, Some result) \<Rightarrow> (db, result = 1, True)))"

definition RefreshSession :: "sessionLimitCache \<Rightarrow> int \<Rightarrow> string \<Rightarrow> duration \<Rightarrow> moment \<Rightarrow> redis \<Rightarrow> redis \<times> unit option" where
  "RefreshSession c accountID sessionUUID idleTimeout m db =
     (if sessionUUID = [] then (db, Some ())
      else (let (db, result) = at m (refreshSessionScript (sessionLimitKey accountID) (idle_seconds c idleTimeout) sessionUUID) db
            in (db, map_option (\<lambda>_. ()) result)))"

definition GetActiveSessionCount :: "sessionLimitCache \<Rightarrow> int \<Rightarrow> moment \<Rightarrow> redis \<Rightarrow> redis \<times> int option" where
  "GetActiveSessionCount c accountID m db =
     at m (getActiveSessionCountScript (sessionLimitKey accountID) (Seconds (defaultIdleTimeout c))) db"

text \<open>One pipeline; an account whose command failed is missing, so all of them when the round trip fails.\<close>

definition batch_timeout :: "sessionLimitCache \<Rightarrow> (int, duration) amap \<Rightarrow> int \<Rightarrow> duration" where
  "batch_timeout c idleTimeouts accountID =
     (case aget idleTimeouts accountID of Some d \<Rightarrow> if 0 < d then d else defaultIdleTimeout c | None \<Rightarrow> defaultIdleTimeout c)"

fun count_sessions :: "(int \<Rightarrow> int) \<Rightarrow> int list \<Rightarrow> int \<Rightarrow> redis \<Rightarrow> redis \<times> (int, int) amap" where
  "count_sessions timeout [] t db = (db, [])"
| "count_sessions timeout (i # is) t db =
     (let (db, n) = getActiveSessionCountScript (sessionLimitKey i) (timeout i) t db;
          (db, rest) = count_sessions timeout is t db
      in (db, (i, n) # rest))"

definition GetActiveSessionCountBatch :: "sessionLimitCache \<Rightarrow> int list \<Rightarrow> (int, duration) amap \<Rightarrow> moment \<Rightarrow> redis \<Rightarrow> redis \<times> (int, int) amap" where
  "GetActiveSessionCountBatch c accountIDs idleTimeouts m db =
     (if accountIDs = [] then (db, [])
      else (let (db, results) = at m (count_sessions (\<lambda>i. Seconds (batch_timeout c idleTimeouts i)) accountIDs) db
            in (db, case results of None \<Rightarrow> [] | Some r \<Rightarrow> r)))"

definition IsSessionActive :: "sessionLimitCache \<Rightarrow> int \<Rightarrow> string \<Rightarrow> moment \<Rightarrow> redis \<Rightarrow> redis \<times> bool option" where
  "IsSessionActive c accountID sessionUUID m db =
     (if sessionUUID = [] then (db, Some False)
      else (let (db, result) = at m (isSessionActiveScript (sessionLimitKey accountID) (Seconds (defaultIdleTimeout c)) sessionUUID) db
            in (db, map_option (\<lambda>n. n = 1) result)))"

definition UnregisterSession :: "int \<Rightarrow> string \<Rightarrow> moment \<Rightarrow> redis \<Rightarrow> redis \<times> unit option" where
  "UnregisterSession accountID sessionUUID m db =
     (if sessionUUID = [] then (db, Some ()) else at m (quietly (\<lambda>t. ZREM t (sessionLimitKey accountID) sessionUUID)) db)"

section \<open>Calls from all instances\<close>

datatype session_call =
    Register int string int duration
  | Refresh int string duration
  | CountDefault int
  | CountBatch "int list" "(int, duration) amap"
  | AskActive int string
  | Unregister int string

datatype session_answer = AnswerAllowed "bool \<times> bool" | AnswerBool "bool option" | AnswerCount "int option" | AnswerCounts "(int, int) amap" | AnswerUnit "unit option"

fun answer_session :: "sessionLimitCache \<Rightarrow> session_call \<Rightarrow> moment \<Rightarrow> redis \<Rightarrow> redis \<times> session_answer" where
  "answer_session c (Register i sid n d) m db = map_prod (\<lambda>x. x) AnswerAllowed (RegisterSession c i sid n d m db)"
| "answer_session c (Refresh i sid d) m db = map_prod (\<lambda>x. x) AnswerUnit (RefreshSession c i sid d m db)"
| "answer_session c (CountDefault i) m db = map_prod (\<lambda>x. x) AnswerCount (GetActiveSessionCount c i m db)"
| "answer_session c (CountBatch is ds) m db = map_prod (\<lambda>x. x) AnswerCounts (GetActiveSessionCountBatch c is ds m db)"
| "answer_session c (AskActive i sid) m db = map_prod (\<lambda>x. x) AnswerBool (IsSessionActive c i sid m db)"
| "answer_session c (Unregister i sid) m db = map_prod (\<lambda>x. x) AnswerUnit (UnregisterSession i sid m db)"

text \<open>A sequence of calls, of any instances, each at its moment.\<close>

fun answer_sessions :: "sessionLimitCache \<Rightarrow> (session_call \<times> moment) list \<Rightarrow> redis \<Rightarrow> redis \<times> session_answer list" where
  "answer_sessions c [] db = (db, [])"
| "answer_sessions c ((x, m) # calls) db =
     (let (db, a) = answer_session c x m db; (db, as) = answer_sessions c calls db in (db, a # as))"

definition active_sessions :: "int \<Rightarrow> int \<Rightarrow> redis \<Rightarrow> int \<Rightarrow> string set" where
  "active_sessions idle t db i = dom (leases idle t (sessionLimitKey i) db)"

section \<open>The number of sessions\<close>

definition stored_sessions :: "redis \<Rightarrow> string \<Rightarrow> zset" where
  "stored_sessions db k = (case sets db k of None \<Rightarrow> [] | Some (z, _) \<Rightarrow> z)"

lemma session_key_inj [simp]: "sessionLimitKey i = sessionLimitKey j \<longleftrightarrow> i = j"
  by (simp add: sessionLimitKey_def digits_inj)

lemma stored_put: "stored_sessions (put_members t k z db) j = (if j = k then z else stored_sessions db j)"
  by (simp add: stored_sessions_def put_members_def)

lemma members_stored: "members t k db = stored_sessions db k \<or> members t k db = []"
  by (auto simp: members_def stored_sessions_def alive_def split: option.splits)

lemma stored_expire: "stored_sessions (EXPIRE t k n db) j = stored_sessions db j \<or> stored_sessions (EXPIRE t k n db) j = []"
  by (auto simp: stored_sessions_def EXPIRE_def alive_def split: option.splits)

text \<open>Sets without duplicates that are no longer than the limit; pruned or touched sets stay so.\<close>

definition fits :: "int \<Rightarrow> zset \<Rightarrow> bool" where
  "fits n z \<longleftrightarrow> adistinct z \<and> int (length z) \<le> n"

definition sessions_fit :: "(int \<Rightarrow> int) \<Rightarrow> redis \<Rightarrow> bool" where
  "sessions_fit lim db \<longleftrightarrow> (\<forall>i. fits (lim i) (stored_sessions db (sessionLimitKey i)))"

lemma fits_filter: "fits n z \<Longrightarrow> fits n (filter P z)"
proof -
  assume z: "fits n z"
  then have "adistinct (filter P z)" using adistinct_filter by (auto simp: fits_def)
  moreover have "int (length (filter P z)) \<le> int (length z)" by simp
  ultimately show ?thesis using z unfolding fits_def by linarith
qed

lemma fits_members: "fits n (stored_sessions db k) \<Longrightarrow> fits n (members t k db)"
  using members_stored[of t k db] by (auto simp: fits_def)

lemma fits_removed:
  assumes "sessions_fit lim db"
  shows "sessions_fit lim (ZREMRANGEBYSCORE t (sessionLimitKey i) h db)" "sessions_fit lim (ZREM t (sessionLimitKey i) r db)"
  using assms fits_filter[OF fits_members] by (auto simp: sessions_fit_def ZREMRANGEBYSCORE_def ZREM_def stored_put)

lemma fits_touched:
  assumes "sessions_fit lim db" "ZSCORE t (sessionLimitKey i) sid db \<noteq> None \<or> ZCARD t (sessionLimitKey i) db < lim i"
  shows "sessions_fit lim (touch_session (sessionLimitKey i) n sid t db)"
proof -
  let ?k = "sessionLimitKey i" and ?z = "members t (sessionLimitKey i) db"
  have z: "fits (lim i) ?z" using assms(1) by (simp add: sessions_fit_def fits_members)
  have "int (length (aput sid (TIME t) ?z)) \<le> lim i"
    using assms(2) z length_aput_le[of sid "TIME t" ?z] length_aput_old[OF aget_Some_akeys, of ?z sid _ "TIME t"]
    by (auto simp: ZSCORE_def ZCARD_def fits_def)
  then have "fits (lim i) (aput sid (TIME t) ?z)" using adistinct_aput[of ?z sid "TIME t"] z by (simp add: fits_def)
  then have "sessions_fit lim (ZADD t ?k (TIME t) sid db)"
    using assms(1) by (simp add: sessions_fit_def ZADD_def stored_put)
  moreover have "fits n [] = (0 \<le> n)" "fits n z \<Longrightarrow> 0 \<le> n" for n and z :: zset by (simp_all add: fits_def)
  ultimately have "fits (lim j) (stored_sessions (touch_session ?k n sid t db) (sessionLimitKey j))" for j
    using stored_expire[of t ?k "n + 60" "ZADD t ?k (TIME t) sid db" "sessionLimitKey j"] unfolding sessions_fit_def touch_session_def by force
  then show ?thesis by (simp add: sessions_fit_def)
qed

text \<open>Registrations ask for no more than the limit.\<close>

definition asks_within :: "(int \<Rightarrow> int) \<Rightarrow> session_call \<Rightarrow> bool" where
  "asks_within lim x = (case x of Register i sid n d \<Rightarrow> n \<le> lim i | _ \<Rightarrow> True)"

lemma fits_at: "sessions_fit lim db \<Longrightarrow> sessions_fit lim (fst (f (fst m) db)) \<Longrightarrow> sessions_fit lim (fst (at m f db))"
  by (cases "snd m") (simp_all add: at_def)

lemma count_sessions_fit: "sessions_fit lim db \<Longrightarrow> sessions_fit lim (fst (count_sessions f is t db))"
  by (induction "is" arbitrary: db) (simp_all add: getActiveSessionCountScript_def Let_def case_prod_unfold fits_removed)

lemma answer_session_fits:
  assumes "sessions_fit lim db" "asks_within lim x"
  shows "sessions_fit lim (fst (answer_session c x m db))"
proof (cases x)
  case (Register i sid n d)
  have "sessions_fit lim (fst (registerSessionScript (sessionLimitKey i) n T sid t db))" for T t
    using assms fits_removed(1)[OF assms(1)] by (auto simp: registerSessionScript_def Let_def Register asks_within_def intro!: fits_touched)
  then show ?thesis
    using assms(1) fits_at[OF assms(1), of "registerSessionScript (sessionLimitKey i) n (idle_seconds c d) sid" m]
    by (auto simp: Register RegisterSession_def split: prod.splits option.splits)
next
  case (Refresh i sid d)
  have "sessions_fit lim (fst (refreshSessionScript (sessionLimitKey i) T sid t db))" for T t
    using assms(1) by (auto simp: refreshSessionScript_def intro!: fits_touched)
  then show ?thesis
    using assms(1) fits_at[OF assms(1), of "refreshSessionScript (sessionLimitKey i) (idle_seconds c d) sid" m]
    by (simp add: Refresh RefreshSession_def case_prod_unfold Let_def)
next
  case (CountDefault i)
  then show ?thesis
    using fits_at[OF assms(1), of "getActiveSessionCountScript (sessionLimitKey i) (Seconds (defaultIdleTimeout c))" m] fits_removed(1)[OF assms(1)]
    by (simp add: GetActiveSessionCount_def getActiveSessionCountScript_def Let_def)
next
  case (CountBatch ids ds)
  then show ?thesis
    using assms(1) fits_at[OF assms(1), of "count_sessions (\<lambda>i. Seconds (batch_timeout c ds i)) ids" m] count_sessions_fit[OF assms(1)]
    by (simp add: GetActiveSessionCountBatch_def case_prod_unfold Let_def)
next
  case (AskActive i sid)
  have "fst (isSessionActiveScript k T sid t db) = db" for k T t by (simp add: isSessionActiveScript_def split: option.split)
  then show ?thesis
    using assms(1) fits_at[OF assms(1), of "isSessionActiveScript (sessionLimitKey i) (Seconds (defaultIdleTimeout c)) sid" m]
    by (simp add: AskActive IsSessionActive_def case_prod_unfold Let_def)
next
  case (Unregister i sid)
  then show ?thesis
    using assms(1) fits_at[OF assms(1), of "quietly (\<lambda>t. ZREM t (sessionLimitKey i) sid)" m] fits_removed(2)[OF assms(1)]
    by (simp add: UnregisterSession_def quietly_def)
qed

lemma answer_sessions_fit:
  "sessions_fit lim db \<Longrightarrow> list_all (\<lambda>x. asks_within lim (fst x)) calls \<Longrightarrow> sessions_fit lim (fst (answer_sessions c calls db))"
  by (induction calls arbitrary: db) (auto simp: Let_def case_prod_unfold answer_session_fits)

text \<open>
  C25: An account has no more sessions than its limit. From a store that fits, such as an empty one,
  whatever calls of the session cache instances make (registrations, refreshes, counts, releases, in any
  order, at any times, with any failures of round trips), when every registration for an account asks for
  at most the limit, the sorted set of the account holds at most that many sessions, idle ones that were
  not pruned included; so the sessions that are active, under any idle timeout and at any time, are at
  most the limit.
\<close>

theorem session_limit_kept:
  assumes "sessions_fit lim db" "list_all (\<lambda>x. asks_within lim (fst x)) calls"
  shows "int (length (stored_sessions (fst (answer_sessions c calls db)) (sessionLimitKey i))) \<le> lim i \<and>
    int (card (active_sessions idle t (fst (answer_sessions c calls db)) i)) \<le> lim i"
proof -
  let ?z = "stored_sessions (fst (answer_sessions c calls db)) (sessionLimitKey i)"
  have z: "fits (lim i) ?z" using answer_sessions_fit[OF assms] by (simp add: sessions_fit_def)
  have "active_sessions idle t (fst (answer_sessions c calls db)) i \<subseteq> dom (aget ?z)"
    by (auto simp: active_sessions_def leases_def stored_sessions_def split: option.splits if_splits)
  then have "card (active_sessions idle t (fst (answer_sessions c calls db)) i) \<le> card (dom (aget ?z))"
    by (rule card_mono[OF finite_dom_map_of])
  also have "\<dots> = length ?z" using card_dom_aget[of ?z] z by (simp add: fits_def)
  finally show ?thesis using z by (simp add: fits_def)
qed

definition demo_calls :: "(session_call \<times> moment) list" where
  "demo_calls = [(Register 7 ''a'' 2 minute, 1000, Fine), (Register 7 ''b'' 1 minute, 2000, Fine), (Register 7 ''b'' 2 minute, 3000, LostAfter),
     (Refresh 7 ''a'' minute, 4000, Fine), (Register 7 ''c'' 2 minute, 5000, Fine), (Unregister 7 ''a'', 6000, Fine), (Register 7 ''c'' 2 minute, 7000, Fine)]"

theorem session_limit_kept_witness:
  "int (card (active_sessions 60 8000 (fst (answer_sessions (NewSessionLimitCache 5) demo_calls empty_redis)) 7)) \<le> 2
   \<and> snd (answer_sessions (NewSessionLimitCache 5) demo_calls empty_redis)
     = [AnswerAllowed (True, True), AnswerAllowed (False, True), AnswerAllowed (True, False), AnswerUnit (Some ()), AnswerAllowed (False, True), AnswerUnit (Some ()), AnswerAllowed (True, True)]"
proof
  have "sessions_fit (\<lambda>_. 2) empty_redis" by (simp add: sessions_fit_def stored_sessions_def empty_redis_def fits_def)
  moreover have "list_all (\<lambda>x. asks_within (\<lambda>_. 2) (fst x)) demo_calls" by (simp add: demo_calls_def asks_within_def)
  ultimately show "int (card (active_sessions 60 8000 (fst (answer_sessions (NewSessionLimitCache 5) demo_calls empty_redis)) 7)) \<le> 2"
    using session_limit_kept by blast
  show "snd (answer_sessions (NewSessionLimitCache 5) demo_calls empty_redis)
     = [AnswerAllowed (True, True), AnswerAllowed (False, True), AnswerAllowed (True, False), AnswerUnit (Some ()), AnswerAllowed (False, True), AnswerUnit (Some ()), AnswerAllowed (True, True)]"
    by code_simp
qed

section \<open>What the calls promise\<close>

text \<open>
  The contract in terms of last activities alone: who is active, when a registration is allowed, what a
  count says. Failures of a round trip are part of it, the key, its expiry and what is pruned are not.
\<close>

type_synonym activity = "int \<Rightarrow> string \<Rightarrow> int option"

definition live :: "(int \<Rightarrow> int) \<Rightarrow> activity \<Rightarrow> int \<Rightarrow> int \<Rightarrow> string \<Rightarrow> int option" where
  "live idle a t i sid = (case a i sid of None \<Rightarrow> None | Some s \<Rightarrow> if TIME t < s + idle i then Some s else None)"

definition live_count :: "(int \<Rightarrow> int) \<Rightarrow> activity \<Rightarrow> int \<Rightarrow> int \<Rightarrow> int" where
  "live_count idle a t i = int (card (dom (live idle a t i)))"

definition promised :: "moment \<Rightarrow> (int \<Rightarrow> activity \<Rightarrow> activity \<times> 'r) \<Rightarrow> activity \<Rightarrow> activity \<times> 'r option" where
  "promised m f a = call (snd m) (f (fst m)) a"

fun promise :: "(int \<Rightarrow> int) \<Rightarrow> session_call \<Rightarrow> moment \<Rightarrow> activity \<Rightarrow> activity \<times> session_answer" where
  "promise idle (Register i sid n d) m a =
     (if sid = [] \<or> n \<le> 0 then (a, AnswerAllowed (True, True))
      else map_prod (\<lambda>x. x) (\<lambda>r. AnswerAllowed (case r of None \<Rightarrow> (True, False) | Some b \<Rightarrow> (b, True))) (promised m (\<lambda>t a.
        if live idle a t i sid \<noteq> None \<or> live_count idle a t i < n then (a(i := (live idle a t i)(sid \<mapsto> TIME t)), True) else (a, False)) a))"
| "promise idle (Refresh i sid d) m a =
     (if sid = [] then (a, AnswerUnit (Some ()))
      else map_prod (\<lambda>x. x) AnswerUnit (promised m (\<lambda>t a.
        (if live idle a t i sid \<noteq> None then a(i := (a i)(sid \<mapsto> TIME t)) else a, ())) a))"
| "promise idle (CountDefault i) m a = map_prod (\<lambda>x. x) AnswerCount (promised m (\<lambda>t a. (a, live_count idle a t i)) a)"
| "promise idle (CountBatch is ds) m a =
     (a, AnswerCounts (case snd (promised m (\<lambda>t a. (a, map (\<lambda>i. (i, live_count idle a t i)) is)) a) of None \<Rightarrow> [] | Some r \<Rightarrow> r))"
| "promise idle (AskActive i sid) m a =
     (if sid = [] then (a, AnswerBool (Some False))
      else map_prod (\<lambda>x. x) AnswerBool (promised m (\<lambda>t a. (a, live idle a t i sid \<noteq> None)) a))"
| "promise idle (Unregister i sid) m a =
     (if sid = [] then (a, AnswerUnit (Some ()))
      else map_prod (\<lambda>x. x) AnswerUnit (promised m (\<lambda>t a. (a(i := (a i)(sid := None)), ())) a))"

fun promises :: "(int \<Rightarrow> int) \<Rightarrow> (session_call \<times> moment) list \<Rightarrow> activity \<Rightarrow> activity \<times> session_answer list" where
  "promises idle [] a = (a, [])"
| "promises idle ((x, m) # calls) a =
     (let (a, r) = promise idle x m a; (a, rs) = promises idle calls a in (a, r # rs))"

text \<open>
  Each account with one idle timeout, as its calls and counts use it; calls in the order of time; and no
  refresh of a session whose timeout is over but that has not been pruned (Redis would revive it).
\<close>

definition one_timeout :: "sessionLimitCache \<Rightarrow> (int \<Rightarrow> int) \<Rightarrow> session_call \<Rightarrow> bool" where
  "one_timeout c idle x = (case x of
     Register i sid n d \<Rightarrow> idle_seconds c d = idle i
   | Refresh i sid d \<Rightarrow> idle_seconds c d = idle i
   | CountDefault i \<Rightarrow> Seconds (defaultIdleTimeout c) = idle i
   | CountBatch is ds \<Rightarrow> list_all (\<lambda>i. Seconds (batch_timeout c ds i) = idle i) is
   | AskActive i sid \<Rightarrow> Seconds (defaultIdleTimeout c) = idle i
   | Unregister i sid \<Rightarrow> True)"

fun in_time :: "int \<Rightarrow> (session_call \<times> moment) list \<Rightarrow> bool" where
  "in_time t [] = True"
| "in_time t ((x, m) # calls) = (t \<le> fst m \<and> in_time (fst m) calls)"

definition not_revived :: "(int \<Rightarrow> int) \<Rightarrow> session_call \<Rightarrow> int \<Rightarrow> activity \<Rightarrow> bool" where
  "not_revived idle x t a = (case x of Refresh i sid d \<Rightarrow> a i sid = None \<or> live idle a t i sid \<noteq> None | _ \<Rightarrow> True)"

fun none_revived :: "(int \<Rightarrow> int) \<Rightarrow> (session_call \<times> moment) list \<Rightarrow> activity \<Rightarrow> bool" where
  "none_revived idle [] a = True"
| "none_revived idle ((x, m) # calls) a = (not_revived idle x (fst m) a \<and> none_revived idle calls (fst (promise idle x m a)))"

text \<open>
  Redis holds the activities: the keys outlive their sessions, the live ones agree, and a stored session
  is recorded with its last activity.
\<close>

definition keeps :: "(int \<Rightarrow> int) \<Rightarrow> int \<Rightarrow> redis \<Rightarrow> activity \<Rightarrow> bool" where
  "keeps idle t db a \<longleftrightarrow> (\<forall>i. lease_key (idle i) t (sessionLimitKey i) db \<and> leases (idle i) t (sessionLimitKey i) db = live idle a t i
     \<and> aget (stored_sessions db (sessionLimitKey i)) \<subseteq>\<^sub>m a i)"

lemma keeps_later: "keeps idle t db a \<Longrightarrow> t \<le> t' \<Longrightarrow> keeps idle t' db a"
proof -
  assume k: "keeps idle t db a" and le: "t \<le> t'"
  have "leases (idle i) t' (sessionLimitKey i) db = live idle a t' i" for i
    using k TIME_mono[OF le] unfolding leases_later[OF le] by (auto simp: keeps_def live_def fun_eq_iff split: option.split)
  then show ?thesis using k lease_key_later[OF _ le] by (auto simp: keeps_def)
qed

lemma keepsD: "keeps idle t db a \<Longrightarrow> lease_key (idle i) t (sessionLimitKey i) db"
  "keeps idle t db a \<Longrightarrow> leases (idle i) t (sessionLimitKey i) db = live idle a t i"
  "keeps idle t db a \<Longrightarrow> aget (stored_sessions db (sessionLimitKey i)) \<subseteq>\<^sub>m a i"
  by (simp_all add: keeps_def)

lemma keeps_key:
  assumes "keeps idle t db a" "lease_key (idle i) t (sessionLimitKey i) db'" "leases (idle i) t (sessionLimitKey i) db' = live idle a' t i"
    "aget (stored_sessions db' (sessionLimitKey i)) \<subseteq>\<^sub>m a' i"
    "\<And>j. j \<noteq> i \<Longrightarrow> sets db' (sessionLimitKey j) = sets db (sessionLimitKey j) \<and> a' j = a j"
  shows "keeps idle t db' a'"
  unfolding keeps_def
proof
  fix j
  show "lease_key (idle j) t (sessionLimitKey j) db' \<and> leases (idle j) t (sessionLimitKey j) db' = live idle a' t j
    \<and> aget (stored_sessions db' (sessionLimitKey j)) \<subseteq>\<^sub>m a' j"
  proof (cases "j = i")
    case False
    then have same: "sets db' (sessionLimitKey j) = sets db (sessionLimitKey j)" "a' j = a j" using assms(5) by blast+
    have "live idle a' t j = live idle a t j" by (rule ext) (simp add: live_def same(2))
    then show ?thesis using keepsD[OF assms(1), of j] by (simp add: sets_same[OF same(1)] same stored_sessions_def)
  qed (use assms(2-4) in simp)
qed

lemma members_recorded: "keeps idle t db a \<Longrightarrow> aget (members t (sessionLimitKey i) db) \<subseteq>\<^sub>m a i"
  using members_stored[of t "sessionLimitKey i" db] keepsD(3)[of idle t db a i] by (elim disjE) simp_all

lemma filter_recorded: "adistinct z \<Longrightarrow> aget z \<subseteq>\<^sub>m b \<Longrightarrow> aget (filter P z) \<subseteq>\<^sub>m b"
proof -
  assume d: "adistinct z" and le: "aget z \<subseteq>\<^sub>m b"
  have "aget z r = Some v" if "aget (filter P z) r = Some v" for r v
    using that aget_filter[OF d, of P r] by (simp split: option.splits if_splits)
  then show "aget (filter P z) \<subseteq>\<^sub>m b" using le unfolding map_le_def by (metis domD domI)
qed

lemma pruned:
  assumes "keeps idle t db a" "T = idle i"
  shows "keeps idle t (ZREMRANGEBYSCORE t (sessionLimitKey i) (TIME t - T) db) a"
    and "ZCARD t (sessionLimitKey i) (ZREMRANGEBYSCORE t (sessionLimitKey i) (TIME t - T) db) = live_count idle a t i"
    and "ZSCORE t (sessionLimitKey i) sid (ZREMRANGEBYSCORE t (sessionLimitKey i) (TIME t - T) db) = live idle a t i sid"
proof -
  note k = keepsD[OF assms(1), of i]
  show "keeps idle t (ZREMRANGEBYSCORE t (sessionLimitKey i) (TIME t - T) db) a"
  proof (rule keeps_key[OF assms(1), of i])
    show "aget (stored_sessions (ZREMRANGEBYSCORE t (sessionLimitKey i) (TIME t - T) db) (sessionLimitKey i)) \<subseteq>\<^sub>m a i"
      using filter_recorded[OF adistinct_members[OF k(1)] members_recorded[OF assms(1)]] by (simp add: ZREMRANGEBYSCORE_def stored_put)
  qed (use lease_prune[OF k(1)] k(2) assms(2) in simp_all)
  show "ZCARD t (sessionLimitKey i) (ZREMRANGEBYSCORE t (sessionLimitKey i) (TIME t - T) db) = live_count idle a t i"
    "ZSCORE t (sessionLimitKey i) sid (ZREMRANGEBYSCORE t (sessionLimitKey i) (TIME t - T) db) = live idle a t i sid"
    using lease_card[OF k(1)] k(2) assms(2) by (simp_all add: live_count_def)
qed

lemma touched:
  assumes "keeps idle t db a" "0 < idle i" "aget (members t (sessionLimitKey i) db) \<subseteq>\<^sub>m b" "live idle (a(i := b)) t i = live idle a t i"
  shows "keeps idle t (touch_session (sessionLimitKey i) (idle i) sid t db) (a(i := b(sid \<mapsto> TIME t)))"
proof (rule keeps_key[OF assms(1), of i])
  note k = keepsD[OF assms(1), of i]
  note g = lease_grant_for[OF k(1) assms(2), of "idle i + 60" sid]
  show "lease_key (idle i) t (sessionLimitKey i) (touch_session (sessionLimitKey i) (idle i) sid t db)"
    using g(1) by (simp add: touch_session_def)
  have "live idle (a(i := b(sid \<mapsto> TIME t))) t i = (live idle (a(i := b)) t i)(sid \<mapsto> TIME t)"
    using assms(2) by (auto simp: live_def fun_eq_iff split: option.split)
  then show "leases (idle i) t (sessionLimitKey i) (touch_session (sessionLimitKey i) (idle i) sid t db)
      = live idle (a(i := b(sid \<mapsto> TIME t))) t i"
    using g(2) k(2) assms(4) by (simp add: touch_session_def)
  have "aget (aput sid (TIME t) (members t (sessionLimitKey i) db)) \<subseteq>\<^sub>m b(sid \<mapsto> TIME t)"
    using assms(3) by (auto simp: map_le_def amap_simps dom_def)
  then show "aget (stored_sessions (touch_session (sessionLimitKey i) (idle i) sid t db) (sessionLimitKey i)) \<subseteq>\<^sub>m (a(i := b(sid \<mapsto> TIME t))) i"
    using stored_expire[of t "sessionLimitKey i" "idle i + 60" "ZADD t (sessionLimitKey i) (TIME t) sid db" "sessionLimitKey i"]
    by (auto simp: touch_session_def ZADD_def stored_put)
qed (simp_all add: touch_session_def)

lemma removed:
  assumes "keeps idle t db a"
  shows "keeps idle t (ZREM t (sessionLimitKey i) sid db) (a(i := (a i)(sid := None)))"
proof (rule keeps_key[OF assms, of i])
  note k = keepsD[OF assms, of i]
  show "lease_key (idle i) t (sessionLimitKey i) (ZREM t (sessionLimitKey i) sid db)" by (rule lease_remove(1)[OF k(1)])
  show "leases (idle i) t (sessionLimitKey i) (ZREM t (sessionLimitKey i) sid db) = live idle (a(i := (a i)(sid := None))) t i"
    using lease_remove(2)[OF k(1)] k(2) by (auto simp: live_def fun_eq_iff)
  show "aget (stored_sessions (ZREM t (sessionLimitKey i) sid db) (sessionLimitKey i)) \<subseteq>\<^sub>m (a(i := (a i)(sid := None))) i"
    using members_recorded[OF assms, of i] by (auto simp: ZREM_def stored_put map_le_def dom_def aget_filter_key split: if_splits)
qed simp_all

lemma refreshed:
  assumes "keeps idle t db a" "0 < idle i" "a i sid = None \<or> live idle a t i sid \<noteq> None"
  shows "keeps idle t (fst (refreshSessionScript (sessionLimitKey i) (idle i) sid t db))
    (if live idle a t i sid \<noteq> None then a(i := (a i)(sid \<mapsto> TIME t)) else a)"
proof -
  have "ZSCORE t (sessionLimitKey i) sid db \<noteq> None \<longleftrightarrow> live idle a t i sid \<noteq> None"
    using members_leases[OF keepsD(1)[OF assms(1)], of i sid] keepsD(2)[OF assms(1), of i] members_recorded[OF assms(1), of i] assms(3)
    by (force simp: ZSCORE_def map_le_def dom_def split: option.splits)
  then show ?thesis
    using touched[OF assms(1,2) members_recorded[OF assms(1)]] assms(1) by (simp add: refreshSessionScript_def)
qed

lemma session_active:
  assumes "keeps idle t db a" "T = idle i"
  shows "isSessionActiveScript (sessionLimitKey i) T sid t db = (db, if live idle a t i sid \<noteq> None then 1 else 0)"
  using members_leases[OF keepsD(1)[OF assms(1)], of i sid] keepsD(2)[OF assms(1), of i] assms(2)
  by (auto simp: isSessionActiveScript_def ZSCORE_def split: option.split)

lemma counted:
  assumes "keeps idle t db a" "\<forall>i\<in>set is. f i = idle i"
  shows "keeps idle t (fst (count_sessions f is t db)) a \<and> snd (count_sessions f is t db) = map (\<lambda>i. (i, live_count idle a t i)) is"
  using assms
proof (induction "is" arbitrary: db)
  case (Cons i ids)
  note p = pruned[OF Cons.prems(1), of "f i" i]
  show ?case using p(1,2) Cons.IH[OF p(1)] Cons.prems(2)
    by (simp add: getActiveSessionCountScript_def Let_def case_prod_unfold)
qed simp

text \<open>A round trip against its promise.\<close>

lemma kept_promise:
  assumes "keeps idle (fst m) db a" "keeps idle (fst m) (fst (f (fst m) db)) (fst (g (fst m) a))" "snd (f (fst m) db) = h (snd (g (fst m) a))"
  shows "keeps idle (fst m) (fst (at m f db)) (fst (promised m g a)) \<and> snd (at m f db) = map_option h (snd (promised m g a))"
  using assms by (cases "snd m") (simp_all add: at_def promised_def)

lemma answer_promised:
  assumes "keeps idle (fst m) db a" "one_timeout c idle x" "\<forall>i. 0 < idle i" "not_revived idle x (fst m) a"
  shows "keeps idle (fst m) (fst (answer_session c x m db)) (fst (promise idle x m a))
    \<and> snd (answer_session c x m db) = snd (promise idle x m a)"
proof (cases x)
  case (Register i sid n d)
  let ?t = "fst m"
  have T: "idle_seconds c d = idle i" using assms(2) by (simp add: one_timeout_def Register)
  let ?g = "\<lambda>t a. if live idle a t i sid \<noteq> None \<or> live_count idle a t i < n then (a(i := (live idle a t i)(sid \<mapsto> TIME t)), True) else (a, False)"
  note p = pruned[OF assms(1), of "idle i" i]
  have "live idle (a(i := live idle a ?t i)) ?t i = live idle a ?t i"
    by (auto simp: live_def fun_eq_iff split: option.split)
  moreover have "aget (members ?t (sessionLimitKey i) (ZREMRANGEBYSCORE ?t (sessionLimitKey i) (TIME ?t - idle i) db)) \<subseteq>\<^sub>m live idle a ?t i"
    using p(3) by (simp add: ZSCORE_def map_le_def)
  ultimately have registered: "keeps idle ?t (touch_session (sessionLimitKey i) (idle i) sid ?t
      (ZREMRANGEBYSCORE ?t (sessionLimitKey i) (TIME ?t - idle i) db)) (a(i := (live idle a ?t i)(sid \<mapsto> TIME ?t)))"
    using touched[OF p(1), of i] assms(3) by simp
  have "keeps idle ?t (fst (registerSessionScript (sessionLimitKey i) n (idle i) sid ?t db)) (fst (?g ?t a))
      \<and> snd (registerSessionScript (sessionLimitKey i) n (idle i) sid ?t db) = (if snd (?g ?t a) then 1 else 0)"
    using p registered assms(3) by (simp add: registerSessionScript_def Let_def)
  then have "keeps idle ?t (fst (at m (registerSessionScript (sessionLimitKey i) n (idle i) sid) db)) (fst (promised m ?g a))
      \<and> snd (at m (registerSessionScript (sessionLimitKey i) n (idle i) sid) db) = map_option (\<lambda>b. if b then 1 else 0) (snd (promised m ?g a))"
    by (intro kept_promise[OF assms(1)]) simp_all
  then show ?thesis using assms(1)
    by (cases "at m (registerSessionScript (sessionLimitKey i) n (idle i) sid) db"; cases "snd (promised m ?g a)")
      (simp_all add: Register RegisterSession_def T split: if_splits)
next
  case (Refresh i sid d)
  have T: "idle_seconds c d = idle i" and here: "a i sid = None \<or> live idle a (fst m) i sid \<noteq> None"
    using assms(2,4) by (simp_all add: one_timeout_def not_revived_def Refresh)
  let ?g = "\<lambda>t a. (if live idle a t i sid \<noteq> None then a(i := (a i)(sid \<mapsto> TIME t)) else a, ())"
  have "keeps idle (fst m) (fst (at m (refreshSessionScript (sessionLimitKey i) (idle i) sid) db)) (fst (promised m ?g a))
      \<and> snd (at m (refreshSessionScript (sessionLimitKey i) (idle i) sid) db) = map_option (\<lambda>_. 1) (snd (promised m ?g a))"
    by (intro kept_promise[OF assms(1)]) (use refreshed[OF assms(1) _ here] assms(3) in \<open>simp_all add: refreshSessionScript_def\<close>)
  then show ?thesis using assms(1)
    by (cases "snd (promised m ?g a)") (simp_all add: Refresh RefreshSession_def T case_prod_unfold Let_def)
next
  case (CountDefault i)
  have "keeps idle (fst m) (fst (at m (getActiveSessionCountScript (sessionLimitKey i) (idle i)) db)) (fst (promised m (\<lambda>t a. (a, live_count idle a t i)) a))
      \<and> snd (at m (getActiveSessionCountScript (sessionLimitKey i) (idle i)) db) = map_option (\<lambda>x. x) (snd (promised m (\<lambda>t a. (a, live_count idle a t i)) a))"
    by (intro kept_promise[OF assms(1)]) (use pruned[OF assms(1), of "idle i" i] in \<open>simp_all add: getActiveSessionCountScript_def Let_def\<close>)
  then show ?thesis using assms(2) by (simp add: CountDefault GetActiveSessionCount_def one_timeout_def option.map_ident)
next
  case (CountBatch ids ds)
  let ?f = "count_sessions (\<lambda>i. Seconds (batch_timeout c ds i)) ids" and ?g = "\<lambda>t a. (a, map (\<lambda>i. (i, live_count idle a t i)) ids)"
  have "\<forall>i\<in>set ids. Seconds (batch_timeout c ds i) = idle i"
    using assms(2) by (simp add: one_timeout_def CountBatch list_all_iff)
  from counted[OF assms(1) this]
  have "keeps idle (fst m) (fst (at m ?f db)) (fst (promised m ?g a)) \<and> snd (at m ?f db) = map_option (\<lambda>x. x) (snd (promised m ?g a))"
    by (intro kept_promise[OF assms(1)]) simp_all
  moreover have "fst (promised m ?g a) = a" by (cases "snd m") (simp_all add: promised_def)
  ultimately show ?thesis using assms(1)
    by (cases "snd m") (auto simp: CountBatch GetActiveSessionCountBatch_def Let_def case_prod_unfold option.map_ident promised_def)
next
  case (AskActive i sid)
  have "keeps idle (fst m) (fst (at m (isSessionActiveScript (sessionLimitKey i) (idle i) sid) db)) (fst (promised m (\<lambda>t a. (a, live idle a t i sid \<noteq> None)) a))
      \<and> snd (at m (isSessionActiveScript (sessionLimitKey i) (idle i) sid) db)
        = map_option (\<lambda>b. if b then 1 else 0) (snd (promised m (\<lambda>t a. (a, live idle a t i sid \<noteq> None)) a))"
    by (intro kept_promise[OF assms(1)]) (use assms(1) session_active[OF assms(1), of "idle i" i sid] in \<open>simp_all del: not_None_eq\<close>)
  then show ?thesis using assms(1,2)
    by (auto simp: AskActive IsSessionActive_def one_timeout_def Let_def case_prod_unfold option.map_comp o_def option.map_ident)
next
  case (Unregister i sid)
  have "keeps idle (fst m) (fst (at m (quietly (\<lambda>t. ZREM t (sessionLimitKey i) sid)) db)) (fst (promised m (\<lambda>t a. (a(i := (a i)(sid := None)), ())) a))
      \<and> snd (at m (quietly (\<lambda>t. ZREM t (sessionLimitKey i) sid)) db) = map_option (\<lambda>x. x) (snd (promised m (\<lambda>t a. (a(i := (a i)(sid := None)), ())) a))"
    by (intro kept_promise[OF assms(1)]) (use removed[OF assms(1)] in \<open>simp_all add: quietly_def\<close>)
  then show ?thesis using assms(1) by (cases "snd m") (simp_all add: Unregister UnregisterSession_def promised_def)
qed

text \<open>
  C17: The session cache is what it promises. When all calls for an account use one positive idle timeout, come in
  the order of time, and no refresh meets a session whose timeout is over, the answers of the cache
  (every registration, refresh, count, question and release, with the same failures of round trips) are
  those of the contract over last activities: a session is active until its idle timeout is over, a
  registration is allowed exactly for an active session or below the limit, or when its round trip fails,
  and a count is the number of active sessions. At the end Redis holds the same active sessions.
\<close>

theorem sessions_keep_promise:
  assumes "keeps idle t db a" "in_time t calls" "list_all (\<lambda>x. one_timeout c idle (fst x)) calls" "\<forall>i. 0 < idle i"
    "none_revived idle calls a"
  shows "snd (answer_sessions c calls db) = snd (promises idle calls a)
    \<and> (\<exists>t'. keeps idle t' (fst (answer_sessions c calls db)) (fst (promises idle calls a)))"
  using assms
proof (induction calls arbitrary: t db a)
  case (Cons xm calls)
  obtain x m where xm: "xm = (x, m)" by (cases xm) blast
  have k: "keeps idle (fst m) db a" using keeps_later[OF Cons.prems(1)] Cons.prems(2) by (simp add: xm)
  have one: "one_timeout c idle x" "not_revived idle x (fst m) a" using Cons.prems(3,5) by (simp_all add: xm)
  note step = answer_promised[OF k one(1) Cons.prems(4) one(2)]
  from step have "keeps idle (fst m) (fst (answer_session c x m db)) (fst (promise idle x m a))" by blast
  from Cons.IH[OF this] show ?case using step Cons.prems(2-5) by (simp add: xm Let_def case_prod_unfold)
qed auto

definition demo_session_calls :: "(session_call \<times> moment) list" where
  "demo_session_calls = [(Register 7 ''a'' 1 0, 1000, Fine), (Refresh 7 ''a'' 0, 2000, Fine), (AskActive 7 ''a'', 301000, Fine),
     (Register 7 ''b'' 1 0, 301500, Fine), (Register 7 ''b'' 1 0, 302000, Fine), (CountBatch [7] [], 303000, Fine)]"

definition demo_answers :: "session_answer list" where
  "demo_answers = [AnswerAllowed (True, True), AnswerUnit (Some ()), AnswerBool (Some True), AnswerAllowed (False, True),
     AnswerAllowed (True, True), AnswerCounts [(7, 1)]]"

theorem sessions_keep_promise_witness:
  "snd (promises (\<lambda>_. 300) demo_session_calls (\<lambda>_ _. None)) = demo_answers"
proof -
  have "keeps (\<lambda>_. 300) 0 empty_redis (\<lambda>_ _. None)"
    by (simp add: keeps_def lease_key_def leases_def empty_redis_def live_def fun_eq_iff stored_sessions_def)
  moreover have "in_time 0 demo_session_calls" by (simp add: demo_session_calls_def)
  moreover have "list_all (\<lambda>x. one_timeout (NewSessionLimitCache 5) (\<lambda>_. 300) (fst x)) demo_session_calls"
    by (simp add: demo_session_calls_def one_timeout_def idle_seconds_def Seconds_def NewSessionLimitCache_def batch_timeout_def duration_units)
  moreover have "live (\<lambda>_. 300) (\<lambda>_ _. None) 1000 7 = (\<lambda>_. None)" by (rule ext) (simp add: live_def)
  then have "fst (promise (\<lambda>_. 300) (Register 7 ''a'' 1 0) (1000, Fine) (\<lambda>_ _. None)) = (\<lambda>_ _. None)(7 := [''a'' \<mapsto> 1])"
    by (simp add: promised_def live_count_def TIME_def)
  then have "none_revived (\<lambda>_. 300) demo_session_calls (\<lambda>_ _. None)"
    by (simp add: demo_session_calls_def not_revived_def live_def TIME_def del: promise.simps)
  ultimately have "snd (answer_sessions (NewSessionLimitCache 5) demo_session_calls empty_redis)
      = snd (promises (\<lambda>_. 300) demo_session_calls (\<lambda>_ _. None))"
    using sessions_keep_promise by fastforce
  moreover have "snd (answer_sessions (NewSessionLimitCache 5) demo_session_calls empty_redis) = demo_answers" by code_simp
  ultimately show ?thesis by simp
qed

text \<open>A refresh makes a session active again whose idle timeout is over, when nothing has pruned it in between.\<close>

lemma refresh_revives:
  "snd (answer_sessions (NewSessionLimitCache 1) [(Register 7 ''a'' 2 minute, 1000, Fine), (AskActive 7 ''a'', 62000, Fine),
      (Refresh 7 ''a'' minute, 63000, Fine), (AskActive 7 ''a'', 64000, Fine)] empty_redis)
    = [AnswerAllowed (True, True), AnswerBool (Some False), AnswerUnit (Some ()), AnswerBool (Some True)]"
  by code_simp

text \<open>The count with the default timeout removes sessions that their account's longer timeout still keeps.\<close>

lemma default_count_drops_sessions:
  "snd (answer_sessions (NewSessionLimitCache 5) [(Register 7 ''a'' 2 (30 * minute), 1000, Fine), (CountDefault 7, 400000, Fine),
      (CountBatch [7] [(7, 30 * minute)], 401000, Fine)] empty_redis)
    = [AnswerAllowed (True, True), AnswerCount (Some 0), AnswerCounts [(7, 0)]]"
  by code_simp

end
