(* ===== verification/User_Msg_Queue.thy ===== *)
theory User_Msg_Queue
  imports Concurrency_Limit
begin

text \<open>
  The serial queue of user messages: one lock per account in Redis (repository/user_msg_queue_cache.go),
  the service over it (service/user_msg_queue_service.go) and the waiting of a request
  (handler/user_msg_queue_helper.go).

  \<^item> A lock is a text with an expiry in milliseconds; \<open>base\<close> holds the other keys: the index of locks, a
    sorted set, and the times of the last completions, counters.
  \<^item> Request ids are arguments. The delay by load is computed in floating point numbers: it is an
    argument as well.
\<close>

section \<open>Texts in Redis\<close>

record msg_redis =
  base :: redis
  locks :: "string \<Rightarrow> (string \<times> int option) option"

definition STR_GET :: "int \<Rightarrow> string \<Rightarrow> msg_redis \<Rightarrow> string option" where
  "STR_GET t k db = map_option fst (alive t (locks db k))"

text \<open>The remaining time, - 1 for a key without expiry, - 2 for no key.\<close>

definition PTTL :: "int \<Rightarrow> string \<Rightarrow> msg_redis \<Rightarrow> int" where
  "PTTL t k db = (case alive t (locks db k) of None \<Rightarrow> - 2 | Some (_, None) \<Rightarrow> - 1 | Some (_, Some e) \<Rightarrow> e - t)"

definition PEXPIRE :: "int \<Rightarrow> string \<Rightarrow> int \<Rightarrow> msg_redis \<Rightarrow> msg_redis" where
  "PEXPIRE t k ttl db = db\<lparr>locks := (locks db)(k :=
     (case alive t (locks db k) of None \<Rightarrow> None | Some (v, _) \<Rightarrow> if ttl \<le> 0 then None else Some (v, Some (t + ttl))))\<rparr>"

definition SET_PX :: "int \<Rightarrow> string \<Rightarrow> string \<Rightarrow> int \<Rightarrow> msg_redis \<Rightarrow> msg_redis" where
  "SET_PX t k v ttl db = db\<lparr>locks := (locks db)(k \<mapsto> (v, Some (t + ttl)))\<rparr>"

definition STR_DEL :: "string \<Rightarrow> msg_redis \<Rightarrow> msg_redis" where
  "STR_DEL k db = db\<lparr>locks := (locks db)(k := None)\<rparr>"

definition on_base :: "(redis \<Rightarrow> redis) \<Rightarrow> msg_redis \<Rightarrow> msg_redis" where
  "on_base f db = db\<lparr>base := f (base db)\<rparr>"

definition at_msg :: "moment \<Rightarrow> (int \<Rightarrow> msg_redis \<Rightarrow> msg_redis \<times> 'r) \<Rightarrow> msg_redis \<Rightarrow> msg_redis \<times> 'r option" where
  "at_msg m f db = call (snd m) (f (fst m)) db"

section \<open>The cache\<close>

definition umqLockKey :: "int \<Rightarrow> string" where "umqLockKey i = ''umq:{'' @ decimal i @ ''}:lock''"
definition umqLastKey :: "int \<Rightarrow> string" where "umqLastKey i = ''umq:{'' @ decimal i @ ''}:last''"
definition umqLockIndexKey :: string where "umqLockIndexKey = ''umq:lock:index''"
definition umqLockIndexCleanupBatchSize :: int where "umqLockIndexCleanupBatchSize = 1000"

text \<open>TIME in milliseconds is the moment itself.\<close>

definition acquireLockScript :: "string \<Rightarrow> string \<Rightarrow> int \<Rightarrow> int \<Rightarrow> msg_redis \<Rightarrow> msg_redis \<times> int \<times> int" where
  "acquireLockScript key requestID ttl t db =
     (let cur = STR_GET t key db
      in if cur = Some requestID then (PEXPIRE t key ttl db, 1, t + ttl)
         else if cur \<noteq> None then (let pttl = PTTL t key db in (db, 0, if 0 < pttl then t + pttl else t))
         else (SET_PX t key requestID ttl db, 1, t + ttl))"

definition releaseLockScript :: "string \<Rightarrow> string \<Rightarrow> string \<Rightarrow> int \<Rightarrow> msg_redis \<Rightarrow> msg_redis \<times> int" where
  "releaseLockScript lockKey lastKey requestID t db =
     (if STR_GET t lockKey db = Some requestID
      then (on_base (\<lambda>b. EXPIRE_counter t lastKey 60 (SET lastKey t b)) (STR_DEL lockKey db), 1) else (db, 0))"

definition reconcileLockScript :: "string \<Rightarrow> int \<Rightarrow> msg_redis \<Rightarrow> msg_redis \<times> int \<times> int" where
  "reconcileLockScript key t db =
     (let pttl = PTTL t key db
      in if pttl = - 2 then (db, - 2, 0)
         else if pttl = - 1 then (STR_DEL key db, - 1, 0)
         else (db, 1, pttl))"

definition index_lock :: "int \<Rightarrow> string \<Rightarrow> moment \<Rightarrow> msg_redis \<Rightarrow> msg_redis" where
  "index_lock expireAtMs member m db = fst (at_msg m (\<lambda>t db. (on_base (ZADD t umqLockIndexKey expireAtMs member) db, ())) db)"

definition removeLockIndexMember :: "string \<Rightarrow> moment \<Rightarrow> msg_redis \<Rightarrow> msg_redis" where
  "removeLockIndexMember member m db = fst (at_msg m (\<lambda>t db. (on_base (ZREM t umqLockIndexKey member) db, ())) db)"

definition AcquireLock :: "int \<Rightarrow> string \<Rightarrow> int \<Rightarrow> moment \<Rightarrow> moment \<Rightarrow> msg_redis \<Rightarrow> msg_redis \<times> bool option" where
  "AcquireLock accountID requestID lockTtlMs m1 m2 db =
     (case at_msg m1 (acquireLockScript (umqLockKey accountID) requestID lockTtlMs) db of
        (db, None) \<Rightarrow> (db, None)
      | (db, Some (got, expireAtMs)) \<Rightarrow>
          (if 0 < expireAtMs then index_lock expireAtMs (decimal accountID) m2 db else db, Some (got = 1)))"

definition ReleaseLock :: "int \<Rightarrow> string \<Rightarrow> moment \<Rightarrow> moment \<Rightarrow> msg_redis \<Rightarrow> msg_redis \<times> bool option" where
  "ReleaseLock accountID requestID m1 m2 db =
     (case at_msg m1 (releaseLockScript (umqLockKey accountID) (umqLastKey accountID) requestID) db of
        (db, None) \<Rightarrow> (db, None)
      | (db, Some result) \<Rightarrow> (if result = 1 then removeLockIndexMember (decimal accountID) m2 db else db, Some (result = 1)))"

definition GetLastCompletedMs :: "int \<Rightarrow> moment \<Rightarrow> msg_redis \<Rightarrow> msg_redis \<times> int option" where
  "GetLastCompletedMs accountID m db =
     at_msg m (\<lambda>t db. (db, case GET t (umqLastKey accountID) (base db) of None \<Rightarrow> 0 | Some v \<Rightarrow> v)) db"

definition GetCurrentTimeMs :: "moment \<Rightarrow> msg_redis \<Rightarrow> msg_redis \<times> int option" where
  "GetCurrentTimeMs m db = at_msg m (\<lambda>t db. (db, t)) db"

text \<open>The candidates one after another, each with the moments of its script and of its write to the index.\<close>

fun reconcile_each :: "int \<Rightarrow> (nat \<Rightarrow> moment \<times> moment) \<Rightarrow> string list \<Rightarrow> int \<Rightarrow> msg_redis \<Rightarrow> msg_redis \<times> int \<times> bool" where
  "reconcile_each nowMs ms [] cleaned db = (db, cleaned, True)"
| "reconcile_each nowMs ms (candidate # candidates) cleaned db =
     (let (m1, m2) = ms 0; ms = (\<lambda>k. ms (Suc k))
      in case (case parse_int64 candidate of None \<Rightarrow> None | Some i \<Rightarrow> if i \<le> 0 then None else Some i) of
           None \<Rightarrow> reconcile_each nowMs ms candidates cleaned (removeLockIndexMember candidate m2 db)
         | Some accountID \<Rightarrow>
             (case at_msg m1 (reconcileLockScript (umqLockKey accountID)) db of
                (db, None) \<Rightarrow> (db, cleaned, False)
              | (db, Some (status, pttl)) \<Rightarrow>
                  (if status = - 2 then reconcile_each nowMs ms candidates cleaned (removeLockIndexMember candidate m2 db)
                   else if status = - 1 then reconcile_each nowMs ms candidates (cleaned + 1) (removeLockIndexMember candidate m2 db)
                   else reconcile_each nowMs ms candidates cleaned (index_lock (nowMs + pttl) candidate m2 db))))"

text \<open>The number of locks that were cleaned and whether there was no error.\<close>

definition ReconcileExpiredLockCandidates :: "int \<Rightarrow> moment \<Rightarrow> moment \<Rightarrow> (nat \<Rightarrow> moment \<times> moment) \<Rightarrow> msg_redis \<Rightarrow> msg_redis \<times> int \<times> bool" where
  "ReconcileExpiredLockCandidates maxCount m1 m2 ms db =
     (let maxCount = (if maxCount \<le> 0 then umqLockIndexCleanupBatchSize else maxCount)
      in case GetCurrentTimeMs m1 db of
           (db, None) \<Rightarrow> (db, 0, False)
         | (db, Some nowMs) \<Rightarrow>
             (case at_msg m2 (\<lambda>t db. (db, ZRANGEBYSCORE t umqLockIndexKey nowMs (nat maxCount) (base db))) db of
                (db, None) \<Rightarrow> (db, 0, False)
              | (db, Some candidates) \<Rightarrow> reconcile_each nowMs ms candidates 0 db))"

section \<open>The service\<close>

record QueueLockResult =
  lr_Acquired :: bool
  lr_RequestID :: string

text \<open>Without a cache (nil) and on an error the request goes on without a lock.\<close>

definition lock_ttl :: "int \<Rightarrow> int" where
  "lock_ttl LockTTLMs = (if LockTTLMs \<le> 0 then 120000 else LockTTLMs)"

definition TryAcquire :: "bool \<Rightarrow> int \<Rightarrow> int \<Rightarrow> string \<Rightarrow> moment \<Rightarrow> moment \<Rightarrow> msg_redis \<Rightarrow> msg_redis \<times> QueueLockResult" where
  "TryAcquire has_cache LockTTLMs accountID requestID m1 m2 db =
     (if \<not> has_cache then (db, \<lparr>lr_Acquired = True, lr_RequestID = []\<rparr>)
      else (case AcquireLock accountID requestID (lock_ttl LockTTLMs) m1 m2 db of
              (db, None) \<Rightarrow> (db, \<lparr>lr_Acquired = True, lr_RequestID = []\<rparr>)
            | (db, Some got) \<Rightarrow> (db, \<lparr>lr_Acquired = got, lr_RequestID = requestID\<rparr>)))"

definition umq_Release :: "bool \<Rightarrow> int \<Rightarrow> string \<Rightarrow> moment \<Rightarrow> moment \<Rightarrow> msg_redis \<Rightarrow> msg_redis" where
  "umq_Release has_cache accountID requestID m1 m2 db =
     (if \<not> has_cache \<or> requestID = [] then db else fst (ReleaseLock accountID requestID m1 m2 db))"

text \<open>The bounds of the delay, and what is left of a delay since the last completion: None is no delay.\<close>

definition delay_bounds :: "int \<Rightarrow> int \<Rightarrow> duration \<times> duration" where
  "delay_bounds MinDelayMs MaxDelayMs =
     (let minDelay = MinDelayMs * millisecond; maxDelay = MaxDelayMs * millisecond;
          minDelay = (if minDelay \<le> 0 then 200 * millisecond else minDelay);
          maxDelay = (if maxDelay \<le> 0 then 2000 * millisecond else maxDelay)
      in if maxDelay < minDelay then (maxDelay, minDelay) else (minDelay, maxDelay))"

definition EnforceDelay :: "bool \<Rightarrow> int \<Rightarrow> duration \<Rightarrow> moment \<Rightarrow> moment \<Rightarrow> msg_redis \<Rightarrow> msg_redis \<times> duration option" where
  "EnforceDelay has_cache accountID delay m1 m2 db =
     (if \<not> has_cache then (db, None)
      else (case GetLastCompletedMs accountID m1 db of
              (db, None) \<Rightarrow> (db, None)
            | (db, Some lastMs) \<Rightarrow>
                (if lastMs = 0 then (db, None)
                 else if delay \<le> 0 then (db, None)
                 else (case GetCurrentTimeMs m2 db of
                         (db, None) \<Rightarrow> (db, None)
                       | (db, Some nowMs) \<Rightarrow>
                           (let elapsed = (nowMs - lastMs) * millisecond; remaining = delay - elapsed
                            in if elapsed < 0 then (db, None) else if remaining \<le> 0 then (db, None) else (db, Some remaining))))))"

section \<open>The waiting request\<close>

text \<open>
  An attempt with the id it generates, the moments of its round trips, the delay by load and whether the
  context ends during the delay.
\<close>

record attempt =
  at_requestID :: string
  at_trips :: "nat \<Rightarrow> moment"
  at_delay :: duration
  at_cancelled :: bool

datatype wait_error = WaitTimeout | PingFailed | Cancelled

text \<open>The loop sees the end of the context, a ping and whether it was written, or the timer and an attempt.\<close>

datatype wait_event = ContextDone | PingDue bool | TimerFired attempt

type_synonym wait_result = "wait_error + string"

text \<open>One attempt: Some when the wait is over.\<close>

definition attempt_lock :: "bool \<Rightarrow> int \<Rightarrow> int \<Rightarrow> attempt \<Rightarrow> msg_redis \<Rightarrow> msg_redis \<times> wait_result option" where
  "attempt_lock has_cache LockTTLMs accountID x db =
     (let M = at_trips x; (db, result) = TryAcquire has_cache LockTTLMs accountID (at_requestID x) (M 0) (M 1) db
      in if \<not> lr_Acquired result then (db, None)
         else (let (db, remaining) = EnforceDelay has_cache accountID (at_delay x) (M 2) (M 3) db
               in if remaining \<noteq> None \<and> at_cancelled x
                  then (umq_Release has_cache accountID (lr_RequestID result) (M 4) (M 5) db, Some (Inl Cancelled))
                  else (db, Some (Inr (lr_RequestID result)))))"

fun waitForLockWithPing :: "bool \<Rightarrow> int \<Rightarrow> int \<Rightarrow> wait_event list \<Rightarrow> msg_redis \<Rightarrow> msg_redis \<times> wait_result option" where
  "waitForLockWithPing has_cache ttl accountID [] db = (db, None)"
| "waitForLockWithPing has_cache ttl accountID (ContextDone # es) db = (db, Some (Inl WaitTimeout))"
| "waitForLockWithPing has_cache ttl accountID (PingDue written # es) db =
     (if written then waitForLockWithPing has_cache ttl accountID es db else (db, Some (Inl PingFailed)))"
| "waitForLockWithPing has_cache ttl accountID (TimerFired x # es) db =
     (case attempt_lock has_cache ttl accountID x db of
        (db, Some r) \<Rightarrow> (db, Some r)
      | (db, None) \<Rightarrow> waitForLockWithPing has_cache ttl accountID es db)"

text \<open>The id to release, or an error; None while the events do not end the wait.\<close>

definition AcquireWithWait :: "bool \<Rightarrow> int \<Rightarrow> int \<Rightarrow> attempt \<Rightarrow> wait_event list \<Rightarrow> msg_redis \<Rightarrow> msg_redis \<times> wait_result option" where
  "AcquireWithWait has_cache LockTTLMs accountID first_attempt es db =
     (case attempt_lock has_cache LockTTLMs accountID first_attempt db of
        (db, Some r) \<Rightarrow> (db, Some r)
      | (db, None) \<Rightarrow> waitForLockWithPing has_cache LockTTLMs accountID es db)"


section \<open>Locks through round trips\<close>

text \<open>
  The round trips of all instances: an acquisition, a release, the check of a lock by the clean-up, and
  writes of other keys. The holdings are the requests whose acquisition took effect, until their time to
  live is over, without those that released.
\<close>

datatype lock_trip = TryLock int string int | Unlock int string | Recheck int | OtherKeys redis

type_synonym holding = "int \<times> string \<times> int"

fun lock_effect :: "lock_trip \<Rightarrow> int \<Rightarrow> msg_redis \<Rightarrow> msg_redis" where
  "lock_effect (TryLock i r ttl) t db = fst (acquireLockScript (umqLockKey i) r ttl t db)"
| "lock_effect (Unlock i r) t db = fst (releaseLockScript (umqLockKey i) (umqLastKey i) r t db)"
| "lock_effect (Recheck i) t db = fst (reconcileLockScript (umqLockKey i) t db)"
| "lock_effect (OtherKeys b) t db = db\<lparr>base := b\<rparr>"

definition forget :: "int \<Rightarrow> string \<Rightarrow> holding list \<Rightarrow> holding list" where
  "forget i r = filter (\<lambda>(j, q, u). \<not> (j = i \<and> q = r))"

fun new_holdings :: "lock_trip \<Rightarrow> int \<Rightarrow> msg_redis \<Rightarrow> holding list \<Rightarrow> holding list" where
  "new_holdings (TryLock i r ttl) t db hs =
     (if fst (snd (acquireLockScript (umqLockKey i) r ttl t db)) = 1 then (i, r, t + ttl) # forget i r hs else hs)"
| "new_holdings (Unlock i r) t db hs = forget i r hs"
| "new_holdings _ t db hs = hs"

fun run_locks :: "(int \<times> lock_trip) list \<Rightarrow> msg_redis \<times> holding list \<Rightarrow> msg_redis \<times> holding list" where
  "run_locks [] st = st"
| "run_locks ((t, x) # trips) (db, hs) = run_locks trips (lock_effect x t db, new_holdings x t db hs)"

fun lock_times :: "int \<Rightarrow> (int \<times> lock_trip) list \<Rightarrow> int option" where
  "lock_times t0 [] = Some t0"
| "lock_times t0 ((t, x) # trips) = (if t0 \<le> t \<and> (case x of TryLock i r ttl \<Rightarrow> 0 < ttl | _ \<Rightarrow> True) then lock_times t trips else None)"

lemma lock_key_inj [simp]: "umqLockKey i = umqLockKey j \<longleftrightarrow> i = j"
  by (simp add: umqLockKey_def digits_inj)

text \<open>Every holding that is not over has its lock.\<close>

definition holds_lock :: "int \<Rightarrow> msg_redis \<Rightarrow> holding \<Rightarrow> bool" where
  "holds_lock t db h = (case h of (i, r, u) \<Rightarrow> t < u \<longrightarrow> (\<exists>e. locks db (umqLockKey i) = Some (r, Some e) \<and> u \<le> e))"

definition locks_ok :: "int \<Rightarrow> msg_redis \<times> holding list \<Rightarrow> bool" where
  "locks_ok t st \<longleftrightarrow> (\<forall>h\<in>set (snd st). holds_lock t (fst st) h)"

lemma locks_later: "locks_ok t st \<Longrightarrow> t \<le> t' \<Longrightarrow> locks_ok t' st"
  by (fastforce simp: locks_ok_def holds_lock_def)

lemma alive_holding: "holds_lock t db (i, r, u) \<Longrightarrow> t < u \<Longrightarrow> STR_GET t (umqLockKey i) db = Some r \<and> 0 < PTTL t (umqLockKey i) db"
  by (auto simp: holds_lock_def STR_GET_def PTTL_def alive_def)

lemma not_held:
  assumes "STR_GET t (umqLockKey i) db \<noteq> Some r \<or> PTTL t (umqLockKey i) db \<le> 0" "holds_lock t db (i, r, u)"
  shows "holds_lock t db' (i, r, u)"
proof -
  have "\<not> t < u" using assms alive_holding[OF assms(2)] by linarith
  then show ?thesis by (simp add: holds_lock_def)
qed

lemma same_lock: "locks db' (umqLockKey j) = locks db (umqLockKey j) \<Longrightarrow> holds_lock t db (j, r, u) \<Longrightarrow> holds_lock t db' (j, r, u)"
  by (simp add: holds_lock_def)

lemma step_locks:
  assumes "locks_ok t (db, hs)" "\<And>i r ttl. x = TryLock i r ttl \<Longrightarrow> 0 < ttl"
  shows "locks_ok t (lock_effect x t db, new_holdings x t db hs)"
proof -
  have old: "\<And>j q u. (j, q, u) \<in> set hs \<Longrightarrow> holds_lock t db (j, q, u)" using assms(1) by (auto simp: locks_ok_def)
  show ?thesis
  proof (cases x)
    case (TryLock i r ttl)
    let ?k = "umqLockKey i" and ?db = "fst (acquireLockScript (umqLockKey i) r ttl t db)"
    have other: "locks ?db (umqLockKey j) = locks db (umqLockKey j)" if "j \<noteq> i" for j
      using that by (auto simp: acquireLockScript_def PEXPIRE_def SET_PX_def Let_def)
    show ?thesis
    proof (cases "fst (snd (acquireLockScript ?k r ttl t db)) = 1")
      case True
      have new: "holds_lock t ?db (i, r, t + ttl)"
        using True assms(2)[OF TryLock]
        by (auto simp: acquireLockScript_def PEXPIRE_def SET_PX_def STR_GET_def holds_lock_def Let_def split: if_splits option.splits)
      have "STR_GET t ?k db = Some r \<or> STR_GET t ?k db = None"
        using True by (auto simp: acquireLockScript_def Let_def split: if_splits)
      then have "holds_lock t ?db (j, q, u)" if "(j, q, u) \<in> set (forget i r hs)" for j q u
        using that old[of j q u] not_held[of t i db q u ?db] same_lock[OF other] by (cases "j = i") (auto simp: forget_def)
      then show ?thesis using new True by (auto simp: TryLock locks_ok_def)
    next
      case False
      then have "?db = db" by (auto simp: acquireLockScript_def Let_def split: if_splits)
      then show ?thesis using False assms(1) by (simp add: TryLock)
    qed
  next
    case (Unlock i r)
    let ?db = "fst (releaseLockScript (umqLockKey i) (umqLastKey i) r t db)"
    have "holds_lock t ?db (j, q, u)" if "(j, q, u) \<in> set (forget i r hs)" for j q u
    proof (cases "STR_GET t (umqLockKey i) db = Some r \<and> j = i")
      case True
      then show ?thesis using that old[of j q u] not_held[of t i db q u ?db] by (auto simp: forget_def)
    next
      case False
      have "locks ?db (umqLockKey j) = locks db (umqLockKey j)"
        using False by (auto simp: releaseLockScript_def STR_DEL_def on_base_def)
      then show ?thesis using that old[of j q u] same_lock by (auto simp: forget_def)
    qed
    then show ?thesis by (auto simp: Unlock locks_ok_def)
  next
    case (Recheck i)
    let ?db = "fst (reconcileLockScript (umqLockKey i) t db)"
    have "holds_lock t ?db (j, q, u)" if "(j, q, u) \<in> set hs" for j q u
    proof (cases "PTTL t (umqLockKey i) db = - 1 \<and> j = i")
      case True
      then show ?thesis using old[OF that] not_held[of t i db q u ?db] by simp
    next
      case False
      have "locks ?db (umqLockKey j) = locks db (umqLockKey j)"
        using False by (auto simp: reconcileLockScript_def STR_DEL_def Let_def)
      then show ?thesis using old[OF that] same_lock by blast
    qed
    then show ?thesis by (auto simp: Recheck locks_ok_def)
  next
    case (OtherKeys b)
    then show ?thesis using assms(1) by (simp add: locks_ok_def holds_lock_def case_prod_unfold)
  qed
qed

lemma run_locks_ok:
  "locks_ok t0 st \<Longrightarrow> lock_times t0 trips = Some t \<Longrightarrow> locks_ok t (run_locks trips st)"
proof (induction trips arbitrary: t0 st)
  case (Cons e trips)
  obtain s x db hs where e: "e = (s, x)" "st = (db, hs)" by (cases e, cases st) blast
  have le: "t0 \<le> s" and ttl: "\<And>i r ttl. x = TryLock i r ttl \<Longrightarrow> 0 < ttl" and rest: "lock_times s trips = Some t"
    using Cons.prems(2) by (auto simp: e split: if_splits)
  show ?case using Cons.IH[OF step_locks[OF locks_later[OF Cons.prems(1) le, unfolded e(2)] ttl] rest] by (simp add: e)
qed simp

text \<open>
  C16: One request at a time. Through all round trips of all instances, in any interleaving and with
  releases of requests that lost their lock among them, two requests whose acquisition of the lock of an
  account took effect, that have not released it and whose time to live is not over are the same request.
\<close>

theorem one_request_per_account:
  assumes "lock_times t0 trips = Some t" "run_locks trips (db, []) = (db', hs)"
    and "(i, r, u) \<in> set hs" "(i, r', u') \<in> set hs" "t < u" "t < u'"
  shows "r = r'"
proof -
  have "locks_ok t (db', hs)" using run_locks_ok[OF _ assms(1), of "(db, [])"] assms(2) by (simp add: locks_ok_def)
  then have h: "holds_lock t db' (i, r, u)" "holds_lock t db' (i, r', u')" using assms(3,4) by (auto simp: locks_ok_def)
  show ?thesis using alive_holding[OF h(1) assms(5)] alive_holding[OF h(2) assms(6)] by simp
qed

definition empty_msg :: msg_redis where "empty_msg = \<lparr>base = empty_redis, locks = (\<lambda>_. None)\<rparr>"

definition demo_trips :: "(int \<times> lock_trip) list" where
  "demo_trips = [(1, TryLock 7 ''a'' 50), (10, TryLock 7 ''b'' 50), (60, TryLock 7 ''b'' 50), (61, Unlock 7 ''a''), (62, TryLock 7 ''c'' 50), (63, Recheck 7)]"

theorem one_request_per_account_witness:
  "\<exists>r. (7, r, 110) \<in> set (snd (run_locks demo_trips (empty_msg, []))) \<and> r = ''b''"
proof -
  have run: "snd (run_locks demo_trips (empty_msg, [])) = [(7, ''b'', 110)]" by code_simp
  then obtain db' where db': "run_locks demo_trips (empty_msg, []) = (db', [(7, ''b'', 110)])" by (metis prod.collapse)
  have "lock_times 0 demo_trips = Some 63" by (simp add: demo_trips_def)
  then have "''b'' = ''b''" by (rule one_request_per_account[OF _ db', where i = 7 and u = 110 and u' = 110]) simp_all
  then show ?thesis using run by auto
qed


text \<open>What the operations do to the locks is what their round trips do.\<close>

definition lock_trips_of :: "(moment \<times> lock_trip) list \<Rightarrow> (int \<times> lock_trip) list" where
  "lock_trips_of xs = map (\<lambda>(m, x). (fst m, x)) (filter (\<lambda>(m, x). snd m \<noteq> Lost) xs)"

lemma at_msg_cases: "fst (at_msg m f db) = (if snd m = Lost then db else fst (f (fst m) db))" "snd m = Fine \<Longrightarrow> snd (at_msg m f db) = Some (snd (f (fst m) db))"
  by (cases "snd m"; simp add: at_msg_def)+

lemma index_locks [simp]: "locks (index_lock e k m db) = locks db" "locks (removeLockIndexMember k m db) = locks db"
  by (simp_all add: index_lock_def removeLockIndexMember_def at_msg_cases on_base_def)

lemma acquire_trip:
  "locks (fst (AcquireLock i r ttl m1 m2 db)) = locks (fst (run_locks (lock_trips_of [(m1, TryLock i r ttl)]) (db, hs)))"
  using at_msg_cases(1)[of m1 "acquireLockScript (umqLockKey i) r ttl" db]
  by (auto simp: AcquireLock_def lock_trips_of_def split: prod.split option.split)

lemma release_trip:
  "locks (fst (ReleaseLock i r m1 m2 db)) = locks (fst (run_locks (lock_trips_of [(m1, Unlock i r)]) (db, hs)))"
  using at_msg_cases(1)[of m1 "releaseLockScript (umqLockKey i) (umqLastKey i) r" db]
  by (auto simp: ReleaseLock_def lock_trips_of_def split: prod.split option.split)

section \<open>Answers\<close>

text \<open>An acquisition that arrives: granted when the lock is free or one's own, with the time at which the lock ends.\<close>

lemma acquire_answer:
  assumes "snd m1 = Fine"
  shows "snd (AcquireLock i r ttl m1 m2 db) = Some (STR_GET (fst m1) (umqLockKey i) db \<in> {None, Some r})"
  using assms by (auto simp: AcquireLock_def at_msg_def acquireLockScript_def Let_def split: prod.split)

lemma refused_unchanged:
  assumes "STR_GET (fst m1) (umqLockKey i) db \<notin> {None, Some r}"
  shows "locks (fst (AcquireLock i r ttl m1 m2 db)) = locks db"
  using assms unfolding acquire_trip[where hs = "[]"] by (auto simp: lock_trips_of_def acquireLockScript_def Let_def)

text \<open>
  C39: A lost reply blocks the queue. When the reply of an acquisition is lost, TryAcquire lets the request
  go on without an id, so its release does nothing; but the lock was taken, and until its time to live is
  over every other request for the account is refused.
\<close>

theorem lost_reply_blocks_queue:
  assumes "STR_GET (fst m1) (umqLockKey i) db = None" "snd m1 = LostAfter" "q \<noteq> r"
    and "TryAcquire True LockTTLMs i r m1 m2 db = (db', result)"
    and "fst m1 \<le> fst m3" "fst m3 < fst m1 + lock_ttl LockTTLMs" "snd m3 = Fine"
  shows "lr_Acquired result \<and> umq_Release True i (lr_RequestID result) m5 m6 db' = db' \<and> snd (AcquireLock i q ttl m3 m4 db') = Some False"
proof -
  have none: "snd (at_msg m1 f db) = None" for f :: "int \<Rightarrow> msg_redis \<Rightarrow> msg_redis \<times> int \<times> int"
    using assms(2) by (simp add: at_msg_def)
  have db': "db' = SET_PX (fst m1) (umqLockKey i) r (lock_ttl LockTTLMs) db" "result = \<lparr>lr_Acquired = True, lr_RequestID = []\<rparr>"
    using assms(1,2,4) none[of "acquireLockScript (umqLockKey i) r (lock_ttl LockTTLMs)"]
    by (auto simp: TryAcquire_def AcquireLock_def at_msg_def acquireLockScript_def Let_def split: prod.splits option.splits)
  have "STR_GET (fst m3) (umqLockKey i) db' = Some r" using assms(6) by (simp add: db' STR_GET_def SET_PX_def alive_def)
  then show ?thesis using acquire_answer[OF assms(7), of i q ttl m4 db'] assms(3) by (simp add: db' umq_Release_def)
qed

theorem lost_reply_blocks_queue_witness:
  "lr_Acquired (snd (TryAcquire True 0 7 ''a'' (1000, LostAfter) (1001, Fine) empty_msg))
   \<and> snd (AcquireLock 7 ''b'' 100 (120999, Fine) (120999, Fine) (fst (TryAcquire True 0 7 ''a'' (1000, LostAfter) (1001, Fine) empty_msg))) = Some False"
  using lost_reply_blocks_queue[of "(1000, LostAfter)" 7 empty_msg "''b''" "''a''" 0 "(1001, Fine)"
      "fst (TryAcquire True 0 7 ''a'' (1000, LostAfter) (1001, Fine) empty_msg)" "snd (TryAcquire True 0 7 ''a'' (1000, LostAfter) (1001, Fine) empty_msg)"
      "(120999, Fine)" _ _ 100 "(120999, Fine)"]
  by (simp add: STR_GET_def empty_msg_def alive_def lock_ttl_def)

section \<open>Locks without expiry\<close>

lemma index_get [simp]:
  "STR_GET t k (index_lock e c m db) = STR_GET t k db" "STR_GET t k (removeLockIndexMember c m db) = STR_GET t k db"
  "PTTL t k (index_lock e c m db) = PTTL t k db" "PTTL t k (removeLockIndexMember c m db) = PTTL t k db"
  by (simp_all add: STR_GET_def PTTL_def)

text \<open>The clean-up checks every candidate; a lock without expiry among them is gone afterwards, and none comes back.\<close>

lemma recheck_keeps_free:
  "locks db k = None \<Longrightarrow> locks (fst (reconcile_each nowMs ms candidates n db)) k = None"
proof (induction candidates arbitrary: ms n db)
  case (Cons c cs)
  have free: "locks (fst (at_msg m (reconcileLockScript (umqLockKey j)) db)) k = None" for m j
    using Cons.prems by (simp add: at_msg_cases reconcileLockScript_def STR_DEL_def Let_def)
  show ?case
  proof (cases "case parse_int64 c of None \<Rightarrow> None | Some i \<Rightarrow> if i \<le> 0 then None else Some i")
    case None
    then show ?thesis using Cons.IH[of "removeLockIndexMember c (snd (ms 0)) db"] Cons.prems by (simp add: case_prod_unfold Let_def)
  next
    case (Some j)
    obtain d r where d: "at_msg (fst (ms 0)) (reconcileLockScript (umqLockKey j)) db = (d, r)" by force
    then have "locks d k = None" using free[of "fst (ms 0)" j] by simp
    then show ?thesis using Cons.IH by (auto simp: Some d case_prod_unfold Let_def split: option.split)
  qed
qed simp

lemma recheck_frees:
  assumes "\<And>j. snd (fst (ms j)) = Fine" "decimal i \<in> set candidates" "0 < i" "i \<le> max_int64"
    and "\<exists>r. locks db (umqLockKey i) = Some (r, None)"
  shows "locks (fst (reconcile_each nowMs ms candidates n db)) (umqLockKey i) = None"
  using assms(1,2,5)
proof (induction candidates arbitrary: ms n db)
  case (Cons c cs)
  show ?case
  proof (cases "c = decimal i")
    case True
    have own: "parse_int64 c = Some i" using parse_decimal assms(3,4) True by simp
    have "PTTL t (umqLockKey i) db = - 1" for t using Cons.prems(3) by (auto simp: PTTL_def alive_def)
    then have "at_msg (fst (ms 0)) (reconcileLockScript (umqLockKey i)) db = (STR_DEL (umqLockKey i) db, Some (- 1, 0))"
      using Cons.prems(1)[of 0] by (simp add: at_msg_def reconcileLockScript_def)
    then show ?thesis using own assms(3) recheck_keeps_free by (simp add: case_prod_unfold Let_def STR_DEL_def)
  next
    case False
    then have mem: "decimal i \<in> set cs" using Cons.prems(2) by simp
    note IH = Cons.IH[where ms = "\<lambda>k. ms (Suc k)", OF Cons.prems(1) mem]
    show ?thesis
    proof (cases "case parse_int64 c of None \<Rightarrow> None | Some i \<Rightarrow> if i \<le> 0 then None else Some i")
      case None
      then show ?thesis using IH[of "removeLockIndexMember c (snd (ms 0)) db"] Cons.prems(3) by (simp add: case_prod_unfold Let_def)
    next
      case (Some j)
      obtain d status pttl where d: "at_msg (fst (ms 0)) (reconcileLockScript (umqLockKey j)) db = (d, Some (status, pttl))"
        using Cons.prems(1)[of 0] by (metis at_msg_cases(2) prod.collapse)
      have "locks d (umqLockKey i) = locks db (umqLockKey i) \<or> locks d (umqLockKey i) = None"
        using at_msg_cases(1)[of "fst (ms 0)" "reconcileLockScript (umqLockKey j)" db] d Cons.prems(1)[of 0]
        by (auto simp: reconcileLockScript_def STR_DEL_def Let_def split: if_splits)
      then show ?thesis
      proof
        assume same: "locks d (umqLockKey i) = locks db (umqLockKey i)"
        then have "\<exists>r. locks d (umqLockKey i) = Some (r, None)" using Cons.prems(3) by simp
        then show ?thesis using IH by (simp add: Some d case_prod_unfold Let_def)
      next
        assume "locks d (umqLockKey i) = None"
        then show ?thesis using recheck_keeps_free by (simp add: Some d case_prod_unfold Let_def)
      qed
    qed
  qed
qed simp


definition index_forever :: "msg_redis \<Rightarrow> bool" where
  "index_forever db \<longleftrightarrow> (case sets (base db) umqLockIndexKey of None \<Rightarrow> True | Some (z, x) \<Rightarrow> x = None)"

lemma indexed_found:
  assumes "index_forever db" "int (length (members t2 umqLockIndexKey (base db))) < n" "s \<le> now"
    and "base db' = ZADD t2 umqLockIndexKey s k (base db)"
  shows "k \<in> set (ZRANGEBYSCORE t4 umqLockIndexKey now (nat n) (base db'))"
proof -
  let ?z = "aput k s (members t2 umqLockIndexKey (base db))"
  have "?z \<noteq> []" by (cases "members t2 umqLockIndexKey (base db)") auto
  moreover have "Option.bind (alive t2 (sets (base db) umqLockIndexKey)) snd = None"
    using assms(1) by (auto simp: index_forever_def alive_def split: option.splits)
  ultimately have z: "members t4 umqLockIndexKey (base db') = ?z"
    by (simp add: assms(4) ZADD_def put_members_def members_def alive_def)
  let ?f = "filter (\<lambda>p. snd p \<le> now) ?z"
  have "length ?f \<le> nat n"
    using assms(2) length_filter_le[of "\<lambda>p. snd p \<le> now" ?z] length_aput_le[of k s "members t2 umqLockIndexKey (base db)"] by linarith
  then have "take (nat n) (map fst (sort_key (\<lambda>p. (snd p, fst p)) ?f)) = map fst (sort_key (\<lambda>p. (snd p, fst p)) ?f)" by simp
  moreover have "(k, s) \<in> set ?z" using map_of_SomeD[of ?z k s] by (simp add: aget_aput)
  ultimately show ?thesis using assms(3) by (force simp: ZRANGEBYSCORE_def z)
qed

text \<open>
  A lock that never expires is healed. When the lock of an account has no expiry (it was written by an
  older version, or the expiry was lost), a request that asks for it is refused but puts the account into
  the index of locks, and the next clean-up that reaches Redis, with room for all candidates, deletes the
  lock: the queue is not blocked for ever.
\<close>

theorem stuck_lock_healed:
  assumes "locks db (umqLockKey i) = Some (r, None)" "r \<noteq> q" "0 < i" "i \<le> max_int64" "0 < fst m1"
    and "AcquireLock i q ttl m1 m2 db = (db1, answer)" "snd m1 = Fine" "snd m2 = Fine"
    and "index_forever db" "int (length (members (fst m2) umqLockIndexKey (base db))) < maxCount"
    and "ReconcileExpiredLockCandidates maxCount m3 m4 ms db1 = (db2, cleaned)" "snd m3 = Fine" "snd m4 = Fine" "\<And>j. snd (fst (ms j)) = Fine"
    and "fst m1 \<le> fst m3"
  shows "answer = Some False \<and> locks db2 (umqLockKey i) = None"
proof -
  have stuck: "STR_GET t (umqLockKey i) db = Some r" "PTTL t (umqLockKey i) db = - 1" for t
    using assms(1) by (simp_all add: STR_GET_def PTTL_def alive_def)
  have db1: "db1 = index_lock (fst m1) (decimal i) m2 db" "answer = Some False"
    using assms(2,5-7) stuck by (auto simp: AcquireLock_def at_msg_def acquireLockScript_def Let_def)
  have base1: "base db1 = ZADD (fst m2) umqLockIndexKey (fst m1) (decimal i) (base db)"
    using assms(8) by (simp add: db1 index_lock_def at_msg_def on_base_def)
  have "int (length (members (fst m2) umqLockIndexKey (base db))) \<ge> 0" by simp
  then have "0 < maxCount" using assms(10) by linarith
  then have run: "db2 = fst (reconcile_each (fst m3) ms (ZRANGEBYSCORE (fst m4) umqLockIndexKey (fst m3) (nat maxCount) (base db1)) 0 db1)"
    using assms(11-13) by (auto simp: ReconcileExpiredLockCandidates_def GetCurrentTimeMs_def at_msg_def)
  have "\<exists>r. locks db1 (umqLockKey i) = Some (r, None)" using assms(1) by (simp add: db1)
  then show ?thesis
    unfolding run using recheck_frees[where ms = ms, OF assms(14) indexed_found[OF assms(9,10,15) base1] assms(3,4)] db1(2) by blast
qed

definition stuck_msg :: msg_redis where
  "stuck_msg = empty_msg\<lparr>locks := (\<lambda>_. None)(umqLockKey 7 \<mapsto> (''old'', None))\<rparr>"

theorem stuck_lock_healed_witness:
  "locks (fst (ReconcileExpiredLockCandidates 1000 (5000, Fine) (5001, Fine) (\<lambda>_. ((5002, Fine), 5003, Fine))
     (fst (AcquireLock 7 ''a'' 100 (1000, Fine) (1001, Fine) stuck_msg)))) (umqLockKey 7) = None"
  using stuck_lock_healed[OF _ _ _ _ _ prod.collapse[symmetric] _ _ _ _ prod.collapse[symmetric], where db = stuck_msg and i = 7 and r = "''old''" and q = "''a''"
      and ?m1.0 = "(1000, Fine)" and ?m2.0 = "(1001, Fine)" and maxCount = 1000 and ?m3.0 = "(5000, Fine)" and ?m4.0 = "(5001, Fine)" and ms = "\<lambda>_. ((5002, Fine), 5003, Fine)"
      and ttl = 100]
  by (simp add: stuck_msg_def empty_msg_def empty_redis_def index_forever_def members_def alive_def max_int64_def)

section \<open>Requests that give up\<close>

definition all_fine :: "attempt list \<Rightarrow> bool" where
  "all_fine xs \<longleftrightarrow> list_all (\<lambda>x. at_requestID x \<noteq> [] \<and> (\<forall>k<6. snd (at_trips x k) = Fine)) xs"

definition attempts :: "wait_event list \<Rightarrow> attempt list" where
  "attempts es = concat (map (\<lambda>e. case e of TimerFired x \<Rightarrow> [x] | _ \<Rightarrow> []) es)"

text \<open>None of these requests has the lock from a time on.\<close>

definition without_lock :: "int \<Rightarrow> int \<Rightarrow> attempt list \<Rightarrow> msg_redis \<Rightarrow> bool" where
  "without_lock t i xs db \<longleftrightarrow> list_all (\<lambda>x. STR_GET t (umqLockKey i) db \<noteq> Some (at_requestID x)) xs"

definition before :: "int \<Rightarrow> attempt list \<Rightarrow> bool" where
  "before t xs \<longleftrightarrow> list_all (\<lambda>x. \<forall>k<6. fst (at_trips x k) \<le> t) xs"

lemma get_later: "STR_GET t k db = None \<Longrightarrow> t \<le> t' \<Longrightarrow> STR_GET t' k db = None"
  by (auto simp: STR_GET_def alive_def split: option.splits if_splits)

lemma delay_keeps: "fst (EnforceDelay h i d m1 m2 db) = db"
  by (cases "snd m1"; cases "snd m2")
    (auto simp: EnforceDelay_def GetLastCompletedMs_def GetCurrentTimeMs_def at_msg_def Let_def)

lemma release_frees:
  assumes "snd m1 = Fine" "r \<noteq> []" "fst m1 \<le> t"
  shows "STR_GET t (umqLockKey i) (umq_Release True i r m1 m2 db) \<noteq> Some r"
    and "STR_GET t (umqLockKey i) (umq_Release True i r m1 m2 db) \<in> {STR_GET t (umqLockKey i) db, None}"
proof -
  have run: "locks (umq_Release True i r m1 m2 db) = locks (fst (releaseLockScript (umqLockKey i) (umqLastKey i) r (fst m1) db))"
    using assms(1,2) release_trip[of i r m1 m2 db "[]"] by (simp add: umq_Release_def lock_trips_of_def)
  have same: "locks d = locks e \<Longrightarrow> STR_GET t k d = STR_GET t k e" for d e :: msg_redis and k by (simp add: STR_GET_def)
  have "STR_GET t (umqLockKey i) (umq_Release True i r m1 m2 db) =
      (if STR_GET (fst m1) (umqLockKey i) db = Some r then None else STR_GET t (umqLockKey i) db)"
  proof -
    have "locks (umq_Release True i r m1 m2 db) = (if STR_GET (fst m1) (umqLockKey i) db = Some r then (locks db)(umqLockKey i := None) else locks db)"
      unfolding run by (simp add: releaseLockScript_def STR_DEL_def on_base_def)
    then show ?thesis by (simp add: STR_GET_def[of t] alive_def split: if_splits)
  qed
  moreover have "STR_GET (fst m1) (umqLockKey i) db \<noteq> Some r \<Longrightarrow> STR_GET t (umqLockKey i) db \<noteq> Some r"
    using assms(3) by (auto simp: STR_GET_def alive_def split: option.splits if_splits)
  ultimately show "STR_GET t (umqLockKey i) (umq_Release True i r m1 m2 db) \<noteq> Some r"
    "STR_GET t (umqLockKey i) (umq_Release True i r m1 m2 db) \<in> {STR_GET t (umqLockKey i) db, None}"
    by auto
qed

lemma try_fine:
  assumes "snd (at_trips x 0) = Fine" "TryAcquire True ttl i (at_requestID x) (at_trips x 0) (at_trips x (Suc 0)) db = (d, res)"
  shows "lr_RequestID res = at_requestID x \<and> lr_Acquired res = (STR_GET (fst (at_trips x 0)) (umqLockKey i) db \<in> {None, Some (at_requestID x)})
    \<and> (\<not> lr_Acquired res \<longrightarrow> locks d = locks db)
    \<and> locks d = locks (fst (acquireLockScript (umqLockKey i) (at_requestID x) (lock_ttl ttl) (fst (at_trips x 0)) db))"
proof -
  let ?a = "AcquireLock i (at_requestID x) (lock_ttl ttl) (at_trips x 0) (at_trips x (Suc 0)) db"
  have "snd ?a = Some (STR_GET (fst (at_trips x 0)) (umqLockKey i) db \<in> {None, Some (at_requestID x)})"
    by (rule acquire_answer[OF assms(1)])
  then have run: "d = fst ?a" "res = \<lparr>lr_Acquired = (STR_GET (fst (at_trips x 0)) (umqLockKey i) db \<in> {None, Some (at_requestID x)}), lr_RequestID = at_requestID x\<rparr>"
    using assms(2) by (auto simp: TryAcquire_def split: prod.splits)
  show ?thesis
    using refused_unchanged[of "at_trips x 0" i db "at_requestID x" "lock_ttl ttl" "at_trips x (Suc 0)"]
      acquire_trip[of i "at_requestID x" "lock_ttl ttl" "at_trips x 0" "at_trips x (Suc 0)" db "[]"] assms(1)
    unfolding run by (simp add: lock_trips_of_def)
qed

text \<open>
  An attempt that ends the wait with an error has released; one that does not end it has changed no lock.
  The lock it took replaced one that was over.
\<close>

lemma attempt_without:
  assumes "attempt_lock True ttl i x db = (db', ro)" "all_fine [x]" "before t [x]" "without_lock t i xs db" "\<And>s. ro \<noteq> Some (Inr s)" "x \<in> set xs"
  shows "without_lock t i xs db'"
proof -
  let ?M = "at_trips x" and ?k = "umqLockKey i"
  obtain d res where d: "TryAcquire True ttl i (at_requestID x) (?M 0) (?M (Suc 0)) db = (d, res)" by force
  have fine: "snd (?M 0) = Fine" "snd (?M 4) = Fine" "at_requestID x \<noteq> []" "fst (?M 4) \<le> t" "fst (?M 0) \<le> t"
    using assms(2,3) by (simp_all add: all_fine_def before_def)
  note f = try_fine[OF fine(1) d]
  have same: "locks d1 = locks d2 \<Longrightarrow> STR_GET t ?k d1 = STR_GET t ?k d2" for d1 d2 :: msg_redis by (simp add: STR_GET_def)
  show ?thesis
  proof (cases "lr_Acquired res")
    case False
    then have "db' = d" using assms(1) by (simp add: attempt_lock_def d Let_def)
    then show ?thesis using f False assms(4) same[of d db] by (simp add: without_lock_def)
  next
    case True
    have db': "db' = umq_Release True i (at_requestID x) (?M 4) (?M 5) d"
      using assms(1,5) True f delay_keeps[of True i "at_delay x" "?M 2" "?M 3" d]
      by (auto simp: attempt_lock_def d Let_def case_prod_unfold split: if_splits)
    have own: "STR_GET t ?k d \<in> {None, Some (at_requestID x)}"
    proof -
      have "STR_GET (fst (?M 0)) ?k db \<in> {None, Some (at_requestID x)}" using f True by simp
      then have "locks d ?k = None \<or> (\<exists>e. locks d ?k = Some (at_requestID x, e))"
        using f by (auto simp: acquireLockScript_def PEXPIRE_def SET_PX_def STR_GET_def Let_def split: option.splits if_splits)
      then show ?thesis by (auto simp: STR_GET_def alive_def split: if_splits)
    qed
    show ?thesis
      using release_frees[OF fine(2,3,4), of i "?M 5" d] own unfolding db' without_lock_def by (auto simp: list_all_iff)
  qed
qed

lemma wait_without:
  assumes "all_fine (attempts es)" "before t (attempts es)" "set (attempts es) \<subseteq> set xs"
  shows "without_lock t i xs db \<Longrightarrow> waitForLockWithPing True ttl i es db = (db', Some (Inl e)) \<Longrightarrow> without_lock t i xs db'"
  using assms
proof (induction es arbitrary: db)
  case (Cons ev es)
  show ?case
  proof (cases ev)
    case (TimerFired x)
    obtain d ro where d: "attempt_lock True ttl i x db = (d, ro)" by force
    have x: "all_fine [x]" "before t [x]" "x \<in> set xs" and rest: "all_fine (attempts es)" "before t (attempts es)" "set (attempts es) \<subseteq> set xs"
      using Cons.prems(3-5) by (auto simp: attempts_def TimerFired all_fine_def before_def)
    have "ro \<noteq> Some (Inr s)" for s using Cons.prems(2) by (auto simp: TimerFired d)
    from attempt_without[OF d x(1,2) Cons.prems(1) this x(3)] have "without_lock t i xs d" .
    then show ?thesis using Cons.IH[of d] Cons.prems(2) rest by (cases ro) (auto simp: TimerFired d)
  qed (use Cons in \<open>auto simp: attempts_def split: if_splits\<close>)
qed simp

text \<open>
  C28: A request that gives up holds no lock. When AcquireWithWait ends with an error (its context ended
  while it waited or during the delay, or a ping could not be written), every round trip of its attempts
  was answered by Redis and their ids are not empty, then no attempt it made holds the lock of the account from then on, if none held it before: the lock
  that it had just taken when the delay was cut short was released.
\<close>

theorem given_up_without_lock:
  assumes "AcquireWithWait True LockTTLMs i x es db = (db', Some (Inl e))"
    and "all_fine (x # attempts es)" "before t (x # attempts es)" "without_lock t i (x # attempts es) db"
  shows "without_lock t i (x # attempts es) db'"
proof -
  let ?xs = "x # attempts es"
  obtain d ro where d: "attempt_lock True LockTTLMs i x db = (d, ro)" by force
  have x: "all_fine [x]" "before t [x]" "x \<in> set ?xs" and rest: "all_fine (attempts es)" "before t (attempts es)" "set (attempts es) \<subseteq> set ?xs"
    using assms(2,3) by (auto simp: all_fine_def before_def)
  have "ro \<noteq> Some (Inr s)" for s using assms(1) by (auto simp: AcquireWithWait_def d)
  from attempt_without[OF d x(1,2) assms(4) this x(3)] have "without_lock t i ?xs d" .
  then show ?thesis using wait_without[OF rest] assms(1) by (cases ro) (auto simp: AcquireWithWait_def d)
qed

definition demo_attempt :: "string \<Rightarrow> int \<Rightarrow> bool \<Rightarrow> attempt" where
  "demo_attempt r t cancelled = \<lparr>at_requestID = r, at_trips = (\<lambda>k. (t + int k, Fine)), at_delay = 10 * second, at_cancelled = cancelled\<rparr>"

definition busy_msg :: msg_redis where
  "busy_msg = empty_msg\<lparr>base := empty_redis\<lparr>counts := (\<lambda>_. None)(umqLastKey 7 \<mapsto> (2, Some 60002))\<rparr>\<rparr>"

definition given_up :: "msg_redis \<times> wait_result option" where
  "given_up = AcquireWithWait True 0 7 (demo_attempt ''a'' 100 True) [] busy_msg"

theorem given_up_without_lock_witness:
  "snd given_up = Some (Inl Cancelled) \<and> without_lock 200 7 (demo_attempt ''a'' 100 True # attempts []) (fst given_up)"
proof
  show run: "snd given_up = Some (Inl Cancelled)"
    by (simp add: given_up_def AcquireWithWait_def attempt_lock_def TryAcquire_def AcquireLock_def at_msg_def acquireLockScript_def demo_attempt_def
        lock_ttl_def STR_GET_def busy_msg_def empty_msg_def alive_def SET_PX_def index_lock_def on_base_def EnforceDelay_def GetLastCompletedMs_def
        GetCurrentTimeMs_def GET_def empty_redis_def ZADD_def put_members_def members_def duration_units Let_def)
  have eq: "AcquireWithWait True 0 7 (demo_attempt ''a'' 100 True) [] busy_msg = (fst given_up, Some (Inl Cancelled))"
    using surjective_pairing[of given_up] unfolding run given_up_def[symmetric] .
  have fine: "all_fine (demo_attempt ''a'' 100 True # attempts [])" "before 200 (demo_attempt ''a'' 100 True # attempts [])"
    by (simp_all add: all_fine_def before_def attempts_def demo_attempt_def)
  have "without_lock 200 7 (demo_attempt ''a'' 100 True # attempts []) busy_msg" by code_simp
  from given_up_without_lock[OF eq fine this]
  show "without_lock 200 7 (demo_attempt ''a'' 100 True # attempts []) (fst given_up)" .
qed

end
