(* ===== verification/Image_Limiter.thy ===== *)
theory Image_Limiter
  imports Gateway_Prelude
begin

text \<open>
  The limiter of concurrent image requests in one process (handler/image_concurrency_limiter.go): what
  its methods do under the mutex, and the requests that run through them as a step relation, one step per
  critical section or end of a wait.

  \<^item> A channel is the number of its generation; the channels before the current one are closed.
  \<^item> A release function acts once: a request that has released is done.
\<close>

section \<open>The limiter\<close>

record imageConcurrencyLimiter =
  il_notify :: "nat option"
  il_fresh :: nat
  il_limit :: int
  il_active :: int
  il_waiting :: int
  il_enabled :: bool

definition zero_limiter :: imageConcurrencyLimiter where
  "zero_limiter = \<lparr>il_notify = None, il_fresh = 0, il_limit = 0, il_active = 0, il_waiting = 0, il_enabled = False\<rparr>"

text \<open>make(chan struct{}): a channel that was never used.\<close>

definition make_channel :: "imageConcurrencyLimiter \<Rightarrow> imageConcurrencyLimiter" where
  "make_channel l = l\<lparr>il_notify := Some (il_fresh l), il_fresh := il_fresh l + 1\<rparr>"

datatype try_result = TryAcquired | TryRefused | TryWaits nat

definition tryAcquireLocked :: "bool \<Rightarrow> int \<Rightarrow> bool \<Rightarrow> int \<Rightarrow> imageConcurrencyLimiter \<Rightarrow> imageConcurrencyLimiter \<times> try_result" where
  "tryAcquireLocked enabled limit wait maxWaiting l =
     (let l = (if il_notify l = None then make_channel l else l);
          l = (if il_enabled l \<noteq> enabled \<or> il_limit l \<noteq> limit then l\<lparr>il_enabled := enabled, il_limit := limit\<rparr> else l)
      in if il_active l < il_limit l then (l\<lparr>il_active := il_active l + 1\<rparr>, TryAcquired)
         else if \<not> wait then (l, TryRefused)
         else if 0 < maxWaiting \<and> maxWaiting \<le> il_waiting l then (l, TryRefused)
         else (l\<lparr>il_waiting := il_waiting l + 1\<rparr>, TryWaits (the (il_notify l))))"

definition releaseFunc :: "imageConcurrencyLimiter \<Rightarrow> imageConcurrencyLimiter" where
  "releaseFunc l =
     (let l = (if 0 < il_active l then l\<lparr>il_active := il_active l - 1\<rparr> else l)
      in if il_notify l \<noteq> None then make_channel l else l)"

definition waiterReleaseFunc :: "imageConcurrencyLimiter \<Rightarrow> imageConcurrencyLimiter" where
  "waiterReleaseFunc l = (if 0 < il_waiting l then l\<lparr>il_waiting := il_waiting l - 1\<rparr> else l)"

text \<open>A channel is closed when it is no longer the one that new waiters get.\<close>

definition closed :: "imageConcurrencyLimiter \<Rightarrow> nat \<Rightarrow> bool" where
  "closed l ch = (il_notify l \<noteq> Some ch)"

section \<open>Requests\<close>

text \<open>
  How a request asks, and where it is: before tryAcquireLocked; waiting on a channel; woken or out of
  time but still counted; with a slot; refused; done; or passed without the limiter.
\<close>

record ask =
  ask_enabled :: bool
  ask_limit :: int
  ask_wait :: bool
  ask_timeout :: duration
  ask_maxWaiting :: int

datatype place = Trying | Waiting nat | Woken | OutOfTime | Running | Refused | Finished | Unlimited

text \<open>Before the loop: no limit, or no time to wait.\<close>

definition acquire_start :: "ask \<Rightarrow> place" where
  "acquire_start a =
     (if \<not> ask_enabled a \<or> ask_limit a \<le> 0 then Unlimited
      else if ask_wait a \<and> ask_timeout a \<le> 0 then Refused
      else Trying)"

definition max_waiting :: "ask \<Rightarrow> int" where
  "max_waiting a = (if ask_maxWaiting a < 0 then 0 else ask_maxWaiting a)"

definition acquire_try :: "ask \<Rightarrow> imageConcurrencyLimiter \<Rightarrow> imageConcurrencyLimiter \<times> place" where
  "acquire_try a l =
     (case tryAcquireLocked (ask_enabled a) (ask_limit a) (ask_wait a) (max_waiting a) l of
        (l, TryAcquired) \<Rightarrow> (l, Running)
      | (l, TryRefused) \<Rightarrow> (l, Refused)
      | (l, TryWaits ch) \<Rightarrow> (l, Waiting ch))"

type_synonym limiter_state = "imageConcurrencyLimiter \<times> (nat \<Rightarrow> place)"

inductive image_step :: "(nat \<Rightarrow> ask) \<Rightarrow> limiter_state \<Rightarrow> limiter_state \<Rightarrow> bool" for asks where
  try_step: "ps p = Trying \<Longrightarrow> acquire_try (asks p) l = (l', q) \<Longrightarrow> image_step asks (l, ps) (l', ps(p := q))"
| wake_step: "ps p = Waiting ch \<Longrightarrow> closed l ch \<Longrightarrow> image_step asks (l, ps) (l, ps(p := Woken))"
| timeout_step: "ps p = Waiting ch \<Longrightarrow> image_step asks (l, ps) (l, ps(p := OutOfTime))"
| again_step: "ps p = Woken \<Longrightarrow> image_step asks (l, ps) (waiterReleaseFunc l, ps(p := Trying))"
| leave_step: "ps p = OutOfTime \<Longrightarrow> image_step asks (l, ps) (waiterReleaseFunc l, ps(p := Refused))"
| release_step: "ps p = Running \<Longrightarrow> image_step asks (l, ps) (releaseFunc l, ps(p := Finished))"

inductive image_reach :: "(nat \<Rightarrow> ask) \<Rightarrow> nat \<Rightarrow> limiter_state \<Rightarrow> bool" for asks n where
  start: "image_reach asks n (zero_limiter, \<lambda>p. if p < n then acquire_start (asks p) else Finished)"
| step: "image_reach asks n st \<Longrightarrow> image_step asks st st' \<Longrightarrow> image_reach asks n st'"

inductive_cases image_stepE: "image_step asks (l, ps) (l', ps')"


section \<open>Invariants\<close>

text \<open>The number of requests in a place.\<close>

definition number_in :: "(place \<Rightarrow> bool) \<Rightarrow> nat \<Rightarrow> (nat \<Rightarrow> place) \<Rightarrow> int" where
  "number_in P n ps = (\<Sum>p<n. of_bool (P (ps p)))"

lemma number_in_update:
  assumes "p < n"
  shows "number_in P n (ps(p := q)) = number_in P n ps - of_bool (P (ps p)) + of_bool (P q)"
proof -
  have "(\<Sum>i\<in>{..<n} - {p}. of_bool (P ((ps(p := q)) i))) = (\<Sum>i\<in>{..<n} - {p}. of_bool (P (ps i)) :: int)"
    by (rule sum.cong) auto
  then show ?thesis
    using assms sum.remove[of "{..<n}" p "\<lambda>i. of_bool (P ((ps(p := q)) i)) :: int"] sum.remove[of "{..<n}" p "\<lambda>i. of_bool (P (ps i)) :: int"]
    by (simp add: number_in_def)
qed

lemma number_in_pos: "p < n \<Longrightarrow> P (ps p) \<Longrightarrow> 0 < number_in P n ps"
  unfolding number_in_def by (rule sum_pos2[of _ p]) auto

lemma number_in_some: "0 < number_in P n ps \<Longrightarrow> \<exists>p<n. P (ps p)"
proof (rule ccontr)
  assume pos: "0 < number_in P n ps" and "\<not> (\<exists>p<n. P (ps p))"
  then have "number_in P n ps = 0" unfolding number_in_def by (intro sum.neutral) auto
  with pos show False by simp
qed

fun queued :: "place \<Rightarrow> bool" where
  "queued (Waiting ch) = True" | "queued Woken = True" | "queued OutOfTime = True" | "queued _ = False"

text \<open>The counters count, nobody else moves, and channels are used once.\<close>

definition limiter_counts :: "nat \<Rightarrow> limiter_state \<Rightarrow> bool" where
  "limiter_counts n st \<longleftrightarrow> il_active (fst st) = number_in (\<lambda>q. q = Running) n (snd st) \<and> il_waiting (fst st) = number_in queued n (snd st)
     \<and> (\<forall>p. n \<le> p \<longrightarrow> snd st p = Finished)"

definition limiter_channels :: "limiter_state \<Rightarrow> bool" where
  "limiter_channels st \<longleftrightarrow> (\<forall>ch. il_notify (fst st) = Some ch \<longrightarrow> ch < il_fresh (fst st))
     \<and> (\<forall>p ch. snd st p = Waiting ch \<longrightarrow> ch < il_fresh (fst st) \<and> il_notify (fst st) \<noteq> None)
     \<and> (\<forall>p. snd st p = Running \<longrightarrow> il_notify (fst st) \<noteq> None)"

lemmas try_defs = acquire_try_def tryAcquireLocked_def make_channel_def Let_def

lemma try_cases:
  assumes "acquire_try a l = (l', q)"
  obtains (run) "q = Running" "il_active l < ask_limit a" "il_active l' = il_active l + 1" "il_waiting l' = il_waiting l"
  | (refuse) "q = Refused" "il_active l' = il_active l" "il_waiting l' = il_waiting l"
  | (wait) ch where "q = Waiting ch" "il_notify l' = Some ch" "il_active l' = il_active l" "ask_limit a \<le> il_active l" "il_waiting l' = il_waiting l + 1"
  using assms by (force simp: try_defs split: if_splits)

lemma try_channel:
  assumes "acquire_try a l = (l', q)"
  shows "il_notify l' \<noteq> None" "il_notify l \<noteq> None \<Longrightarrow> il_notify l' = il_notify l" "il_fresh l \<le> il_fresh l'"
    "il_notify l = None \<Longrightarrow> il_notify l' = Some (il_fresh l) \<and> il_fresh l' = il_fresh l + 1"
  using assms by (auto simp: try_defs split: if_splits)

lemma release_fields [simp]:
  "il_active (releaseFunc l) = (if 0 < il_active l then il_active l - 1 else il_active l)" "il_waiting (releaseFunc l) = il_waiting l"
  "il_notify (releaseFunc l) = (if il_notify l = None then None else Some (il_fresh l))"
  "il_fresh (releaseFunc l) = (if il_notify l = None then il_fresh l else il_fresh l + 1)"
  by (simp_all add: releaseFunc_def make_channel_def Let_def)

lemma waiter_release_fields [simp]:
  "il_active (waiterReleaseFunc l) = il_active l" "il_waiting (waiterReleaseFunc l) = (if 0 < il_waiting l then il_waiting l - 1 else il_waiting l)"
  "il_notify (waiterReleaseFunc l) = il_notify l" "il_fresh (waiterReleaseFunc l) = il_fresh l"
  by (simp_all add: waiterReleaseFunc_def)

lemma counts_move:
  assumes "limiter_counts n (l, ps)" "p < n" "il_active l' = il_active l - of_bool (ps p = Running) + of_bool (q = Running)"
    "il_waiting l' = il_waiting l - of_bool (queued (ps p)) + of_bool (queued q)"
  shows "limiter_counts n (l', ps(p := q))"
  using assms by (simp add: limiter_counts_def number_in_update)

lemma counted_pid: "limiter_counts n (l, ps) \<Longrightarrow> ps p \<noteq> Finished \<Longrightarrow> p < n"
  unfolding limiter_counts_def by (metis not_le snd_conv)

lemma counted_running: "limiter_counts n (l, ps) \<Longrightarrow> ps p = Running \<Longrightarrow> 0 < il_active l"
  using number_in_pos[of p n "\<lambda>q. q = Running" ps] counted_pid[of n l ps p] by (simp add: limiter_counts_def)

lemma counted_waiting: "limiter_counts n (l, ps) \<Longrightarrow> queued (ps p) \<Longrightarrow> 0 < il_waiting l"
  using number_in_pos[of p n queued ps] counted_pid[of n l ps p] by (cases "ps p") (simp_all add: limiter_counts_def)

lemma step_counts:
  assumes "image_step asks st st'" "limiter_counts n st"
  shows "limiter_counts n st'"
  using assms
proof (induction rule: image_step.induct)
  case (try_step ps p l l' q)
  then show ?case using counted_pid[of n l ps p]
    by (elim try_cases) (auto intro!: counts_move)
next
  case (again_step ps p l)
  then show ?case using counted_pid[of n l ps p] counted_waiting[of n l ps p] by (intro counts_move) simp_all
next
  case (leave_step ps p l)
  then show ?case using counted_pid[of n l ps p] counted_waiting[of n l ps p] by (intro counts_move) simp_all
next
  case (release_step ps p l)
  then show ?case using counted_pid[of n l ps p] counted_running[of n l ps p] by (intro counts_move) simp_all
next
  case (wake_step ps p ch l)
  then show ?case using counted_pid[of n l ps p] by (intro counts_move) simp_all
next
  case (timeout_step ps p ch l)
  then show ?case using counted_pid[of n l ps p] by (intro counts_move) simp_all
qed

lemma step_channels:
  assumes "image_step asks st st'" "limiter_channels st"
  shows "limiter_channels st'"
  using assms
proof (induction rule: image_step.induct)
  case (try_step ps p l l' q)
  note c = try_channel[OF try_step(2)]
  have "ch < il_fresh l'" if "il_notify l' = Some ch" for ch
    using that c try_step(3) by (cases "il_notify l") (fastforce simp: limiter_channels_def)+
  moreover have "il_notify l' = Some ch" if "q = Waiting ch" for ch
    using try_step(2) that by (elim try_cases) auto
  ultimately show ?case
    using c(1,3) try_step(3) by (fastforce simp: limiter_channels_def)
next
  case (release_step ps p l)
  then show ?case by (fastforce simp: limiter_channels_def split: if_splits)
qed (auto simp: limiter_channels_def)


lemma start_counts: "limiter_counts n (zero_limiter, \<lambda>p. if p < n then acquire_start (asks p) else Finished)"
proof -
  have no: "\<not> queued (acquire_start a)" "acquire_start a \<noteq> Running" for a by (simp_all add: acquire_start_def)
  show ?thesis by (simp add: limiter_counts_def zero_limiter_def number_in_def no)
qed

lemma start_channels: "limiter_channels (zero_limiter, \<lambda>p. if p < n then acquire_start (asks p) else Finished)"
  by (auto simp: limiter_channels_def zero_limiter_def acquire_start_def)

lemma reach_counts: "image_reach asks n st \<Longrightarrow> limiter_counts n st"
  by (induction rule: image_reach.induct) (auto intro: start_counts step_counts)

lemma reach_channels: "image_reach asks n st \<Longrightarrow> limiter_channels st"
  by (induction rule: image_reach.induct) (auto intro: start_channels step_channels)

lemma number_in_card: "number_in P n ps = int (card {p. p < n \<and> P (ps p)})"
proof -
  have "{..<n} \<inter> {p. P (ps p)} = {p. p < n \<and> P (ps p)}" by auto
  then show ?thesis by (simp add: number_in_def of_bool_def sum.If_cases)
qed

lemma counts_cards:
  assumes "limiter_counts n (l, ps)"
  shows "il_active l = int (card {p. ps p = Running})" "il_waiting l = int (card {p. queued (ps p)})"
proof -
  have "{p. p < n \<and> ps p = Running} = {p. ps p = Running}" "{p. p < n \<and> queued (ps p)} = {p. queued (ps p)}"
    using counted_pid[OF assms] by (force, metis queued.simps(7))
  then show "il_active l = int (card {p. ps p = Running})" "il_waiting l = int (card {p. queued (ps p)})"
    using assms by (simp_all add: limiter_counts_def number_in_card)
qed

lemma start_zero: "il_active zero_limiter = 0" "il_waiting zero_limiter = 0" by (simp_all add: zero_limiter_def)

lemma step_active:
  assumes "image_step asks st st'" "\<And>p. ask_limit (asks p) \<le> L" "il_active (fst st) \<le> L"
  shows "il_active (fst st') \<le> L"
  using assms
proof (induction rule: image_step.induct)
  case (try_step ps p l l' q)
  have "ask_limit (asks p) \<le> L" by (rule try_step(3))
  then show ?case using try_step(2,4) by (elim try_cases) simp_all
qed (simp_all)

lemma try_queue:
  assumes "acquire_try a l = (l', q)" "0 < ask_maxWaiting a"
  shows "il_waiting l' \<le> max (il_waiting l) (ask_maxWaiting a)"
  using assms by (auto simp: try_defs max_waiting_def split: if_splits)

lemma step_queue:
  assumes "image_step asks st st'" "\<And>p. 0 < ask_maxWaiting (asks p) \<and> ask_maxWaiting (asks p) \<le> W" "il_waiting (fst st) \<le> W"
  shows "il_waiting (fst st') \<le> W"
  using assms
proof (induction rule: image_step.induct)
  case (try_step ps p l l' q)
  show ?case using try_queue[OF try_step(2)] try_step(3)[of p] try_step(4) by (simp add: max_def split: if_splits)
qed (simp_all)

lemma reach_active: "image_reach asks n st \<Longrightarrow> (\<And>p. ask_limit (asks p) \<le> L) \<Longrightarrow> 0 \<le> L \<Longrightarrow> il_active (fst st) \<le> L"
  by (induction rule: image_reach.induct) (simp_all add: start_zero step_active)

lemma reach_queue:
  "image_reach asks n st \<Longrightarrow> (\<And>p. 0 < ask_maxWaiting (asks p) \<and> ask_maxWaiting (asks p) \<le> W) \<Longrightarrow> il_waiting (fst st) \<le> W"
proof (induction rule: image_reach.induct)
  case start
  have "0 \<le> W" using start[of 0] by linarith
  then show ?case by (simp add: start_zero)
next
  case (step st st')
  then show ?case by (meson step_queue)
qed

section \<open>Wake-ups\<close>

text \<open>When all requests come with one limit, whoever waits on a channel that is open waits for a slot in use.\<close>

definition open_is_full :: "int \<Rightarrow> limiter_state \<Rightarrow> bool" where
  "open_is_full L st \<longleftrightarrow> (\<forall>p ch. snd st p = Waiting ch \<and> \<not> closed (fst st) ch \<longrightarrow> L \<le> il_active (fst st))"

lemma step_open:
  assumes "image_step asks st st'" "\<And>p. ask_limit (asks p) = L" "limiter_channels st" "open_is_full L st"
  shows "open_is_full L st'"
  using assms
proof (induction rule: image_step.induct)
  case (try_step ps p l l' q)
  note c = try_channel[OF try_step(2)]
  have "L \<le> il_active l'" if w: "(ps(p := q)) p' = Waiting ch" and o: "il_notify l' = Some ch" for p' ch
  proof (cases "p' = p")
    case True
    then show ?thesis using try_step(2) w try_step(3)[of p] by (elim try_cases) auto
  next
    case False
    then have "ps p' = Waiting ch" using w by simp
    then have "il_notify l = Some ch" using c(2) o try_step(4) by (auto simp: limiter_channels_def)
    then have "L \<le> il_active l" using try_step(5) \<open>ps p' = Waiting ch\<close> by (auto simp: open_is_full_def closed_def)
    then show ?thesis using try_step(2) by (elim try_cases) simp_all
  qed
  then show ?case unfolding open_is_full_def closed_def fst_conv snd_conv by blast
next
  case (release_step ps p l)
  then show ?case by (fastforce simp: open_is_full_def closed_def limiter_channels_def split: if_splits)
qed (auto simp: open_is_full_def closed_def split: if_splits)

lemma reach_open: "image_reach asks n st \<Longrightarrow> (\<And>p. ask_limit (asks p) = L) \<Longrightarrow> open_is_full L st"
proof (induction rule: image_reach.induct)
  case start
  then show ?case by (auto simp: open_is_full_def acquire_start_def)
next
  case (step st st')
  then show ?case by (meson step_open reach_channels)
qed


section \<open>Every run of requests ends\<close>

fun ended :: "place \<Rightarrow> bool" where
  "ended Refused = True" | "ended Finished = True" | "ended Unlimited = True" | "ended _ = False"

text \<open>
  Between two releases a request only moves down these ranks: it is woken at most once, since the
  channel that it takes next stays open until the next release.
\<close>

fun rank :: "imageConcurrencyLimiter \<Rightarrow> place \<Rightarrow> nat" where
  "rank l (Waiting ch) = (if closed l ch then 6 else 3)"
| "rank l Woken = 5" | "rank l Trying = 4" | "rank l OutOfTime = 2" | "rank l Running = 1" | "rank l _ = 0"

definition run_measure :: "nat \<Rightarrow> limiter_state \<Rightarrow> nat \<times> nat" where
  "run_measure n st = (nat (number_in (\<lambda>q. \<not> ended q) n (snd st)), \<Sum>p<n. rank (fst st) (snd st p))"

lemma number_in_nonneg: "0 \<le> number_in P n ps" by (simp add: number_in_card)

lemma rank_falls:
  assumes "p < n" "rank l' q < rank l (ps p)" "\<And>i. i \<noteq> p \<Longrightarrow> rank l' (ps i) \<le> rank l (ps i)" "\<not> ended (ps p)"
  shows "(run_measure n (l', ps(p := q)), run_measure n (l, ps)) \<in> less_than <*lex*> less_than"
proof -
  have "(\<Sum>i<n. rank l' ((ps(p := q)) i)) < (\<Sum>i<n. rank l (ps i))"
    by (rule sum_strict_mono_ex1) (use assms(1-3) in \<open>auto intro!: bexI[of _ p]\<close>)
  moreover have "number_in (\<lambda>q. \<not> ended q) n (ps(p := q)) \<le> number_in (\<lambda>q. \<not> ended q) n ps"
    using assms(1,4) by (simp add: number_in_update)
  ultimately show ?thesis unfolding run_measure_def fst_conv snd_conv in_lex_prod
    using nat_mono by (metis le_neq_implies_less less_than_iff)
qed

lemma live_falls:
  assumes "p < n" "\<not> ended (ps p)" "ended q"
  shows "(run_measure n (l', ps(p := q)), run_measure n (l, ps)) \<in> less_than <*lex*> less_than"
  using assms number_in_pos[of p n "\<lambda>q. \<not> ended q" ps] by (simp add: run_measure_def number_in_update)

lemma step_falls:
  assumes "image_step asks st st'" "limiter_counts n st" "limiter_channels st"
  shows "(run_measure n st', run_measure n st) \<in> less_than <*lex*> less_than"
  using assms
proof (induction rule: image_step.induct)
  case (try_step ps p l l' q)
  note c = try_channel[OF try_step(2)]
  have p: "p < n" using counted_pid[of n l ps p] try_step(1,3) by simp
  have same: "rank l' (ps i) \<le> rank l (ps i)" for i
    using c(2) try_step(4) by (cases "ps i") (simp_all add: closed_def limiter_channels_def)
  have "rank l' q < 4" using try_step(2) by (elim try_cases) (simp_all add: closed_def)
  then show ?case using rank_falls[OF p, of l' q l ps] same try_step(1) by simp
next
  case (again_step ps p l)
  have "rank (waiterReleaseFunc l) (ps i) \<le> rank l (ps i)" for i by (cases "ps i") (simp_all add: closed_def)
  then show ?case using again_step counted_pid[of n l ps p] by (intro rank_falls) simp_all
next
  case (leave_step ps p l)
  then show ?case using counted_pid[of n l ps p] by (intro live_falls) simp_all
next
  case (release_step ps p l)
  then show ?case using counted_pid[of n l ps p] by (intro live_falls) simp_all
next
  case (wake_step ps p ch l)
  then show ?case using counted_pid[of n l ps p] by (intro rank_falls) simp_all
next
  case (timeout_step ps p ch l)
  then show ?case using counted_pid[of n l ps p] by (intro rank_falls) simp_all
qed

lemma reach_step_wf: "wf {(st', st). image_reach asks n st \<and> image_step asks st st'}"
proof (rule wf_subset)
  show "wf (inv_image (less_than <*lex*> less_than) (run_measure n))" by blast
  show "{(st', st). image_reach asks n st \<and> image_step asks st st'} \<subseteq> inv_image (less_than <*lex*> less_than) (run_measure n)"
    using step_falls reach_counts reach_channels by (fastforce simp: inv_image_def)
qed

lemma some_running:
  assumes "limiter_counts n (l, ps)" "0 < il_active l"
  obtains p where "ps p = Running"
  using assms number_in_some[of "\<lambda>q. q = Running" n ps] by (auto simp: limiter_counts_def)

lemma next_step:
  assumes "limiter_counts n (l, ps)" "open_is_full L (l, ps)" "0 < L" "\<not> ended (ps p)"
  shows "\<exists>l' ps'. image_step asks (l, ps) (l', ps') \<and> (\<forall>i. ps' i = OutOfTime \<longrightarrow> ps i = OutOfTime)"
proof (cases "ps p")
  case Trying
  obtain l' q where r: "acquire_try (asks p) l = (l', q)" by fastforce
  then have "q \<noteq> OutOfTime" by (elim try_cases) simp_all
  then show ?thesis using image_step.try_step[of ps p asks l, OF Trying r] by (metis fun_upd_apply)
next
  case (Waiting ch)
  show ?thesis
  proof (cases "closed l ch")
    case True
    then show ?thesis using image_step.wake_step[of ps p, OF Waiting] by (metis fun_upd_apply place.distinct)
  next
    case False
    then have "L \<le> il_active l" using assms(2) Waiting by (auto simp: open_is_full_def)
    then have "0 < il_active l" using assms(3) by linarith
    then obtain i where i: "ps i = Running" by (rule some_running[OF assms(1)])
    show ?thesis using image_step.release_step[of ps i, OF i] by (metis fun_upd_apply place.distinct)
  qed
next
  case Woken
  then show ?thesis using image_step.again_step[of ps p, OF Woken] by (metis fun_upd_apply place.distinct)
next
  case OutOfTime
  then show ?thesis using image_step.leave_step[of ps p, OF OutOfTime] by (metis fun_upd_apply place.distinct)
next
  case Running
  then show ?thesis using image_step.release_step[of ps p, OF Running] by (metis fun_upd_apply place.distinct)
qed (use assms(4) in simp_all)


section \<open>Properties\<close>

text \<open>C27: as long as no request comes with a higher limit than L, the number of image requests that run is
  the active counter and never exceeds L; the waiting counter is the number of requests that wait or are about to
  stop waiting, and when every request brings a queue length between 1 and W it never exceeds W.\<close>

theorem image_limit_kept:
  assumes "image_reach asks n (l, ps)" "\<forall>p. ask_limit (asks p) \<le> L" "0 \<le> L"
    "\<forall>p. 0 < ask_maxWaiting (asks p) \<and> ask_maxWaiting (asks p) \<le> W"
  shows "il_active l = int (card {p. ps p = Running}) \<and> il_active l \<le> L \<and>
    il_waiting l = int (card {p. queued (ps p)}) \<and> il_waiting l \<le> W"
  using counts_cards[OF reach_counts[OF assms(1)]] reach_active[OF assms(1), of L] reach_queue[OF assms(1), of W] assms(2-4)
  by simp

text \<open>C26: requests that all come with one limit run to their ends: every run of the limiter is finite,
  however often waiters are woken and beaten to the slot, and until every request has ended some step
  is possible that is not the end of somebody's time, so no wake-up is lost.\<close>

theorem image_requests_served:
  assumes "\<forall>p. ask_limit (asks p) = L" "0 < L"
  shows "wf {(st', st). image_reach asks n st \<and> image_step asks st st'} \<and>
    (\<forall>l ps p. image_reach asks n (l, ps) \<and> \<not> ended (ps p) \<longrightarrow>
      (\<exists>l' ps'. image_step asks (l, ps) (l', ps') \<and> (\<forall>i. ps' i = OutOfTime \<longrightarrow> ps i = OutOfTime)))"
  using reach_step_wf next_step[OF reach_counts reach_open[of asks n _ L]] assms by auto

section \<open>Runs\<close>

text \<open>Four requests, one slot, one place to wait.\<close>

definition narrow_ask :: ask where
  "narrow_ask = \<lparr>ask_enabled = True, ask_limit = 1, ask_wait = True, ask_timeout = 30, ask_maxWaiting = 1\<rparr>"

definition narrow_limiter :: "nat \<Rightarrow> int \<Rightarrow> int \<Rightarrow> imageConcurrencyLimiter" where
  "narrow_limiter ch a w = \<lparr>il_notify = Some ch, il_fresh = ch + 1, il_limit = 1, il_active = a, il_waiting = w, il_enabled = True\<rparr>"

definition narrow_places :: "place \<Rightarrow> place \<Rightarrow> place \<Rightarrow> place \<Rightarrow> nat \<Rightarrow> place" where
  "narrow_places a b c d = (\<lambda>p. Finished)(0 := a, 1 := b, 2 := c, 3 := d)"

lemma narrow_places_at:
  "narrow_places a b c d 0 = a" "narrow_places a b c d (Suc 0) = b" "narrow_places a b c d 2 = c" "narrow_places a b c d 3 = d"
  "(narrow_places a b c d)(0 := e) = narrow_places e b c d" "(narrow_places a b c d)(Suc 0 := e) = narrow_places a e c d"
  "(narrow_places a b c d)(2 := e) = narrow_places a b e d" "(narrow_places a b c d)(3 := e) = narrow_places a b c e"
  by (auto simp: narrow_places_def fun_eq_iff)

lemma narrow_start: "image_reach (\<lambda>p. narrow_ask) 4 (zero_limiter, narrow_places Trying Trying Trying Trying)"
proof -
  have "(\<lambda>p. if p < 4 then acquire_start narrow_ask else Finished) = narrow_places Trying Trying Trying Trying"
    by (auto simp: fun_eq_iff narrow_places_def acquire_start_def narrow_ask_def numeral_eq_Suc less_Suc_eq)
  then show ?thesis using image_reach.start[of "\<lambda>p. narrow_ask" 4] by simp
qed

lemma narrow_first_try: "acquire_try narrow_ask zero_limiter = (narrow_limiter 0 1 0, Running)" by code_simp

lemma narrow_try:
  "acquire_try narrow_ask (narrow_limiter ch a w) =
     (if a < 1 then (narrow_limiter ch (a + 1) w, Running)
      else if 1 \<le> w then (narrow_limiter ch a w, Refused) else (narrow_limiter ch a (w + 1), Waiting ch))"
  by (simp add: try_defs narrow_ask_def narrow_limiter_def max_waiting_def)

lemma narrow_release:
  "releaseFunc (narrow_limiter ch a w) = narrow_limiter (ch + 1) (if 0 < a then a - 1 else a) w"
  "waiterReleaseFunc (narrow_limiter ch a w) = narrow_limiter ch a (if 0 < w then w - 1 else w)"
  by (simp_all add: releaseFunc_def waiterReleaseFunc_def make_channel_def narrow_limiter_def)

text \<open>Request 0 runs, request 1 waits; 0 releases and 1 is woken; then 2 takes the slot and 3 the place.\<close>

lemma narrow_waits: "image_reach (\<lambda>p. narrow_ask) 4 (narrow_limiter 0 1 1, narrow_places Running (Waiting 0) Trying Trying)"
proof -
  note s = image_reach.step[OF _ image_step.try_step]
  have "image_reach (\<lambda>p. narrow_ask) 4 (narrow_limiter 0 1 0, narrow_places Running Trying Trying Trying)"
    using s[OF narrow_start, of 0] by (simp add: narrow_places_at narrow_first_try)
  from s[OF this, of 1] show ?thesis by (simp add: narrow_places_at narrow_try)
qed

lemma narrow_run:
  "rtranclp (image_step (\<lambda>p. narrow_ask)) (narrow_limiter 0 1 1, narrow_places Running (Waiting 0) Trying Trying)
     (narrow_limiter 1 1 1, narrow_places Finished Trying Running (Waiting 1))"
proof -
  let ?step = "image_step (\<lambda>p. narrow_ask)"
  have s1: "?step (narrow_limiter 0 1 1, narrow_places Running (Waiting 0) Trying Trying)
      (narrow_limiter 1 0 1, narrow_places Finished (Waiting 0) Trying Trying)"
    using image_step.release_step[of "narrow_places Running (Waiting 0) Trying Trying" 0 _ "narrow_limiter 0 1 1"]
    by (simp add: narrow_places_at narrow_release)
  have s2: "?step (narrow_limiter 1 0 1, narrow_places Finished (Waiting 0) Trying Trying)
      (narrow_limiter 1 0 1, narrow_places Finished Woken Trying Trying)"
    using image_step.wake_step[of "narrow_places Finished (Waiting 0) Trying Trying" 1 0 "narrow_limiter 1 0 1"]
    by (simp add: narrow_places_at narrow_limiter_def closed_def)
  have s3: "?step (narrow_limiter 1 0 1, narrow_places Finished Woken Trying Trying)
      (narrow_limiter 1 0 0, narrow_places Finished Trying Trying Trying)"
    using image_step.again_step[of "narrow_places Finished Woken Trying Trying" 1 _ "narrow_limiter 1 0 1"]
    by (simp add: narrow_places_at narrow_release)
  have s4: "?step (narrow_limiter 1 0 0, narrow_places Finished Trying Trying Trying)
      (narrow_limiter 1 1 0, narrow_places Finished Trying Running Trying)"
    using image_step.try_step[of "narrow_places Finished Trying Trying Trying" 2 "\<lambda>p. narrow_ask" "narrow_limiter 1 0 0"]
    by (simp add: narrow_places_at narrow_try)
  have s5: "?step (narrow_limiter 1 1 0, narrow_places Finished Trying Running Trying)
      (narrow_limiter 1 1 1, narrow_places Finished Trying Running (Waiting 1))"
    using image_step.try_step[of "narrow_places Finished Trying Running Trying" 3 "\<lambda>p. narrow_ask" "narrow_limiter 1 1 0"]
    by (simp add: narrow_places_at narrow_try)
  show ?thesis
    by (rule rtranclp.rtrancl_into_rtrancl[of ?step, OF _ s5], rule rtranclp.rtrancl_into_rtrancl[of ?step, OF _ s4], rule rtranclp.rtrancl_into_rtrancl[of ?step, OF _ s3],
        rule rtranclp.rtrancl_into_rtrancl[of ?step, OF _ s2], rule r_into_rtranclp, rule s1)
qed

lemma reach_run: "rtranclp (image_step asks) st st' \<Longrightarrow> image_reach asks n st \<Longrightarrow> image_reach asks n st'"
  by (induction rule: rtranclp_induct) (auto intro: image_reach.step)

lemma narrow_overtaken: "image_reach (\<lambda>p. narrow_ask) 4 (narrow_limiter 1 1 1, narrow_places Finished Trying Running (Waiting 1))"
  by (rule reach_run[OF narrow_run narrow_waits])

text \<open>C40: a waiter loses its place by being woken: with one slot and one place to wait, a request that waits for
  the slot can be woken, with time left, into a state where a later request has taken the slot and another one, later
  still, the place; its next try is refused at once as if the queue had been full when it came.\<close>

theorem woken_waiter_refused:
  "\<exists>l l'. image_reach (\<lambda>p. narrow_ask) 4 (l, narrow_places Running (Waiting 0) Trying Trying) \<and>
    rtranclp (image_step (\<lambda>p. narrow_ask)) (l, narrow_places Running (Waiting 0) Trying Trying)
      (l', narrow_places Finished Trying Running (Waiting 1)) \<and>
    acquire_try narrow_ask l' = (l', Refused)"
proof -
  have "acquire_try narrow_ask (narrow_limiter 1 1 1) = (narrow_limiter 1 1 1, Refused)" by (simp add: narrow_try)
  then show ?thesis using narrow_waits narrow_run by blast
qed

theorem image_limit_kept_witness:
  "il_active (narrow_limiter 1 1 1) = int (card {p. narrow_places Finished Trying Running (Waiting 1) p = Running}) \<and>
    il_waiting (narrow_limiter 1 1 1) \<le> 1"
  using image_limit_kept[OF narrow_overtaken, of 1 1] by (simp add: narrow_ask_def)

theorem image_requests_served_witness:
  "\<exists>l' ps'. image_step (\<lambda>p. narrow_ask) (narrow_limiter 1 1 1, narrow_places Finished Trying Running (Waiting 1)) (l', ps') \<and>
    ps' 3 \<noteq> OutOfTime"
proof -
  let ?ps = "narrow_places Finished Trying Running (Waiting 1)"
  have "\<not> ended (?ps 3)" by (simp add: narrow_places_at)
  moreover have "\<forall>p::nat. ask_limit narrow_ask = 1" by (simp add: narrow_ask_def)
  note image_requests_served[of "\<lambda>p. narrow_ask", OF this zero_less_one, of 4, THEN conjunct2, rule_format, of "narrow_limiter 1 1 1" ?ps 3]
  ultimately obtain l' ps' where s: "image_step (\<lambda>p. narrow_ask) (narrow_limiter 1 1 1, ?ps) (l', ps')"
    "\<forall>i. ps' i = OutOfTime \<longrightarrow> ?ps i = OutOfTime"
    using narrow_overtaken by blast
  moreover have "?ps 3 \<noteq> OutOfTime" by (simp add: narrow_places_at)
  ultimately show ?thesis by blast
qed

end
