(* ===== verification/Spec2Isabelle.thy ===== *)
theory Spec2Isabelle
  imports Oidc_Login_Guard Invalid_Auth_Abuse Proxy_Stream_Circuit Failover_Loop
    Admin_Permission_Store Admin_Request_Guard Idempotency_Replay System_Operation_Lock Compat_Roundtrip Concurrency_Service Keyword_Correct
    Selection_Slots Session_Limit User_Msg_Queue Image_Limiter
begin

text \<open>
  A verification library for the core of the gateway (Go code under \<open>src/backend/internal\<close>).

  The program is a gateway between clients and accounts at providers of language models. A request is
  authenticated, guarded against abuse, bound to an account by the scheduler, held back by concurrency
  limits, forwarded with retries on other accounts, and its answer is rewritten into the dialect of the
  client. Around it stand the administration, with grants per administrator, and operations that must
  not happen twice.

  \<^bold>\<open>Theories and what they model\<close>

  \<^item> \<open>Gateway_Prelude\<close>: integers of 64 bits, instants and durations, association lists as Go maps, texts
    as lists of bytes, calls that fail before or after they take effect (\<open>fault\<close>).
  \<^item> \<open>Attempt_Guard\<close>, \<open>Oidc_Login_Guard\<close>, \<open>Invalid_Auth_Abuse\<close>: the guards against guessing
    (service/oidc_login_guard.go, service/invalid_auth_abuse_limiter.go). The first theory is the locale
    of a guard with a bounded store; both guards interpret it.
  \<^item> \<open>Proxy_Stream_Circuit\<close>: the circuit that quarantines proxies whose streams break
    (service/openai_proxy_stream_circuit.go).
  \<^item> \<open>Failover_Loop\<close>: the decision after every failed attempt (handler/failover_loop.go).
  \<^item> \<open>Admin_Permissions\<close>, \<open>Admin_Permission_Store\<close>, \<open>Admin_Request_Guard\<close>: catalogue and evaluation
    of grants, their repository and the authorization of mutations, and the middleware before the
    handlers (service/admin_permissions.go, repository/admin_permission_repo.go,
    repository/admin_mutation_authorization.go, server/middleware/admin_permissions.go).
  \<^item> \<open>Idempotency_Store\<close>, \<open>Idempotency\<close>, \<open>Idempotency_Races\<close>, \<open>Idempotency_Replay\<close>, \<open>System_Operation_Lock\<close>:
    records of requests with an idempotency key, the coordinator over them, its steps interleaved with
    those of other requests, what a stored response is good for in any interleaving, and the lock of
    system operations on the same table (repository/idempotency_repo.go,
    service/idempotency.go, service/system_operation_lock_service.go).
  \<^item> \<open>Compat_Types\<close>, \<open>Anthropic_Responses\<close>, \<open>Responses_Anthropic\<close>, \<open>Responses_Client\<close>,
    \<open>Compat_Roundtrip\<close>: answers and event streams converted between the Anthropic and the Responses API
    (pkg/apicompat), what the client at the other end reads, and their composition.
  \<^item> \<open>Redis_Store\<close>, \<open>Concurrency_Cache\<close>, \<open>Concurrency_Limit\<close>, \<open>Concurrency_Waiting\<close>,
    \<open>Concurrency_Service\<close>: the Redis commands in use, the scripts and operations of
    repository/concurrency_cache.go, their round trips interleaved, and the service over them
    (service/concurrency_service.go) with the locale of a provider of slots, interpreted by the cache.
  \<^item> \<open>Suffix_Automaton\<close>, \<open>Keyword_Matcher\<close>, \<open>Keyword_Trie\<close>, \<open>Keyword_Links\<close>, \<open>Keyword_Correct\<close>: the
    matcher of blocked keywords (service/content_moderation_keyword_matcher.go).
  \<^item> \<open>Account_Order\<close>, \<open>Account_Selection\<close>, \<open>Selection_Slots\<close>: the load-aware scheduler
    (service/gateway_scheduling.go): its filters and sorts, the layers of a selection over a record of
    ports, and the locale of these ports, interpreted by the concurrency service on Redis.
  \<^item> \<open>Session_Limit\<close>, \<open>User_Msg_Queue\<close>, \<open>Image_Limiter\<close>: the limit of sessions per account
    (repository/session_limit_cache.go); the serial queue of user messages, a lock per account with its
    waiting requests (repository/user_msg_queue_cache.go, service/user_msg_queue_service.go,
    handler/user_msg_queue_helper.go); and the limiter of image requests within one process
    (handler/image_concurrency_limiter.go), a step relation over its critical sections.

  State is passed explicitly: a record per Go struct, and operations return the new state with their
  answer. Errors are values of a sum, an option or a datatype. Random choices, clocks, digests, lower
  casing and the answers of upstreams are arguments of the definitions that use them.

  \<^bold>\<open>What the lemmas show\<close>

  \<^item> Guards: the stores stay bounded and exact, the threshold locks, successes reset.
  \<^item> Administration: a change needs the privilege that covers it, denials win, super administrators are
    protected, a stale administrator cannot write, a key reaches only the routes it was granted.
  \<^item> Idempotency: until the record expires every retry replays the stored response, unless a request that
    found the record expired earlier still reclaims it; an overtaken claim is rejected, the lock is granted
    only when free, in every interleaving of single statements; and where a reclaim repeats the business.
  \<^item> Converters: the event protocols hold on every stream, the client assembles what the upstream said,
    streamed and whole conversions agree where texts end the message or precede calls, and the two
    directions together give back texts, thoughts and tool calls.
  \<^item> Concurrency: slots stay within the limit in every interleaving of round trips, refine the abstract
    holdings, as long as no second process frees them at its start; wait counts stay in their bounds, and
    the requests of the service that are younger than the lifetime of a slot are within the limit although
    round trips fail and other processes share the accounts.
  \<^item> Keywords: the automaton finds the keyword that the routine trying every keyword finds.
  \<^item> Scheduler: the layered filters choose by one lexicographic order, the sorts are sorted permutations,
    a selected account is eligible, and no selection leaves a slot behind when Redis answers and the
    account can be loaded; an account that cannot be loaded keeps its slot.
  \<^item> Queues: the session cache keeps its limit and answers as the contract over last activities says, when the
    calls for an account share an idle timeout and no refresh revives an idle session; one
    request per account holds the lock of the message queue, and none after giving up if Redis answers; the image limiter
    keeps its limit, loses no wake-up and every run of it ends.

  \<^bold>\<open>Bounds and fuel\<close>

  Loops are structural or have a measure, with these exceptions. The executor of the idempotency
  coordinator runs for 7 steps, enough because no request takes more (\<open>executor_returns\<close>). The loop of
  the load-aware layer has the number of available accounts as its fuel; every round removes the account
  it tried. The failure links and siblings of the keyword matcher are followed with the number of nodes
  and edges as fuel; \<open>Keyword_Links\<close> shows that the links end earlier. Request counters are words of 64
  bits; the theorems on ids ask for fewer requests than that.

  \<^bold>\<open>Not modelled\<close>

  Forwarding over HTTP and WebSocket, the pools of connections and the conversion of requests (documents
  of third-party services); billing, ledgers, payments and check-in rewards (float64 amounts in database
  transactions); the generated database code; login protocols of third parties; metrics, mails, settings
  and wiring. Of the modelled parts: tickers and goroutines are steps taken at arbitrary moments, log
  lines and metrics are dropped, and in the scheduler the resolution of groups, the listing of accounts
  and the path without load batches are arguments or left out;
  window costs and delays by load (floating point) are left out or arguments, and so is the recognition
  of real user messages (documents of the client).
\<close>

end
